(* ===== verification/Prelude.thy ===== *)
theory Prelude
  imports Main "HOL-Library.Word" "HOL-Library.Sublist" "HOL-Library.Char_ord"
    "HOL-Library.List_Lexorder"
begin

text \<open>
  Shared material of the ferret development: machine integers and byte strings, the
  outcome of a fallible operation, checked slices, little-endian integers, ASCII classes, the
  parts of the Rust standard library the components use on vectors and hash maps
  (\<open>dedup_by_key\<close>, \<open>entry(k).or_default().push(v)\<close>, \<open>collect::<Result<Vec<_>>>\<close>), and the
  lemma collections the component theories pass to the simplifier:
  \<^item> \<open>outcome_simps\<close>: sequencing of fallible steps;
  \<^item> \<open>le_simps\<close>: lengths and round trips of little-endian integers.
\<close>

named_theorems outcome_simps
named_theorems le_simps

section \<open>Machine integers and byte strings\<close>

type_synonym u8 = char
type_synonym u16 = "16 word"
type_synonym u32 = "32 word"
type_synonym u64 = "64 word"
type_synonym bytes = "u8 list"

text \<open>
  A byte is a \<open>char\<close>, HOL's type of the 256 byte values, so that a Rust string literal is
  written as it is in the source; \<open>byte_val\<close> reads its number. A Rust \<open>String\<close> or \<open>&str\<close> is
  its UTF-8 byte sequence. \<open>usize\<close> values are lengths and
  positions of vectors in memory and are modelled as \<open>nat\<close>.
\<close>

type_synonym text_utf8 = bytes

abbreviation byte_val :: "u8 \<Rightarrow> nat" where
  "byte_val b \<equiv> of_char b"

abbreviation byte_of :: "nat \<Rightarrow> u8" where
  "byte_of n \<equiv> char_of n"

lemma byte_val_less [simp]: "byte_val b < 256"
  using of_char_mod_256 [of b, where 'a = nat] by (metis mod_less_divisor zero_less_numeral)

lemma byte_val_inject: "byte_val a = byte_val b \<longleftrightarrow> a = b"
  by simp

abbreviation u32_max :: nat where
  "u32_max \<equiv> 4294967295"

lemma unat_u32_le [simp]: "unat (w :: u32) \<le> u32_max"
  using unsigned_less [where 'a = nat, of w] by simp

lemma unat_u32_less [simp]: "unat (w :: u32) < 4294967296"
  using unsigned_less [where 'a = nat, of w] by simp

text \<open>\<open>u32::try_from(n : usize)\<close>: fails when the value does not fit.\<close>

definition try_u32 :: "nat \<Rightarrow> u32 option" where
  "try_u32 n = (if n \<le> u32_max then Some (of_nat n) else None)"

lemma try_u32_Some: "try_u32 n = Some w \<Longrightarrow> unat w = n"
  by (auto simp: try_u32_def unat_of_nat split: if_splits)

lemma try_u32_le [simp]: "n \<le> u32_max \<Longrightarrow> try_u32 n = Some (of_nat n)"
  by (simp add: try_u32_def)

lemma unat_of_nat_u32 [simp]: "n \<le> u32_max \<Longrightarrow> unat (of_nat n :: u32) = n"
  by (simp add: unat_of_nat)

text \<open>\<open>u32::saturating_add\<close>.\<close>

definition saturating_add :: "u32 \<Rightarrow> u32 \<Rightarrow> u32" where
  "saturating_add a b = (if unat a + unat b \<le> u32_max then a + b else of_nat u32_max)"

lemma saturating_add_diff: "a \<le> b \<Longrightarrow> saturating_add a (b - a) = b"
proof -
  assume "a \<le> b"
  then have "unat a + unat (b - a) = unat b"
    by (simp add: unat_sub word_le_nat_alt)
  then have "unat a + unat (b - a) \<le> u32_max"
    by simp
  then show ?thesis
    by (simp add: saturating_add_def)
qed

lemma saturating_add_ge: "a \<le> saturating_add a b"
proof (cases "unat a + unat b \<le> u32_max")
  case True
  then have "unat (a + b) = unat a + unat b"
    by (simp add: unat_word_ariths)
  with True show ?thesis
    by (simp add: saturating_add_def word_le_nat_alt)
next
  case False
  then show ?thesis
    by (simp add: saturating_add_def word_le_nat_alt)
qed

section \<open>Outcomes\<close>

text \<open>
  A fallible operation returns \<open>Inl\<close> of an error or \<open>Inr\<close> of its value; \<open>obind\<close> is Rust's
  \<open>?\<close> operator.
\<close>

definition obind :: "'e + 'a \<Rightarrow> ('a \<Rightarrow> 'e + 'b) \<Rightarrow> 'e + 'b" where
  "obind r f = (case r of Inl e \<Rightarrow> Inl e | Inr x \<Rightarrow> f x)"

lemma obind_Inl [simp, outcome_simps]: "obind (Inl e) f = Inl e"
  by (simp add: obind_def)

lemma obind_Inr [simp, outcome_simps]: "obind (Inr x) f = f x"
  by (simp add: obind_def)

lemma obind_eq_Inr [outcome_simps]: "obind r f = Inr y \<longleftrightarrow> (\<exists>x. r = Inr x \<and> f x = Inr y)"
  by (cases r) auto

definition of_option :: "'e \<Rightarrow> 'a option \<Rightarrow> 'e + 'a" where
  "of_option e x = (case x of None \<Rightarrow> Inl e | Some y \<Rightarrow> Inr y)"

lemma of_option_simps [simp, outcome_simps]:
  "of_option e None = Inl e" "of_option e (Some y) = Inr y"
  by (simp_all add: of_option_def)

lemma of_option_eq_Inr [outcome_simps]: "of_option e x = Inr y \<longleftrightarrow> x = Some y"
  by (cases x) auto

text \<open>\<open>iter.map(f).collect::<Result<Vec<_>, _>>()\<close>: the first error wins.\<close>

fun collect_results :: "('a \<Rightarrow> 'e + 'b) \<Rightarrow> 'a list \<Rightarrow> 'e + 'b list" where
  "collect_results f [] = Inr []"
| "collect_results f (x # xs) =
     obind (f x) (\<lambda>y. obind (collect_results f xs) (\<lambda>ys. Inr (y # ys)))"

lemma collect_results_map:
  "(\<And>x. x \<in> set xs \<Longrightarrow> f x = Inr (g x)) \<Longrightarrow> collect_results f xs = Inr (map g xs)"
  by (induction xs) auto

lemma collect_results_comp: "collect_results f (map g xs) = collect_results (\<lambda>x. f (g x)) xs"
  by (induction xs) simp_all

lemma collect_results_Inr_nth:
  "collect_results f xs = Inr ys \<Longrightarrow>
     length ys = length xs \<and> (\<forall>i < length xs. f (xs ! i) = Inr (ys ! i))"
proof (induction xs arbitrary: ys)
  case Nil
  then show ?case by simp
next
  case (Cons x xs)
  then show ?case
    by (fastforce simp: obind_eq_Inr nth_Cons split: nat.splits)
qed

lemma collect_results_Inl:
  "collect_results f xs = Inl e \<Longrightarrow> \<exists>x \<in> set xs. f x = Inl e"
proof (induction xs)
  case Nil
  then show ?case by simp
next
  case (Cons x xs)
  then show ?case
    by (cases "f x"; cases "collect_results f xs") auto
qed

section \<open>Slices and little-endian integers\<close>

text \<open>\<open>&xs[a..b]\<close>; the fallible form panics outside the bounds.\<close>

definition slice :: "nat \<Rightarrow> nat \<Rightarrow> 'a list \<Rightarrow> 'a list" where
  "slice a b xs = take (b - a) (drop a xs)"

definition slice_ok :: "nat \<Rightarrow> nat \<Rightarrow> 'a list \<Rightarrow> bool" where
  "slice_ok a b xs \<longleftrightarrow> a \<le> b \<and> b \<le> length xs"

lemma length_slice [simp]: "length (slice a b xs) = min (b - a) (length xs - a)"
  by (simp add: slice_def)

lemma slice_append_left: "b \<le> length xs \<Longrightarrow> slice a b (xs @ ys) = slice a b xs"
  by (cases "a \<le> b") (simp_all add: slice_def)

lemma slice_append_right:
  "length xs \<le> a \<Longrightarrow> slice a b (xs @ ys) = slice (a - length xs) (b - length xs) ys"
  by (simp add: slice_def)

lemma slice_mid: "a = length xs \<Longrightarrow> b = a + length ys \<Longrightarrow> slice a b (xs @ ys @ zs) = ys"
  by (simp add: slice_def)

lemma slice_all: "length xs \<le> b \<Longrightarrow> slice 0 b xs = xs"
  by (simp add: slice_def)

lemma slice_slice: "b \<le> d - c \<Longrightarrow> slice a b (slice c d xs) = slice (c + a) (c + b) xs"
  by (simp add: slice_def drop_take min_absorb1 add.commute)

text \<open>Where the \<open>i\<close>-th of consecutive blocks starts, and reading that block back.\<close>

definition offset_of :: "'a list list \<Rightarrow> nat \<Rightarrow> nat" where
  "offset_of xs i = length (concat (take i xs))"

lemma offset_of_0 [simp]: "offset_of xs 0 = 0"
  by (simp add: offset_of_def)

lemma offset_of_Suc: "i < length xs \<Longrightarrow> offset_of xs (Suc i) = offset_of xs i + length (xs ! i)"
  by (simp add: offset_of_def take_Suc_conv_app_nth)

lemma offset_of_length [simp]: "offset_of xs (length xs) = length (concat xs)"
  by (simp add: offset_of_def)

lemma offset_of_Cons [simp]: "offset_of (x # xs) (Suc i) = length x + offset_of xs i"
  by (simp add: offset_of_def)

lemma offset_of_mono: "i \<le> j \<Longrightarrow> offset_of xs i \<le> offset_of xs j"
proof (induction j)
  case 0
  then show ?case by simp
next
  case (Suc j)
  have "offset_of xs j \<le> offset_of xs (Suc j)"
    by (cases "j < length xs") (simp_all add: offset_of_Suc, simp add: offset_of_def)
  with Suc show ?case by (cases "i = Suc j") auto
qed

lemma offset_of_le_concat: "offset_of xs i \<le> length (concat xs)"
proof (cases "i \<le> length xs")
  case True
  then show ?thesis using offset_of_mono [of i "length xs" xs] by simp
next
  case False
  then show ?thesis by (simp add: offset_of_def)
qed

lemma offset_of_uniform:
  assumes "\<forall>x \<in> set xs. length x = k" and "i \<le> length xs"
  shows "offset_of xs i = i * k"
  using assms(2)
proof (induction i)
  case 0
  then show ?case by simp
next
  case (Suc i)
  then have "length (xs ! i) = k" using assms(1) by simp
  with Suc show ?case by (simp add: offset_of_Suc)
qed

lemma slice_concat:
  assumes "i < length xs" and "a = length pre + offset_of xs i"
    and "b = length pre + offset_of xs (Suc i)"
  shows "slice a b (pre @ concat xs @ post) = xs ! i"
proof -
  have "concat xs = concat (take i xs) @ xs ! i @ concat (drop (Suc i) xs)"
    using id_take_nth_drop [OF assms(1)] by (metis concat.simps(2) concat_append)
  then have "pre @ concat xs @ post
      = (pre @ concat (take i xs)) @ xs ! i @ (concat (drop (Suc i) xs) @ post)"
    by simp
  moreover have "a = length (pre @ concat (take i xs))"
    using assms(2) by (simp add: offset_of_def)
  moreover have "b = a + length (xs ! i)"
    using assms by (simp add: offset_of_Suc)
  ultimately show ?thesis
    by (simp only: slice_mid)
qed

fun le_bytes :: "nat \<Rightarrow> nat \<Rightarrow> bytes" where
  "le_bytes 0 n = []"
| "le_bytes (Suc k) n = byte_of (n mod 256) # le_bytes k (n div 256)"

fun le_nat :: "bytes \<Rightarrow> nat" where
  "le_nat [] = 0"
| "le_nat (b # bs) = byte_val b + 256 * le_nat bs"

lemma length_le_bytes [simp, le_simps]: "length (le_bytes k n) = k"
  by (induction k arbitrary: n) auto

lemma le_nat_le_bytes: "le_nat (le_bytes k n) = n mod 256 ^ k"
proof (induction k arbitrary: n)
  case 0
  then show ?case by simp
next
  case (Suc k)
  have "le_nat (le_bytes (Suc k) n) = n mod 256 + 256 * (n div 256 mod 256 ^ k)"
    by (simp add: Suc.IH)
  also have "\<dots> = n mod (256 * 256 ^ k)"
    by (simp add: mod_mult2_eq)
  finally show ?case by simp
qed

lemma le_nat_bound: "le_nat bs < 256 ^ length bs"
proof (induction bs)
  case Nil
  then show ?case by simp
next
  case (Cons b bs)
  have step: "a + 256 * l < 256 * p" if "l < p" and "a < 256" for a l p :: nat
    using that by linarith
  from step [OF Cons.IH byte_val_less [of b]] show ?case by simp
qed

text \<open>\<open>to_le_bytes\<close> and \<open>from_le_bytes\<close> of the unsigned integer types.\<close>

definition u16_le :: "u16 \<Rightarrow> bytes" where "u16_le w = le_bytes 2 (unat w)"
definition u32_le :: "u32 \<Rightarrow> bytes" where "u32_le w = le_bytes 4 (unat w)"
definition u64_le :: "u64 \<Rightarrow> bytes" where "u64_le w = le_bytes 8 (unat w)"

definition le_u16 :: "bytes \<Rightarrow> u16" where "le_u16 bs = of_nat (le_nat bs)"
definition le_u32 :: "bytes \<Rightarrow> u32" where "le_u32 bs = of_nat (le_nat bs)"
definition le_u64 :: "bytes \<Rightarrow> u64" where "le_u64 bs = of_nat (le_nat bs)"

lemma length_u16_le [simp, le_simps]: "length (u16_le w) = 2"
  by (simp add: u16_le_def)

lemma length_u32_le [simp, le_simps]: "length (u32_le w) = 4"
  by (simp add: u32_le_def)

lemma length_u64_le [simp, le_simps]: "length (u64_le w) = 8"
  by (simp add: u64_le_def)

lemma le_u16_u16_le [simp, le_simps]: "le_u16 (u16_le w) = w"
  using unsigned_less [where 'a = nat, of w] by (simp add: le_u16_def u16_le_def le_nat_le_bytes)

lemma le_u32_u32_le [simp, le_simps]: "le_u32 (u32_le w) = w"
  using unsigned_less [where 'a = nat, of w] by (simp add: le_u32_def u32_le_def le_nat_le_bytes)

lemma le_u64_u64_le [simp, le_simps]: "le_u64 (u64_le w) = w"
  using unsigned_less [where 'a = nat, of w] by (simp add: le_u64_def u64_le_def le_nat_le_bytes)

section \<open>ASCII classes\<close>

text \<open>\<open>u8::is_ascii_whitespace\<close>: space, tab, line feed, form feed, carriage return.\<close>

definition is_ascii_whitespace :: "u8 \<Rightarrow> bool" where
  "is_ascii_whitespace b \<longleftrightarrow>
     b = CHR 0x20 \<or> b = CHR 0x09 \<or> b = CHR 0x0A \<or> b = CHR 0x0C \<or> b = CHR 0x0D"

definition is_ascii_uppercase :: "u8 \<Rightarrow> bool" where
  "is_ascii_uppercase b \<longleftrightarrow> 65 \<le> byte_val b \<and> byte_val b \<le> 90"

definition to_ascii_lowercase :: "u8 \<Rightarrow> u8" where
  "to_ascii_lowercase b = (if is_ascii_uppercase b then byte_of (byte_val b + 32) else b)"

lemma to_ascii_lowercase_idem [simp]:
  "to_ascii_lowercase (to_ascii_lowercase b) = to_ascii_lowercase b"
  by (simp add: to_ascii_lowercase_def is_ascii_uppercase_def)

text \<open>The letters, evaluated once, so that closed text folds by rewriting.\<close>

lemma to_ascii_lowercase_eval [simp]:
  "to_ascii_lowercase (CHR ''A'') = CHR ''a''" "to_ascii_lowercase (CHR ''B'') = CHR ''b''"
  "to_ascii_lowercase (CHR ''C'') = CHR ''c''" "to_ascii_lowercase (CHR ''D'') = CHR ''d''"
  "to_ascii_lowercase (CHR ''E'') = CHR ''e''" "to_ascii_lowercase (CHR ''F'') = CHR ''f''"
  "to_ascii_lowercase (CHR ''G'') = CHR ''g''" "to_ascii_lowercase (CHR ''H'') = CHR ''h''"
  "to_ascii_lowercase (CHR ''I'') = CHR ''i''" "to_ascii_lowercase (CHR ''J'') = CHR ''j''"
  "to_ascii_lowercase (CHR ''K'') = CHR ''k''" "to_ascii_lowercase (CHR ''L'') = CHR ''l''"
  "to_ascii_lowercase (CHR ''M'') = CHR ''m''" "to_ascii_lowercase (CHR ''N'') = CHR ''n''"
  "to_ascii_lowercase (CHR ''O'') = CHR ''o''" "to_ascii_lowercase (CHR ''P'') = CHR ''p''"
  "to_ascii_lowercase (CHR ''Q'') = CHR ''q''" "to_ascii_lowercase (CHR ''R'') = CHR ''r''"
  "to_ascii_lowercase (CHR ''S'') = CHR ''s''" "to_ascii_lowercase (CHR ''T'') = CHR ''t''"
  "to_ascii_lowercase (CHR ''U'') = CHR ''u''" "to_ascii_lowercase (CHR ''V'') = CHR ''v''"
  "to_ascii_lowercase (CHR ''W'') = CHR ''w''" "to_ascii_lowercase (CHR ''X'') = CHR ''x''"
  "to_ascii_lowercase (CHR ''Y'') = CHR ''y''" "to_ascii_lowercase (CHR ''Z'') = CHR ''z''"
  "to_ascii_lowercase (CHR ''a'') = CHR ''a''" "to_ascii_lowercase (CHR ''b'') = CHR ''b''"
  "to_ascii_lowercase (CHR ''c'') = CHR ''c''" "to_ascii_lowercase (CHR ''d'') = CHR ''d''"
  "to_ascii_lowercase (CHR ''e'') = CHR ''e''" "to_ascii_lowercase (CHR ''f'') = CHR ''f''"
  "to_ascii_lowercase (CHR ''g'') = CHR ''g''" "to_ascii_lowercase (CHR ''h'') = CHR ''h''"
  "to_ascii_lowercase (CHR ''i'') = CHR ''i''" "to_ascii_lowercase (CHR ''j'') = CHR ''j''"
  "to_ascii_lowercase (CHR ''k'') = CHR ''k''" "to_ascii_lowercase (CHR ''l'') = CHR ''l''"
  "to_ascii_lowercase (CHR ''m'') = CHR ''m''" "to_ascii_lowercase (CHR ''n'') = CHR ''n''"
  "to_ascii_lowercase (CHR ''o'') = CHR ''o''" "to_ascii_lowercase (CHR ''p'') = CHR ''p''"
  "to_ascii_lowercase (CHR ''q'') = CHR ''q''" "to_ascii_lowercase (CHR ''r'') = CHR ''r''"
  "to_ascii_lowercase (CHR ''s'') = CHR ''s''" "to_ascii_lowercase (CHR ''t'') = CHR ''t''"
  "to_ascii_lowercase (CHR ''u'') = CHR ''u''" "to_ascii_lowercase (CHR ''v'') = CHR ''v''"
  "to_ascii_lowercase (CHR ''w'') = CHR ''w''" "to_ascii_lowercase (CHR ''x'') = CHR ''x''"
  "to_ascii_lowercase (CHR ''y'') = CHR ''y''" "to_ascii_lowercase (CHR ''z'') = CHR ''z''"
  "to_ascii_lowercase (CHR ''0'') = CHR ''0''" "to_ascii_lowercase (CHR ''1'') = CHR ''1''"
  "to_ascii_lowercase (CHR ''2'') = CHR ''2''" "to_ascii_lowercase (CHR ''3'') = CHR ''3''"
  "to_ascii_lowercase (CHR ''4'') = CHR ''4''" "to_ascii_lowercase (CHR ''5'') = CHR ''5''"
  "to_ascii_lowercase (CHR ''6'') = CHR ''6''" "to_ascii_lowercase (CHR ''7'') = CHR ''7''"
  "to_ascii_lowercase (CHR ''8'') = CHR ''8''" "to_ascii_lowercase (CHR ''9'') = CHR ''9''"
  "to_ascii_lowercase (CHR '' '') = CHR '' ''" "to_ascii_lowercase (CHR ''+'') = CHR ''+''"
  "to_ascii_lowercase (CHR ''#'') = CHR ''#''"
  by (simp_all add: to_ascii_lowercase_def is_ascii_uppercase_def char_of_def bit_0)

section \<open>Vectors and hash maps\<close>

text \<open>\<open>Vec::dedup_by_key\<close>: of consecutive elements with equal keys the first is kept.\<close>

fun dedup_by :: "('a \<Rightarrow> 'k) \<Rightarrow> 'a list \<Rightarrow> 'a list" where
  "dedup_by f [] = []"
| "dedup_by f [x] = [x]"
| "dedup_by f (x # y # zs) =
     (if f x = f y then dedup_by f (x # zs) else x # dedup_by f (y # zs))"

lemma dedup_by_id: "dedup_by (\<lambda>x. x) xs = remdups_adj xs"
  by (induction xs rule: remdups_adj.induct) auto

lemma map_dedup_by: "map f (dedup_by f xs) = remdups_adj (map f xs)"
  by (induction f xs rule: dedup_by.induct) auto

lemma set_dedup_by_subset: "set (dedup_by f xs) \<subseteq> set xs"
  by (induction f xs rule: dedup_by.induct) auto

lemma keys_dedup_by [simp]: "f ` set (dedup_by f xs) = f ` set xs"
  by (metis list.set_map map_dedup_by remdups_adj_set)

lemma dedup_by_eq_Nil [simp]: "dedup_by f xs = [] \<longleftrightarrow> xs = []"
  by (metis Nil_is_map_conv map_dedup_by remdups_adj_Nil_iff)

lemma sorted_remdups_adj_strict:
  fixes xs :: "'a::linorder list"
  shows "sorted xs \<Longrightarrow> sorted_wrt (<) (remdups_adj xs)"
  by (induction xs rule: remdups_adj.induct) (auto simp: order.strict_iff_order)

text \<open>
  A \<open>HashMap\<close> is an association list with distinct keys, in insertion order; whatever the
  code derives from an iteration order is sorted before it is used.
  \<open>push_entry k v m\<close> is \<open>m.entry(k).or_default().push(v)\<close>.
\<close>

fun push_entry :: "'k \<Rightarrow> 'v \<Rightarrow> ('k \<times> 'v list) list \<Rightarrow> ('k \<times> 'v list) list" where
  "push_entry k v [] = [(k, [v])]"
| "push_entry k v ((k', vs) # m) =
     (if k = k' then (k', vs @ [v]) # m else (k', vs) # push_entry k v m)"

definition entries_of :: "('k \<times> 'v list) list \<Rightarrow> 'k \<Rightarrow> 'v list" where
  "entries_of m k = (case map_of m k of None \<Rightarrow> [] | Some vs \<Rightarrow> vs)"

lemma map_of_push_entry:
  "map_of (push_entry k v m) = (map_of m)(k \<mapsto> entries_of m k @ [v])"
  by (induction k v m rule: push_entry.induct) (auto simp: entries_of_def fun_eq_iff)

lemma entries_of_push_entry [simp]:
  "entries_of (push_entry k v m) k' = (if k' = k then entries_of m k @ [v] else entries_of m k')"
  by (simp add: entries_of_def map_of_push_entry)

lemma keys_push_entry [simp]: "fst ` set (push_entry k v m) = insert k (fst ` set m)"
  by (induction k v m rule: push_entry.induct) auto

lemma distinct_push_entry [simp]:
  "distinct (map fst (push_entry k v m)) \<longleftrightarrow> distinct (map fst m)"
proof (induction k v m rule: push_entry.induct)
  case (1 k v)
  then show ?case by simp
next
  case (2 k v k' vs m)
  have "k \<noteq> k' \<Longrightarrow> k' \<in> fst ` set (push_entry k v m) \<longleftrightarrow> k' \<in> fst ` set m"
    by simp
  with 2 show ?case by (auto simp: image_iff)
qed

lemma entries_of_Nil [simp]: "entries_of [] k = []"
  by (simp add: entries_of_def)

lemma entries_of_not_key: "k \<notin> fst ` set m \<Longrightarrow> entries_of m k = []"
proof -
  assume "k \<notin> fst ` set m"
  then have "map_of m k = None" by (simp add: map_of_eq_None_iff)
  then show ?thesis by (simp add: entries_of_def)
qed

lemma entries_of_key: "distinct (map fst m) \<Longrightarrow> (k, vs) \<in> set m \<Longrightarrow> entries_of m k = vs"
  by (simp add: entries_of_def)

lemma entries_of_map:
  "entries_of (map (\<lambda>(k, vs). (k, f vs)) m) k = (if k \<in> fst ` set m then f (entries_of m k) else [])"
  by (induction m) (auto simp: entries_of_def)

text \<open>Three-byte windows, \<open>content.windows(3)\<close>.\<close>

fun windows3 :: "'a list \<Rightarrow> ('a \<times> 'a \<times> 'a) list" where
  "windows3 (a # b # c # xs) = (a, b, c) # windows3 (b # c # xs)"
| "windows3 _ = []"

lemma length_windows3: "length (windows3 xs) = length xs - 2"
  by (induction xs rule: windows3.induct) auto

lemma windows3_append: "set (windows3 xs) \<subseteq> set (windows3 (ps @ xs @ ss))"
proof -
  have right: "set (windows3 xs) \<subseteq> set (windows3 (xs @ ss))" for xs :: "'a list"
    by (induction xs rule: windows3.induct) auto
  have cons: "set (windows3 ys) \<subseteq> set (windows3 (p # ys))" for p and ys :: "'a list"
    by (cases ys rule: windows3.cases) auto
  have "set (windows3 ys) \<subseteq> set (windows3 (ps @ ys))" for ys :: "'a list"
    by (induction ps) (simp_all, use cons subset_trans in blast)
  with right [of xs] show ?thesis by blast
qed

lemma windows3_map: "windows3 (map f xs) = map (\<lambda>(a, b, c). (f a, f b, f c)) (windows3 xs)"
  by (induction xs rule: windows3.induct) auto

lemma windows3_nth:
  "i + 2 < length xs \<Longrightarrow> windows3 xs ! i = (xs ! i, xs ! (i + 1), xs ! (i + 2))"
proof (induction xs arbitrary: i rule: windows3.induct)
  case (1 a b c xs)
  then show ?case by (cases i) auto
qed auto

end
