(* ===== verification/Core_Types.thy ===== *)
theory Core_Types
  imports Prelude
begin

text \<open>
  The identifiers and the error type every component shares: \<open>IndexError\<close>
  (\<open>ferret-core/src/error.rs\<close>), \<open>FileId\<close>, \<open>SegmentId\<close> and \<open>Trigram\<close>
  (\<open>ferret-core/src/types.rs\<close>) and \<open>ChangeKind\<close> (\<open>ferret-core/src/changes.rs\<close>). The lemmas show
  that the numeric key of a trigram is injective and orders trigrams as \<open>derive(Ord)\<close> does.
\<close>

unbundle bit_operations_syntax

section \<open>Errors\<close>

text \<open>
  The payload of an error is the fixed part of its message, up to the first interpolated
  value; an I/O error carries no payload. A panic (an index out of range, an
  \<open>unwrap\<close> of nothing) is a failure of its own, so that no theorem can mistake it for an error
  the caller may handle.
\<close>

datatype index_error =
  Io
| IndexCorruption string
| QueryParse string
| UnsupportedVersion u32
| SegmentNotFound u32
| Walk string
| Git string
| Watcher string
| Config string

datatype failure = Err index_error | Panic

type_synonym 'a result = "failure + 'a"

abbreviation corrupt :: "string \<Rightarrow> 'a result" where
  "corrupt msg \<equiv> Inl (Err (IndexCorruption msg))"

abbreviation panic :: "'a result" where
  "panic \<equiv> Inl Panic"

text \<open>\<open>&xs[a..b]\<close> as a step that panics out of range.\<close>

definition slice_at :: "nat \<Rightarrow> nat \<Rightarrow> 'a list \<Rightarrow> 'a list result" where
  "slice_at a b xs = (if slice_ok a b xs then Inr (slice a b xs) else panic)"

lemma slice_at_ok [simp, outcome_simps]:
  "slice_ok a b xs \<Longrightarrow> slice_at a b xs = Inr (slice a b xs)"
  by (simp add: slice_at_def)

lemma slice_at_eq_Inr [outcome_simps]:
  "slice_at a b xs = Inr ys \<longleftrightarrow> slice_ok a b xs \<and> ys = slice a b xs"
  by (auto simp: slice_at_def)

section \<open>Identifiers\<close>

text \<open>The newtypes \<open>FileId(u32)\<close> and \<open>SegmentId(u32)\<close> order and compare as their numbers do.\<close>

type_synonym file_id = u32
type_synonym segment_id = u32

datatype change_kind = Created | Modified | Deleted | Renamed

record change_event =
  ce_path :: text_utf8
  ce_kind :: change_kind

section \<open>Trigrams\<close>

datatype trigram = Trigram u8 u8 u8

definition from_bytes :: "u8 \<Rightarrow> u8 \<Rightarrow> u8 \<Rightarrow> trigram" where
  "from_bytes a b c = Trigram a b c"

fun to_u32 :: "trigram \<Rightarrow> u32" where
  "to_u32 (Trigram a b c) =
     push_bit 16 (of_nat (byte_val a)) OR push_bit 8 (of_nat (byte_val b)) OR of_nat (byte_val c)"

fun trigram_bytes :: "trigram \<Rightarrow> bytes" where
  "trigram_bytes (Trigram a b c) = [a, b, c]"

definition is_ascii_graphic :: "u8 \<Rightarrow> bool" where
  "is_ascii_graphic b \<longleftrightarrow> 33 \<le> byte_val b \<and> byte_val b \<le> 126"

definition hex_digit :: "nat \<Rightarrow> u8" where
  "hex_digit n = ''0123456789abcdef'' ! n"

definition display_trigram_byte :: "u8 \<Rightarrow> text_utf8" where
  "display_trigram_byte b =
     (if is_ascii_graphic b \<or> b = CHR '' '' then [b]
      else [CHR 0x5C, CHR ''x'', hex_digit (byte_val b div 16), hex_digit (byte_val b mod 16)])"

definition display_trigram :: "trigram \<Rightarrow> text_utf8" where
  "display_trigram t = concat (map display_trigram_byte (trigram_bytes t))"

lemma length_trigram_bytes [simp]: "length (trigram_bytes t) = 3"
  by (cases t) simp

text \<open>The three shifted bytes occupy disjoint bits, so the packing is a number in base 256.\<close>

lemma or_shift8:
  fixes x y :: u32
  assumes "unat y < 2 ^ k" and "unat x * 2 ^ k < 2 ^ 32"
  shows "unat (push_bit k x OR y) = unat x * 2 ^ k + unat y"
proof -
  have "take_bit 32 (push_bit k (unat x)) = push_bit k (unat x)"
    using assms(2) by (simp add: take_bit_nat_eq_self_iff push_bit_eq_mult)
  then have "unat (push_bit k x OR y) = push_bit k (unat x) OR unat y"
    by (simp add: unsigned_or_eq unsigned_push_bit_eq)
  also have "\<dots> = push_bit k (unat x) + unat y"
  proof (rule disjunctive_add [symmetric])
    fix n
    have "bit (unat y) n \<Longrightarrow> n < k"
      using assms(1) by (metis bit_take_bit_iff take_bit_nat_eq_self)
    then show "\<not> bit (push_bit k (unat x)) n \<or> \<not> bit (unat y) n"
      by (auto simp: bit_push_bit_iff)
  qed
  finally show ?thesis
    by (simp add: push_bit_eq_mult)
qed

lemma unat_of_byte: "unat (of_nat (byte_val b) :: u32) = byte_val b"
  using byte_val_less [of b] by (intro unat_of_nat_u32) linarith

lemma unat_to_u32:
  "unat (to_u32 (Trigram a b c)) = byte_val a * 65536 + byte_val b * 256 + byte_val c"
proof -
  let ?b = "of_nat (byte_val b) :: u32" and ?c = "of_nat (byte_val c) :: u32"
  have low: "unat (push_bit 8 ?b OR ?c) = byte_val b * 256 + byte_val c"
    by (subst or_shift8) (simp_all add: unat_of_byte less_trans [OF byte_val_less])
  have "byte_val b * 256 + byte_val c < 65536"
    using byte_val_less [of b] byte_val_less [of c] by linarith
  then have "unat (push_bit 16 (of_nat (byte_val a) :: u32) OR (push_bit 8 ?b OR ?c)) =
      byte_val a * 65536 + (byte_val b * 256 + byte_val c)"
    by (subst or_shift8) (simp_all add: low unat_of_byte less_trans [OF byte_val_less])
  then show ?thesis
    by (simp add: add.assoc)
qed

declare to_u32.simps [simp del]

instantiation trigram :: linorder
begin

definition less_eq_trigram :: "trigram \<Rightarrow> trigram \<Rightarrow> bool" where
  "less_eq_trigram s t \<longleftrightarrow> trigram_bytes s \<le> trigram_bytes t"

definition less_trigram :: "trigram \<Rightarrow> trigram \<Rightarrow> bool" where
  "less_trigram s t \<longleftrightarrow> trigram_bytes s < trigram_bytes t"

instance
proof
  fix s t u :: trigram
  show "s < t \<longleftrightarrow> s \<le> t \<and> \<not> t \<le> s"
    by (auto simp: less_eq_trigram_def less_trigram_def)
  show "s \<le> s"
    by (simp add: less_eq_trigram_def)
  show "s \<le> t \<Longrightarrow> t \<le> u \<Longrightarrow> s \<le> u"
    by (auto simp: less_eq_trigram_def)
  show "s \<le> t \<Longrightarrow> t \<le> s \<Longrightarrow> s = t"
    by (cases s; cases t) (auto simp: less_eq_trigram_def dest: order.antisym)
  show "s \<le> t \<or> t \<le> s"
    by (auto simp: less_eq_trigram_def)
qed

end

lemma to_u32_less_iff: "to_u32 s < to_u32 t \<longleftrightarrow> s < t"
proof -
  obtain a b c a' b' c' where st: "s = Trigram a b c" "t = Trigram a' b' c'"
    by (cases s; cases t) blast
  have base: "x * 65536 + y * 256 + z < x' * 65536 + y' * 256 + z' \<longleftrightarrow>
      x < x' \<or> x = x' \<and> (y < y' \<or> y = y' \<and> z < z')"
    if "x < 256" "y < 256" "z < 256" "x' < 256" "y' < 256" "z' < 256" for x y z x' y' z' :: nat
    using that by (cases x x' rule: linorder_cases; cases y y' rule: linorder_cases) auto
  show ?thesis
    unfolding st word_less_nat_alt unat_to_u32
    by (subst base) (auto simp: less_trigram_def less_char_def)
qed

lemma to_u32_inject [simp]: "to_u32 s = to_u32 t \<longleftrightarrow> s = t"
  by (metis to_u32_less_iff less_irrefl linorder_neqE)

lemma to_u32_le_iff: "to_u32 s \<le> to_u32 t \<longleftrightarrow> s \<le> t"
  by (metis to_u32_less_iff not_le)

text \<open>
  \<open>Trigram::to_u32\<close> is the big-endian value of the three bytes, and comparing keys is the
  same as comparing trigrams by the derived lexicographic order. The binary search of the index
  reader compares keys while the posting maps compare trigrams, and it is this fact that makes
  the two agree.
\<close>

theorem to_u32_key:
  "unat (to_u32 (Trigram a b c)) = byte_val a * 65536 + byte_val b * 256 + byte_val c \<and>
   (to_u32 s \<le> to_u32 t \<longleftrightarrow> s \<le> t) \<and> (to_u32 s = to_u32 t \<longleftrightarrow> s = t)"
  by (simp add: unat_to_u32 to_u32_le_iff)

end
