(* ===== verification/Paths.thy ===== *)
theory Paths
  imports Core_Types
begin

text \<open>
  The part of \<open>std::path::Path\<close> and \<open>str\<close> the code uses, on Unix: the components of a path,
  \<open>file_name\<close>, \<open>extension\<close>, \<open>file_stem\<close>, \<open>is_absolute\<close>, splitting and searching text.
\<close>

section \<open>Splitting and searching\<close>

fun split_on :: "u8 \<Rightarrow> bytes \<Rightarrow> bytes list" where
  "split_on sep [] = [[]]"
| "split_on sep (b # bs) =
     (if b = sep then [] # split_on sep bs
      else (case split_on sep bs of [] \<Rightarrow> [[b]] | p # ps \<Rightarrow> (b # p) # ps))"

lemma split_on_not_Nil [simp]: "split_on sep bs \<noteq> []"
  by (induction bs) (auto split: list.splits)

lemma split_on_append:
  "split_on sep (xs @ sep # ys) = split_on sep xs @ split_on sep ys"
proof (induction xs)
  case Nil
  then show ?case by simp
next
  case (Cons b xs)
  then show ?case by (cases "split_on sep xs") auto
qed

lemma split_on_no_sep: "sep \<notin> set xs \<Longrightarrow> split_on sep xs = [xs]"
  by (induction xs) auto

lemma sep_notin_split_on: "p \<in> set (split_on sep bs) \<Longrightarrow> sep \<notin> set p"
  by (induction bs arbitrary: p) (auto split: list.splits if_splits)

text \<open>\<open>memmem::find\<close>: the first position at which the needle occurs.\<close>

fun find_sub :: "bytes \<Rightarrow> bytes \<Rightarrow> nat option" where
  "find_sub [] needle = (if needle = [] then Some 0 else None)"
| "find_sub (b # bs) needle =
     (if prefix needle (b # bs) then Some 0 else map_option Suc (find_sub bs needle))"

lemma find_sub_Some:
  "find_sub hay needle = Some i \<Longrightarrow>
     prefix needle (drop i hay) \<and> i \<le> length hay \<and> (\<forall>j < i. \<not> prefix needle (drop j hay))"
proof (induction hay arbitrary: i)
  case Nil
  then show ?case by (auto split: if_splits)
next
  case (Cons b bs)
  show ?case
  proof (cases "prefix needle (b # bs)")
    case True
    with Cons.prems show ?thesis by simp
  next
    case False
    with Cons.prems obtain i' where "find_sub bs needle = Some i'" and "i = Suc i'"
      by auto
    with Cons.IH [of i'] False show ?thesis
      by (auto simp: less_Suc_eq_0_disj)
  qed
qed

lemma find_sub_None: "find_sub hay needle = None \<longleftrightarrow> (\<forall>i \<le> length hay. \<not> prefix needle (drop i hay))"
proof (induction hay)
  case Nil
  then show ?case by simp
next
  case (Cons b bs)
  have "(\<forall>i \<le> length (b # bs). \<not> prefix needle (drop i (b # bs))) \<longleftrightarrow>
      \<not> prefix needle (b # bs) \<and> (\<forall>i \<le> length bs. \<not> prefix needle (drop i bs))"
    by (metis (no_types, lifting) Suc_le_mono drop_0 drop_Suc_Cons length_Cons not0_implies_Suc zero_le)
  then show ?case
    using Cons.IH by auto
qed

lemma find_sub_None_sublist: "find_sub hay needle = None \<longleftrightarrow> \<not> sublist needle hay"
proof -
  have "sublist needle hay \<longleftrightarrow> (\<exists>i \<le> length hay. prefix needle (drop i hay))"
  proof
    assume "sublist needle hay"
    then obtain ps ss where hay: "hay = ps @ needle @ ss"
      by (auto simp: sublist_def)
    then have "prefix needle (drop (length ps) hay)" and "length ps \<le> length hay"
      by simp_all
    then show "\<exists>i \<le> length hay. prefix needle (drop i hay)" by blast
  next
    assume "\<exists>i \<le> length hay. prefix needle (drop i hay)"
    then show "sublist needle hay"
      by (metis append_take_drop_id prefixE sublist_appendI)
  qed
  then show ?thesis
    by (auto simp: find_sub_None)
qed

section \<open>Paths\<close>

datatype component = RootDir | CurDir | ParentDir | Normal bytes

definition component_of :: "bytes \<Rightarrow> component" where
  "component_of part = (if part = ''..'' then ParentDir else Normal part)"

definition components :: "text_utf8 \<Rightarrow> component list" where
  "components p =
     (let parts = split_on (CHR ''/'') p
      in (if p \<noteq> [] \<and> hd p = CHR ''/'' then [RootDir]
          else if hd parts = ''.'' then [CurDir] else [])
         @ map component_of (filter (\<lambda>part. part \<noteq> [] \<and> part \<noteq> ''.'') parts))"

definition is_absolute :: "text_utf8 \<Rightarrow> bool" where
  "is_absolute p \<longleftrightarrow> p \<noteq> [] \<and> hd p = CHR ''/''"

definition file_name :: "text_utf8 \<Rightarrow> bytes option" where
  "file_name p = (case rev (components p) of Normal n # _ \<Rightarrow> Some n | _ \<Rightarrow> None)"

text \<open>
  The name before and after the last dot. A name without a dot has no extension, and neither has
  one whose only dot is its first byte.
\<close>

definition rsplit_dot :: "bytes \<Rightarrow> bytes option \<times> bytes option" where
  "rsplit_dot n =
     (if n = ''..'' then (Some n, None)
      else let after = rev (takeWhile (\<lambda>b. b \<noteq> CHR ''.'') (rev n));
               rest = dropWhile (\<lambda>b. b \<noteq> CHR ''.'') (rev n)
           in case rest of
                [] \<Rightarrow> (None, Some n)
              | _ # before \<Rightarrow>
                  if before = [] then (Some n, None) else (Some (rev before), Some after))"

definition extension :: "text_utf8 \<Rightarrow> bytes option" where
  "extension p =
     (case file_name p of
        None \<Rightarrow> None
      | Some n \<Rightarrow> (case rsplit_dot n of (Some _, after) \<Rightarrow> after | (None, _) \<Rightarrow> None))"

definition file_stem :: "text_utf8 \<Rightarrow> bytes option" where
  "file_stem p =
     (case file_name p of
        None \<Rightarrow> None
      | Some n \<Rightarrow> (case rsplit_dot n of (Some before, _) \<Rightarrow> Some before | (None, after) \<Rightarrow> after))"

text \<open>The relative path \<open>dir/stem.ext\<close> has the extension \<open>ext\<close>.\<close>

lemma rsplit_dot_ext:
  assumes "stem \<noteq> []" and "CHR ''.'' \<notin> set ext" and "ext \<noteq> []"
  shows "rsplit_dot (stem @ CHR ''.'' # ext) = (Some stem, Some ext)"
proof -
  have "stem @ CHR ''.'' # ext \<noteq> ''..''"
    using assms by (cases stem rule: list.exhaust [case_product list.exhaust]) (auto simp: append_eq_Cons_conv)
  moreover have "takeWhile (\<lambda>b. b \<noteq> CHR ''.'') (rev ext @ CHR ''.'' # rev stem) = rev ext"
    using assms(2) by (subst takeWhile_append2) auto
  moreover have "dropWhile (\<lambda>b. b \<noteq> CHR ''.'') (rev ext @ CHR ''.'' # rev stem) = CHR ''.'' # rev stem"
    using assms(2) by (subst dropWhile_append2) auto
  ultimately show ?thesis
    using assms(1) by (simp add: rsplit_dot_def)
qed

lemma file_name_snoc:
  assumes "n \<noteq> []" and "n \<noteq> ''.''" and "n \<noteq> ''..''" and "CHR ''/'' \<notin> set n"
  shows "file_name (dir @ CHR ''/'' # n) = Some n" and "file_name n = Some n"
  using assms
  by (simp_all add: file_name_def components_def split_on_append split_on_no_sep component_of_def Let_def
      del: split_on.simps)

end
