(* ===== verification/Languages.thy ===== *)
theory Languages
  imports Paths
begin

text \<open>
  \<open>Language\<close> and \<open>SymbolKind\<close> (\<open>ferret-core/src/types.rs\<close>) and \<open>match_language\<close>
  (\<open>ferret-core/src/query.rs\<close>): the numeric codes written to disk, detection from a path and the
  names a query may use. A \<open>match\<close> on literals is a table in the source's order, looked up from the
  top. The lemmas show that the codes round-trip, which values decode to the fall-back, and which
  languages can be named by the text the code prints for them.
\<close>

text \<open>A \<open>match\<close> on string literals: the first arm one of whose alternatives is the text.\<close>

fun match_str :: "(string list \<times> 'a) list \<Rightarrow> text_utf8 \<Rightarrow> 'a option" where
  "match_str [] s = None"
| "match_str ((alts, v) # arms) s = (if s \<in> set alts then Some v else match_str arms s)"

lemma match_str_Some: "match_str arms s = Some v \<Longrightarrow> \<exists>alts. (alts, v) \<in> set arms \<and> s \<in> set alts"
  by (induction arms s rule: match_str.induct) (auto split: if_splits)

section \<open>Languages\<close>

datatype (plugins only: code size) language =
  Lang_Rust | Lang_Python | Lang_TypeScript | Lang_JavaScript | Lang_Go | Lang_C | Lang_Cpp
  | Lang_Java | Lang_Ruby | Lang_Shell | Lang_Markdown | Lang_Yaml | Lang_Toml | Lang_Json
  | Lang_Xml | Lang_Html | Lang_Css | Lang_Scss | Lang_Sass | Lang_Sql | Lang_Protobuf
  | Lang_Dockerfile | Lang_Hcl | Lang_Kotlin | Lang_Swift | Lang_Scala | Lang_Elixir
  | Lang_Erlang | Lang_Haskell | Lang_OCaml | Lang_Lua | Lang_Perl | Lang_R | Lang_Dart
  | Lang_Zig | Lang_Nix | Lang_PlainText | Lang_Starlark | Lang_Jsonnet | Lang_Haml | Lang_Csv
  | Lang_GraphQL | Lang_Erb | Lang_Template | Lang_ReStructuredText | Lang_Ejs | Lang_Groovy
  | Lang_Batch | Lang_CSharp | Lang_Vue | Lang_Svelte | Lang_PowerShell | Lang_Less
  | Lang_CoffeeScript | Lang_Solidity | Lang_Clojure | Lang_Julia | Lang_Assembly | Lang_Nim
  | Lang_Unknown

fun language_to_u16 :: "language \<Rightarrow> u16" where
  "language_to_u16 Lang_Rust = 0"
| "language_to_u16 Lang_Python = 1"
| "language_to_u16 Lang_TypeScript = 2"
| "language_to_u16 Lang_JavaScript = 3"
| "language_to_u16 Lang_Go = 4"
| "language_to_u16 Lang_C = 5"
| "language_to_u16 Lang_Cpp = 6"
| "language_to_u16 Lang_Java = 7"
| "language_to_u16 Lang_Ruby = 8"
| "language_to_u16 Lang_Shell = 9"
| "language_to_u16 Lang_Markdown = 10"
| "language_to_u16 Lang_Yaml = 11"
| "language_to_u16 Lang_Toml = 12"
| "language_to_u16 Lang_Json = 13"
| "language_to_u16 Lang_Xml = 14"
| "language_to_u16 Lang_Html = 15"
| "language_to_u16 Lang_Css = 16"
| "language_to_u16 Lang_Scss = 17"
| "language_to_u16 Lang_Sass = 18"
| "language_to_u16 Lang_Sql = 19"
| "language_to_u16 Lang_Protobuf = 20"
| "language_to_u16 Lang_Dockerfile = 21"
| "language_to_u16 Lang_Hcl = 22"
| "language_to_u16 Lang_Kotlin = 23"
| "language_to_u16 Lang_Swift = 24"
| "language_to_u16 Lang_Scala = 25"
| "language_to_u16 Lang_Elixir = 26"
| "language_to_u16 Lang_Erlang = 27"
| "language_to_u16 Lang_Haskell = 28"
| "language_to_u16 Lang_OCaml = 29"
| "language_to_u16 Lang_Lua = 30"
| "language_to_u16 Lang_Perl = 31"
| "language_to_u16 Lang_R = 32"
| "language_to_u16 Lang_Dart = 33"
| "language_to_u16 Lang_Zig = 34"
| "language_to_u16 Lang_Nix = 35"
| "language_to_u16 Lang_PlainText = 36"
| "language_to_u16 Lang_Starlark = 37"
| "language_to_u16 Lang_Jsonnet = 38"
| "language_to_u16 Lang_Haml = 39"
| "language_to_u16 Lang_Csv = 40"
| "language_to_u16 Lang_GraphQL = 41"
| "language_to_u16 Lang_Erb = 42"
| "language_to_u16 Lang_Template = 43"
| "language_to_u16 Lang_ReStructuredText = 44"
| "language_to_u16 Lang_Ejs = 45"
| "language_to_u16 Lang_Groovy = 46"
| "language_to_u16 Lang_Batch = 47"
| "language_to_u16 Lang_CSharp = 48"
| "language_to_u16 Lang_Vue = 49"
| "language_to_u16 Lang_Svelte = 50"
| "language_to_u16 Lang_PowerShell = 51"
| "language_to_u16 Lang_Less = 52"
| "language_to_u16 Lang_CoffeeScript = 53"
| "language_to_u16 Lang_Solidity = 54"
| "language_to_u16 Lang_Clojure = 55"
| "language_to_u16 Lang_Julia = 56"
| "language_to_u16 Lang_Assembly = 57"
| "language_to_u16 Lang_Nim = 58"
| "language_to_u16 Lang_Unknown = 0xFFFF"

definition language_codes :: "(nat \<times> language) list" where
  "language_codes =
     [
      (0, Lang_Rust), (1, Lang_Python), (2, Lang_TypeScript), (3, Lang_JavaScript),
      (4, Lang_Go), (5, Lang_C), (6, Lang_Cpp), (7, Lang_Java), (8, Lang_Ruby),
      (9, Lang_Shell), (10, Lang_Markdown), (11, Lang_Yaml), (12, Lang_Toml), (13, Lang_Json),
      (14, Lang_Xml), (15, Lang_Html), (16, Lang_Css), (17, Lang_Scss), (18, Lang_Sass),
      (19, Lang_Sql), (20, Lang_Protobuf), (21, Lang_Dockerfile), (22, Lang_Hcl),
      (23, Lang_Kotlin), (24, Lang_Swift), (25, Lang_Scala), (26, Lang_Elixir),
      (27, Lang_Erlang), (28, Lang_Haskell), (29, Lang_OCaml), (30, Lang_Lua), (31, Lang_Perl),
      (32, Lang_R), (33, Lang_Dart), (34, Lang_Zig), (35, Lang_Nix), (36, Lang_PlainText),
      (37, Lang_Starlark), (38, Lang_Jsonnet), (39, Lang_Haml), (40, Lang_Csv),
      (41, Lang_GraphQL), (42, Lang_Erb), (43, Lang_Template), (44, Lang_ReStructuredText),
      (45, Lang_Ejs), (46, Lang_Groovy), (47, Lang_Batch), (48, Lang_CSharp), (49, Lang_Vue),
      (50, Lang_Svelte), (51, Lang_PowerShell), (52, Lang_Less), (53, Lang_CoffeeScript),
      (54, Lang_Solidity), (55, Lang_Clojure), (56, Lang_Julia), (57, Lang_Assembly),
      (58, Lang_Nim)]"

definition language_from_u16 :: "u16 \<Rightarrow> language" where
  "language_from_u16 v =
     (case map_of language_codes (unat v) of Some l \<Rightarrow> l | None \<Rightarrow> Lang_Unknown)"

definition language_extensions :: "(string list \<times> language) list" where
  "language_extensions =
     [
      ([''rs''], Lang_Rust), ([''py'', ''pyi'', ''pyw'', ''pyx'', ''pxd''], Lang_Python),
      ([''ts'', ''tsx'', ''mts'', ''cts''], Lang_TypeScript),
      ([''js'', ''jsx'', ''mjs'', ''cjs''], Lang_JavaScript), ([''go''], Lang_Go),
      ([''c'', ''h''], Lang_C),
      ([''cpp'', ''cxx'', ''cc'', ''hpp'', ''hxx'', ''hh''], Lang_Cpp),
      ([''java''], Lang_Java),
      ([''rb'', ''rbi'', ''rake'', ''gemspec'', ''jbuilder'', ''ru'', ''podspec''], Lang_Ruby),
      ([''sh'', ''bash'', ''zsh'', ''fish'', ''csh'', ''tcsh''], Lang_Shell),
      ([''md'', ''markdown'', ''mdx'', ''Rmd'', ''rmd''], Lang_Markdown),
      ([''yml'', ''yaml''], Lang_Yaml), ([''toml''], Lang_Toml),
      ([''json'', ''jsonc'', ''json5'', ''jsonl'', ''geojson''], Lang_Json),
      ([''xml'', ''xsl'', ''xslt'', ''svg'', ''xsd'', ''wsdl'', ''dtd''], Lang_Xml),
      ([''html'', ''htm''], Lang_Html), ([''css''], Lang_Css), ([''scss''], Lang_Scss),
      ([''sass''], Lang_Sass), ([''sql'', ''ddl'', ''hql''], Lang_Sql),
      ([''proto''], Lang_Protobuf), ([''tf'', ''hcl'', ''tfvars''], Lang_Hcl),
      ([''kt'', ''kts''], Lang_Kotlin), ([''swift''], Lang_Swift),
      ([''scala'', ''sc'', ''sbt''], Lang_Scala), ([''ex'', ''exs''], Lang_Elixir),
      ([''erl'', ''hrl''], Lang_Erlang), ([''hs'', ''lhs''], Lang_Haskell),
      ([''ml'', ''mli''], Lang_OCaml), ([''lua''], Lang_Lua), ([''pl'', ''pm''], Lang_Perl),
      ([''r'', ''R''], Lang_R), ([''dart''], Lang_Dart), ([''zig''], Lang_Zig),
      ([''nix''], Lang_Nix), ([''txt'', ''text'', ''log''], Lang_PlainText),
      ([''bazel'', ''bzl'', ''star'', ''starlark''], Lang_Starlark),
      ([''jsonnet'', ''libsonnet''], Lang_Jsonnet), ([''haml''], Lang_Haml),
      ([''csv'', ''tsv''], Lang_Csv), ([''graphql'', ''gql''], Lang_GraphQL),
      ([''erb''], Lang_Erb), ([''j2'', ''jinja'', ''jinja2'', ''mako''], Lang_Template),
      ([''rst''], Lang_ReStructuredText), ([''ejs''], Lang_Ejs),
      ([''groovy'', ''gradle'', ''gvy'', ''gy'', ''gsh''], Lang_Groovy),
      ([''bat'', ''cmd''], Lang_Batch), ([''cs'', ''csx''], Lang_CSharp),
      ([''vue''], Lang_Vue), ([''svelte''], Lang_Svelte), ([''ps1''], Lang_PowerShell),
      ([''less''], Lang_Less), ([''coffee'', ''cjsx''], Lang_CoffeeScript),
      ([''sol''], Lang_Solidity), ([''clj'', ''cljs'', ''cljc'', ''edn''], Lang_Clojure),
      ([''jl''], Lang_Julia), ([''asm'', ''s'', ''S'', ''nasm''], Lang_Assembly),
      ([''nim''], Lang_Nim)]"

definition language_from_extension :: "text_utf8 \<Rightarrow> language" where
  "language_from_extension ext =
     (case match_str language_extensions ext of Some l \<Rightarrow> l | None \<Rightarrow> Lang_Unknown)"

definition language_from_path :: "text_utf8 \<Rightarrow> language" where
  "language_from_path p =
     (if (case file_name p of
            Some name \<Rightarrow> name = ''Dockerfile'' \<or> prefix ''Dockerfile.'' name
          | None \<Rightarrow> False)
      then Lang_Dockerfile
      else (case extension p of
              Some ext \<Rightarrow> language_from_extension ext
            | None \<Rightarrow> Lang_Unknown))"

fun display_language :: "language \<Rightarrow> text_utf8" where
  "display_language Lang_Rust = ''Rust''"
| "display_language Lang_Python = ''Python''"
| "display_language Lang_TypeScript = ''TypeScript''"
| "display_language Lang_JavaScript = ''JavaScript''"
| "display_language Lang_Go = ''Go''"
| "display_language Lang_C = ''C''"
| "display_language Lang_Cpp = ''C++''"
| "display_language Lang_Java = ''Java''"
| "display_language Lang_Ruby = ''Ruby''"
| "display_language Lang_Shell = ''Shell''"
| "display_language Lang_Markdown = ''Markdown''"
| "display_language Lang_Yaml = ''YAML''"
| "display_language Lang_Toml = ''TOML''"
| "display_language Lang_Json = ''JSON''"
| "display_language Lang_Xml = ''XML''"
| "display_language Lang_Html = ''HTML''"
| "display_language Lang_Css = ''CSS''"
| "display_language Lang_Scss = ''SCSS''"
| "display_language Lang_Sass = ''Sass''"
| "display_language Lang_Sql = ''SQL''"
| "display_language Lang_Protobuf = ''Protobuf''"
| "display_language Lang_Dockerfile = ''Dockerfile''"
| "display_language Lang_Hcl = ''HCL''"
| "display_language Lang_Kotlin = ''Kotlin''"
| "display_language Lang_Swift = ''Swift''"
| "display_language Lang_Scala = ''Scala''"
| "display_language Lang_Elixir = ''Elixir''"
| "display_language Lang_Erlang = ''Erlang''"
| "display_language Lang_Haskell = ''Haskell''"
| "display_language Lang_OCaml = ''OCaml''"
| "display_language Lang_Lua = ''Lua''"
| "display_language Lang_Perl = ''Perl''"
| "display_language Lang_R = ''R''"
| "display_language Lang_Dart = ''Dart''"
| "display_language Lang_Zig = ''Zig''"
| "display_language Lang_Nix = ''Nix''"
| "display_language Lang_PlainText = ''Plain Text''"
| "display_language Lang_Starlark = ''Starlark''"
| "display_language Lang_Jsonnet = ''Jsonnet''"
| "display_language Lang_Haml = ''Haml''"
| "display_language Lang_Csv = ''CSV''"
| "display_language Lang_GraphQL = ''GraphQL''"
| "display_language Lang_Erb = ''ERB''"
| "display_language Lang_Template = ''Template''"
| "display_language Lang_ReStructuredText = ''reStructuredText''"
| "display_language Lang_Ejs = ''EJS''"
| "display_language Lang_Groovy = ''Groovy''"
| "display_language Lang_Batch = ''Batch''"
| "display_language Lang_CSharp = ''C#''"
| "display_language Lang_Vue = ''Vue''"
| "display_language Lang_Svelte = ''Svelte''"
| "display_language Lang_PowerShell = ''PowerShell''"
| "display_language Lang_Less = ''Less''"
| "display_language Lang_CoffeeScript = ''CoffeeScript''"
| "display_language Lang_Solidity = ''Solidity''"
| "display_language Lang_Clojure = ''Clojure''"
| "display_language Lang_Julia = ''Julia''"
| "display_language Lang_Assembly = ''Assembly''"
| "display_language Lang_Nim = ''Nim''"
| "display_language Lang_Unknown = ''Unknown''"

definition language_names :: "(string list \<times> language) list" where
  "language_names =
     [
      ([''rust'', ''rs''], Lang_Rust), ([''python'', ''py''], Lang_Python),
      ([''typescript'', ''ts''], Lang_TypeScript), ([''javascript'', ''js''], Lang_JavaScript),
      ([''go''], Lang_Go), ([''c''], Lang_C), ([''cpp'', ''c++'', ''cxx''], Lang_Cpp),
      ([''java''], Lang_Java), ([''ruby'', ''rb''], Lang_Ruby),
      ([''shell'', ''sh'', ''bash''], Lang_Shell), ([''markdown'', ''md''], Lang_Markdown),
      ([''yaml'', ''yml''], Lang_Yaml), ([''toml''], Lang_Toml), ([''json''], Lang_Json),
      ([''xml''], Lang_Xml), ([''html'', ''htm''], Lang_Html), ([''css''], Lang_Css),
      ([''scss''], Lang_Scss), ([''sass''], Lang_Sass), ([''sql''], Lang_Sql),
      ([''protobuf'', ''proto''], Lang_Protobuf),
      ([''dockerfile'', ''docker''], Lang_Dockerfile),
      ([''hcl'', ''terraform'', ''tf''], Lang_Hcl), ([''kotlin'', ''kt''], Lang_Kotlin),
      ([''swift''], Lang_Swift), ([''scala'', ''sc''], Lang_Scala),
      ([''elixir'', ''ex''], Lang_Elixir), ([''erlang'', ''erl''], Lang_Erlang),
      ([''haskell'', ''hs''], Lang_Haskell), ([''ocaml'', ''ml''], Lang_OCaml),
      ([''lua''], Lang_Lua), ([''perl'', ''pl''], Lang_Perl), ([''r''], Lang_R),
      ([''dart''], Lang_Dart), ([''zig''], Lang_Zig), ([''nix''], Lang_Nix),
      ([''plaintext'', ''text'', ''txt''], Lang_PlainText),
      ([''starlark'', ''bazel'', ''bzl''], Lang_Starlark), ([''jsonnet''], Lang_Jsonnet),
      ([''haml''], Lang_Haml), ([''csv''], Lang_Csv), ([''graphql'', ''gql''], Lang_GraphQL),
      ([''erb''], Lang_Erb), ([''template'', ''jinja'', ''jinja2'', ''j2''], Lang_Template),
      ([''restructuredtext'', ''rst''], Lang_ReStructuredText), ([''ejs''], Lang_Ejs),
      ([''groovy'', ''gradle''], Lang_Groovy), ([''batch'', ''bat'', ''cmd''], Lang_Batch),
      ([''csharp'', ''c#'', ''cs''], Lang_CSharp), ([''vue''], Lang_Vue),
      ([''svelte''], Lang_Svelte), ([''powershell'', ''ps1''], Lang_PowerShell),
      ([''less''], Lang_Less), ([''coffeescript'', ''coffee''], Lang_CoffeeScript),
      ([''solidity'', ''sol''], Lang_Solidity), ([''clojure'', ''clj''], Lang_Clojure),
      ([''julia'', ''jl''], Lang_Julia), ([''assembly'', ''asm''], Lang_Assembly),
      ([''nim''], Lang_Nim)]"

definition match_language :: "text_utf8 \<Rightarrow> language result" where
  "match_language s =
     (case match_str language_names (map to_ascii_lowercase s) of
        Some l \<Rightarrow> Inr l
      | None \<Rightarrow> Inl (Err (QueryParse ''unknown language: '')))"

section \<open>Symbol kinds\<close>

datatype symbol_kind =
  Kind_Function | Kind_Struct | Kind_Trait | Kind_Enum | Kind_Interface | Kind_Class
  | Kind_Method | Kind_Constant | Kind_Variable | Kind_Type | Kind_Module

fun kind_to_u8 :: "symbol_kind \<Rightarrow> u8" where
  "kind_to_u8 Kind_Function = CHR 0x00"
| "kind_to_u8 Kind_Struct = CHR 0x01"
| "kind_to_u8 Kind_Trait = CHR 0x02"
| "kind_to_u8 Kind_Enum = CHR 0x03"
| "kind_to_u8 Kind_Interface = CHR 0x04"
| "kind_to_u8 Kind_Class = CHR 0x05"
| "kind_to_u8 Kind_Method = CHR 0x06"
| "kind_to_u8 Kind_Constant = CHR 0x07"
| "kind_to_u8 Kind_Variable = CHR 0x08"
| "kind_to_u8 Kind_Type = CHR 0x09"
| "kind_to_u8 Kind_Module = CHR 0x0A"

definition kind_codes :: "(u8 \<times> symbol_kind) list" where
  "kind_codes =
     [
      (CHR 0x00, Kind_Function), (CHR 0x01, Kind_Struct), (CHR 0x02, Kind_Trait),
      (CHR 0x03, Kind_Enum), (CHR 0x04, Kind_Interface), (CHR 0x05, Kind_Class),
      (CHR 0x06, Kind_Method), (CHR 0x07, Kind_Constant), (CHR 0x08, Kind_Variable),
      (CHR 0x09, Kind_Type), (CHR 0x0A, Kind_Module)]"

definition kind_from_u8 :: "u8 \<Rightarrow> symbol_kind option" where
  "kind_from_u8 v = map_of kind_codes v"

definition kind_names :: "(string list \<times> symbol_kind) list" where
  "kind_names =
     [
      ([''function'', ''fn'', ''func'', ''def''], Kind_Function), ([''struct''], Kind_Struct),
      ([''trait''], Kind_Trait), ([''enum''], Kind_Enum),
      ([''interface'', ''iface''], Kind_Interface), ([''class''], Kind_Class),
      ([''method''], Kind_Method), ([''constant'', ''const''], Kind_Constant),
      ([''variable'', ''var'', ''let''], Kind_Variable),
      ([''type'', ''typedef'', ''alias''], Kind_Type),
      ([''module'', ''mod'', ''namespace'', ''package'', ''ns''], Kind_Module)]"

definition kind_from_str_loose :: "text_utf8 \<Rightarrow> symbol_kind option" where
  "kind_from_str_loose s = match_str kind_names (map to_ascii_lowercase s)"

fun short_label :: "symbol_kind \<Rightarrow> text_utf8" where
  "short_label Kind_Function = ''fn''"
| "short_label Kind_Struct = ''struct''"
| "short_label Kind_Trait = ''trait''"
| "short_label Kind_Enum = ''enum''"
| "short_label Kind_Interface = ''interface''"
| "short_label Kind_Class = ''class''"
| "short_label Kind_Method = ''method''"
| "short_label Kind_Constant = ''const''"
| "short_label Kind_Variable = ''var''"
| "short_label Kind_Type = ''type''"
| "short_label Kind_Module = ''mod''"

fun display_kind :: "symbol_kind \<Rightarrow> text_utf8" where
  "display_kind Kind_Function = ''Function''"
| "display_kind Kind_Struct = ''Struct''"
| "display_kind Kind_Trait = ''Trait''"
| "display_kind Kind_Enum = ''Enum''"
| "display_kind Kind_Interface = ''Interface''"
| "display_kind Kind_Class = ''Class''"
| "display_kind Kind_Method = ''Method''"
| "display_kind Kind_Constant = ''Constant''"
| "display_kind Kind_Variable = ''Variable''"
| "display_kind Kind_Type = ''Type''"
| "display_kind Kind_Module = ''Module''"

section \<open>Round trips\<close>

lemma language_from_to_u16: "language_from_u16 (language_to_u16 l) = l"
  by (cases l) (simp_all add: language_from_u16_def language_codes_def)

lemma language_codes_values:
  "map_of language_codes n = Some l \<Longrightarrow> language_to_u16 l = of_nat n \<and> n < 59"
  by (auto simp: language_codes_def split: if_splits)

lemma language_codes_None: "map_of language_codes n = None \<longleftrightarrow> 59 \<le> n"
proof -
  have "map_of language_codes n = None \<longleftrightarrow> n \<notin> set (map fst language_codes)"
    by (simp add: map_of_eq_None_iff)
  also have "map fst language_codes = [0..<59]"
    by (simp add: language_codes_def upt_conv_Cons)
  finally show ?thesis by auto
qed

text \<open>
  The stored language codes round-trip: decoding the code of a language gives that language
  back, decoding never fails, and re-encoding a decoded value gives the same value, except that
  every code the enumeration does not use reads as \<open>Unknown\<close>, whose code is \<open>0xFFFF\<close>.
\<close>

theorem language_codes_roundtrip:
  "language_from_u16 (language_to_u16 l) = l \<and>
   language_to_u16 (language_from_u16 v) = (if unat v < 59 then v else 0xFFFF)"
proof (cases "map_of language_codes (unat v)")
  case None
  then show ?thesis
    using language_from_to_u16 language_codes_None [of "unat v"]
    by (simp add: language_from_u16_def)
next
  case (Some l')
  then show ?thesis
    using language_from_to_u16 language_codes_values [OF Some]
    by (simp add: language_from_u16_def)
qed

lemma kind_from_to_u8: "kind_from_u8 (kind_to_u8 k) = Some k"
  by (cases k) (simp_all add: kind_from_u8_def kind_codes_def)

lemma kind_names_display: "kind_from_str_loose (display_kind k) = Some k"
  by (cases k) (simp_all add: kind_from_str_loose_def kind_names_def)

lemma kind_names_short: "kind_from_str_loose (short_label k) = Some k"
  by (cases k) (simp_all add: kind_from_str_loose_def kind_names_def)

lemma match_language_display:
  "match_language (display_language l) =
     (if l = Lang_PlainText \<or> l = Lang_Unknown
      then Inl (Err (QueryParse ''unknown language: '')) else Inr l)"
  by (cases l) (simp_all add: match_language_def language_names_def)

text \<open>
  Symbol kinds are recovered from their stored byte, from their display name and from their
  short label, so an index entry and a \<open>kind:\<close> argument printed by the tool are read back as the
  kind they came from.
\<close>

theorem kind_codes_roundtrip:
  "kind_from_u8 (kind_to_u8 k) = Some k \<and> kind_from_str_loose (display_kind k) = Some k \<and>
   kind_from_str_loose (short_label k) = Some k"
  by (simp add: kind_from_to_u8 kind_names_display kind_names_short)

end
