(* ===== verification/Utf8.thy ===== *)
theory Utf8
  imports Prelude
begin

text \<open>
  The part of Rust's \<open>str\<close> the crate relies on: which byte strings are valid UTF-8
  (\<open>std::str::from_utf8\<close>) and the code points they stand for (\<open>str::chars\<close>). Texts of the model
  are their bytes. Surrogates, overlong encodings and values above \<open>0x10FFFF\<close> are rejected, as the
  standard library documents.
\<close>

definition is_continuation :: "u8 \<Rightarrow> bool" where
  "is_continuation b = (128 \<le> byte_val b \<and> byte_val b < 192)"

text \<open>The range of the second byte for a given first byte of a three- or four-byte sequence.\<close>

definition second_range :: "nat \<Rightarrow> nat \<times> nat" where
  "second_range b =
     (if b = 0xE0 then (0xA0, 0xBF) else if b = 0xED then (0x80, 0x9F)
      else if b = 0xF0 then (0x90, 0xBF) else if b = 0xF4 then (0x80, 0x8F)
      else (0x80, 0xBF))"

definition second_ok :: "u8 \<Rightarrow> u8 \<Rightarrow> bool" where
  "second_ok a b =
     (fst (second_range (byte_val a)) \<le> byte_val b \<and> byte_val b \<le> snd (second_range (byte_val a)))"

text \<open>One code point, with the number of bytes it takes.\<close>

definition utf8_next :: "bytes \<Rightarrow> (nat \<times> nat) option" where
  "utf8_next bs =
     (case bs of
        [] \<Rightarrow> None
      | a # r \<Rightarrow>
          let x = byte_val a in
          if x < 0x80 then Some (x, 1)
          else if 0xC2 \<le> x \<and> x \<le> 0xDF then
            (case r of b # _ \<Rightarrow> if is_continuation b
                 then Some ((x - 0xC0) * 64 + (byte_val b - 0x80), 2) else None
             | _ \<Rightarrow> None)
          else if 0xE0 \<le> x \<and> x \<le> 0xEF then
            (case r of b # c # _ \<Rightarrow> if second_ok a b \<and> is_continuation c
                 then Some (((x - 0xE0) * 64 + (byte_val b - 0x80)) * 64 + (byte_val c - 0x80), 3)
                 else None
             | _ \<Rightarrow> None)
          else if 0xF0 \<le> x \<and> x \<le> 0xF4 then
            (case r of b # c # d # _ \<Rightarrow> if second_ok a b \<and> is_continuation c \<and> is_continuation d
                 then Some ((((x - 0xF0) * 64 + (byte_val b - 0x80)) * 64 + (byte_val c - 0x80)) * 64
                              + (byte_val d - 0x80), 4)
                 else None
             | _ \<Rightarrow> None)
          else None)"

lemma utf8_next_bounds: "utf8_next bs = Some (c, n) \<Longrightarrow> 0 < n \<and> n \<le> length bs"
  by (auto simp: utf8_next_def Let_def split: list.splits if_splits)

function utf8_decode :: "bytes \<Rightarrow> nat list option" where
  "utf8_decode bs =
     (if bs = [] then Some []
      else case utf8_next bs of
        None \<Rightarrow> None
      | Some (c, n) \<Rightarrow> map_option (\<lambda>cs. c # cs) (utf8_decode (drop n bs)))"
  by pat_completeness auto
termination
proof (relation "measure length")
  fix bs :: bytes and p c n
  assume "bs \<noteq> []" and "utf8_next bs = Some p" and "(c, n) = p"
  then have "0 < n" using utf8_next_bounds [of bs c n] by simp
  with \<open>bs \<noteq> []\<close> show "(drop n bs, bs) \<in> measure length" by simp
qed simp

declare utf8_decode.simps [simp del]

definition utf8_valid :: "bytes \<Rightarrow> bool" where
  "utf8_valid bs = (utf8_decode bs \<noteq> None)"

definition is_ascii_text :: "bytes \<Rightarrow> bool" where
  "is_ascii_text bs = list_all (\<lambda>b. byte_val b < 128) bs"

lemma utf8_decode_ascii: "is_ascii_text bs \<Longrightarrow> utf8_decode bs = Some (map byte_val bs)"
proof (induction bs)
  case Nil
  then show ?case by (simp add: utf8_decode.simps)
next
  case (Cons b bs)
  then have "utf8_next (b # bs) = Some (byte_val b, 1)"
    by (simp add: utf8_next_def is_ascii_text_def)
  with Cons show ?case
    by (subst utf8_decode.simps) (simp add: is_ascii_text_def)
qed

lemma utf8_valid_ascii [simp]: "is_ascii_text bs \<Longrightarrow> utf8_valid bs"
  by (simp add: utf8_valid_def utf8_decode_ascii)

end
