(* ===== verification/Query.thy ===== *)
theory Query
  imports Languages Utf8
begin

text \<open>
  The query language (\<open>ferret-core/src/query.rs\<close>): the AST, the recursive-descent parser with its
  cursor, case flag and depth counter, and the printer. The validator of regular expressions (the
  \<open>regex\<close> crate) is the parameter \<open>valid_regex\<close>. A parser method takes the cursor state and
  returns its outcome with the state it leaves behind, also when it fails, because \<open>parse_and\<close>
  goes on after a failure. Positions are byte offsets into the input.
\<close>

section \<open>The AST\<close>

record literal_query = lq_text :: text_utf8  lq_case_sensitive :: bool
record regex_query = rq_pattern :: text_utf8  rq_case_sensitive :: bool
record phrase_query = pq_text :: text_utf8  pq_case_sensitive :: bool

datatype query =
  Q_Literal literal_query
| Q_Regex regex_query
| Q_Phrase phrase_query
| Q_PathFilter text_utf8
| Q_LanguageFilter language
| Q_Not query
| Q_Or query query
| Q_And "query list"

section \<open>The cursor\<close>

definition MAX_PARSE_DEPTH :: nat where "MAX_PARSE_DEPTH = 128"

record parser =
  ps_pos :: nat
  ps_case_sensitive :: bool
  ps_depth :: nat

type_synonym parsed = "query result \<times> parser"

abbreviation parse_error :: "string \<Rightarrow> parser \<Rightarrow> parsed" where
  "parse_error msg p \<equiv> (Inl (Err (QueryParse msg)), p)"

definition parser_new :: parser where
  "parser_new = \<lparr>ps_pos = 0, ps_case_sensitive = False, ps_depth = 0\<rparr>"

definition is_eof :: "bytes \<Rightarrow> parser \<Rightarrow> bool" where
  "is_eof inp p = (ps_pos p \<ge> length inp)"

text \<open>
  The rest of the input. The code slices a \<open>str\<close>, which needs a character boundary; that the position is
  always one (it moves by whole characters or over ASCII) is not checked by the model.
\<close>

definition peek :: "bytes \<Rightarrow> parser \<Rightarrow> nat option" where
  "peek inp p = map_option fst (utf8_next (drop (ps_pos p) inp))"

text \<open>The byte loops: the first position at or after \<open>pos\<close> whose byte fails the test.\<close>

definition scan_while :: "(u8 \<Rightarrow> bool) \<Rightarrow> bytes \<Rightarrow> nat \<Rightarrow> nat" where
  "scan_while ok inp pos = pos + length (takeWhile ok (drop pos inp))"

definition skip_whitespace :: "bytes \<Rightarrow> parser \<Rightarrow> parser" where
  "skip_whitespace inp p = p\<lparr>ps_pos := scan_while is_ascii_whitespace inp (ps_pos p)\<rparr>"

definition starts_with :: "bytes \<Rightarrow> parser \<Rightarrow> string \<Rightarrow> bool" where
  "starts_with inp p s = prefix s (drop (ps_pos p) inp)"

definition word_boundary :: "u8 \<Rightarrow> bool" where
  "word_boundary b = (is_ascii_whitespace b \<or> b = CHR 0x22 \<or> b = CHR ''/'')"

definition starts_with_keyword :: "bytes \<Rightarrow> parser \<Rightarrow> string \<Rightarrow> bool" where
  "starts_with_keyword inp p keyword =
     (if \<not> starts_with inp p keyword then False
      else
        let after = ps_pos p + length keyword
        in if after \<ge> length inp then True else word_boundary (inp ! after))"

section \<open>Primary terms\<close>

definition parse_literal :: "bytes \<Rightarrow> parser \<Rightarrow> parsed" where
  "parse_literal inp p =
     (let start = ps_pos p;
          p = p\<lparr>ps_pos := scan_while (\<lambda>b. \<not> word_boundary b) inp start\<rparr>
      in if ps_pos p = start then parse_error ''expected literal at position '' p
         else (Inr (Q_Literal \<lparr>lq_text = slice start (ps_pos p) inp,
                              lq_case_sensitive = ps_case_sensitive p\<rparr>),
               p\<lparr>ps_case_sensitive := False\<rparr>))"

definition parse_phrase :: "bytes \<Rightarrow> parser \<Rightarrow> parsed" where
  "parse_phrase inp p =
     (let start = ps_pos p + 1;
          p = p\<lparr>ps_pos := scan_while (\<lambda>b. b \<noteq> CHR 0x22) inp start\<rparr>
      in if ps_pos p \<ge> length inp then parse_error (''unterminated phrase (missing closing '' @ [CHR 0x22] @ '')'') p
         else (Inr (Q_Phrase \<lparr>pq_text = slice start (ps_pos p) inp,
                             pq_case_sensitive = ps_case_sensitive p\<rparr>),
               p\<lparr>ps_pos := ps_pos p + 1, ps_case_sensitive := False\<rparr>))"

text \<open>The loop over the characters of a pattern: the number of bytes up to its closing slash.\<close>

function regex_scan :: "bytes \<Rightarrow> nat" where
  "regex_scan s =
     (case utf8_next s of
        None \<Rightarrow> 0
      | Some (c, n) \<Rightarrow>
          if c = 47 then 0
          else if c = 92 then
            (case utf8_next (drop n s) of
               None \<Rightarrow> n
             | Some (_, m) \<Rightarrow> n + m + regex_scan (drop m (drop n s)))
          else n + regex_scan (drop n s))"
  by pat_completeness auto
termination
  by (relation "measure length") (auto dest!: utf8_next_bounds [OF sym] utf8_next_bounds)

declare regex_scan.simps [simp del]

definition parse_regex :: "(bytes \<Rightarrow> bool) \<Rightarrow> bytes \<Rightarrow> parser \<Rightarrow> parsed" where
  "parse_regex valid_regex inp p =
     (let start = ps_pos p + 1;
          p = p\<lparr>ps_pos := start + regex_scan (drop start inp)\<rparr>
      in if is_eof inp p then parse_error ''unterminated regex (missing closing /)'' p
         else
           let pattern = slice start (ps_pos p) inp;
               p = p\<lparr>ps_pos := ps_pos p + 1\<rparr>
           in if \<not> valid_regex pattern then parse_error ''invalid regex at position '' p
              else
                let (cs, p) = (if ps_case_sensitive p then (True, p\<lparr>ps_case_sensitive := False\<rparr>)
                               else (True, p))
                in (Inr (Q_Regex \<lparr>rq_pattern = pattern, rq_case_sensitive = cs\<rparr>), p))"

definition parse_path_filter :: "bytes \<Rightarrow> parser \<Rightarrow> parsed" where
  "parse_path_filter inp p =
     (let start = ps_pos p + 5;
          p = p\<lparr>ps_pos := scan_while (\<lambda>b. \<not> is_ascii_whitespace b) inp start\<rparr>
      in if ps_pos p = start then parse_error (''expected path value after '' @ [CHR 0x27] @ ''path:'' @ [CHR 0x27]) p
         else (Inr (Q_PathFilter (slice start (ps_pos p) inp)), p))"

definition parse_language_filter :: "bytes \<Rightarrow> parser \<Rightarrow> parsed" where
  "parse_language_filter inp p =
     (let prefix_len = (if starts_with inp p ''language:'' then 9 else 5);
          start = ps_pos p + prefix_len;
          p = p\<lparr>ps_pos := scan_while (\<lambda>b. \<not> is_ascii_whitespace b) inp start\<rparr>
      in if ps_pos p = start then parse_error ''expected language value after filter prefix'' p
         else case match_language (slice start (ps_pos p) inp) of
           Inl e \<Rightarrow> (Inl e, p)
         | Inr lang \<Rightarrow> (Inr (Q_LanguageFilter lang), p))"

section \<open>The recursive methods\<close>

text \<open>
  Every recursive call goes through \<open>parse_unary\<close>, whose depth bound ends the recursion. The error
  for too deep a nesting leaves the counter incremented.
\<close>

function (sequential)
  parse_unary :: "(bytes \<Rightarrow> bool) \<Rightarrow> bytes \<Rightarrow> parser \<Rightarrow> parsed"
  and parse_unary_inner :: "(bytes \<Rightarrow> bool) \<Rightarrow> bytes \<Rightarrow> parser \<Rightarrow> parsed"
  and parse_primary :: "(bytes \<Rightarrow> bool) \<Rightarrow> bytes \<Rightarrow> parser \<Rightarrow> parsed"
  and parse_case_modifier :: "(bytes \<Rightarrow> bool) \<Rightarrow> bytes \<Rightarrow> parser \<Rightarrow> parsed" where
  "parse_unary v inp p =
     (let p = p\<lparr>ps_depth := ps_depth p + 1\<rparr>
      in if ps_depth p > MAX_PARSE_DEPTH then parse_error ''query too deeply nested (max depth '' p
         else case parse_unary_inner v inp p of
           (result, p) \<Rightarrow> (result, p\<lparr>ps_depth := ps_depth p - 1\<rparr>))"
| "parse_unary_inner v inp p =
     (let p = skip_whitespace inp p
      in if starts_with_keyword inp p ''NOT'' then
           (let p = skip_whitespace inp (p\<lparr>ps_pos := ps_pos p + 3\<rparr>)
            in case parse_unary v inp p of
                 (Inl e, p) \<Rightarrow> (Inl e, p)
               | (Inr inner, p) \<Rightarrow> (Inr (Q_Not inner), p))
         else parse_primary v inp p)"
| "parse_primary v inp p =
     (let p = skip_whitespace inp p
      in if is_eof inp p then parse_error ''unexpected end of query'' p
         else if peek inp p = Some 47 then parse_regex v inp p
         else if peek inp p = Some 34 then parse_phrase inp p
         else if starts_with inp p ''path:'' then parse_path_filter inp p
         else if starts_with inp p ''language:'' \<or> starts_with inp p ''lang:''
         then parse_language_filter inp p
         else if starts_with inp p ''case:yes'' then parse_case_modifier v inp p
         else parse_literal inp p)"
| "parse_case_modifier v inp p =
     (let after = ps_pos p + 8
      in if after < length inp \<and> \<not> word_boundary (inp ! after) then parse_literal inp p
         else
           let p = skip_whitespace inp (p\<lparr>ps_pos := after, ps_case_sensitive := True\<rparr>)
           in parse_unary v inp p)"
  by pat_completeness auto

termination
  by (relation "measure (\<lambda>x. case x of
        Inl (Inl (v, inp, p)) \<Rightarrow> 4 * (130 - ps_depth p)
      | Inl (Inr (v, inp, p)) \<Rightarrow> 4 * (130 - ps_depth p) + 3
      | Inr (Inl (v, inp, p)) \<Rightarrow> 4 * (130 - ps_depth p) + 2
      | Inr (Inr (v, inp, p)) \<Rightarrow> 4 * (130 - ps_depth p) + 1)")
     (auto simp: MAX_PARSE_DEPTH_def skip_whitespace_def)

declare parse_unary.simps [simp del] parse_unary_inner.simps [simp del]
  parse_primary.simps [simp del] parse_case_modifier.simps [simp del]

section \<open>How a parser method moves the cursor\<close>

text \<open>
  A method never moves the cursor back; when it succeeds it has consumed something and stays
  within the input, and the depth counter is restored.
\<close>

definition advances :: "bytes \<Rightarrow> parser \<Rightarrow> parsed \<Rightarrow> bool" where
  "advances inp p out \<longleftrightarrow>
     (case out of
        (Inl e, p') \<Rightarrow> (\<exists>msg. e = Err (QueryParse msg))
      | (Inr q, p') \<Rightarrow> ps_pos p < ps_pos p' \<and> ps_pos p' \<le> length inp \<and> ps_depth p' = ps_depth p)"

lemma scan_while_ge [simp]: "pos \<le> scan_while ok inp pos"
  by (simp add: scan_while_def)

lemma scan_while_le [simp]: "pos \<le> length inp \<Longrightarrow> scan_while ok inp pos \<le> length inp"
  using length_takeWhile_le [of ok "drop pos inp"] by (simp add: scan_while_def)

lemma scan_while_eof: "length inp \<le> pos \<Longrightarrow> scan_while ok inp pos = pos"
  by (simp add: scan_while_def)

lemma scan_while_bound: "scan_while ok inp pos \<noteq> pos \<Longrightarrow> scan_while ok inp pos \<le> length inp"
  by (cases "pos \<le> length inp") (simp_all add: scan_while_eof)

lemma match_language_error: "match_language s = Inl e \<Longrightarrow> \<exists>msg. e = Err (QueryParse msg)"
  by (auto simp: match_language_def split: option.splits)

lemma advances_literal: "advances inp p (parse_literal inp p)"
  using scan_while_bound [of _ inp "ps_pos p"]
  by (auto simp: advances_def parse_literal_def Let_def le_neq_implies_less)

lemma advances_phrase: "advances inp p (parse_phrase inp p)"
  using scan_while_ge [of "ps_pos p + 1" "\<lambda>b. b \<noteq> CHR 0x22" inp]
  by (auto simp: advances_def parse_phrase_def Let_def simp del: scan_while_ge)

lemma advances_regex: "advances inp p (parse_regex v inp p)"
  by (auto simp: advances_def parse_regex_def Let_def is_eof_def)

lemma scan_while_past: "0 < k \<Longrightarrow> n < scan_while ok inp (n + k)"
  using scan_while_ge [of "n + k" ok inp] by linarith

lemma advances_path: "advances inp p (parse_path_filter inp p)"
  using scan_while_bound [of _ inp "ps_pos p + 5"]
  by (auto simp: advances_def parse_path_filter_def Let_def scan_while_past)

lemma advances_language: "advances inp p (parse_language_filter inp p)"
  using scan_while_bound
  by (auto simp: advances_def parse_language_filter_def Let_def scan_while_past dest: match_language_error
      split: sum.splits)

lemma advances_mono: "advances inp p out \<Longrightarrow> ps_pos p0 \<le> ps_pos p \<Longrightarrow> ps_depth p0 = ps_depth p \<Longrightarrow> advances inp p0 out"
  by (auto simp: advances_def split: prod.splits sum.splits)

lemma skip_whitespace_fields [simp]:
  "ps_pos p \<le> ps_pos (skip_whitespace inp p)"
  "ps_depth (skip_whitespace inp p) = ps_depth p"
  "ps_case_sensitive (skip_whitespace inp p) = ps_case_sensitive p"
  by (simp_all add: skip_whitespace_def)

lemma advances_methods:
  "advances inp p (parse_unary v inp p)"
  "advances inp p (parse_unary_inner v inp p)"
  "advances inp p (parse_primary v inp p)"
  "advances inp p (parse_case_modifier v inp p)"
proof (induction v inp p and v inp p and v inp p and v inp p
    rule: parse_unary_parse_unary_inner_parse_primary_parse_case_modifier.induct)
  case (1 v inp p)
  let ?p = "p\<lparr>ps_depth := ps_depth p + 1\<rparr>"
  show ?case
  proof (cases "ps_depth ?p > MAX_PARSE_DEPTH")
    case True
    then show ?thesis by (simp add: parse_unary.simps [of v inp p] Let_def advances_def)
  next
    case False
    with 1 have "advances inp ?p (parse_unary_inner v inp ?p)" by simp
    with False show ?thesis
      by (auto simp: parse_unary.simps [of v inp p] Let_def advances_def split: prod.splits sum.splits)
  qed
next
  case (2 v inp p)
  let ?p = "skip_whitespace inp p"
  let ?p' = "skip_whitespace inp (?p\<lparr>ps_pos := ps_pos ?p + 3\<rparr>)"
  show ?case
  proof (cases "starts_with_keyword inp ?p ''NOT''")
    case True
    with 2 have "advances inp ?p' (parse_unary v inp ?p')" by simp
    moreover have "ps_pos p \<le> ps_pos ?p'"
      by (rule order.trans [OF _ skip_whitespace_fields(1)]) (simp add: trans_le_add1)
    ultimately have "advances inp p (parse_unary v inp ?p')"
      by (rule advances_mono) simp
    with True show ?thesis
      by (auto simp: parse_unary_inner.simps [of v inp p] Let_def advances_def split: prod.splits sum.splits)
  next
    case False
    with 2 have "advances inp ?p (parse_primary v inp ?p)" by simp
    with False show ?thesis
      by (auto simp: parse_unary_inner.simps [of v inp p] Let_def intro: advances_mono)
  qed
next
  case (3 v inp p)
  let ?p = "skip_whitespace inp p"
  have "advances inp ?p (parse_primary v inp p)"
    using 3 advances_regex [of inp ?p v] advances_phrase [of inp ?p] advances_path [of inp ?p]
      advances_language [of inp ?p] advances_literal [of inp ?p]
    by (simp add: parse_primary.simps [of v inp p] Let_def) (simp add: advances_def)
  then show ?case by (rule advances_mono) simp_all
next
  case (4 v inp p)
  let ?after = "ps_pos p + 8"
  let ?p = "skip_whitespace inp (p\<lparr>ps_pos := ?after, ps_case_sensitive := True\<rparr>)"
  show ?case
  proof (cases "?after < length inp \<and> \<not> word_boundary (inp ! ?after)")
    case True
    then show ?thesis
      by (simp add: parse_case_modifier.simps [of v inp p] Let_def advances_literal)
  next
    case False
    with 4 have "advances inp ?p (parse_unary v inp ?p)" by simp
    moreover have "ps_pos p \<le> ps_pos ?p"
      using skip_whitespace_fields(1) [of "p\<lparr>ps_pos := ?after, ps_case_sensitive := True\<rparr>" inp] by simp
    ultimately have "advances inp p (parse_unary v inp ?p)"
      by (rule advances_mono) simp
    with False show ?thesis
      by (auto simp: parse_case_modifier.simps [of v inp p] Let_def)
  qed
qed

lemmas advances_unary = advances_methods(1)

lemma unary_progress:
  "parse_unary v inp (skip_whitespace inp p) = (Inr q, p') \<Longrightarrow>
     length inp - ps_pos p' < length inp - ps_pos p"
proof -
  assume *: "parse_unary v inp (skip_whitespace inp p) = (Inr q, p')"
  have "ps_pos p \<le> ps_pos (skip_whitespace inp p)" by simp
  also have "\<dots> < ps_pos p'"
    using advances_unary [of inp "skip_whitespace inp p" v] by (simp add: advances_def *)
  finally have "ps_pos p < ps_pos p'" .
  moreover have "ps_pos p' \<le> length inp"
    using advances_unary [of inp "skip_whitespace inp p" v] by (simp add: advances_def *)
  ultimately show "length inp - ps_pos p' < length inp - ps_pos p" by linarith
qed

section \<open>Conjunctions, disjunctions and the entry point\<close>

text \<open>
  The loop of \<open>parse_and\<close>: a term that does not parse ends the conjunction, with the position
  restored and the rest of the state as the failure left it.
\<close>

function parse_and_loop ::
  "(bytes \<Rightarrow> bool) \<Rightarrow> bytes \<Rightarrow> query list \<Rightarrow> parser \<Rightarrow> query list \<times> parser" where
  "parse_and_loop v inp children p =
     (let p = skip_whitespace inp p
      in if is_eof inp p then (children, p)
         else if starts_with_keyword inp p ''OR'' then (children, p)
         else
           let saved_pos = ps_pos p
           in case parse_unary v inp p of
                (Inr child, p) \<Rightarrow> parse_and_loop v inp (children @ [child]) p
              | (Inl e, p) \<Rightarrow> (children, p\<lparr>ps_pos := saved_pos\<rparr>))"
  by pat_completeness auto
termination
  by (relation "measure (\<lambda>(v, inp, children, p). length inp - ps_pos p)")
     (auto dest!: unary_progress unary_progress [OF sym])

declare parse_and_loop.simps [simp del]

definition parse_and :: "(bytes \<Rightarrow> bool) \<Rightarrow> bytes \<Rightarrow> parser \<Rightarrow> parsed" where
  "parse_and v inp p =
     (let p = skip_whitespace inp p
      in case parse_unary v inp p of
           (Inl e, p) \<Rightarrow> (Inl e, p)
         | (Inr first, p) \<Rightarrow>
             (case parse_and_loop v inp [first] p of
                (children, p) \<Rightarrow>
                  (if length children = 1 then (Inr (children ! 0), p)
                   else (Inr (Q_And children), p))))"

lemma parse_and_loop_le:
  "ps_pos p \<le> length inp \<Longrightarrow> parse_and_loop v inp children p = (children', p') \<Longrightarrow>
     ps_pos p \<le> ps_pos p' \<and> ps_pos p' \<le> length inp"
proof (induction v inp children p rule: parse_and_loop.induct)
  case (1 v inp children p)
  let ?p = "skip_whitespace inp p"
  have skip: "ps_pos p \<le> ps_pos ?p" "ps_pos ?p \<le> length inp"
    using "1.prems"(1) by (simp_all add: skip_whitespace_def)
  show ?case
  proof (cases "is_eof inp ?p \<or> starts_with_keyword inp ?p ''OR''")
    case True
    with "1.prems"(2) skip show ?thesis
      by (auto simp: parse_and_loop.simps [of v inp children p] Let_def split: if_splits)
  next
    case False
    obtain r p2 where u: "parse_unary v inp ?p = (r, p2)" by fastforce
    show ?thesis
    proof (cases r)
      case (Inl e)
      with "1.prems"(2) False u skip show ?thesis
        by (auto simp: parse_and_loop.simps [of v inp children p] Let_def)
    next
      case (Inr child)
      have "ps_pos ?p < ps_pos p2" and "ps_pos p2 \<le> length inp"
        using advances_unary [of inp ?p v] by (simp_all add: u Inr advances_def)
      moreover have "parse_and_loop v inp (children @ [child]) p2 = (children', p')"
        using "1.prems"(2) False u Inr
        by (simp add: parse_and_loop.simps [of v inp children p] Let_def)
      ultimately have "ps_pos p2 \<le> ps_pos p' \<and> ps_pos p' \<le> length inp"
        using "1.IH" [OF refl _ _ refl u [symmetric] Inr] False by simp
      with \<open>ps_pos ?p < ps_pos p2\<close> skip show ?thesis by (elim conjE, intro conjI; linarith)
    qed
  qed
qed

lemma parse_and_advances:
  assumes "parse_and v inp p = (Inr q, p')"
  shows "ps_pos p < ps_pos p' \<and> ps_pos p' \<le> length inp"
proof -
  let ?p = "skip_whitespace inp p"
  obtain first p1 where u: "parse_unary v inp ?p = (Inr first, p1)"
    using assms by (auto simp: parse_and_def Let_def split: prod.splits sum.splits)
  obtain cs p2 where l: "parse_and_loop v inp [first] p1 = (cs, p2)" by fastforce
  have "p' = p2"
    using assms u l by (auto simp: parse_and_def Let_def split: if_splits)
  moreover have "ps_pos ?p < ps_pos p1" and "ps_pos p1 \<le> length inp"
    using advances_unary [of inp ?p v] by (simp_all add: u advances_def)
  moreover have "ps_pos p \<le> ps_pos ?p" by simp
  moreover have "ps_pos p1 \<le> ps_pos p2 \<and> ps_pos p2 \<le> length inp"
    using \<open>ps_pos p1 \<le> length inp\<close> by (rule parse_and_loop_le [OF _ l])
  ultimately show ?thesis by (elim conjE, intro conjI) (simp_all only:, linarith)
qed

lemma or_progress:
  assumes "parse_and v inp (skip_whitespace inp
      ((skip_whitespace inp p)\<lparr>ps_pos := Suc (Suc (ps_pos (skip_whitespace inp p)))\<rparr>)) = (Inr q, p')"
  shows "length inp - ps_pos p' < length inp - ps_pos p"
proof -
  let ?q = "(skip_whitespace inp p)\<lparr>ps_pos := Suc (Suc (ps_pos (skip_whitespace inp p)))\<rparr>"
  have "ps_pos p \<le> ps_pos (skip_whitespace inp p)" by simp
  also have "\<dots> \<le> ps_pos ?q" by simp
  also have "\<dots> \<le> ps_pos (skip_whitespace inp ?q)" by (rule skip_whitespace_fields)
  also have "\<dots> < ps_pos p'"
    using parse_and_advances [OF assms] by simp
  finally show ?thesis
    using parse_and_advances [OF assms] by linarith
qed

function parse_or_loop ::
  "(bytes \<Rightarrow> bool) \<Rightarrow> bytes \<Rightarrow> query \<Rightarrow> parser \<Rightarrow> parsed" where
  "parse_or_loop v inp left p =
     (let p = skip_whitespace inp p
      in if starts_with_keyword inp p ''OR'' then
           (let p = skip_whitespace inp (p\<lparr>ps_pos := ps_pos p + 2\<rparr>)
            in case parse_and v inp p of
                 (Inl e, p) \<Rightarrow> (Inl e, p)
               | (Inr right, p) \<Rightarrow> parse_or_loop v inp (Q_Or left right) p)
         else (Inr left, p))"
  by pat_completeness auto
termination
  by (relation "measure (\<lambda>(v, inp, left, p). length inp - ps_pos p)")
     (auto dest!: or_progress or_progress [OF sym])

declare parse_or_loop.simps [simp del]

definition parse_or :: "(bytes \<Rightarrow> bool) \<Rightarrow> bytes \<Rightarrow> parser \<Rightarrow> parsed" where
  "parse_or v inp p =
     (case parse_and v inp p of
        (Inl e, p) \<Rightarrow> (Inl e, p)
      | (Inr left, p) \<Rightarrow> parse_or_loop v inp left p)"

text \<open>\<open>char::is_whitespace\<close>: the code points with the Unicode property \<open>White_Space\<close>.\<close>

definition is_unicode_whitespace :: "nat \<Rightarrow> bool" where
  "is_unicode_whitespace c =
     ((9 \<le> c \<and> c \<le> 13) \<or> c = 0x20 \<or> c = 0x85 \<or> c = 0xA0 \<or> c = 0x1680 \<or>
      (0x2000 \<le> c \<and> c \<le> 0x200A) \<or> c = 0x2028 \<or> c = 0x2029 \<or> c = 0x202F \<or> c = 0x205F \<or> c = 0x3000)"

definition trim_is_empty :: "text_utf8 \<Rightarrow> bool" where
  "trim_is_empty s =
     (case utf8_decode s of None \<Rightarrow> False | Some cs \<Rightarrow> list_all is_unicode_whitespace cs)"

definition parse_query :: "(bytes \<Rightarrow> bool) \<Rightarrow> text_utf8 \<Rightarrow> query result" where
  "parse_query v inp =
     (if trim_is_empty inp then Inl (Err (QueryParse ''empty query''))
      else case parse_or v inp parser_new of
        (Inl e, p) \<Rightarrow> Inl e
      | (Inr query, p) \<Rightarrow>
          (let p = skip_whitespace inp p
           in if \<not> is_eof inp p then Inl (Err (QueryParse ''unexpected input at position ''))
              else Inr query))"

section \<open>The printer\<close>

fun intersperse_spaces :: "bytes list \<Rightarrow> bytes" where
  "intersperse_spaces [] = []"
| "intersperse_spaces [x] = x"
| "intersperse_spaces (x # y # ys) = x @ '' '' @ intersperse_spaces (y # ys)"

fun display_query :: "query \<Rightarrow> text_utf8" where
  "display_query (Q_Literal l) =
     (if lq_case_sensitive l then ''case:'' @ lq_text l else lq_text l)"
| "display_query (Q_Regex r) = ''/'' @ rq_pattern r @ ''/''"
| "display_query (Q_Phrase p) = [CHR 0x22] @ pq_text p @ [CHR 0x22]"
| "display_query (Q_PathFilter p) = ''path:'' @ p"
| "display_query (Q_LanguageFilter l) = ''language:'' @ display_language l"
| "display_query (Q_Not q) = ''NOT '' @ display_query q"
| "display_query (Q_Or a b) = display_query a @ '' OR '' @ display_query b"
| "display_query (Q_And qs) = intersperse_spaces (map display_query qs)"

end
