(* ===== verification/Query_Parse.thy ===== *)
theory Query_Parse
  imports Query
begin

text \<open>
  Correctness of the query parser: it never panics, and it inverts the printer on the queries whose
  printed form is unambiguous (\<open>printable\<close>). The proofs follow the input as the suffix that
  remains at the cursor.
\<close>

section \<open>The remaining input\<close>

definition at_suffix :: "bytes \<Rightarrow> parser \<Rightarrow> bytes \<Rightarrow> bool" where
  "at_suffix inp p s \<longleftrightarrow> ps_pos p \<le> length inp \<and> drop (ps_pos p) inp = s"

lemma at_suffix_length: "at_suffix inp p s \<Longrightarrow> length inp = ps_pos p + length s"
  by (auto simp: at_suffix_def)

lemma at_suffix_advance:
  assumes "at_suffix inp p (t @ s)"
  shows "at_suffix inp (p\<lparr>ps_pos := ps_pos p + length t\<rparr>) s"
proof -
  have "drop (length t) (drop (ps_pos p) inp) = s"
    using assms by (simp add: at_suffix_def)
  then have "drop (ps_pos p + length t) inp = s"
    by (simp only: drop_drop add.commute)
  then show ?thesis
    using at_suffix_length [OF assms] by (simp add: at_suffix_def)
qed

lemma at_suffix_step:
  "at_suffix inp p (t @ s) \<Longrightarrow> length t = k \<Longrightarrow> at_suffix inp (p\<lparr>ps_pos := ps_pos p + k\<rparr>) s"
  using at_suffix_advance by blast

lemma at_suffix_nth: "at_suffix inp p s \<Longrightarrow> i < length s \<Longrightarrow> inp ! (ps_pos p + i) = s ! i"
  by (auto simp: at_suffix_def)

lemma at_suffix_slice: "at_suffix inp p (t @ s) \<Longrightarrow> slice (ps_pos p) (ps_pos p + length t) inp = t"
  by (simp add: at_suffix_def slice_def)

lemma at_suffix_eof: "at_suffix inp p s \<Longrightarrow> is_eof inp p \<longleftrightarrow> s = []"
  using at_suffix_length [of inp p s] by (auto simp: is_eof_def)

lemma at_suffix_starts: "at_suffix inp p s \<Longrightarrow> starts_with inp p kw \<longleftrightarrow> prefix kw s"
  by (simp add: at_suffix_def starts_with_def)

lemma at_suffix_fields [simp]:
  "at_suffix inp (p\<lparr>ps_depth := d\<rparr>) s \<longleftrightarrow> at_suffix inp p s"
  "at_suffix inp (p\<lparr>ps_case_sensitive := c\<rparr>) s \<longleftrightarrow> at_suffix inp p s"
  by (simp_all add: at_suffix_def)

lemma scan_while_suffix:
  "at_suffix inp p s \<Longrightarrow> scan_while ok inp (ps_pos p) = ps_pos p + length (takeWhile ok s)"
  by (simp add: at_suffix_def scan_while_def)

lemma takeWhile_run:
  assumes "list_all ok t" and "s = [] \<or> \<not> ok (s ! 0)"
  shows "takeWhile ok (t @ s) = t"
  using assms by (cases s) (auto simp: list_all_iff takeWhile_append2)

lemma skip_whitespace_suffix:
  assumes "at_suffix inp p s" and "s = [] \<or> \<not> is_ascii_whitespace (s ! 0)"
  shows "skip_whitespace inp p = p"
  using assms takeWhile_run [of is_ascii_whitespace "[]" s]
  by (simp add: skip_whitespace_def scan_while_suffix)

lemma skip_one_space:
  assumes "at_suffix inp p (CHR '' '' # s)" and "s = [] \<or> \<not> is_ascii_whitespace (s ! 0)"
  shows "skip_whitespace inp p = p\<lparr>ps_pos := ps_pos p + 1\<rparr>"
  using takeWhile_run [of is_ascii_whitespace "'' ''" s] assms
  by (simp add: skip_whitespace_def scan_while_suffix is_ascii_whitespace_def)

lemma keyword_suffix:
  "at_suffix inp p s \<Longrightarrow> starts_with_keyword inp p kw \<longleftrightarrow>
     prefix kw s \<and> (length s = length kw \<or> word_boundary (s ! length kw))"
  using at_suffix_length [of inp p s] at_suffix_nth [of inp p s "length kw"]
    prefix_length_le [of kw s]
  by (auto simp: starts_with_keyword_def at_suffix_starts Let_def)

text \<open>A boundary: the end of the input or a byte that ends a word.\<close>

abbreviation ends_word :: "bytes \<Rightarrow> bool" where
  "ends_word s \<equiv> s = [] \<or> is_ascii_whitespace (s ! 0)"

lemma prefix_nonboundary:
  assumes "prefix kw (t @ s)" and "list_all (\<lambda>b. \<not> word_boundary b) kw" and "ends_word s"
  shows "prefix kw t"
proof (rule ccontr)
  assume "\<not> prefix kw t"
  with assms(1) obtain us where us: "kw = t @ us" "prefix us s" "us \<noteq> []"
    by (auto simp: prefix_append)
  then have "s \<noteq> []" and "us ! 0 = s ! 0"
    by (auto simp: prefix_def nth_append)
  with assms(3) have "word_boundary (us ! 0)" by (simp add: word_boundary_def)
  moreover have "us ! 0 \<in> set kw" using us by simp
  ultimately show False
    using assms(2) by (auto simp: list_all_iff)
qed

lemma no_keyword:
  assumes "at_suffix inp p (t @ s)" and "list_all (\<lambda>b. \<not> word_boundary b) t" and "t \<noteq> kw"
    and "list_all (\<lambda>b. \<not> word_boundary b) kw" and "ends_word s"
  shows "\<not> starts_with_keyword inp p kw"
proof
  assume "starts_with_keyword inp p kw"
  then have pre: "prefix kw (t @ s)"
      and after: "length (t @ s) = length kw \<or> word_boundary ((t @ s) ! length kw)"
    using keyword_suffix [OF assms(1)] by auto
  from prefix_nonboundary [OF pre assms(4,5)] obtain u where u: "t = kw @ u" "u \<noteq> []"
    using assms(3) by (auto simp: prefix_def)
  with after have "word_boundary (t ! length kw)"
    by (auto simp: nth_append)
  moreover have "t ! length kw \<in> set t" using u by (intro nth_mem) simp
  ultimately show False using assms(2) by (auto simp: list_all_iff)
qed

section \<open>The first character\<close>

lemma utf8_next_ascii: "utf8_next (b # r) = Some (c, n) \<Longrightarrow> c < 128 \<Longrightarrow> byte_val b = c"
  by (auto simp: utf8_next_def Let_def second_ok_def second_range_def split: list.splits if_splits)

lemma peek_suffix: "at_suffix inp p s \<Longrightarrow> peek inp p = map_option fst (utf8_next s)"
  by (simp add: at_suffix_def peek_def)

lemma peek_ascii:
  "at_suffix inp p (b # s) \<Longrightarrow> byte_val b < 128 \<Longrightarrow> peek inp p = Some (byte_val b)"
  by (simp add: peek_suffix utf8_next_def)

lemma peek_other:
  assumes "at_suffix inp p (b # s)" and "byte_val b \<noteq> c" and "c < 128"
  shows "peek inp p \<noteq> Some c"
  using assms utf8_next_ascii [of b s c] by (auto simp: peek_suffix)

section \<open>Printable queries\<close>

abbreviation plain_byte :: "u8 \<Rightarrow> bool" where
  "plain_byte b \<equiv> \<not> word_boundary b"

definition literal_ok :: "bytes \<Rightarrow> bool" where
  "literal_ok t \<longleftrightarrow>
     t \<noteq> [] \<and> list_all plain_byte t \<and> t \<noteq> ''NOT'' \<and> t \<noteq> ''OR'' \<and> t \<noteq> ''case:yes'' \<and>
     \<not> prefix ''path:'' t \<and> \<not> prefix ''language:'' t \<and> \<not> prefix ''lang:'' t"

definition language_printable :: "language \<Rightarrow> bool" where
  "language_printable l \<longleftrightarrow> l \<noteq> Lang_PlainText \<and> l \<noteq> Lang_Unknown"

text \<open>The three levels of the grammar.\<close>

fun unary_printable :: "(bytes \<Rightarrow> bool) \<Rightarrow> query \<Rightarrow> bool" where
  "unary_printable v (Q_Literal l) = (literal_ok (lq_text l) \<and> \<not> lq_case_sensitive l)"
| "unary_printable v (Q_Regex r) =
     (v (rq_pattern r) \<and> rq_case_sensitive r \<and>
      regex_scan (rq_pattern r @ ''/'') = length (rq_pattern r))"
| "unary_printable v (Q_Phrase p) = (list_all (\<lambda>b. b \<noteq> CHR 0x22) (pq_text p) \<and> \<not> pq_case_sensitive p)"
| "unary_printable v (Q_PathFilter p) = (p \<noteq> [] \<and> list_all (\<lambda>b. \<not> is_ascii_whitespace b) p)"
| "unary_printable v (Q_LanguageFilter l) = language_printable l"
| "unary_printable v (Q_Not q) = unary_printable v q"
| "unary_printable v (Q_Or a b) = False"
| "unary_printable v (Q_And qs) = False"

fun nesting :: "query \<Rightarrow> nat" where
  "nesting (Q_Not q) = Suc (nesting q)"
| "nesting q = 0"

definition unary_ok :: "(bytes \<Rightarrow> bool) \<Rightarrow> query \<Rightarrow> bool" where
  "unary_ok v q \<longleftrightarrow> unary_printable v q \<and> nesting q < MAX_PARSE_DEPTH"

definition and_ok :: "(bytes \<Rightarrow> bool) \<Rightarrow> query \<Rightarrow> bool" where
  "and_ok v q \<longleftrightarrow>
     (case q of Q_And qs \<Rightarrow> 2 \<le> length qs \<and> list_all (unary_ok v) qs | _ \<Rightarrow> unary_ok v q)"

fun printable :: "(bytes \<Rightarrow> bool) \<Rightarrow> query \<Rightarrow> bool" where
  "printable v (Q_Or a b) = (printable v a \<and> and_ok v b)"
| "printable v q = and_ok v q"

section \<open>Primary terms\<close>

lemma parse_literal_suffix:
  assumes "at_suffix inp p (t @ s)" and "t \<noteq> []" and "list_all plain_byte t" and "ends_word s"
  shows "parse_literal inp p =
    (Inr (Q_Literal \<lparr>lq_text = t, lq_case_sensitive = ps_case_sensitive p\<rparr>),
     p\<lparr>ps_pos := ps_pos p + length t, ps_case_sensitive := False\<rparr>)"
proof -
  have "takeWhile plain_byte (t @ s) = t"
    using assms(3,4) by (intro takeWhile_run) (auto simp: word_boundary_def)
  then have "scan_while plain_byte inp (ps_pos p) = ps_pos p + length t"
    using scan_while_suffix [OF assms(1)] by simp
  then show ?thesis
    using assms(2) at_suffix_slice [OF assms(1)] by (simp add: parse_literal_def Let_def)
qed

lemma parse_phrase_suffix:
  assumes "at_suffix inp p ([CHR 0x22] @ t @ [CHR 0x22] @ s)" and "list_all (\<lambda>b. b \<noteq> CHR 0x22) t"
  shows "parse_phrase inp p =
    (Inr (Q_Phrase \<lparr>pq_text = t, pq_case_sensitive = ps_case_sensitive p\<rparr>),
     p\<lparr>ps_pos := ps_pos p + length t + 2, ps_case_sensitive := False\<rparr>)"
proof -
  have a: "at_suffix inp (p\<lparr>ps_pos := ps_pos p + 1\<rparr>) (t @ [CHR 0x22] @ s)"
    using at_suffix_advance [of inp p "[CHR 0x22]"] assms(1) by simp
  have "takeWhile (\<lambda>b. b \<noteq> CHR 0x22) (t @ [CHR 0x22] @ s) = t"
    using assms(2) by (intro takeWhile_run) auto
  then have "scan_while (\<lambda>b. b \<noteq> CHR 0x22) inp (ps_pos p + 1) = ps_pos p + 1 + length t"
    using scan_while_suffix [OF a] by simp
  then show ?thesis
    using at_suffix_slice [OF a] at_suffix_length [OF assms(1)]
    by (simp add: parse_phrase_def Let_def)
qed

lemma utf8_next_append: "utf8_next s = Some r \<Longrightarrow> utf8_next (s @ t) = Some r"
  by (cases s) (auto simp: utf8_next_def Let_def split: list.splits if_splits)

text \<open>A scan that ends at a slash of its own ends there whatever follows.\<close>

lemma regex_scan_append:
  "regex_scan s = k \<Longrightarrow> k < length s \<Longrightarrow> s ! k = CHR ''/'' \<Longrightarrow> regex_scan (s @ t) = k"
proof (induction s arbitrary: k rule: regex_scan.induct)
  case (1 s)
  show ?case
  proof (cases "utf8_next s")
    case None
    with "1.prems" have "k = 0" by (simp add: regex_scan.simps [of s])
    with "1.prems" None show ?thesis
      by (cases s) (simp_all add: utf8_next_def)
  next
    case (Some cn)
    obtain c n where cn: "utf8_next s = Some (c, n)" using Some by (cases cn) auto
    then have n: "0 < n" "n \<le> length s" using utf8_next_bounds by auto
    consider "c = 47" | "c = 92" | "c \<noteq> 47" "c \<noteq> 92" by blast
    then show ?thesis
    proof cases
      case 1
      with cn "1.prems" show ?thesis
        by (simp add: regex_scan.simps [of s] regex_scan.simps [of "s @ t"] utf8_next_append)
    next
      case 2
      show ?thesis
      proof (cases "utf8_next (drop n s)")
        case None
        with cn 2 "1.prems" have "k = n" by (simp add: regex_scan.simps [of s])
        with "1.prems" have "drop n s = CHR ''/'' # drop (Suc n) s"
          by (metis Cons_nth_drop_Suc)
        with None show ?thesis by (simp add: utf8_next_def)
      next
        case (Some em)
        obtain e m where em: "utf8_next (drop n s) = Some (e, m)" using Some by (cases em) auto
        then have m: "0 < m" "m \<le> length s - n" using utf8_next_bounds [OF em] by simp_all
        have k: "k = n + m + regex_scan (drop m (drop n s))"
          using "1.prems"(1) cn em 2 by (simp add: regex_scan.simps [of s])
        have "regex_scan (drop m (drop n s) @ t) = regex_scan (drop m (drop n s))"
          using "1.IH"(1) [OF cn refl _ 2 em refl refl] "1.prems" m n k 2
          by (simp add: add.commute add.left_commute)
        moreover have "drop n (s @ t) = drop n s @ t" "drop m (drop n s @ t) = drop m (drop n s) @ t"
          using n m by simp_all
        ultimately show ?thesis
          using k cn em 2 utf8_next_append
          by (simp add: regex_scan.simps [of "s @ t"])
      qed
    next
      case 3
      have k: "k = n + regex_scan (drop n s)"
        using "1.prems"(1) cn 3 by (simp add: regex_scan.simps [of s])
      have "regex_scan (drop n s @ t) = regex_scan (drop n s)"
        using "1.IH"(2) [OF cn refl] "1.prems" n k 3 by simp
      then show ?thesis
        using k cn 3 n utf8_next_append [OF cn]
        by (simp add: regex_scan.simps [of "s @ t"])
    qed
  qed
qed

lemma parse_regex_suffix:
  assumes "at_suffix inp p (''/'' @ t @ ''/'' @ s)" and "v t" and "regex_scan (t @ ''/'') = length t"
    and "\<not> ps_case_sensitive p"
  shows "parse_regex v inp p =
    (Inr (Q_Regex \<lparr>rq_pattern = t, rq_case_sensitive = True\<rparr>), p\<lparr>ps_pos := ps_pos p + length t + 2\<rparr>)"
proof -
  have a: "at_suffix inp (p\<lparr>ps_pos := ps_pos p + 1\<rparr>) (t @ ''/'' @ s)"
    using at_suffix_advance [of inp p "''/''"] assms(1) by simp
  have "regex_scan ((t @ ''/'') @ s) = length t"
    by (rule regex_scan_append [OF assms(3)]) simp_all
  then have scan: "regex_scan (drop (ps_pos p + 1) inp) = length t"
    using a by (simp add: at_suffix_def)
  then show ?thesis
    using assms(2,4) at_suffix_slice [OF a] at_suffix_length [OF assms(1)]
    by (simp add: parse_regex_def Let_def is_eof_def)
qed

lemma scan_word:
  assumes "at_suffix inp p (pre @ t @ s)" and "list_all (\<lambda>b. \<not> is_ascii_whitespace b) t" and "ends_word s"
    and "length pre = k"
  shows "scan_while (\<lambda>b. \<not> is_ascii_whitespace b) inp (ps_pos p + k) = ps_pos p + k + length t"
    and "slice (ps_pos p + k) (ps_pos p + k + length t) inp = t"
proof -
  have a: "at_suffix inp (p\<lparr>ps_pos := ps_pos p + k\<rparr>) (t @ s)"
    using at_suffix_advance [OF assms(1)] assms(4) by simp
  have "takeWhile (\<lambda>b. \<not> is_ascii_whitespace b) (t @ s) = t"
    using assms(2,3) by (intro takeWhile_run) auto
  then show "scan_while (\<lambda>b. \<not> is_ascii_whitespace b) inp (ps_pos p + k) = ps_pos p + k + length t"
    using scan_while_suffix [OF a] by simp
  show "slice (ps_pos p + k) (ps_pos p + k + length t) inp = t"
    using at_suffix_slice [OF a] by simp
qed

lemma parse_path_suffix:
  assumes "at_suffix inp p (''path:'' @ t @ s)" and "t \<noteq> []"
    and "list_all (\<lambda>b. \<not> is_ascii_whitespace b) t" and "ends_word s"
  shows "parse_path_filter inp p = (Inr (Q_PathFilter t), p\<lparr>ps_pos := ps_pos p + 5 + length t\<rparr>)"
  using scan_word [OF assms(1,3,4), of 5] assms(2) by (simp add: parse_path_filter_def Let_def)

lemma language_words:
  "language_printable l \<Longrightarrow> match_language (display_language l) = Inr l \<and>
     display_language l \<noteq> [] \<and> list_all (\<lambda>b. \<not> is_ascii_whitespace b) (display_language l)"
  using match_language_display [of l]
  by (cases l) (simp_all add: language_printable_def is_ascii_whitespace_def)

lemma parse_language_suffix:
  assumes "at_suffix inp p (''language:'' @ display_language l @ s)" and "language_printable l" and "ends_word s"
  shows "parse_language_filter inp p
    = (Inr (Q_LanguageFilter l), p\<lparr>ps_pos := ps_pos p + 9 + length (display_language l)\<rparr>)"
proof -
  note words = language_words [OF assms(2)]
  have "starts_with inp p ''language:''"
    using at_suffix_starts [OF assms(1)] by simp
  then show ?thesis
    using scan_word [OF assms(1) _ assms(3), of 9] words
    by (simp add: parse_language_filter_def Let_def)
qed

lemma whitespace_facts [simp]:
  "\<not> is_ascii_whitespace (CHR ''/'')" "\<not> is_ascii_whitespace (CHR 0x22)" "\<not> is_ascii_whitespace (CHR ''p'')"
  "\<not> is_ascii_whitespace (CHR ''l'')" "\<not> is_ascii_whitespace (CHR ''N'')" "is_ascii_whitespace (CHR '' '')"
  "\<not> is_ascii_whitespace (CHR ''O'')" "\<not> is_ascii_whitespace (CHR ''c'')"
  by (simp_all add: is_ascii_whitespace_def)

lemma literal_head:
  assumes "literal_ok t"
  obtains b r where "t = b # r" "\<not> word_boundary b" "\<not> is_ascii_whitespace b"
  using assms by (cases t) (auto simp: literal_ok_def word_boundary_def)

lemma display_head: "unary_printable v q \<Longrightarrow> \<exists>b r. display_query q = b # r \<and> \<not> is_ascii_whitespace b"
proof (induction v q rule: unary_printable.induct)
  case (1 v l)
  then show ?case by (auto elim: literal_head)
qed simp_all

text \<open>A printed term at the cursor parses as that term and is consumed exactly.\<close>

lemma parse_primary_literal:
  assumes at: "at_suffix inp p (t @ s)" and ok: "literal_ok t" and ends: "ends_word s"
  shows "parse_primary v inp p =
    (Inr (Q_Literal \<lparr>lq_text = t, lq_case_sensitive = ps_case_sensitive p\<rparr>),
     p\<lparr>ps_pos := ps_pos p + length t, ps_case_sensitive := False\<rparr>)"
proof -
  obtain b r where b: "t = b # r" "\<not> word_boundary b" "\<not> is_ascii_whitespace b"
    using literal_head [OF ok] .
  have plain: "t \<noteq> []" "list_all plain_byte t"
    using ok by (simp_all add: literal_ok_def)
  have skip: "skip_whitespace inp p = p"
    using at b by (intro skip_whitespace_suffix) auto
  have eof: "\<not> is_eof inp p"
    using at_suffix_eof [OF at] b by simp
  have "byte_val (CHR ''/'') = 47" and "byte_val (CHR 0x22) = 34"
    by simp_all
  then have "byte_val b \<noteq> 47" and "byte_val b \<noteq> 34"
    using b(2) unfolding word_boundary_def by (metis of_char_eq_iff)+
  then have peek: "peek inp p \<noteq> Some 47" "peek inp p \<noteq> Some 34"
    using at b peek_other [of inp p b "r @ s"] by simp_all
  have pre: "\<not> starts_with inp p kw"
    if "\<not> prefix kw t" and "list_all plain_byte kw" for kw
    using at_suffix_starts [OF at] prefix_nonboundary [of kw t s] that ends by blast
  have kws: "list_all plain_byte ''path:''" "list_all plain_byte ''language:''" "list_all plain_byte ''lang:''"
      "list_all plain_byte ''case:yes''"
    by (simp_all add: word_boundary_def is_ascii_whitespace_def)
  have lit: "parse_literal inp p =
      (Inr (Q_Literal \<lparr>lq_text = t, lq_case_sensitive = ps_case_sensitive p\<rparr>),
       p\<lparr>ps_pos := ps_pos p + length t, ps_case_sensitive := False\<rparr>)"
    by (rule parse_literal_suffix [OF at plain ends])
  have case_mod: "parse_case_modifier v inp p = parse_literal inp p" if "starts_with inp p ''case:yes''"
  proof -
    have "prefix ''case:yes'' t"
      using that at_suffix_starts [OF at] prefix_nonboundary [OF _ kws(4) ends] by blast
    then obtain u where u: "t = ''case:yes'' @ u" by (auto simp: prefix_def)
    with ok have "u \<noteq> []" by (auto simp: literal_ok_def)
    then obtain x y where xy: "u = x # y" by (cases u) auto
    then have "inp ! (ps_pos p + 8) = x" and "ps_pos p + 8 < length inp"
      using at_suffix_nth [OF at, of 8] at_suffix_length [OF at] u by simp_all
    moreover have "\<not> word_boundary x"
      using plain(2) u xy by simp
    ultimately show ?thesis
      by (simp add: parse_case_modifier.simps Let_def)
  qed
  have "\<not> starts_with inp p ''path:''" "\<not> starts_with inp p ''language:''" "\<not> starts_with inp p ''lang:''"
    using ok kws by (simp_all add: pre literal_ok_def)
  then show ?thesis
    using peek eof case_mod lit by (simp add: parse_primary.simps [of v inp p] Let_def skip)
qed

lemma parse_primary_other:
  assumes at: "at_suffix inp p (display_query q @ s)" and ok: "unary_printable v q" and ends: "ends_word s"
    and cs: "\<not> ps_case_sensitive p" and q: "\<not> (\<exists>r. q = Q_Not r)"
  shows "parse_primary v inp p = (Inr q, p\<lparr>ps_pos := ps_pos p + length (display_query q)\<rparr>)"
proof -
  obtain b r where b: "display_query q = b # r" "\<not> is_ascii_whitespace b"
    using display_head [OF ok] by blast
  have skip: "skip_whitespace inp p = p"
    using at b by (intro skip_whitespace_suffix) auto
  have eof: "\<not> is_eof inp p"
    using at_suffix_eof [OF at] b by simp
  note primary = parse_primary.simps [of v inp p] Let_def skip eof
  show ?thesis
  proof (cases q)
    case (Q_Literal l)
    moreover have "l = \<lparr>lq_text = lq_text l, lq_case_sensitive = False\<rparr>"
      using ok Q_Literal by simp
    moreover have "p\<lparr>ps_pos := n, ps_case_sensitive := False\<rparr> = p\<lparr>ps_pos := n\<rparr>" for n
      using cs by (cases p) simp
    ultimately show ?thesis
      using parse_primary_literal [of inp p "lq_text l" s v] at ok ends cs by simp
  next
    case (Q_Regex x)
    then have at': "at_suffix inp p (''/'' @ rq_pattern x @ ''/'' @ s)"
      using at by simp
    moreover have "peek inp p = Some 47"
      using peek_ascii [of inp p "CHR ''/''"] at' by simp
    moreover have "x = \<lparr>rq_pattern = rq_pattern x, rq_case_sensitive = True\<rparr>"
      using ok Q_Regex by simp
    ultimately show ?thesis
      using parse_regex_suffix [OF at', of v] ok cs Q_Regex by (simp add: primary)
  next
    case (Q_Phrase x)
    then have at': "at_suffix inp p ([CHR 0x22] @ pq_text x @ [CHR 0x22] @ s)"
      using at by simp
    moreover have "peek inp p = Some 34"
      using peek_ascii [of inp p "CHR 0x22"] at' by simp
    moreover have "x = \<lparr>pq_text = pq_text x, pq_case_sensitive = False\<rparr>"
      using ok Q_Phrase by simp
    moreover have "p\<lparr>ps_pos := n, ps_case_sensitive := False\<rparr> = p\<lparr>ps_pos := n\<rparr>" for n
      using cs by (cases p) simp
    ultimately show ?thesis
      using parse_phrase_suffix [OF at'] ok cs Q_Phrase by (simp add: primary)
  next
    case (Q_PathFilter x)
    then have at': "at_suffix inp p (''path:'' @ x @ s)"
      using at by simp
    moreover have "peek inp p = Some 112"
      using peek_ascii [of inp p "CHR ''p''"] at' by simp
    moreover have "starts_with inp p ''path:''"
      using at_suffix_starts [OF at'] by simp
    ultimately show ?thesis
      using parse_path_suffix [OF at' _ _ ends] ok Q_PathFilter by (simp add: primary)
  next
    case (Q_LanguageFilter x)
    then have at': "at_suffix inp p (''language:'' @ display_language x @ s)"
      using at by simp
    moreover have "peek inp p = Some 108"
      using peek_ascii [of inp p "CHR ''l''"] at' by simp
    moreover have "starts_with inp p ''language:''" "\<not> starts_with inp p ''path:''"
      using at_suffix_starts [OF at'] by simp_all
    ultimately show ?thesis
      using parse_language_suffix [OF at' _ ends] ok Q_LanguageFilter by (simp add: primary)
  qed (use ok q in auto)
qed

lemma not_keyword_display:
  assumes at: "at_suffix inp p (display_query q @ s)" and ok: "unary_printable v q" and ends: "ends_word s"
    and kw: "kw = ''OR'' \<or> kw = ''NOT'' \<and> \<not> (\<exists>r. q = Q_Not r)"
  shows "\<not> starts_with_keyword inp p kw"
proof (cases q)
  case (Q_Literal l)
  then have "at_suffix inp p (lq_text l @ s)" "literal_ok (lq_text l)"
    using at ok by simp_all
  then show ?thesis
    using kw ends
    by (intro no_keyword [of inp p "lq_text l" s]) (auto simp: literal_ok_def word_boundary_def is_ascii_whitespace_def)
qed (use keyword_suffix [OF at] kw ok in auto)

text \<open>One step of the depth counter around \<open>parse_unary_inner\<close>.\<close>

lemma parse_unary_depth:
  assumes "p1 = p\<lparr>ps_depth := ps_depth p + 1\<rparr>" and "ps_depth p < MAX_PARSE_DEPTH"
    and "parse_unary_inner v inp p1 = (Inr q, p1\<lparr>ps_pos := n\<rparr>)"
  shows "parse_unary v inp p = (Inr q, p\<lparr>ps_pos := n\<rparr>)"
  using assms by (simp add: parse_unary.simps [of v inp p] Let_def)

lemma parse_unary_primary:
  assumes "at_suffix inp p (display_query q @ s)" and "unary_printable v q" and "ends_word s"
    and "\<not> ps_case_sensitive p" and "ps_depth p < MAX_PARSE_DEPTH" and "\<not> (\<exists>r. q = Q_Not r)"
  shows "parse_unary v inp p = (Inr q, p\<lparr>ps_pos := ps_pos p + length (display_query q)\<rparr>)"
proof -
  define p1 where "p1 = p\<lparr>ps_depth := ps_depth p + 1\<rparr>"
  have at: "at_suffix inp p1 (display_query q @ s)" and p1: "ps_pos p1 = ps_pos p" "\<not> ps_case_sensitive p1"
    using assms(1,4) by (simp_all add: p1_def)
  obtain b r where b: "display_query q = b # r" "\<not> is_ascii_whitespace b"
    using display_head [OF assms(2)] by blast
  have skip: "skip_whitespace inp p1 = p1"
    using at b by (intro skip_whitespace_suffix) auto
  have "\<not> starts_with_keyword inp p1 ''NOT''"
    using not_keyword_display [OF at assms(2,3)] assms(6) by simp
  then have "parse_unary_inner v inp p1 = (Inr q, p1\<lparr>ps_pos := ps_pos p + length (display_query q)\<rparr>)"
    using parse_primary_other [OF at assms(2,3) p1(2) assms(6)] p1(1)
    by (simp add: parse_unary_inner.simps [of v inp p1] Let_def skip)
  then show ?thesis
    by (rule parse_unary_depth [OF p1_def assms(5)])
qed

lemma parse_unary_suffix:
  "at_suffix inp p (display_query q @ s) \<Longrightarrow> unary_printable v q \<Longrightarrow> ends_word s \<Longrightarrow>
     \<not> ps_case_sensitive p \<Longrightarrow> ps_depth p + nesting q < MAX_PARSE_DEPTH \<Longrightarrow>
     parse_unary v inp p = (Inr q, p\<lparr>ps_pos := ps_pos p + length (display_query q)\<rparr>)"
proof (induction q arbitrary: p)
  case (Q_Not q)
  define p1 where "p1 = p\<lparr>ps_depth := ps_depth p + 1\<rparr>"
  have at: "at_suffix inp p1 (''NOT'' @ '' '' @ display_query q @ s)"
    and p1: "ps_pos p1 = ps_pos p" "\<not> ps_case_sensitive p1" "ps_depth p1 = ps_depth p + 1"
    using Q_Not.prems(1,4) by (simp_all add: p1_def)
  obtain b r where b: "display_query q = b # r" "\<not> is_ascii_whitespace b"
    using display_head [of v q] Q_Not.prems(2) by auto
  have skip: "skip_whitespace inp p1 = p1"
    by (rule skip_whitespace_suffix [OF at]) simp
  have kw: "starts_with_keyword inp p1 ''NOT''"
    using keyword_suffix [OF at] by (simp add: word_boundary_def)
  define p3 where "p3 = p1\<lparr>ps_pos := ps_pos p1 + 3\<rparr>"
  have at3: "at_suffix inp p3 ('' '' @ display_query q @ s)"
    unfolding p3_def by (rule at_suffix_step [OF at]) simp
  then have skip3: "skip_whitespace inp p3 = p3\<lparr>ps_pos := ps_pos p3 + 1\<rparr>"
    using skip_one_space [of inp p3 "display_query q @ s"] b by simp
  define p4 where "p4 = p3\<lparr>ps_pos := ps_pos p3 + 1\<rparr>"
  have at4: "at_suffix inp p4 (display_query q @ s)"
    unfolding p4_def by (rule at_suffix_step [OF at3]) simp
  have "parse_unary v inp p4 = (Inr q, p4\<lparr>ps_pos := ps_pos p4 + length (display_query q)\<rparr>)"
    using Q_Not.prems p1 by (intro Q_Not.IH at4) (simp_all add: p4_def p3_def)
  then have "parse_unary_inner v inp p1
      = (Inr (Q_Not q), p1\<lparr>ps_pos := ps_pos p1 + 4 + length (display_query q)\<rparr>)"
    using kw skip3
    by (simp add: parse_unary_inner.simps [of v inp p1] Let_def skip p3_def p4_def)
  then show ?case
    using Q_Not.prems(5) p1(1)
    by (subst parse_unary_depth [OF p1_def]) (simp_all add: add.commute)
next
  case (Q_Or a b)
  then show ?case by simp
next
  case (Q_And qs)
  then show ?case by simp
qed ((rule parse_unary_primary; (assumption | simp del: display_query.simps unary_printable.simps)))+

section \<open>Conjunctions\<close>

lemma unary_at:
  assumes "at_suffix inp p (display_query q @ s)" and "unary_ok v q" and "ends_word s"
    and "\<not> ps_case_sensitive p" and "ps_depth p = 0"
  shows "parse_unary v inp p = (Inr q, p\<lparr>ps_pos := ps_pos p + length (display_query q)\<rparr>)"
    and "at_suffix inp (p\<lparr>ps_pos := ps_pos p + length (display_query q)\<rparr>) s"
    and "skip_whitespace inp p = p"
    and "\<not> is_eof inp p" and "\<not> starts_with_keyword inp p ''OR''"
proof -
  have ok: "unary_printable v q" "nesting q < MAX_PARSE_DEPTH"
    using assms(2) by (simp_all add: unary_ok_def)
  obtain b r where b: "display_query q = b # r" "\<not> is_ascii_whitespace b"
    using display_head [OF ok(1)] by blast
  show "parse_unary v inp p = (Inr q, p\<lparr>ps_pos := ps_pos p + length (display_query q)\<rparr>)"
    using assms ok by (intro parse_unary_suffix [where s = s]) simp_all
  show "at_suffix inp (p\<lparr>ps_pos := ps_pos p + length (display_query q)\<rparr>) s"
    by (rule at_suffix_advance [OF assms(1)])
  show "skip_whitespace inp p = p"
    using assms(1) b by (intro skip_whitespace_suffix) auto
  show "\<not> is_eof inp p"
    using at_suffix_eof [OF assms(1)] b by simp
  show "\<not> starts_with_keyword inp p ''OR''"
    by (rule not_keyword_display [OF assms(1) ok(1) assms(3)]) simp
qed

text \<open>The printed form of a conjunction, of the terms after the first, and what may follow one.\<close>

definition more_terms :: "query list \<Rightarrow> bytes" where
  "more_terms qs = concat (map (\<lambda>q. '' '' @ display_query q) qs)"

lemma display_terms: "intersperse_spaces (map display_query (q # qs)) = display_query q @ more_terms qs"
  by (induction qs arbitrary: q) (simp_all add: more_terms_def)

definition ends_and :: "bytes \<Rightarrow> bool" where
  "ends_and s \<longleftrightarrow> s = [] \<or> prefix '' OR '' s"

lemma ends_and_word: "ends_and s \<Longrightarrow> ends_word (more_terms qs @ s)"
  by (cases qs) (auto simp: ends_and_def more_terms_def prefix_def)

text \<open>Where the conjunction leaves the cursor: past the space before an \<open>OR\<close>.\<close>

definition and_end :: "bytes \<Rightarrow> nat \<Rightarrow> nat" where
  "and_end s pos = (if s = [] then pos else pos + 1)"

lemma parse_and_loop_suffix:
  "at_suffix inp p (more_terms qs @ s) \<Longrightarrow> list_all (unary_ok v) qs \<Longrightarrow> ends_and s \<Longrightarrow>
     \<not> ps_case_sensitive p \<Longrightarrow> ps_depth p = 0 \<Longrightarrow>
     parse_and_loop v inp children p
       = (children @ qs, p\<lparr>ps_pos := and_end s (ps_pos p + length (more_terms qs))\<rparr>)"
proof (induction qs arbitrary: children p)
  case Nil
  then have at: "at_suffix inp p s" by (simp add: more_terms_def)
  show ?case
  proof (cases "s = []")
    case True
    then have "skip_whitespace inp p = p"
      using at by (intro skip_whitespace_suffix) auto
    then show ?thesis
      using at_suffix_eof [OF at] True
      by (simp add: parse_and_loop.simps [of v inp children p] Let_def and_end_def more_terms_def)
  next
    case False
    then obtain r where s: "s = '' '' @ ''OR '' @ r"
      using Nil.prems(3) by (auto simp: ends_and_def prefix_def)
    then have skip: "skip_whitespace inp p = p\<lparr>ps_pos := ps_pos p + 1\<rparr>"
      using skip_one_space [of inp p "''OR '' @ r"] at by simp
    have at1: "at_suffix inp (p\<lparr>ps_pos := ps_pos p + 1\<rparr>) (''OR '' @ r)"
      using at unfolding s by (rule at_suffix_step) simp
    then have "starts_with_keyword inp (p\<lparr>ps_pos := ps_pos p + 1\<rparr>) ''OR''"
      using keyword_suffix [OF at1] by (simp add: word_boundary_def)
    then show ?thesis
      using False
      by (simp add: parse_and_loop.simps [of v inp children p] Let_def skip and_end_def more_terms_def)
  qed
next
  case (Cons q qs)
  define p1 where "p1 = p\<lparr>ps_pos := ps_pos p + 1\<rparr>"
  have at: "at_suffix inp p ('' '' @ display_query q @ more_terms qs @ s)"
    using Cons.prems(1) by (simp add: more_terms_def)
  have q: "unary_ok v q" using Cons.prems(2) by simp
  obtain b r where b: "display_query q = b # r" "\<not> is_ascii_whitespace b"
    using display_head [of v q] q by (auto simp: unary_ok_def)
  have skip: "skip_whitespace inp p = p1"
    unfolding p1_def by (rule skip_one_space [OF at [simplified]]) (simp add: b)
  have at1: "at_suffix inp p1 (display_query q @ more_terms qs @ s)"
    unfolding p1_def by (rule at_suffix_step [OF at]) simp
  have st: "\<not> ps_case_sensitive p1" "ps_depth p1 = 0"
    using Cons.prems(4,5) by (simp_all add: p1_def)
  note u = unary_at [OF at1 q ends_and_word [OF Cons.prems(3)] st]
  define p2 where "p2 = p1\<lparr>ps_pos := ps_pos p1 + length (display_query q)\<rparr>"
  have "parse_and_loop v inp children p = parse_and_loop v inp (children @ [q]) p2"
    using u(1,4,5) by (simp add: parse_and_loop.simps [of v inp children p] Let_def skip p2_def)
  also have "\<dots> = ((children @ [q]) @ qs, p2\<lparr>ps_pos := and_end s (ps_pos p2 + length (more_terms qs))\<rparr>)"
    using Cons.prems u(2) st by (intro Cons.IH) (simp_all add: p2_def)
  finally show ?case
    by (simp add: p2_def p1_def more_terms_def add.assoc)
qed

lemma and_ok_parts:
  assumes "and_ok v q"
  obtains t ts where "display_query q = display_query t @ more_terms ts" "list_all (unary_ok v) (t # ts)"
    "q = (if ts = [] then t else Q_And (t # ts))"
proof (cases "\<exists>qs. q = Q_And qs")
  case True
  then obtain qs where qs: "q = Q_And qs" "2 \<le> length qs" "list_all (unary_ok v) qs"
    using assms by (auto simp: and_ok_def)
  then obtain t u us where "qs = t # u # us"
    by (cases qs; cases "tl qs") auto
  with qs show thesis
    using that [of t "u # us"] display_terms [of t "u # us"] by simp
next
  case False
  then have "unary_ok v q"
    using assms by (auto simp: and_ok_def split: query.splits)
  then show thesis
    using that [of q "[]"] by (simp add: more_terms_def)
qed

lemma parse_and_suffix:
  assumes at: "at_suffix inp p (display_query q @ s)" and q: "and_ok v q" and s: "ends_and s"
    and st: "\<not> ps_case_sensitive p" "ps_depth p = 0"
  shows "parse_and v inp p = (Inr q, p\<lparr>ps_pos := and_end s (ps_pos p + length (display_query q))\<rparr>)"
proof -
  obtain t ts where tts: "display_query q = display_query t @ more_terms ts" "list_all (unary_ok v) (t # ts)"
      "q = (if ts = [] then t else Q_And (t # ts))"
    using and_ok_parts [OF q] .
  have at': "at_suffix inp p (display_query t @ more_terms ts @ s)"
    using at tts(1) by simp
  have t: "unary_ok v t" and ts: "list_all (unary_ok v) ts"
    using tts(2) by simp_all
  note u = unary_at [OF at' t ends_and_word [OF s] st]
  define p2 where "p2 = p\<lparr>ps_pos := ps_pos p + length (display_query t)\<rparr>"
  have "parse_and_loop v inp [t] p2
      = ([t] @ ts, p2\<lparr>ps_pos := and_end s (ps_pos p2 + length (more_terms ts))\<rparr>)"
    using ts s u(2) st by (intro parse_and_loop_suffix) (simp_all add: p2_def)
  then show ?thesis
    using u(1,3) tts(1,3) by (simp add: parse_and_def Let_def p2_def add.assoc)
qed

section \<open>Disjunctions\<close>

text \<open>A disjunction as its first conjunction and the ones after it, as the loop meets them.\<close>

fun or_first :: "query \<Rightarrow> query" where
  "or_first (Q_Or a b) = or_first a"
| "or_first q = q"

fun or_rest :: "query \<Rightarrow> query list" where
  "or_rest (Q_Or a b) = or_rest a @ [b]"
| "or_rest q = []"

definition more_ors :: "query list \<Rightarrow> bytes" where
  "more_ors qs = concat (map (\<lambda>q. '' OR '' @ display_query q) qs)"

lemma or_parts:
  "printable v q \<Longrightarrow> display_query q = display_query (or_first q) @ more_ors (or_rest q) \<and>
     foldl Q_Or (or_first q) (or_rest q) = q \<and> and_ok v (or_first q) \<and> list_all (and_ok v) (or_rest q)"
  by (induction q) (auto simp: more_ors_def)

lemma and_ok_head:
  assumes "and_ok v q"
  shows "\<exists>b r. display_query q = b # r \<and> \<not> is_ascii_whitespace b"
proof -
  obtain t ts where "display_query q = display_query t @ more_terms ts" and "unary_printable v t"
    using and_ok_parts [OF assms] by (metis list.pred_inject(2) unary_ok_def)
  then show ?thesis
    using display_head [of v t] by auto
qed

lemma ends_and_ors: "ends_and (more_ors qs)"
  by (cases qs) (simp_all add: ends_and_def more_ors_def)

lemma after_first_term:
  assumes "at_suffix inp p (display_query q @ more_ors qs)"
  shows "at_suffix inp (p\<lparr>ps_pos := and_end (more_ors qs) (ps_pos p + length (display_query q))\<rparr>)
    (if qs = [] then [] else drop 1 (more_ors qs))"
proof (cases qs)
  case Nil
  then show ?thesis
    using at_suffix_advance [OF assms] by (simp add: and_end_def more_ors_def)
next
  case (Cons q' qs')
  have at5: "at_suffix inp p ((display_query q @ '' '') @ drop 1 (more_ors qs))"
    using assms by (simp add: more_ors_def Cons)
  have n: "and_end (more_ors qs) (ps_pos p + length (display_query q))
      = ps_pos p + length (display_query q @ '' '')"
    by (simp add: and_end_def more_ors_def Cons)
  have "at_suffix inp (p\<lparr>ps_pos := ps_pos p + length (display_query q @ '' '')\<rparr>) (drop 1 (more_ors qs))"
    by (rule at_suffix_advance [OF at5])
  with Cons n show ?thesis by simp
qed

lemma parse_or_loop_suffix:
  "at_suffix inp p s \<Longrightarrow> s = (if qs = [] then [] else drop 1 (more_ors qs)) \<Longrightarrow>
     list_all (and_ok v) qs \<Longrightarrow> \<not> ps_case_sensitive p \<Longrightarrow> ps_depth p = 0 \<Longrightarrow>
     parse_or_loop v inp left p = (Inr (foldl Q_Or left qs), p\<lparr>ps_pos := length inp\<rparr>)"
proof (induction qs arbitrary: left p s)
  case Nil
  then have at: "at_suffix inp p []" by simp
  have skip: "skip_whitespace inp p = p"
    by (rule skip_whitespace_suffix [OF at]) simp
  have "\<not> starts_with_keyword inp p ''OR''"
    using keyword_suffix [OF at] by simp
  moreover have "ps_pos p = length inp"
    using at_suffix_length [OF at] by simp
  ultimately show ?case
    by (simp add: parse_or_loop.simps [of v inp left p] Let_def skip)
next
  case (Cons q qs)
  have q: "and_ok v q" "list_all (and_ok v) qs" using Cons.prems(3) by simp_all
  obtain b r where b: "display_query q = b # r" "\<not> is_ascii_whitespace b"
    using and_ok_head [OF q(1)] by blast
  have at: "at_suffix inp p (''OR'' @ '' '' @ display_query q @ more_ors qs)"
    using Cons.prems(1,2) by (simp add: more_ors_def)
  have skip: "skip_whitespace inp p = p"
    by (rule skip_whitespace_suffix [OF at]) simp
  have kw: "starts_with_keyword inp p ''OR''"
    using keyword_suffix [OF at] by (simp add: word_boundary_def)
  define p2 where "p2 = p\<lparr>ps_pos := ps_pos p + 2\<rparr>"
  have at2: "at_suffix inp p2 ('' '' @ display_query q @ more_ors qs)"
    unfolding p2_def by (rule at_suffix_step [OF at]) simp
  define p3 where "p3 = p2\<lparr>ps_pos := ps_pos p2 + 1\<rparr>"
  have skip2: "skip_whitespace inp p2 = p3"
    unfolding p3_def by (rule skip_one_space [OF at2 [simplified]]) (simp add: b)
  have at3: "at_suffix inp p3 (display_query q @ more_ors qs)"
    unfolding p3_def by (rule at_suffix_step [OF at2]) simp
  have st: "\<not> ps_case_sensitive p3" "ps_depth p3 = 0"
    using Cons.prems(4,5) by (simp_all add: p3_def p2_def)
  define n where "n = and_end (more_ors qs) (ps_pos p3 + length (display_query q))"
  have and_q: "parse_and v inp p3 = (Inr q, p3\<lparr>ps_pos := n\<rparr>)"
    unfolding n_def by (rule parse_and_suffix [OF at3 q(1) ends_and_ors st])
  have at4: "at_suffix inp (p3\<lparr>ps_pos := n\<rparr>) (if qs = [] then [] else drop 1 (more_ors qs))"
    unfolding n_def by (rule after_first_term [OF at3])
  have "parse_or_loop v inp left p = parse_or_loop v inp (Q_Or left q) (p3\<lparr>ps_pos := n\<rparr>)"
    using kw and_q skip2
    by (simp add: parse_or_loop.simps [of v inp left p] Let_def skip p2_def)
  also have "\<dots> = (Inr (foldl Q_Or (Q_Or left q) qs), (p3\<lparr>ps_pos := n\<rparr>)\<lparr>ps_pos := length inp\<rparr>)"
    using q(2) st by (intro Cons.IH [OF at4 refl]) simp_all
  finally show ?case
    by (simp add: p3_def p2_def)
qed

section \<open>The shape of parsed queries\<close>

text \<open>The grammar of the AST, with the nesting of \<open>NOT\<close> bounded by the parser's depth limit.\<close>

fun unary_shape :: "(bytes \<Rightarrow> bool) \<Rightarrow> query \<Rightarrow> bool" where
  "unary_shape v (Q_Literal l) = (lq_text l \<noteq> [])"
| "unary_shape v (Q_Regex r) = (v (rq_pattern r) \<and> rq_case_sensitive r)"
| "unary_shape v (Q_Phrase p) = True"
| "unary_shape v (Q_PathFilter p) = (p \<noteq> [])"
| "unary_shape v (Q_LanguageFilter l) = True"
| "unary_shape v (Q_Not q) = unary_shape v q"
| "unary_shape v (Q_Or a b) = False"
| "unary_shape v (Q_And qs) = False"

definition unary_valid :: "(bytes \<Rightarrow> bool) \<Rightarrow> query \<Rightarrow> bool" where
  "unary_valid v q \<longleftrightarrow> unary_shape v q \<and> nesting q < MAX_PARSE_DEPTH"

definition and_valid :: "(bytes \<Rightarrow> bool) \<Rightarrow> query \<Rightarrow> bool" where
  "and_valid v q \<longleftrightarrow>
     (case q of Q_And qs \<Rightarrow> 2 \<le> length qs \<and> list_all (unary_valid v) qs | _ \<Rightarrow> unary_valid v q)"

fun query_valid :: "(bytes \<Rightarrow> bool) \<Rightarrow> query \<Rightarrow> bool" where
  "query_valid v (Q_Or a b) = (query_valid v a \<and> and_valid v b)"
| "query_valid v q = and_valid v q"

text \<open>What a method started at some depth returns.\<close>

definition shaped :: "(bytes \<Rightarrow> bool) \<Rightarrow> nat \<Rightarrow> parsed \<Rightarrow> bool" where
  "shaped v d out \<longleftrightarrow>
     (case out of (Inl e, _) \<Rightarrow> True | (Inr q, _) \<Rightarrow> unary_shape v q \<and> d + nesting q \<le> MAX_PARSE_DEPTH)"

lemma slice_scan_nonempty:
  assumes "scan_while ok inp pos \<noteq> pos"
  shows "slice pos (scan_while ok inp pos) inp \<noteq> []"
  using assms by (auto simp: scan_while_def slice_def)

lemma shaped_primary_methods:
  "d \<le> MAX_PARSE_DEPTH \<Longrightarrow> shaped v d (parse_literal inp p)"
  "d \<le> MAX_PARSE_DEPTH \<Longrightarrow> shaped v d (parse_phrase inp p)"
  "d \<le> MAX_PARSE_DEPTH \<Longrightarrow> shaped v d (parse_regex v inp p)"
  "d \<le> MAX_PARSE_DEPTH \<Longrightarrow> shaped v d (parse_path_filter inp p)"
  "d \<le> MAX_PARSE_DEPTH \<Longrightarrow> shaped v d (parse_language_filter inp p)"
  by (auto simp: shaped_def parse_literal_def parse_phrase_def parse_regex_def parse_path_filter_def
      parse_language_filter_def Let_def slice_scan_nonempty split: sum.splits)

lemma shaped_methods:
  "ps_depth p \<le> MAX_PARSE_DEPTH \<Longrightarrow> shaped v (Suc (ps_depth p)) (parse_unary v inp p)"
  "ps_depth p \<le> MAX_PARSE_DEPTH \<Longrightarrow> shaped v (ps_depth p) (parse_unary_inner v inp p)"
  "ps_depth p \<le> MAX_PARSE_DEPTH \<Longrightarrow> shaped v (ps_depth p) (parse_primary v inp p)"
  "ps_depth p \<le> MAX_PARSE_DEPTH \<Longrightarrow> shaped v (ps_depth p) (parse_case_modifier v inp p)"
proof (induction v inp p and v inp p and v inp p and v inp p
    rule: parse_unary_parse_unary_inner_parse_primary_parse_case_modifier.induct)
  case (1 v inp p)
  let ?p = "p\<lparr>ps_depth := ps_depth p + 1\<rparr>"
  show ?case
  proof (cases "ps_depth ?p > MAX_PARSE_DEPTH")
    case True
    then show ?thesis by (simp add: parse_unary.simps [of v inp p] Let_def shaped_def)
  next
    case False
    with 1 have "shaped v (ps_depth ?p) (parse_unary_inner v inp ?p)" by simp
    with False show ?thesis
      by (auto simp: parse_unary.simps [of v inp p] Let_def shaped_def split: prod.splits sum.splits)
  qed
next
  case (2 v inp p)
  let ?p = "skip_whitespace inp p"
  let ?p' = "skip_whitespace inp (?p\<lparr>ps_pos := ps_pos ?p + 3\<rparr>)"
  show ?case
  proof (cases "starts_with_keyword inp ?p ''NOT''")
    case True
    with 2 have "shaped v (Suc (ps_depth p)) (parse_unary v inp ?p')" by simp
    with True show ?thesis
      by (auto simp: parse_unary_inner.simps [of v inp p] Let_def shaped_def split: prod.splits sum.splits)
  next
    case False
    with 2 have "shaped v (ps_depth p) (parse_primary v inp ?p)" by simp
    with False show ?thesis
      by (simp add: parse_unary_inner.simps [of v inp p] Let_def)
  qed
next
  case (3 v inp p)
  let ?p = "skip_whitespace inp p"
  have "is_eof inp ?p \<Longrightarrow> shaped v (ps_depth p) (parse_error m ?p)" for m
    by (simp add: shaped_def)
  then show ?case
    using 3 shaped_primary_methods [of "ps_depth p" v inp ?p]
    by (simp add: parse_primary.simps [of v inp p] Let_def)
next
  case (4 v inp p)
  let ?after = "ps_pos p + 8"
  let ?p = "skip_whitespace inp (p\<lparr>ps_pos := ?after, ps_case_sensitive := True\<rparr>)"
  show ?case
  proof (cases "?after < length inp \<and> \<not> word_boundary (inp ! ?after)")
    case True
    then show ?thesis
      using 4 by (simp add: parse_case_modifier.simps [of v inp p] Let_def shaped_primary_methods)
  next
    case False
    with 4 have "shaped v (Suc (ps_depth p)) (parse_unary v inp ?p)" by simp
    with False show ?thesis
      by (auto simp: parse_case_modifier.simps [of v inp p] Let_def shaped_def split: prod.splits sum.splits)
  qed
qed

lemma parse_unary_valid:
  "parse_unary v inp p = (Inr q, p') \<Longrightarrow> ps_depth p \<le> MAX_PARSE_DEPTH \<Longrightarrow>
     unary_valid v q \<and> ps_depth p' = ps_depth p"
  using shaped_methods(1) [of p v inp] advances_unary [of inp p v]
  by (auto simp: shaped_def advances_def unary_valid_def)

lemma parse_unary_error: "parse_unary v inp p = (Inl e, p') \<Longrightarrow> \<exists>msg. e = Err (QueryParse msg)"
  using advances_unary [of inp p v] by (simp add: advances_def)

lemma parse_and_loop_valid:
  "parse_and_loop v inp children p = (children', p') \<Longrightarrow> list_all (unary_valid v) children \<Longrightarrow>
     ps_depth p \<le> MAX_PARSE_DEPTH \<Longrightarrow>
     list_all (unary_valid v) children' \<and> prefix children children'"
proof (induction v inp children p rule: parse_and_loop.induct)
  case (1 v inp children p)
  let ?p = "skip_whitespace inp p"
  show ?case
  proof (cases "is_eof inp ?p \<or> starts_with_keyword inp ?p ''OR''")
    case True
    with "1.prems" show ?thesis
      by (auto simp: parse_and_loop.simps [of v inp children p] Let_def split: if_splits)
  next
    case False
    obtain r p2 where u: "parse_unary v inp ?p = (r, p2)" by fastforce
    show ?thesis
    proof (cases r)
      case (Inl e)
      with "1.prems" False u show ?thesis
        by (auto simp: parse_and_loop.simps [of v inp children p] Let_def)
    next
      case (Inr child)
      have child: "unary_valid v child \<and> ps_depth p2 = ps_depth p"
        using parse_unary_valid [of v inp ?p child p2] u Inr "1.prems"(3) by simp
      have "parse_and_loop v inp (children @ [child]) p2 = (children', p')"
        using "1.prems"(1) False u Inr
        by (simp add: parse_and_loop.simps [of v inp children p] Let_def)
      from "1.IH" [OF refl _ _ refl u [symmetric] Inr this] False child "1.prems" show ?thesis
        by (auto dest: append_prefixD)
    qed
  qed
qed

lemma parse_and_valid:
  assumes "parse_and v inp p = (out, p')" and "ps_depth p \<le> MAX_PARSE_DEPTH"
  shows "case out of Inl e \<Rightarrow> \<exists>msg. e = Err (QueryParse msg) | Inr q \<Rightarrow> and_valid v q"
proof -
  let ?p = "skip_whitespace inp p"
  obtain r p1 where u: "parse_unary v inp ?p = (r, p1)" by fastforce
  show ?thesis
  proof (cases r)
    case (Inl e)
    with u assms(1) parse_unary_error [of v inp ?p e p1] show ?thesis
      by (auto simp: parse_and_def Let_def)
  next
    case (Inr first)
    have first: "unary_valid v first" "ps_depth p1 \<le> MAX_PARSE_DEPTH"
      using parse_unary_valid [of v inp ?p first p1] u Inr assms(2) by simp_all
    obtain cs p2 where l: "parse_and_loop v inp [first] p1 = (cs, p2)" by fastforce
    have cs: "list_all (unary_valid v) cs" "prefix [first] cs"
      using parse_and_loop_valid [OF l] first by simp_all
    then obtain ds where ds: "cs = first # ds" by (auto simp: prefix_def)
    have shape: "\<not> (\<exists>qs. first = Q_And qs)"
      using first(1) by (auto simp: unary_valid_def)
    have "out = Inr (if ds = [] then first else Q_And cs)"
      using assms(1) u Inr l ds by (auto simp: parse_and_def Let_def split: if_splits)
    then show ?thesis
      using cs first shape ds
      by (cases ds) (auto simp: and_valid_def split: query.splits)
  qed
qed

lemma and_valid_query: "and_valid v q \<Longrightarrow> query_valid v q"
  by (cases q) (auto simp: and_valid_def unary_valid_def)

text \<open>
  A failed term leaves the depth counter incremented, but it also ends the disjunction: the loop
  that continues after a conjunction starts from the depth it had.
\<close>

lemma scan_while_idem: "scan_while ok inp (scan_while ok inp pos) = scan_while ok inp pos"
proof -
  have "drop (scan_while ok inp pos) inp = dropWhile ok (drop pos inp)"
    by (simp add: scan_while_def dropWhile_eq_drop add.commute)
  then have "takeWhile ok (drop (scan_while ok inp pos) inp) = []"
    using hd_dropWhile [of ok "drop pos inp"] by (cases "dropWhile ok (drop pos inp)") auto
  then show ?thesis by (simp add: scan_while_def [of ok inp "scan_while ok inp pos"])
qed

lemma keyword_pos:
  "ps_pos p' = ps_pos p \<Longrightarrow> starts_with_keyword inp p' kw = starts_with_keyword inp p kw"
  by (simp add: starts_with_keyword_def starts_with_def)

definition stuck :: "bytes \<Rightarrow> parser \<Rightarrow> bool" where
  "stuck inp p \<longleftrightarrow> \<not> starts_with_keyword inp (skip_whitespace inp p) ''OR''"

lemma parse_and_loop_depth:
  "parse_and_loop v inp children p = (children', p') \<Longrightarrow> ps_depth p' = ps_depth p \<or> stuck inp p'"
proof (induction v inp children p rule: parse_and_loop.induct)
  case (1 v inp children p)
  let ?p = "skip_whitespace inp p"
  show ?case
  proof (cases "is_eof inp ?p \<or> starts_with_keyword inp ?p ''OR''")
    case True
    with "1.prems" show ?thesis
      by (auto simp: parse_and_loop.simps [of v inp children p] Let_def split: if_splits)
  next
    case False
    obtain r p2 where u: "parse_unary v inp ?p = (r, p2)" by fastforce
    show ?thesis
    proof (cases r)
      case (Inl e)
      then have p': "p' = p2\<lparr>ps_pos := ps_pos ?p\<rparr>"
        using "1.prems" False u by (auto simp: parse_and_loop.simps [of v inp children p] Let_def)
      have "ps_pos (skip_whitespace inp p') = ps_pos ?p"
        by (simp add: p' skip_whitespace_def scan_while_idem)
      then have "stuck inp p'"
        using False keyword_pos unfolding stuck_def by blast
      then show ?thesis ..
    next
      case (Inr child)
      have "parse_and_loop v inp (children @ [child]) p2 = (children', p')"
        using "1.prems"(1) False u Inr
        by (simp add: parse_and_loop.simps [of v inp children p] Let_def)
      moreover have "ps_depth p2 = ps_depth p"
        using advances_unary [of inp ?p v] by (simp add: u Inr advances_def)
      ultimately show ?thesis
        using "1.IH" [OF refl _ _ refl u [symmetric] Inr] False by simp
    qed
  qed
qed

lemma parse_and_depth:
  assumes "parse_and v inp p = (Inr q, p')"
  shows "ps_depth p' = ps_depth p \<or> stuck inp p'"
proof -
  let ?p = "skip_whitespace inp p"
  obtain first p1 where u: "parse_unary v inp ?p = (Inr first, p1)"
    using assms by (auto simp: parse_and_def Let_def split: prod.splits sum.splits)
  obtain cs p2 where l: "parse_and_loop v inp [first] p1 = (cs, p2)" by fastforce
  have "p' = p2"
    using assms u l by (auto simp: parse_and_def Let_def split: if_splits)
  moreover have "ps_depth p1 = ps_depth p"
    using advances_unary [of inp ?p v] by (simp add: u advances_def)
  ultimately show ?thesis
    using parse_and_loop_depth [OF l] by simp
qed

lemma parse_or_loop_valid:
  "parse_or_loop v inp left p = (out, p') \<Longrightarrow> query_valid v left \<Longrightarrow>
     ps_depth p \<le> MAX_PARSE_DEPTH \<or> stuck inp p \<Longrightarrow>
     case out of Inl e \<Rightarrow> \<exists>msg. e = Err (QueryParse msg) | Inr q \<Rightarrow> query_valid v q"
proof (induction v inp left p rule: parse_or_loop.induct)
  case (1 v inp left p)
  let ?p = "skip_whitespace inp p"
  let ?p2 = "skip_whitespace inp (?p\<lparr>ps_pos := ps_pos ?p + 2\<rparr>)"
  show ?case
  proof (cases "starts_with_keyword inp ?p ''OR''")
    case False
    with "1.prems" show ?thesis
      by (auto simp: parse_or_loop.simps [of v inp left p] Let_def)
  next
    case True
    then have depth: "ps_depth p \<le> MAX_PARSE_DEPTH"
      using "1.prems"(3) by (simp add: stuck_def)
    obtain r p3 where a: "parse_and v inp ?p2 = (r, p3)" by fastforce
    show ?thesis
    proof (cases r)
      case (Inl e)
      with a True "1.prems"(1) parse_and_valid [OF a] depth show ?thesis
        by (auto simp: parse_or_loop.simps [of v inp left p] Let_def)
    next
      case (Inr right)
      have "and_valid v right"
        using parse_and_valid [OF a] Inr depth by simp
      moreover have "ps_depth p3 \<le> MAX_PARSE_DEPTH \<or> stuck inp p3"
        using parse_and_depth [of v inp ?p2 right p3] a Inr depth by auto
      moreover have "parse_or_loop v inp (Q_Or left right) p3 = (out, p')"
        using "1.prems"(1) True a Inr by (simp add: parse_or_loop.simps [of v inp left p] Let_def)
      ultimately show ?thesis
        using "1.IH" [OF refl True refl a [symmetric] Inr] "1.prems"(2) by simp
    qed
  qed
qed

lemma parse_or_valid:
  assumes "parse_or v inp p = (out, p')" and "ps_depth p = 0"
  shows "case out of Inl e \<Rightarrow> \<exists>msg. e = Err (QueryParse msg) | Inr q \<Rightarrow> query_valid v q"
proof -
  obtain r p1 where a: "parse_and v inp p = (r, p1)" by fastforce
  show ?thesis
  proof (cases r)
    case (Inl e)
    with assms a parse_and_valid [OF a] show ?thesis
      by (auto simp: parse_or_def)
  next
    case (Inr left)
    have "parse_or_loop v inp left p1 = (out, p')"
      using assms(1) a Inr by (simp add: parse_or_def)
    moreover have "query_valid v left"
      using parse_and_valid [OF a] Inr assms(2) by (simp add: and_valid_query)
    moreover have "ps_depth p1 \<le> MAX_PARSE_DEPTH \<or> stuck inp p1"
      using parse_and_depth [of v inp p left p1] a Inr assms(2) by auto
    ultimately show ?thesis
      by (rule parse_or_loop_valid)
  qed
qed

section \<open>Printing and parsing\<close>

lemma parse_display_printable:
  assumes "printable v q" and "\<not> trim_is_empty (display_query q)"
  shows "parse_query v (display_query q) = Inr q"
proof -
  let ?inp = "display_query q"
  have parts: "?inp = display_query (or_first q) @ more_ors (or_rest q)"
      "foldl Q_Or (or_first q) (or_rest q) = q" "and_ok v (or_first q)" "list_all (and_ok v) (or_rest q)"
    using or_parts [OF assms(1)] by simp_all
  have at: "at_suffix ?inp parser_new (display_query (or_first q) @ more_ors (or_rest q))"
    unfolding parts(1) [symmetric] by (simp add: at_suffix_def parser_new_def)
  have st: "\<not> ps_case_sensitive parser_new" "ps_depth parser_new = 0" "ps_pos parser_new = 0"
    by (simp_all add: parser_new_def)
  define p1 where "p1 = parser_new\<lparr>ps_pos :=
    and_end (more_ors (or_rest q)) (ps_pos parser_new + length (display_query (or_first q)))\<rparr>"
  have a: "parse_and v ?inp parser_new = (Inr (or_first q), p1)"
    unfolding p1_def by (rule parse_and_suffix [OF at parts(3) ends_and_ors st(1,2)])
  have at1: "at_suffix ?inp p1 (if or_rest q = [] then [] else drop 1 (more_ors (or_rest q)))"
    unfolding p1_def by (rule after_first_term [OF at])
  have "parse_or_loop v ?inp (or_first q) p1
      = (Inr (foldl Q_Or (or_first q) (or_rest q)), p1\<lparr>ps_pos := length ?inp\<rparr>)"
    using parts(4) st by (intro parse_or_loop_suffix [OF at1 refl]) (simp_all add: p1_def)
  then have "parse_or v ?inp parser_new = (Inr q, p1\<lparr>ps_pos := length ?inp\<rparr>)"
    using a parts(2) by (simp add: parse_or_def)
  then show ?thesis
    using assms(2)
    by (simp add: parse_query_def Let_def skip_whitespace_def scan_while_eof is_eof_def)
qed

lemma parse_display_literal:
  assumes "literal_ok t" and "\<not> trim_is_empty t"
  shows "parse_query v t = Inr (Q_Literal \<lparr>lq_text = t, lq_case_sensitive = False\<rparr>)"
  using parse_display_printable [of v "Q_Literal \<lparr>lq_text = t, lq_case_sensitive = False\<rparr>"] assms
  by (simp add: and_ok_def unary_ok_def MAX_PARSE_DEPTH_def)

section \<open>Properties of the query parser\<close>

text \<open>
  C32. Parsing is total: every input is either rejected with a query-parse error or yields a query
  of the documented grammar, a disjunction of conjunctions of possibly negated terms, with at least
  two members in every conjunction, no empty literal or path, only regular expressions the
  validator accepted, and at most 127 nested negations.
\<close>

theorem parse_query_total:
  "case parse_query v inp of
     Inl e \<Rightarrow> \<exists>msg. e = Err (QueryParse msg)
   | Inr q \<Rightarrow> query_valid v q"
proof -
  obtain out p where o: "parse_or v inp parser_new = (out, p)" by fastforce
  moreover have "ps_depth parser_new = 0"
    by (simp add: parser_new_def)
  ultimately have "case out of Inl e \<Rightarrow> \<exists>msg. e = Err (QueryParse msg) | Inr q \<Rightarrow> query_valid v q"
    by (rule parse_or_valid)
  then show ?thesis
    by (auto simp: parse_query_def o Let_def split: sum.splits if_splits)
qed

text \<open>
  C21. Parsing inverts printing: the printed form of every printable query parses back to exactly
  that query, whatever the texts, patterns and filters in it and however its terms are nested.
\<close>

theorem parse_display_query:
  assumes "printable v q" and "\<not> trim_is_empty (display_query q)"
  shows "parse_query v (display_query q) = Inr q"
  using assms by (rule parse_display_printable)

theorem parse_display_query_witness:
  "parse_query (\<lambda>_. True) ''foo path:src/ OR NOT /a.b/ bar''
     = Inr (Q_Or (Q_And [Q_Literal \<lparr>lq_text = ''foo'', lq_case_sensitive = False\<rparr>, Q_PathFilter ''src/''])
              (Q_And [Q_Not (Q_Regex \<lparr>rq_pattern = ''a.b'', rq_case_sensitive = True\<rparr>),
                      Q_Literal \<lparr>lq_text = ''bar'', lq_case_sensitive = False\<rparr>]))"
  (is "_ = Inr ?q")
proof -
  have "regex_scan ''a.b/'' = 3"
    by (simp add: regex_scan.simps utf8_next_def)
  then have ok: "printable (\<lambda>_. True) ?q"
    by (simp add: and_ok_def unary_ok_def literal_ok_def word_boundary_def is_ascii_whitespace_def
        MAX_PARSE_DEPTH_def)
  have "\<not> trim_is_empty (display_query ?q)"
    by (simp add: trim_is_empty_def utf8_decode_ascii is_ascii_text_def is_unicode_whitespace_def)
  from parse_display_query [OF ok this] show ?thesis by simp
qed

text \<open>
  The printed form of a case-sensitive literal is not read back: \<open>case:text\<close> parses as a
  case-insensitive literal whose text includes the prefix, since only \<open>case:yes\<close> is a modifier.
\<close>

theorem display_case_sensitive_literal:
  assumes "literal_ok (''case:'' @ t)" and "\<not> trim_is_empty (''case:'' @ t)"
  shows "parse_query v (display_query (Q_Literal \<lparr>lq_text = t, lq_case_sensitive = True\<rparr>))
    = Inr (Q_Literal \<lparr>lq_text = ''case:'' @ t, lq_case_sensitive = False\<rparr>)"
  using parse_display_literal [OF assms] by simp

theorem display_case_sensitive_literal_witness:
  "parse_query (\<lambda>_. True) (display_query (Q_Literal \<lparr>lq_text = ''Foo'', lq_case_sensitive = True\<rparr>))
    = Inr (Q_Literal \<lparr>lq_text = ''case:Foo'', lq_case_sensitive = False\<rparr>)"
proof -
  have "literal_ok (''case:'' @ ''Foo'')" and "\<not> trim_is_empty (''case:'' @ ''Foo'')"
    by (simp_all add: literal_ok_def word_boundary_def is_ascii_whitespace_def trim_is_empty_def
       utf8_decode_ascii is_ascii_text_def is_unicode_whitespace_def)
  from display_case_sensitive_literal [OF this] show ?thesis by simp
qed

text \<open>
  The flag set by \<open>case:yes\<close> survives a filter: in \<open>case:yes path:x foo\<close> it does not apply to
  the term that follows it, which takes no notice of it, and makes the later literal
  case-sensitive.
\<close>

theorem case_flag_survives_filter:
  "parse_query v ''case:yes path:x foo''
     = Inr (Q_And [Q_PathFilter ''x'', Q_Literal \<lparr>lq_text = ''foo'', lq_case_sensitive = True\<rparr>])"
  by code_simp

end
