(* ===== verification/Highlight.thy ===== *)
theory Highlight
  imports Core_Types
begin

text \<open>
  Syntax-highlight tokens and their store (\<open>ferret-core/src/highlight.rs\<close>): the run-length encoding,
  the per-line table of a file, its serialised block, and the appending writer and the reader of
  \<open>highlights.zst\<close>. The zstd functions are parameters; what the store relies on is the locale
  \<open>block_codec\<close>. The lemmas compare token lists by what they colour: the kind of every byte.
\<close>

section \<open>Tokens\<close>

datatype token_kind =
  Tok_Plain | Tok_Keyword | Tok_String | Tok_Comment | Tok_Number | Tok_Function | Tok_Type
| Tok_Variable | Tok_Operator | Tok_Punctuation | Tok_Macro | Tok_Attribute | Tok_Constant
| Tok_Module | Tok_Label | Tok_Other

fun token_kind_code :: "token_kind \<Rightarrow> nat" where
  "token_kind_code Tok_Plain = 0"
| "token_kind_code Tok_Keyword = 1"
| "token_kind_code Tok_String = 2"
| "token_kind_code Tok_Comment = 3"
| "token_kind_code Tok_Number = 4"
| "token_kind_code Tok_Function = 5"
| "token_kind_code Tok_Type = 6"
| "token_kind_code Tok_Variable = 7"
| "token_kind_code Tok_Operator = 8"
| "token_kind_code Tok_Punctuation = 9"
| "token_kind_code Tok_Macro = 10"
| "token_kind_code Tok_Attribute = 11"
| "token_kind_code Tok_Constant = 12"
| "token_kind_code Tok_Module = 13"
| "token_kind_code Tok_Label = 14"
| "token_kind_code Tok_Other = 15"

definition token_kind_codes :: "(nat \<times> token_kind) list" where
  "token_kind_codes =
     [(0, Tok_Plain), (1, Tok_Keyword), (2, Tok_String), (3, Tok_Comment), (4, Tok_Number),
      (5, Tok_Function), (6, Tok_Type), (7, Tok_Variable), (8, Tok_Operator), (9, Tok_Punctuation),
      (10, Tok_Macro), (11, Tok_Attribute), (12, Tok_Constant), (13, Tok_Module), (14, Tok_Label)]"

definition token_kind_from_u8 :: "u8 \<Rightarrow> token_kind" where
  "token_kind_from_u8 v =
     (case map_of token_kind_codes (byte_val v) of Some k \<Rightarrow> k | None \<Rightarrow> Tok_Other)"

record token =
  tok_len :: nat
  tok_kind :: token_kind

record file_highlight =
  token_data :: bytes
  line_offsets :: "u32 list"

section \<open>Run-length encoding\<close>

text \<open>The inner loop that merges tokens of one kind, and the loop that splits a run.\<close>

fun take_run :: "token_kind \<Rightarrow> nat \<Rightarrow> token list \<Rightarrow> nat \<times> token list" where
  "take_run k len [] = (len, [])"
| "take_run k len (t # ts) = (if tok_kind t = k then take_run k (len + tok_len t) ts else (len, t # ts))"

function run_chunks :: "token_kind \<Rightarrow> nat \<Rightarrow> bytes" where
  "run_chunks k len =
     (if len > 0 then
        let chunk = min len 65535
        in u16_le (of_nat chunk) @ [byte_of (token_kind_code k)] @ run_chunks k (len - chunk)
      else [])"
  by pat_completeness auto
termination
  by (relation "measure snd") auto

declare run_chunks.simps [simp del]

lemma take_run_length: "length (snd (take_run k len ts)) \<le> length ts"
  by (induction k len ts rule: take_run.induct) auto

lemma take_run_shorter: "take_run k len ts = (len', rest) \<Longrightarrow> length rest < Suc (length ts)"
  using take_run_length [of k len ts] by simp

function encode_rle :: "token list \<Rightarrow> bytes" where
  "encode_rle [] = []"
| "encode_rle (t # ts) =
     (case take_run (tok_kind t) (tok_len t) ts of
        (len, rest) \<Rightarrow> run_chunks (tok_kind t) len @ encode_rle rest)"
  by pat_completeness auto
termination
  by (relation "measure length") (auto dest: take_run_shorter take_run_shorter [OF sym])

fun decode_rle :: "bytes \<Rightarrow> token list" where
  "decode_rle (a # b # c # data) =
     \<lparr>tok_len = unat (le_u16 [a, b]), tok_kind = token_kind_from_u8 c\<rparr> # decode_rle data"
| "decode_rle data = []"

section \<open>A file's highlights\<close>

fun build_lines :: "token list list \<Rightarrow> file_highlight \<Rightarrow> file_highlight" where
  "build_lines [] fh = fh"
| "build_lines (tokens # lines) fh =
     build_lines lines
       \<lparr>token_data = token_data fh @ encode_rle tokens,
        line_offsets = line_offsets fh @ [of_nat (length (token_data fh))]\<rparr>"

definition build_file_highlight :: "token list list \<Rightarrow> file_highlight" where
  "build_file_highlight line_tokens = build_lines line_tokens \<lparr>token_data = [], line_offsets = []\<rparr>"

definition tokens_for_line :: "file_highlight \<Rightarrow> nat \<Rightarrow> token list result" where
  "tokens_for_line fh line =
     (if line \<ge> length (line_offsets fh) then Inr []
      else
        let start = unat (line_offsets fh ! line);
            stop = (if line + 1 < length (line_offsets fh) then unat (line_offsets fh ! (line + 1))
                    else length (token_data fh))
        in if start \<ge> length (token_data fh) \<or> start \<ge> stop then Inr []
           else obind (slice_at start stop (token_data fh)) (\<lambda>d. Inr (decode_rle d)))"

definition serialize_file_highlight :: "file_highlight \<Rightarrow> bytes" where
  "serialize_file_highlight fh =
     u32_le (of_nat (length (line_offsets fh))) @ concat (map u32_le (line_offsets fh)) @ token_data fh"

definition deserialize_file_highlight :: "bytes \<Rightarrow> file_highlight option" where
  "deserialize_file_highlight data =
     (if length data < 4 then None
      else
        let line_count = unat (le_u32 (slice 0 4 data));
            offsets_end = 4 + line_count * 4
        in if length data < offsets_end then None
           else Some \<lparr>token_data = drop offsets_end data,
                      line_offsets = map (\<lambda>i. le_u32 (slice (4 + i * 4) (4 + i * 4 + 4) data)) [0..<line_count]\<rparr>)"

section \<open>The store\<close>

text \<open>The writer's state: the bytes appended so far and the running offset.\<close>

record highlight_writer =
  hw_file :: bytes
  hw_current_offset :: u64

definition highlight_writer_new :: highlight_writer where
  "highlight_writer_new = \<lparr>hw_file = [], hw_current_offset = 0\<rparr>"

definition hw_add_raw :: "highlight_writer \<Rightarrow> bytes \<Rightarrow> ((u64 \<times> u32) \<times> highlight_writer) result" where
  "hw_add_raw w compressed =
     (let offset = hw_current_offset w
      in obind (of_option (Err Io) (try_u32 (length compressed))) (\<lambda>compressed_len.
         Inr ((offset, compressed_len),
              \<lparr>hw_file = hw_file w @ compressed,
               hw_current_offset = hw_current_offset w + ucast compressed_len\<rparr>)))"

definition hw_add_file ::
  "(bytes \<Rightarrow> bytes option) \<Rightarrow> highlight_writer \<Rightarrow> file_highlight
     \<Rightarrow> ((u64 \<times> u32 \<times> u32) \<times> highlight_writer) result" where
  "hw_add_file compress w fh =
     (let serialized = serialize_file_highlight fh
      in obind (of_option (Err Io) (compress serialized)) (\<lambda>compressed.
         let offset = hw_current_offset w
         in obind (of_option (Err Io) (try_u32 (length compressed))) (\<lambda>compressed_len.
            let line_count = of_nat (length (line_offsets fh))
            in Inr ((offset, compressed_len, line_count),
                    \<lparr>hw_file = hw_file w @ compressed,
                     hw_current_offset = hw_current_offset w + ucast compressed_len\<rparr>))))"

text \<open>The end of the block is computed in 64 bits, where it wraps.\<close>

definition hr_read_raw :: "bytes \<Rightarrow> u64 \<Rightarrow> u32 \<Rightarrow> bytes result" where
  "hr_read_raw mmap offset compressed_len =
     (let start = unat offset;
          stop = (start + unat compressed_len) mod 2 ^ 64
      in if stop > length mmap then corrupt ''highlight block out of bounds''
         else slice_at start stop mmap)"

definition MAX_HIGHLIGHT_BLOCK :: nat where "MAX_HIGHLIGHT_BLOCK = 10 * 1024 * 1024"

definition hr_read_file ::
  "(bytes \<Rightarrow> nat \<Rightarrow> bytes option) \<Rightarrow> bytes \<Rightarrow> u64 \<Rightarrow> u32 \<Rightarrow> file_highlight result" where
  "hr_read_file decompress mmap offset compressed_len =
     (let start = unat offset;
          stop = (start + unat compressed_len) mod 2 ^ 64
      in if stop > length mmap then corrupt ''highlight block out of bounds''
         else
           obind (slice_at start stop mmap) (\<lambda>compressed.
           obind (of_option (Err (IndexCorruption ''highlight zstd: ''))
                   (decompress compressed MAX_HIGHLIGHT_BLOCK)) (\<lambda>decompressed.
           of_option (Err (IndexCorruption ''malformed highlight block''))
             (deserialize_file_highlight decompressed))))"

text \<open>
  What the stores need of the compressor: decompression inverts compression when the capacity it is
  given holds the result.
\<close>

locale block_codec =
  fixes compress :: "bytes \<Rightarrow> bytes option"
    and decompress :: "bytes \<Rightarrow> nat \<Rightarrow> bytes option"
  assumes decompress_compress:
    "compress data = Some block \<Longrightarrow> length data \<le> cap \<Longrightarrow> decompress block cap = Some data"

section \<open>What tokens colour\<close>

definition colours :: "token list \<Rightarrow> token_kind list" where
  "colours ts = concat (map (\<lambda>t. replicate (tok_len t) (tok_kind t)) ts)"

lemma colours_simps [simp]:
  "colours [] = []" "colours (t # ts) = replicate (tok_len t) (tok_kind t) @ colours ts"
  by (simp_all add: colours_def)

lemma token_kind_roundtrip [simp]: "token_kind_from_u8 (byte_of (token_kind_code k)) = k"
  by (cases k) (simp_all add: token_kind_from_u8_def token_kind_codes_def)

lemma take_run_colours:
  "take_run k len ts = (len', rest) \<Longrightarrow>
     replicate len k @ colours ts = replicate len' k @ colours rest"
proof (induction k len ts rule: take_run.induct)
  case (2 k len t ts)
  then show ?case
    by (auto simp: replicate_add split: if_splits)
qed simp

lemma decode_u16: "decode_rle (u16_le w @ c # rest)
    = \<lparr>tok_len = unat w, tok_kind = token_kind_from_u8 c\<rparr> # decode_rle rest"
proof -
  obtain a b where ab: "u16_le w = [a, b]"
    by (metis length_u16_le length_0_conv length_Suc_conv numeral_2_eq_2)
  then show ?thesis
    using le_u16_u16_le [of w] by simp
qed

lemma decode_run_chunks:
  "colours (decode_rle (run_chunks k len @ rest)) = replicate len k @ colours (decode_rle rest)"
proof (induction k len rule: run_chunks.induct)
  case (1 k len)
  show ?case
  proof (cases "len > 0")
    case False
    then show ?thesis by (simp add: run_chunks.simps)
  next
    case True
    let ?c = "min len 65535"
    have "unat (of_nat ?c :: u16) = ?c"
      by (simp add: unat_of_nat)
    then have "colours (decode_rle (run_chunks k len @ rest))
        = replicate ?c k @ colours (decode_rle (run_chunks k (len - ?c) @ rest))"
      using True by (subst run_chunks.simps) (simp add: Let_def decode_u16)
    also have "\<dots> = replicate ?c k @ replicate (len - ?c) k @ colours (decode_rle rest)"
      using 1 True by simp
    also have "\<dots> = replicate len k @ colours (decode_rle rest)"
      by (metis append.assoc le_add_diff_inverse min.cobounded1 replicate_add)
    finally show ?thesis .
  qed
qed

lemma colours_rle: "colours (decode_rle (encode_rle ts)) = colours ts"
proof (induction ts rule: encode_rle.induct)
  case (2 t ts)
  obtain len rest where r: "take_run (tok_kind t) (tok_len t) ts = (len, rest)" by fastforce
  with 2 take_run_colours [OF r] show ?case
    by (simp add: decode_run_chunks)
qed simp

section \<open>Lines, blocks and the store\<close>

lemma build_lines_eq:
  "build_lines lines fh =
     \<lparr>token_data = token_data fh @ concat (map encode_rle lines),
      line_offsets = line_offsets fh
        @ map (\<lambda>i. of_nat (length (token_data fh) + offset_of (map encode_rle lines) i)) [0..<length lines]\<rparr>"
proof (induction lines arbitrary: fh)
  case (Cons tokens lines)
  have "[0..<length (tokens # lines)] = 0 # map Suc [0..<length lines]"
    by (simp add: upt_conv_Cons map_Suc_upt del: upt_Suc)
  then show ?case
    by (simp add: Cons.IH comp_def add.assoc del: upt_Suc)
qed simp

lemma tokens_for_built_line:
  assumes "length (concat (map encode_rle lines)) \<le> u32_max" and i: "i < length lines"
  shows "\<exists>ts. tokens_for_line (build_file_highlight lines) i = Inr ts \<and> colours ts = colours (lines ! i)"
proof -
  let ?e = "map encode_rle lines" and ?fh = "build_file_highlight lines"
  have fh: "token_data ?fh = concat ?e" "length (line_offsets ?fh) = length lines"
      "\<And>j. j < length lines \<Longrightarrow> line_offsets ?fh ! j = of_nat (offset_of ?e j)"
    by (simp_all add: build_file_highlight_def build_lines_eq)
  have le: "offset_of ?e j \<le> length (concat ?e)" for j
    by (rule offset_of_le_concat)
  then have off: "unat (line_offsets ?fh ! j) = offset_of ?e j" if "j < length lines" for j
    using that fh(3) assms(1) order.trans [OF le assms(1)] by simp
  have last: "\<not> Suc i < length lines \<Longrightarrow> length (concat ?e) = offset_of ?e (Suc i)"
    using i offset_of_length [of ?e] by (metis Suc_lessI length_map)
  have line: "tokens_for_line ?fh i =
      (if offset_of ?e i \<ge> length (concat ?e) \<or> offset_of ?e i \<ge> offset_of ?e (Suc i) then Inr []
       else obind (slice_at (offset_of ?e i) (offset_of ?e (Suc i)) (concat ?e)) (\<lambda>d. Inr (decode_rle d)))"
    using i fh(1,2) off last
    by (cases "Suc i < length lines") (simp_all add: tokens_for_line_def Let_def)
  have chunk: "slice (offset_of ?e i) (offset_of ?e (Suc i)) (concat ?e) = encode_rle (lines ! i)"
    using slice_concat [of i ?e _ "[]" _ "[]"] i by simp
  have len: "offset_of ?e (Suc i) = offset_of ?e i + length (encode_rle (lines ! i))"
    using i by (simp add: offset_of_Suc)
  show ?thesis
  proof (cases "offset_of ?e i \<ge> length (concat ?e) \<or> offset_of ?e i \<ge> offset_of ?e (Suc i)")
    case True
    then have "length (encode_rle (lines ! i)) = 0"
      using len le [of "Suc i"] by linarith
    then have "encode_rle (lines ! i) = []" by simp
    then have "colours (lines ! i) = []"
      using colours_rle [of "lines ! i"] by simp
    then show ?thesis
      using True line by auto
  next
    case False
    then have "slice_ok (offset_of ?e i) (offset_of ?e (Suc i)) (concat ?e)"
      using le by (simp add: slice_ok_def)
    then have "tokens_for_line ?fh i = Inr (decode_rle (encode_rle (lines ! i)))"
      using False line chunk by simp
    then show ?thesis
      by (simp add: colours_rle)
  qed
qed

lemma deserialize_serialize:
  assumes "length (line_offsets fh) \<le> u32_max"
  shows "deserialize_file_highlight (serialize_file_highlight fh) = Some fh"
proof -
  let ?o = "line_offsets fh" and ?d = "serialize_file_highlight fh"
  have uniform: "\<forall>c \<in> set (map u32_le ?o). length c = 4" by simp
  have len: "length (concat (map u32_le ?o)) = length ?o * 4"
    using offset_of_uniform [OF uniform, of "length ?o"] offset_of_length [of "map u32_le ?o"] by simp
  have "slice (4 + i * 4) (4 + i * 4 + 4) ?d = u32_le (?o ! i)" if "i < length ?o" for i
    unfolding serialize_file_highlight_def using that offset_of_uniform [OF uniform]
      slice_concat [of i "map u32_le ?o" "4 + i * 4" _ "4 + i * 4 + 4"] by simp
  then have offs: "map (\<lambda>i. le_u32 (slice (4 + i * 4) (4 + i * 4 + 4) ?d)) [0..<length ?o] = ?o"
    by (intro nth_equalityI) simp_all
  have "slice 0 4 ?d = u32_le (of_nat (length ?o))" and "length ?d = 4 + length ?o * 4 + length (token_data fh)"
      and "drop (4 + length ?o * 4) ?d = token_data fh"
    by (simp_all add: serialize_file_highlight_def slice_def len)
  then show ?thesis
    using assms offs by (simp add: deserialize_file_highlight_def Let_def)
qed

text \<open>The offset the writer hands out is the length of the file so far.\<close>

definition hw_ok :: "highlight_writer \<Rightarrow> bool" where
  "hw_ok w \<longleftrightarrow> unat (hw_current_offset w) = length (hw_file w)"

lemma unat_lt_u64: "unat (w :: u32) < 2 ^ 64"
  by (rule le_less_trans [OF unat_u32_le]) simp

lemma u64_offset_add:
  assumes "unat (off :: u64) = n" and "n + unat (len :: u32) < 2 ^ 64"
  shows "unat (off + ucast len) = n + unat len"
proof -
  have "unat (ucast len :: u64) = unat len"
    by (simp add: unsigned_ucast_eq take_bit_nat_eq_self [OF unat_lt_u64, simplified])
  with assms show ?thesis
    by (simp add: unat_word_ariths)
qed

lemma hw_add_file_read:
  assumes codec: "block_codec compress decompress" and ok: "hw_ok w"
    and add: "hw_add_file compress w fh = Inr ((off, len, n), w')"
    and fits: "length (serialize_file_highlight fh) \<le> MAX_HIGHLIGHT_BLOCK"
    and size: "length (hw_file w') < 2 ^ 64"
  shows "hw_ok w' \<and> hr_read_file decompress (hw_file w' @ later) off len = Inr fh"
proof -
  obtain c where c: "compress (serialize_file_highlight fh) = Some c" "try_u32 (length c) = Some len"
    and w': "w' = \<lparr>hw_file = hw_file w @ c, hw_current_offset = hw_current_offset w + ucast len\<rparr>"
    and off: "off = hw_current_offset w"
    using add by (auto simp: hw_add_file_def Let_def outcome_simps)
  have len: "unat len = length c" using try_u32_Some [OF c(2)] .
  have start: "unat off = length (hw_file w)" using ok off by (simp add: hw_ok_def)
  have sum: "length (hw_file w) + length c < 2 ^ 64" using size w' by simp
  have "hw_ok w'"
    using u64_offset_add [of "hw_current_offset w" "length (hw_file w)" len] ok sum
    by (simp add: hw_ok_def w' len)
  moreover have "slice_at (unat off) (unat off + unat len) (hw_file w' @ later) = Inr c"
    by (simp add: slice_at_def slice_ok_def slice_def start len w')
  moreover have "length (line_offsets fh) \<le> u32_max"
  proof -
    have "length (concat (map u32_le xs)) = length xs * 4" for xs by (induction xs) simp_all
    then have "length (line_offsets fh) \<le> length (serialize_file_highlight fh)"
      by (simp add: serialize_file_highlight_def)
    with fits show ?thesis by (simp add: MAX_HIGHLIGHT_BLOCK_def)
  qed
  ultimately show ?thesis
    using block_codec.decompress_compress [OF codec c(1) fits] deserialize_serialize [of fh] sum
    by (simp add: hr_read_file_def Let_def start len w')
qed

section \<open>Properties of the highlight store\<close>

text \<open>
  Run-length encoding loses nothing a reader can see: for every list of tokens, runs longer
  than 65535 bytes and empty tokens included, decoding the encoding colours every byte as the
  tokens did, and the tokens read back for any line of a built file colour it as that line's tokens.
\<close>

theorem highlight_lines_roundtrip:
  assumes "length (concat (map encode_rle lines)) \<le> u32_max" and "i < length lines"
  shows "colours (decode_rle (encode_rle ts)) = colours ts \<and>
    (\<exists>us. tokens_for_line (build_file_highlight lines) i = Inr us \<and> colours us = colours (lines ! i))"
  using colours_rle tokens_for_built_line [OF assms] by blast

definition sample_lines :: "token list list" where
  "sample_lines =
     [[\<lparr>tok_len = 2, tok_kind = Tok_Keyword\<rparr>, \<lparr>tok_len = 1, tok_kind = Tok_Plain\<rparr>],
      [], [\<lparr>tok_len = 3, tok_kind = Tok_String\<rparr>]]"

theorem highlight_lines_roundtrip_witness:
  "\<exists>us. tokens_for_line (build_file_highlight sample_lines) 2 = Inr us \<and>
    colours us = [Tok_String, Tok_String, Tok_String]"
proof -
  have nine: "length (concat (map encode_rle sample_lines)) = 9"
    unfolding sample_lines_def by (simp add: run_chunks.simps Let_def)
  have le: "length (concat (map encode_rle sample_lines)) \<le> u32_max"
    unfolding nine by simp
  have two: "2 < length sample_lines"
    unfolding sample_lines_def by simp
  have "colours (sample_lines ! 2) = [Tok_String, Tok_String, Tok_String]"
    by code_simp
  with highlight_lines_roundtrip [OF le two] show ?thesis
    by metis
qed

text \<open>
  The highlight store is an append-only log addressed by what the writer returns: a file's
  highlights are read back from the offset and length of its \<open>add_file\<close>, also after any later
  additions, as long as the serialised block stays within the decompression limit of the reader.
\<close>

theorem highlight_store_roundtrip:
  assumes "block_codec compress decompress" and "hw_ok w"
    and "hw_add_file compress w fh = Inr ((off, len, n), w')"
    and "length (serialize_file_highlight fh) \<le> MAX_HIGHLIGHT_BLOCK" and "length (hw_file w') < 2 ^ 64"
  shows "hw_ok w' \<and> hr_read_file decompress (hw_file w' @ later) off len = Inr fh"
  using assms by (rule hw_add_file_read)

text \<open>A compressor that stores its input, for the witness.\<close>

definition store_compress :: "bytes \<Rightarrow> bytes option" where
  "store_compress data = Some data"

definition store_decompress :: "bytes \<Rightarrow> nat \<Rightarrow> bytes option" where
  "store_decompress block cap = (if length block \<le> cap then Some block else None)"

interpretation store: block_codec store_compress store_decompress
  by unfold_locales (auto simp: store_compress_def store_decompress_def)

theorem highlight_store_roundtrip_witness:
  "\<exists>off len n w. hw_add_file store_compress highlight_writer_new
      \<lparr>token_data = [CHR 0x02, CHR 0x00, CHR 0x01], line_offsets = [0]\<rparr> = Inr ((off, len, n), w) \<and>
    hr_read_file store_decompress (hw_file w @ ''xyz'') off len
      = Inr \<lparr>token_data = [CHR 0x02, CHR 0x00, CHR 0x01], line_offsets = [0]\<rparr>"
proof -
  let ?fh = "\<lparr>token_data = [CHR 0x02, CHR 0x00, CHR 0x01], line_offsets = [0]\<rparr>"
  have len: "length (serialize_file_highlight ?fh) = 11"
    by (simp add: serialize_file_highlight_def)
  obtain off len n w where add: "hw_add_file store_compress highlight_writer_new ?fh = Inr ((off, len, n), w)"
      and hwfile: "length (hw_file w) = 11"
    using len by (simp add: hw_add_file_def store_compress_def highlight_writer_new_def Let_def)
  have "hw_ok highlight_writer_new"
    by (simp add: hw_ok_def highlight_writer_new_def)
  from highlight_store_roundtrip [OF store.block_codec_axioms this add, of "''xyz''"] len hwfile add
  show ?thesis by (auto simp: MAX_HIGHLIGHT_BLOCK_def)
qed

end
