(* ===== verification/Content_Store.thy ===== *)
theory Content_Store
  imports Highlight
begin

text \<open>
  The content store (\<open>ferret-core/src/content.rs\<close>): independently compressed blocks appended to one
  file and read back by offset and length. The zstd library is a parameter: one-shot compression and a
  streaming decoder that can be opened on a block and read up to a number of bytes. The lemmas show
  that a block reads back its content from the place the writer returned, whatever is appended later.
\<close>

section \<open>The compressor\<close>

record zstd =
  z_compress :: "bytes \<Rightarrow> bytes option"
  z_open :: "bytes \<Rightarrow> bool"
  z_read :: "bytes \<Rightarrow> nat \<Rightarrow> bytes option"

text \<open>A decoder opened on a compressed block yields the data, of which the reader takes a prefix.\<close>

locale zstd_stream =
  fixes z :: zstd
  assumes stream_opens: "z_compress z data = Some block \<Longrightarrow> z_open z block"
    and stream_reads: "z_compress z data = Some block \<Longrightarrow> z_read z block n = Some (take n data)"

section \<open>The store\<close>

definition MAX_DECOMPRESSED_SIZE :: nat where "MAX_DECOMPRESSED_SIZE = 10 * 1024 * 1024"

record content_writer =
  cw_file :: bytes
  cw_current_offset :: u64

definition content_writer_new :: content_writer where
  "content_writer_new = \<lparr>cw_file = [], cw_current_offset = 0\<rparr>"

definition cw_add_raw :: "content_writer \<Rightarrow> bytes \<Rightarrow> ((u64 \<times> u32) \<times> content_writer) result" where
  "cw_add_raw w compressed =
     (let offset = cw_current_offset w
      in obind (of_option (Err Io) (try_u32 (length compressed))) (\<lambda>compressed_len.
         Inr ((offset, compressed_len),
              \<lparr>cw_file = cw_file w @ compressed,
               cw_current_offset = cw_current_offset w + ucast compressed_len\<rparr>)))"

definition cw_add_content :: "zstd \<Rightarrow> content_writer \<Rightarrow> bytes \<Rightarrow> ((u64 \<times> u32) \<times> content_writer) result" where
  "cw_add_content z w content =
     obind (of_option (Err Io) (z_compress z content)) (\<lambda>compressed.
       let offset = cw_current_offset w
       in obind (of_option (Err Io) (try_u32 (length compressed))) (\<lambda>compressed_len.
          Inr ((offset, compressed_len),
               \<lparr>cw_file = cw_file w @ compressed,
                cw_current_offset = cw_current_offset w + ucast compressed_len\<rparr>)))"

text \<open>The bounds checks all three readers start with; \<open>checked_add\<close> fails past 64 bits.\<close>

definition content_range :: "bytes \<Rightarrow> u64 \<Rightarrow> u32 \<Rightarrow> bytes result" where
  "content_range mmap offset compressed_len =
     (let start = unat offset;
          stop = start + unat compressed_len
      in if stop \<ge> 2 ^ 64 then corrupt ''content range overflow: ''
         else if stop > length mmap then corrupt ''content read out of bounds: offset=''
         else slice_at start stop mmap)"

definition cr_decode :: "zstd \<Rightarrow> bytes \<Rightarrow> bytes result" where
  "cr_decode z compressed =
     (if \<not> z_open z compressed then corrupt ''zstd decoder init failed: ''
      else
        obind (of_option (Err (IndexCorruption ''zstd decompression failed: ''))
                (z_read z compressed (MAX_DECOMPRESSED_SIZE + 1))) (\<lambda>output.
          if length output > MAX_DECOMPRESSED_SIZE
          then corrupt ''decompressed content exceeds size limit of '' else Inr output))"

definition cr_read_content :: "zstd \<Rightarrow> bytes \<Rightarrow> u64 \<Rightarrow> u32 \<Rightarrow> bytes result" where
  "cr_read_content z mmap offset compressed_len =
     obind (content_range mmap offset compressed_len) (cr_decode z)"

text \<open>The hint sizes the output buffer, capped by the limit; it does not change the result.\<close>

definition cr_read_content_with_size_hint :: "zstd \<Rightarrow> bytes \<Rightarrow> u64 \<Rightarrow> u32 \<Rightarrow> nat \<Rightarrow> bytes result" where
  "cr_read_content_with_size_hint z mmap offset compressed_len size_hint =
     obind (content_range mmap offset compressed_len) (\<lambda>compressed.
       let capacity = min size_hint MAX_DECOMPRESSED_SIZE in cr_decode z compressed)"

definition cr_read_raw_compressed :: "bytes \<Rightarrow> u64 \<Rightarrow> u32 \<Rightarrow> bytes result" where
  "cr_read_raw_compressed mmap offset compressed_len = content_range mmap offset compressed_len"

section \<open>Appending and reading\<close>

text \<open>The running offset is the length of the file.\<close>

definition cw_ok :: "content_writer \<Rightarrow> bool" where
  "cw_ok w \<longleftrightarrow> unat (cw_current_offset w) = length (cw_file w)"

text \<open>Where a block lies in a file.\<close>

definition block_at :: "bytes \<Rightarrow> u64 \<Rightarrow> u32 \<Rightarrow> bytes \<Rightarrow> bool" where
  "block_at mmap off len block \<longleftrightarrow>
     unat off + unat len < 2 ^ 64 \<and> unat off + unat len \<le> length mmap \<and>
     slice (unat off) (unat off + unat len) mmap = block"

lemma block_at_append: "block_at mmap off len block \<Longrightarrow> block_at (mmap @ later) off len block"
  by (simp add: block_at_def slice_append_left)

lemma content_range_block: "block_at mmap off len block \<Longrightarrow> content_range mmap off len = Inr block"
  by (auto simp: block_at_def content_range_def slice_at_def slice_ok_def Let_def)

lemma cw_add_raw_ok:
  assumes "cw_ok w" and "length block \<le> u32_max" and "length (cw_file w) + length block < 2 ^ 64"
  shows "\<exists>off len w'. cw_add_raw w block = Inr ((off, len), w') \<and> cw_ok w' \<and>
    cw_file w' = cw_file w @ block \<and> block_at (cw_file w') off len block"
proof -
  let ?len = "of_nat (length block) :: u32"
  let ?w = "\<lparr>cw_file = cw_file w @ block, cw_current_offset = cw_current_offset w + ucast ?len\<rparr>"
  have len: "unat ?len = length block" using assms(2) by simp
  have start: "unat (cw_current_offset w) = length (cw_file w)" using assms(1) by (simp add: cw_ok_def)
  have "cw_add_raw w block = Inr ((cw_current_offset w, ?len), ?w)"
    using assms(2) by (simp add: cw_add_raw_def Let_def)
  moreover have "cw_ok ?w"
    using u64_offset_add [OF start, of ?len] assms(3) len by (simp add: cw_ok_def)
  moreover have "block_at (cw_file ?w) (cw_current_offset w) ?len block"
    using assms(3) by (simp add: block_at_def start len slice_def)
  ultimately show ?thesis by auto
qed

lemma cr_decode_compressed:
  assumes "zstd_stream z" and "z_compress z data = Some block" and "length data \<le> MAX_DECOMPRESSED_SIZE"
  shows "cr_decode z block = Inr data"
  using zstd_stream.stream_opens [OF assms(1,2)] zstd_stream.stream_reads [OF assms(1,2)] assms(3)
  by (simp add: cr_decode_def)

text \<open>
  The content store returns what was stored: a file of at most 10 MiB added to the store is read
  back, with and without a size hint, from the offset and length \<open>add_content\<close> returned, also after
  anything is appended later, and its raw block is the compressed content; a larger file is stored
  without an error but every read of it fails with the size-limit error.
\<close>

theorem content_store_roundtrip:
  assumes "zstd_stream z" and "cw_ok w"
    and "cw_add_content z w content = Inr ((off, len), w')" and "length (cw_file w') < 2 ^ 64"
  shows "cw_ok w' \<and>
    cr_read_content z (cw_file w' @ later) off len
      = (if length content \<le> MAX_DECOMPRESSED_SIZE then Inr content
         else corrupt ''decompressed content exceeds size limit of '') \<and>
    cr_read_content_with_size_hint z (cw_file w' @ later) off len hint
      = cr_read_content z (cw_file w' @ later) off len \<and>
    (\<exists>block. z_compress z content = Some block \<and>
      cr_read_raw_compressed (cw_file w' @ later) off len = Inr block)"
proof -
  obtain block where block: "z_compress z content = Some block" and raw: "cw_add_raw w block = Inr ((off, len), w')"
    using assms(3) by (auto simp: cw_add_content_def cw_add_raw_def Let_def outcome_simps)
  have small: "length block \<le> u32_max" and grown: "cw_file w' = cw_file w @ block"
    using raw by (auto simp: cw_add_raw_def Let_def outcome_simps try_u32_def split: if_splits)
  have ok: "cw_ok w'" "block_at (cw_file w') off len block"
    using cw_add_raw_ok [OF assms(2) small] assms(4) raw grown by auto
  note range = content_range_block [OF block_at_append [OF ok(2), of later]]
  have "cr_decode z block = (if length content \<le> MAX_DECOMPRESSED_SIZE then Inr content
      else corrupt ''decompressed content exceeds size limit of '')"
    using zstd_stream.stream_opens [OF assms(1) block] zstd_stream.stream_reads [OF assms(1) block]
    by (auto simp: cr_decode_def)
  then show ?thesis
    using ok(1) block
    by (simp add: cr_read_content_def cr_read_content_with_size_hint_def cr_read_raw_compressed_def range)
qed

text \<open>A compressor that stores its input, for the witnesses.\<close>

definition store_zstd :: zstd where
  "store_zstd = \<lparr>z_compress = Some, z_open = (\<lambda>_. True), z_read = (\<lambda>block n. Some (take n block))\<rparr>"

interpretation store_stream: zstd_stream store_zstd
  by unfold_locales (auto simp: store_zstd_def)

theorem content_store_roundtrip_witness:
  "\<exists>off len w. cw_add_content store_zstd content_writer_new ''abc'' = Inr ((off, len), w) \<and>
    cr_read_content store_zstd (cw_file w @ ''xyz'') off len = Inr ''abc''"
proof -
  obtain off len w where add: "cw_add_content store_zstd content_writer_new ''abc'' = Inr ((off, len), w)"
      and size: "length (cw_file w) = 3"
    by (simp add: cw_add_content_def store_zstd_def content_writer_new_def Let_def)
  have "cw_ok content_writer_new" and "length (cw_file w) < 2 ^ 64"
    by (simp_all add: cw_ok_def content_writer_new_def size)
  from content_store_roundtrip [OF store_stream.zstd_stream_axioms this(1) add this(2), of "''xyz''"] add
  show ?thesis by (auto simp: MAX_DECOMPRESSED_SIZE_def)
qed

end
