(* ===== verification/Metadata.thy ===== *)
theory Metadata
  imports Languages Utf8
begin

text \<open>
  The file metadata table (\<open>ferret-core/src/metadata.rs\<close>): \<open>FileMetadata\<close>, the in-memory builder,
  the two files \<open>meta.bin\<close> and \<open>paths.bin\<close> it writes, and the reader over their bytes, for both
  versions of the format. A fallible read is an outcome; a slice out of range is a panic. The
  lemmas show that the reader returns the builder's entries, by position, by file ID and by path.
\<close>

section \<open>The builder\<close>

definition META_MAGIC :: u32 where "META_MAGIC = 0x4D455441"
definition META_VERSION :: u16 where "META_VERSION = 2"
definition META_HEADER_SIZE :: nat where "META_HEADER_SIZE = 10"
definition ENTRY_SIZE :: nat where "ENTRY_SIZE = 74"
definition ENTRY_SIZE_V1 :: nat where "ENTRY_SIZE_V1 = 58"

record file_metadata =
  fm_file_id :: file_id
  fm_path :: text_utf8
  fm_content_hash :: bytes
  fm_language :: language
  fm_size_bytes :: u32
  fm_mtime_epoch_secs :: u64
  fm_line_count :: u32
  fm_content_offset :: u64
  fm_content_len :: u32
  fm_highlight_offset :: u64
  fm_highlight_len :: u32
  fm_highlight_lines :: u32

record metadata_builder =
  mb_entries :: "file_metadata list"
  mb_path_to_index :: "text_utf8 \<Rightarrow> nat option"
  mb_next_file_id :: u32

definition mb_new :: metadata_builder where
  "mb_new = \<lparr>mb_entries = [], mb_path_to_index = Map.empty, mb_next_file_id = 0\<rparr>"

definition mb_add_file :: "metadata_builder \<Rightarrow> file_metadata \<Rightarrow> metadata_builder" where
  "mb_add_file b m =
     (let index = length (mb_entries b)
      in \<lparr>mb_entries = mb_entries b @ [m],
          mb_path_to_index = (mb_path_to_index b)(fm_path m \<mapsto> index),
          mb_next_file_id =
            (if fm_file_id m \<ge> mb_next_file_id b then fm_file_id m + 1 else mb_next_file_id b)\<rparr>)"

definition next_file_id :: "metadata_builder \<Rightarrow> file_id" where
  "next_file_id b = mb_next_file_id b"

definition mb_get :: "metadata_builder \<Rightarrow> file_id \<Rightarrow> file_metadata option" where
  "mb_get b f = find (\<lambda>e. fm_file_id e = f) (mb_entries b)"

definition mb_get_by_path :: "metadata_builder \<Rightarrow> text_utf8 \<Rightarrow> file_metadata option" where
  "mb_get_by_path b path = map_option (\<lambda>idx. mb_entries b ! idx) (mb_path_to_index b path)"

definition mb_file_count :: "metadata_builder \<Rightarrow> nat" where
  "mb_file_count b = length (mb_entries b)"

definition entry_bytes :: "u32 \<Rightarrow> u32 \<Rightarrow> file_metadata \<Rightarrow> bytes" where
  "entry_bytes path_offset path_len e =
     u32_le (fm_file_id e) @ u32_le path_offset @ u32_le path_len @ fm_content_hash e
       @ u16_le (language_to_u16 (fm_language e)) @ u32_le (fm_size_bytes e)
       @ u64_le (fm_mtime_epoch_secs e) @ u32_le (fm_line_count e)
       @ u64_le (fm_content_offset e) @ u32_le (fm_content_len e)
       @ u64_le (fm_highlight_offset e) @ u32_le (fm_highlight_len e)
       @ u32_le (fm_highlight_lines e)"

fun write_entries ::
  "u32 \<Rightarrow> file_metadata list \<Rightarrow> bytes \<Rightarrow> bytes \<Rightarrow> (bytes \<times> bytes) result" where
  "write_entries path_offset [] meta paths = Inr (meta, paths)"
| "write_entries path_offset (e # es) meta paths =
     obind (of_option (Err Io) (try_u32 (length (fm_path e)))) (\<lambda>path_len.
       write_entries (path_offset + path_len) es
         (meta @ entry_bytes path_offset path_len e) (paths @ fm_path e))"

definition mb_write_to :: "metadata_builder \<Rightarrow> (bytes \<times> bytes) result" where
  "mb_write_to b =
     obind (of_option (Err Io) (try_u32 (length (mb_entries b)))) (\<lambda>entry_count.
       write_entries 0 (mb_entries b)
         (u32_le META_MAGIC @ u16_le META_VERSION @ u32_le entry_count) [])"

section \<open>The reader\<close>

record metadata_reader =
  mr_data :: bytes
  mr_paths :: bytes
  mr_entry_count :: u32
  mr_entry_size :: nat

definition mr_new :: "bytes \<Rightarrow> bytes \<Rightarrow> metadata_reader result" where
  "mr_new meta_data paths_data =
     (if length meta_data < META_HEADER_SIZE then corrupt ''meta.bin too small for header''
      else if le_u32 (slice 0 4 meta_data) \<noteq> META_MAGIC
      then corrupt ''invalid meta.bin magic: expected 0x''
      else
        obind
          (let version = le_u16 (slice 4 6 meta_data)
           in if version = 1 then Inr ENTRY_SIZE_V1
              else if version = 2 then Inr ENTRY_SIZE
              else Inl (Err (UnsupportedVersion (ucast version))))
          (\<lambda>entry_size.
             let entry_count = le_u32 (slice 6 10 meta_data);
                 expected_size = META_HEADER_SIZE + unat entry_count * entry_size
             in if length meta_data < expected_size
                then corrupt ''meta.bin too small: expected at least ''
                else Inr \<lparr>mr_data = meta_data, mr_paths = paths_data,
                          mr_entry_count = entry_count, mr_entry_size = entry_size\<rparr>))"

definition mr_new_unchecked :: "bytes \<Rightarrow> bytes \<Rightarrow> u32 \<Rightarrow> nat \<Rightarrow> metadata_reader" where
  "mr_new_unchecked meta_data paths_data entry_count entry_size =
     \<lparr>mr_data = meta_data, mr_paths = paths_data, mr_entry_count = entry_count,
      mr_entry_size = entry_size\<rparr>"

definition read_entry :: "metadata_reader \<Rightarrow> nat \<Rightarrow> file_metadata result" where
  "read_entry r index =
     (let offset = META_HEADER_SIZE + index * mr_entry_size r
      in obind (slice_at offset (offset + mr_entry_size r) (mr_data r)) (\<lambda>entry_data.
         let path_offset = unat (le_u32 (slice 4 8 entry_data));
             path_len = unat (le_u32 (slice 8 12 entry_data));
             (highlight_offset, highlight_len, highlight_lines) =
               (if mr_entry_size r \<ge> ENTRY_SIZE
                then (le_u64 (slice 58 66 entry_data), le_u32 (slice 66 70 entry_data),
                      le_u32 (slice 70 74 entry_data))
                else (0, 0, 0));
             path_end = path_offset + path_len
         in if path_end \<ge> 2 ^ 64 then corrupt ''path offset overflow: offset=''
            else if path_end > length (mr_paths r) then corrupt ''path data out of bounds: offset=''
            else
              let path = slice path_offset path_end (mr_paths r)
              in if \<not> utf8_valid path then corrupt ''invalid UTF-8 in path: ''
                 else Inr \<lparr>fm_file_id = le_u32 (slice 0 4 entry_data), fm_path = path,
                   fm_content_hash = slice 12 28 entry_data,
                   fm_language = language_from_u16 (le_u16 (slice 28 30 entry_data)),
                   fm_size_bytes = le_u32 (slice 30 34 entry_data),
                   fm_mtime_epoch_secs = le_u64 (slice 34 42 entry_data),
                   fm_line_count = le_u32 (slice 42 46 entry_data),
                   fm_content_offset = le_u64 (slice 46 54 entry_data),
                   fm_content_len = le_u32 (slice 54 58 entry_data),
                   fm_highlight_offset = highlight_offset, fm_highlight_len = highlight_len,
                   fm_highlight_lines = highlight_lines\<rparr>))"

definition iter_all :: "metadata_reader \<Rightarrow> file_metadata result list" where
  "iter_all r = map (read_entry r) [0..<unat (mr_entry_count r)]"

text \<open>The fallback loop of \<open>get\<close> over the indices.\<close>

fun get_scan :: "metadata_reader \<Rightarrow> file_id \<Rightarrow> nat list \<Rightarrow> file_metadata option result" where
  "get_scan r f [] = Inr None"
| "get_scan r f (i # ix) =
     obind (read_entry r i) (\<lambda>entry.
       if fm_file_id entry = f then Inr (Some entry) else get_scan r f ix)"

definition mr_get :: "metadata_reader \<Rightarrow> file_id \<Rightarrow> file_metadata option result" where
  "mr_get r f =
     (if f < mr_entry_count r
      then obind (read_entry r (unat f)) (\<lambda>entry.
             if fm_file_id entry = f then Inr (Some entry)
             else get_scan r f [0..<unat (mr_entry_count r)])
      else get_scan r f [0..<unat (mr_entry_count r)])"

definition size_entry :: "metadata_reader \<Rightarrow> nat \<Rightarrow> (file_id \<times> u32) result" where
  "size_entry r i =
     (let entry_offset = META_HEADER_SIZE + i * mr_entry_size r
      in obind (slice_at entry_offset (entry_offset + mr_entry_size r) (mr_data r)) (\<lambda>entry_data.
         Inr (le_u32 (slice 0 4 entry_data), le_u32 (slice 30 34 entry_data))))"

fun size_scan :: "metadata_reader \<Rightarrow> file_id \<Rightarrow> nat list \<Rightarrow> u32 option result" where
  "size_scan r f [] = Inr None"
| "size_scan r f (i # ix) =
     obind (size_entry r i) (\<lambda>(stored_id, size).
       if stored_id = f then Inr (Some size) else size_scan r f ix)"

definition get_size_bytes :: "metadata_reader \<Rightarrow> file_id \<Rightarrow> u32 option result" where
  "get_size_bytes r f =
     (if f < mr_entry_count r
      then obind (size_entry r (unat f)) (\<lambda>(stored_id, size).
             if stored_id = f then Inr (Some size)
             else size_scan r f [0..<unat (mr_entry_count r)])
      else size_scan r f [0..<unat (mr_entry_count r)])"

text \<open>The loop slices entries of the current size, whatever the version of the file.\<close>

fun path_scan :: "metadata_reader \<Rightarrow> bytes \<Rightarrow> nat list \<Rightarrow> file_id option result" where
  "path_scan r needle [] = Inr None"
| "path_scan r needle (i # ix) =
     (let offset = META_HEADER_SIZE + i * mr_entry_size r
      in obind (slice_at offset (offset + ENTRY_SIZE) (mr_data r)) (\<lambda>entry_data.
         let path_offset = unat (le_u32 (slice 4 8 entry_data));
             path_len = unat (le_u32 (slice 8 12 entry_data));
             path_end = path_offset + path_len
         in if path_len \<noteq> length needle then path_scan r needle ix
            else if path_end > length (mr_paths r) then path_scan r needle ix
            else if slice path_offset path_end (mr_paths r) = needle
            then Inr (Some (le_u32 (slice 0 4 entry_data)))
            else path_scan r needle ix))"

definition find_file_id_by_path :: "metadata_reader \<Rightarrow> text_utf8 \<Rightarrow> file_id option result" where
  "find_file_id_by_path r path = path_scan r path [0..<unat (mr_entry_count r)]"

section \<open>The bytes of the two files\<close>

text \<open>
  What the files can represent: hashes of sixteen bytes, paths that are text, and a path pool
  addressed by 32-bit offsets.
\<close>

definition entries_ok :: "file_metadata list \<Rightarrow> bool" where
  "entries_ok es \<longleftrightarrow>
     length es \<le> u32_max \<and> length (concat (map fm_path es)) \<le> u32_max \<and>
     list_all (\<lambda>e. length (fm_content_hash e) = 16 \<and> utf8_valid (fm_path e)) es"

abbreviation path_offset_of :: "file_metadata list \<Rightarrow> nat \<Rightarrow> nat" where
  "path_offset_of es i \<equiv> offset_of (map fm_path es) i"

definition meta_chunks :: "u32 \<Rightarrow> file_metadata list \<Rightarrow> bytes list" where
  "meta_chunks po es =
     map (\<lambda>i. entry_bytes (po + of_nat (path_offset_of es i)) (of_nat (length (fm_path (es ! i)))) (es ! i))
       [0..<length es]"

lemma meta_chunks_Cons:
  "meta_chunks po (e # es)
     = entry_bytes po (of_nat (length (fm_path e))) e # meta_chunks (po + of_nat (length (fm_path e))) es"
  unfolding meta_chunks_def
  by (simp add: upt_conv_Cons map_Suc_upt [symmetric] add.assoc del: upt_Suc)

lemma write_entries_chunks:
  assumes "list_all (\<lambda>e. length (fm_path e) \<le> u32_max) es"
  shows "write_entries po es meta paths
    = Inr (meta @ concat (meta_chunks po es), paths @ concat (map fm_path es))"
  using assms
proof (induction es arbitrary: po meta paths)
  case Nil
  then show ?case by (simp add: meta_chunks_def)
next
  case (Cons e es)
  then show ?case by (simp add: meta_chunks_Cons)
qed

lemma path_length_le: "e \<in> set es \<Longrightarrow> length (fm_path e) \<le> length (concat (map fm_path es))"
  by (induction es) auto

definition meta_header :: "nat \<Rightarrow> bytes" where
  "meta_header n = u32_le META_MAGIC @ u16_le META_VERSION @ u32_le (of_nat n)"

lemma mb_write_to_bytes:
  assumes "entries_ok (mb_entries b)"
  shows "mb_write_to b
    = Inr (meta_header (length (mb_entries b)) @ concat (meta_chunks 0 (mb_entries b)),
           concat (map fm_path (mb_entries b)))"
proof -
  have "list_all (\<lambda>e. length (fm_path e) \<le> u32_max) (mb_entries b)"
    using assms path_length_le [of _ "mb_entries b"] unfolding entries_ok_def list_all_iff
    by (meson order.trans)
  then show ?thesis
    using assms by (simp add: mb_write_to_def entries_ok_def write_entries_chunks meta_header_def)
qed

lemma length_entry_bytes: "length (fm_content_hash e) = 16 \<Longrightarrow> length (entry_bytes po pl e) = 74"
  by (simp add: entry_bytes_def)

lemma entry_bytes_fields:
  assumes "length (fm_content_hash e) = 16"
  shows "slice 0 4 (entry_bytes po pl e) = u32_le (fm_file_id e)"
    "slice 4 8 (entry_bytes po pl e) = u32_le po"
    "slice 8 12 (entry_bytes po pl e) = u32_le pl"
    "slice 12 28 (entry_bytes po pl e) = fm_content_hash e"
    "slice 28 30 (entry_bytes po pl e) = u16_le (language_to_u16 (fm_language e))"
    "slice 30 34 (entry_bytes po pl e) = u32_le (fm_size_bytes e)"
    "slice 34 42 (entry_bytes po pl e) = u64_le (fm_mtime_epoch_secs e)"
    "slice 42 46 (entry_bytes po pl e) = u32_le (fm_line_count e)"
    "slice 46 54 (entry_bytes po pl e) = u64_le (fm_content_offset e)"
    "slice 54 58 (entry_bytes po pl e) = u32_le (fm_content_len e)"
    "slice 58 66 (entry_bytes po pl e) = u64_le (fm_highlight_offset e)"
    "slice 66 70 (entry_bytes po pl e) = u32_le (fm_highlight_len e)"
    "slice 70 74 (entry_bytes po pl e) = u32_le (fm_highlight_lines e)"
  using assms by (simp_all add: entry_bytes_def slice_def)

section \<open>The reader on written files\<close>

definition written_meta :: "file_metadata list \<Rightarrow> metadata_reader" where
  "written_meta es =
     \<lparr>mr_data = meta_header (length es) @ concat (meta_chunks 0 es),
      mr_paths = concat (map fm_path es), mr_entry_count = of_nat (length es), mr_entry_size = 74\<rparr>"

lemma length_meta_header [simp]: "length (meta_header n) = 10"
  by (simp add: meta_header_def)

lemma meta_chunks_nth:
  "i < length es \<Longrightarrow> meta_chunks 0 es ! i
     = entry_bytes (of_nat (path_offset_of es i)) (of_nat (length (fm_path (es ! i)))) (es ! i)"
  by (simp add: meta_chunks_def)

lemma length_meta_chunks [simp]: "length (meta_chunks po es) = length es"
  by (simp add: meta_chunks_def)

lemma meta_chunks_uniform:
  "entries_ok es \<Longrightarrow> \<forall>c \<in> set (meta_chunks po es). length c = 74"
  by (auto simp: meta_chunks_def entries_ok_def list_all_length length_entry_bytes)

lemma length_concat_meta_chunks: "entries_ok es \<Longrightarrow> length (concat (meta_chunks po es)) = length es * 74"
  using offset_of_uniform [OF meta_chunks_uniform [of es po], of "length es"]
    offset_of_length [of "meta_chunks po es"] by simp

lemma meta_entry_slice:
  assumes "entries_ok es" and "i < length es"
  shows "slice_at (10 + i * 74) (84 + i * 74) (mr_data (written_meta es))
    = Inr (entry_bytes (of_nat (path_offset_of es i)) (of_nat (length (fm_path (es ! i)))) (es ! i))"
proof -
  note uniform = meta_chunks_uniform [OF assms(1), of 0]
  have "slice (10 + i * 74) (84 + i * 74) (meta_header (length es) @ concat (meta_chunks 0 es) @ [])
      = meta_chunks 0 es ! i"
    using assms(2)
    by (intro slice_concat) (simp_all add: offset_of_uniform [OF uniform])
  moreover have "84 + i * 74 \<le> 10 + length es * 74"
    using assms(2) by simp
  then have "slice_ok (10 + i * 74) (84 + i * 74) (meta_header (length es) @ concat (meta_chunks 0 es))"
    by (simp add: slice_ok_def length_concat_meta_chunks [OF assms(1)])
  ultimately show ?thesis
    using assms(2) by (simp add: written_meta_def meta_chunks_nth)
qed

lemma path_pool_slice:
  assumes "i < length es"
  shows "slice (path_offset_of es i) (path_offset_of es i + length (fm_path (es ! i)))
    (concat (map fm_path es)) = fm_path (es ! i)"
  using slice_concat [of i "map fm_path es" _ "[]" _ "[]"] assms
  by (simp add: offset_of_Suc)

lemma path_pool_bounds:
  assumes "entries_ok es" and "i < length es"
  shows "path_offset_of es i + length (fm_path (es ! i)) \<le> length (concat (map fm_path es))"
    "path_offset_of es i \<le> u32_max" "length (fm_path (es ! i)) \<le> u32_max"
proof -
  show le: "path_offset_of es i + length (fm_path (es ! i)) \<le> length (concat (map fm_path es))"
    using offset_of_le_concat [of "map fm_path es" "Suc i"] assms(2) by (simp add: offset_of_Suc)
  with assms(1) show "path_offset_of es i \<le> u32_max" "length (fm_path (es ! i)) \<le> u32_max"
    unfolding entries_ok_def by linarith+
qed

lemma read_entry_written:
  assumes ok: "entries_ok es" and i: "i < length es"
  shows "read_entry (written_meta es) i = Inr (es ! i)"
proof -
  have hash: "length (fm_content_hash (es ! i)) = 16" and path: "utf8_valid (fm_path (es ! i))"
    using ok i by (simp_all add: entries_ok_def list_all_length)
  note bounds = path_pool_bounds [OF ok i]
  have max: "length (concat (map fm_path es)) \<le> u32_max"
    using ok by (simp add: entries_ok_def)
  with bounds have small: "path_offset_of es i + length (fm_path (es ! i)) < 2 ^ 64"
    by simp
  have sizes: "mr_entry_size (written_meta es) = 74" "mr_paths (written_meta es) = concat (map fm_path es)"
    by (simp_all add: written_meta_def)
  show ?thesis
    unfolding read_entry_def META_HEADER_SIZE_def ENTRY_SIZE_def sizes
    using meta_entry_slice [OF ok i] bounds small path path_pool_slice [OF i]
    by (simp add: Let_def entry_bytes_fields [OF hash] language_from_to_u16 not_less)
qed

lemma find_map: "find P (map g xs) = map_option g (find (P \<circ> g) xs)"
  by (induction xs) simp_all

lemma map_nth_comp: "map (\<lambda>i. f (xs ! i)) [0..<length xs] = map f xs"
  by (rule nth_equalityI) simp_all

lemma find_nth: "map_option (\<lambda>i. xs ! i) (find (\<lambda>i. P (xs ! i)) [0..<length xs]) = find P xs"
  using find_map [of P "\<lambda>i. xs ! i" "[0..<length xs]"] by (simp add: map_nth comp_def)

lemma find_distinct_key:
  "distinct (map k xs) \<Longrightarrow> x \<in> set xs \<Longrightarrow> find (\<lambda>y. k y = k x) xs = Some x"
  by (induction xs) (auto simp: image_iff)

lemma mr_new_written:
  assumes "entries_ok es"
  shows "mr_new (meta_header (length es) @ concat (meta_chunks 0 es)) (concat (map fm_path es))
    = Inr (written_meta es)"
proof -
  let ?d = "meta_header (length es) @ concat (meta_chunks 0 es)"
  have "slice 0 4 ?d = u32_le META_MAGIC" "slice 4 6 ?d = u16_le META_VERSION"
      "slice 6 10 ?d = u32_le (of_nat (length es))"
    by (simp_all add: meta_header_def slice_def)
  moreover have "length es \<le> u32_max"
    using assms by (simp add: entries_ok_def)
  ultimately show ?thesis
    using length_concat_meta_chunks [OF assms, of 0]
    by (simp add: mr_new_def META_HEADER_SIZE_def META_VERSION_def ENTRY_SIZE_def written_meta_def Let_def)
qed

lemma written_meta_count:
  assumes "entries_ok es"
  shows "unat (mr_entry_count (written_meta es)) = length es"
  using assms by (simp add: written_meta_def entries_ok_def)

lemma get_scan_written:
  assumes "entries_ok es" and "list_all (\<lambda>i. i < length es) ix"
  shows "get_scan (written_meta es) f ix
    = Inr (map_option (\<lambda>i. es ! i) (find (\<lambda>i. fm_file_id (es ! i) = f) ix))"
  using assms(2) by (induction ix) (simp_all add: read_entry_written [OF assms(1)])

lemma mr_get_written:
  assumes ok: "entries_ok es" and ids: "distinct (map fm_file_id es)"
  shows "mr_get (written_meta es) f = Inr (find (\<lambda>e. fm_file_id e = f) es)"
proof -
  have scan: "get_scan (written_meta es) f [0..<length es] = Inr (find (\<lambda>e. fm_file_id e = f) es)"
    using get_scan_written [OF ok, of "[0..<length es]" f] find_nth [of es "\<lambda>e. fm_file_id e = f"]
    by (simp add: list_all_iff)
  have "find (\<lambda>e. fm_file_id e = f) es = Some (es ! unat f)"
    if "unat f < length es" and "fm_file_id (es ! unat f) = f"
    using find_distinct_key [OF ids, of "es ! unat f"] that by simp
  then show ?thesis
    using scan by (simp add: mr_get_def written_meta_count [OF ok] read_entry_written [OF ok] word_less_nat_alt)
qed

lemma size_entry_written:
  assumes "entries_ok es" and "i < length es"
  shows "size_entry (written_meta es) i = Inr (fm_file_id (es ! i), fm_size_bytes (es ! i))"
proof -
  have "mr_entry_size (written_meta es) = 74" by (simp add: written_meta_def)
  moreover have "length (fm_content_hash (es ! i)) = 16"
    using assms by (simp add: entries_ok_def list_all_length)
  ultimately show ?thesis
    using meta_entry_slice [OF assms]
    by (simp add: size_entry_def META_HEADER_SIZE_def Let_def entry_bytes_fields)
qed

lemma size_scan_written:
  assumes "entries_ok es" and "list_all (\<lambda>i. i < length es) ix"
  shows "size_scan (written_meta es) f ix
    = Inr (map_option (\<lambda>i. fm_size_bytes (es ! i)) (find (\<lambda>i. fm_file_id (es ! i) = f) ix))"
  using assms(2) by (induction ix) (simp_all add: size_entry_written [OF assms(1)])

lemma get_size_written:
  assumes ok: "entries_ok es" and ids: "distinct (map fm_file_id es)"
  shows "get_size_bytes (written_meta es) f
    = Inr (map_option fm_size_bytes (find (\<lambda>e. fm_file_id e = f) es))"
proof -
  have "map_option (\<lambda>i. fm_size_bytes (es ! i)) (find (\<lambda>i. fm_file_id (es ! i) = f) [0..<length es])
      = map_option fm_size_bytes (find (\<lambda>e. fm_file_id e = f) es)"
    unfolding find_nth [of es "\<lambda>e. fm_file_id e = f", symmetric] by (simp add: option.map_comp comp_def)
  then have scan: "size_scan (written_meta es) f [0..<length es]
      = Inr (map_option fm_size_bytes (find (\<lambda>e. fm_file_id e = f) es))"
    using size_scan_written [OF ok, of "[0..<length es]" f] by (simp add: list_all_iff)
  have "find (\<lambda>e. fm_file_id e = f) es = Some (es ! unat f)"
    if "unat f < length es" and "fm_file_id (es ! unat f) = f"
    using find_distinct_key [OF ids, of "es ! unat f"] that by simp
  then show ?thesis
    using scan
    by (simp add: get_size_bytes_def written_meta_count [OF ok] size_entry_written [OF ok] word_less_nat_alt)
qed

lemma path_scan_written:
  assumes ok: "entries_ok es" and "list_all (\<lambda>i. i < length es) ix"
  shows "path_scan (written_meta es) p ix
    = Inr (map_option (\<lambda>i. fm_file_id (es ! i)) (find (\<lambda>i. fm_path (es ! i) = p) ix))"
  using assms(2)
proof (induction ix)
  case Nil
  then show ?case by simp
next
  case (Cons i ix)
  then have i: "i < length es" by simp
  have hash: "length (fm_content_hash (es ! i)) = 16"
    using ok i by (simp add: entries_ok_def list_all_length)
  have sizes: "mr_entry_size (written_meta es) = 74" "mr_paths (written_meta es) = concat (map fm_path es)"
    by (simp_all add: written_meta_def)
  have "fm_path (es ! i) = p \<longrightarrow> length (fm_path (es ! i)) = length p" by simp
  then show ?case
    using Cons meta_entry_slice [OF ok i] path_pool_bounds [OF ok i] path_pool_slice [OF i]
    by (auto simp: Let_def META_HEADER_SIZE_def ENTRY_SIZE_def sizes entry_bytes_fields [OF hash])
qed

lemma find_by_path_written:
  assumes "entries_ok es"
  shows "find_file_id_by_path (written_meta es) p
    = Inr (map_option fm_file_id (find (\<lambda>e. fm_path e = p) es))"
proof -
  have "map_option (\<lambda>i. fm_file_id (es ! i)) (find (\<lambda>i. fm_path (es ! i) = p) [0..<length es])
      = map_option fm_file_id (find (\<lambda>e. fm_path e = p) es)"
    unfolding find_nth [of es "\<lambda>e. fm_path e = p", symmetric] by (simp add: option.map_comp comp_def)
  then show ?thesis
    using path_scan_written [OF assms, of "[0..<length es]" p]
    by (simp add: find_file_id_by_path_def written_meta_count [OF assms] list_all_iff)
qed

section \<open>The builder's invariant\<close>

text \<open>The path map points at the last entry of each path, and the next ID is unused.\<close>

definition mb_ok :: "metadata_builder \<Rightarrow> bool" where
  "mb_ok b \<longleftrightarrow>
     (\<forall>p. mb_path_to_index b p =
        find (\<lambda>i. fm_path (mb_entries b ! i) = p) (rev [0..<length (mb_entries b)])) \<and>
     (\<forall>e \<in> set (mb_entries b). fm_file_id e < mb_next_file_id b)"

lemma mb_ok_new: "mb_ok mb_new"
  by (simp add: mb_ok_def mb_new_def)

lemma find_cong_set: "(\<And>x. x \<in> set xs \<Longrightarrow> P x = Q x) \<Longrightarrow> find P xs = find Q xs"
  by (induction xs) auto

lemma mb_ok_add_file:
  assumes "mb_ok b" and "fm_file_id m \<noteq> 0xFFFFFFFF"
  shows "mb_ok (mb_add_file b m)"
proof -
  let ?es = "mb_entries b"
  have "fm_file_id m < fm_file_id m + 1"
  proof -
    have "unat (fm_file_id m) \<noteq> u32_max"
      using assms(2) word_unat_eq_iff [of "fm_file_id m" "0xFFFFFFFF"] by simp
    then have "unat (fm_file_id m) + 1 \<le> u32_max"
      using unat_u32_le [of "fm_file_id m"] by linarith
    then have "unat (fm_file_id m + 1) = unat (fm_file_id m) + 1"
      by (simp add: unat_word_ariths)
    then show ?thesis by (simp add: word_less_nat_alt)
  qed
  then have ids: "\<forall>e \<in> set (mb_entries (mb_add_file b m)). fm_file_id e < mb_next_file_id (mb_add_file b m)"
    using assms(1) by (auto simp: mb_ok_def mb_add_file_def Let_def intro: less_trans)
  have "find (\<lambda>i. fm_path ((?es @ [m]) ! i) = p) (rev [0..<length ?es])
      = find (\<lambda>i. fm_path (?es ! i) = p) (rev [0..<length ?es])" for p
    by (rule find_cong_set) (simp add: nth_append)
  then show ?thesis
    using assms(1) ids by (simp add: mb_ok_def mb_add_file_def Let_def)
qed

text \<open>Builders fed with files, and what their lookups return.\<close>

lemma mb_ok_add_files:
  assumes "mb_ok b" and "\<forall>m \<in> set ms. fm_file_id m \<noteq> 0xFFFFFFFF"
  shows "mb_ok (fold (\<lambda>m b. mb_add_file b m) ms b)
    \<and> mb_entries (fold (\<lambda>m b. mb_add_file b m) ms b) = mb_entries b @ ms"
  using assms
proof (induction ms arbitrary: b)
  case (Cons m ms)
  have "mb_entries (mb_add_file b m) = mb_entries b @ [m]"
    by (simp add: mb_add_file_def Let_def)
  with Cons mb_ok_add_file [of b m] show ?case by simp
qed simp

lemma find_distinct_rev:
  assumes "distinct (map k xs)"
  shows "find (\<lambda>y. k y = v) (rev xs) = find (\<lambda>y. k y = v) xs"
proof (cases "\<exists>x \<in> set xs. k x = v")
  case True
  then obtain x where x: "x \<in> set xs" "k x = v" by blast
  moreover have "distinct (map k (rev xs))"
    using assms by (simp add: rev_map [symmetric])
  ultimately show ?thesis
    using find_distinct_key [OF assms x(1)] find_distinct_key [of k "rev xs" x] by simp
next
  case False
  then have "find (\<lambda>y. k y = v) xs = None" and "find (\<lambda>y. k y = v) (rev xs) = None"
    by (auto simp: find_None_iff)
  then show ?thesis by simp
qed

lemma mb_get_by_path_find:
  assumes "mb_ok b" and "distinct (map fm_path (mb_entries b))"
  shows "mb_get_by_path b p = find (\<lambda>e. fm_path e = p) (mb_entries b)"
proof -
  let ?es = "mb_entries b"
  have "distinct (map (\<lambda>i. fm_path (?es ! i)) [0..<length ?es])"
    using assms(2) by (simp add: map_nth_comp [of fm_path])
  from find_distinct_rev [OF this, of p] show ?thesis
    using assms(1) find_nth [of ?es "\<lambda>e. fm_path e = p"]
    by (simp add: mb_get_by_path_def mb_ok_def)
qed

section \<open>Properties of the metadata table\<close>

text \<open>
  C28. A written metadata table reads back exactly: writing succeeds, the reader opens the two
  files, yields the builder's entries in order with all their fields, and its lookups by file ID,
  by path and of the size alone agree with those of the builder, for present and absent keys.
\<close>

theorem metadata_roundtrip:
  assumes "mb_ok b" and "entries_ok (mb_entries b)"
    and "distinct (map fm_file_id (mb_entries b))" and "distinct (map fm_path (mb_entries b))"
  shows "\<exists>meta paths r. mb_write_to b = Inr (meta, paths) \<and> mr_new meta paths = Inr r \<and>
    iter_all r = map Inr (mb_entries b) \<and>
    (\<forall>f. mr_get r f = Inr (mb_get b f)) \<and>
    (\<forall>f. get_size_bytes r f = Inr (map_option fm_size_bytes (mb_get b f))) \<and>
    (\<forall>p. find_file_id_by_path r p = Inr (map_option fm_file_id (mb_get_by_path b p)))"
proof -
  let ?es = "mb_entries b"
  have "iter_all (written_meta ?es) = map (\<lambda>i. Inr (?es ! i)) [0..<length ?es]"
    by (simp add: iter_all_def written_meta_count [OF assms(2)] read_entry_written [OF assms(2)] cong: map_cong)
  also have "\<dots> = map Inr ?es"
    by (rule map_nth_comp)
  finally show ?thesis
    using mb_write_to_bytes [OF assms(2)] mr_new_written [OF assms(2)] mr_get_written [OF assms(2,3)]
      get_size_written [OF assms(2,3)] find_by_path_written [OF assms(2)]
      mb_get_by_path_find [OF assms(1,4)]
    by (auto simp: mb_get_def)
qed

text \<open>Two entries, for the witnesses.\<close>

definition sample_meta :: "file_metadata list" where
  "sample_meta =
     [\<lparr>fm_file_id = 0, fm_path = ''src/main.rs'', fm_content_hash = replicate 16 (CHR 0x07),
       fm_language = Lang_Rust, fm_size_bytes = 120, fm_mtime_epoch_secs = 1700000000,
       fm_line_count = 6, fm_content_offset = 0, fm_content_len = 90, fm_highlight_offset = 0,
       fm_highlight_len = 0, fm_highlight_lines = 0\<rparr>,
      \<lparr>fm_file_id = 3, fm_path = ''README.md'', fm_content_hash = replicate 16 (CHR 0x09),
       fm_language = Lang_Markdown, fm_size_bytes = 40, fm_mtime_epoch_secs = 1700000001,
       fm_line_count = 2, fm_content_offset = 90, fm_content_len = 33, fm_highlight_offset = 0,
       fm_highlight_len = 0, fm_highlight_lines = 0\<rparr>]"

lemma sample_meta_ok: "entries_ok sample_meta"
  by (simp add: entries_ok_def sample_meta_def is_ascii_text_def)

definition sample_mb :: metadata_builder where
  "sample_mb = fold (\<lambda>m b. mb_add_file b m) sample_meta mb_new"

lemma sample_mb_ok: "mb_ok sample_mb" "mb_entries sample_mb = sample_meta"
  using mb_ok_add_files [OF mb_ok_new, of sample_meta]
  by (simp_all add: sample_mb_def sample_meta_def mb_new_def)

theorem metadata_roundtrip_witness:
  "\<exists>meta paths r. mb_write_to sample_mb = Inr (meta, paths) \<and> mr_new meta paths = Inr r \<and>
    get_size_bytes r 3 = Inr (Some 40) \<and> find_file_id_by_path r ''README.md'' = Inr (Some 3) \<and>
    find_file_id_by_path r ''src/lib.rs'' = Inr None"
proof -
  have "distinct (map fm_file_id (mb_entries sample_mb))" "distinct (map fm_path (mb_entries sample_mb))"
    by (simp_all add: sample_mb_ok, simp_all add: sample_meta_def)
  from metadata_roundtrip [OF sample_mb_ok(1) _ this] sample_meta_ok
  obtain meta paths r where r: "mb_write_to sample_mb = Inr (meta, paths)" "mr_new meta paths = Inr r"
      "\<forall>f. get_size_bytes r f = Inr (map_option fm_size_bytes (mb_get sample_mb f))"
      "\<forall>p. find_file_id_by_path r p = Inr (map_option fm_file_id (mb_get_by_path sample_mb p))"
    by (auto simp: sample_mb_ok)
  moreover have "mb_get_by_path sample_mb p = find (\<lambda>e. fm_path e = p) sample_meta" for p
    using mb_get_by_path_find [OF sample_mb_ok(1)] by (simp add: sample_mb_ok, simp add: sample_meta_def)
  ultimately show ?thesis
    by (auto simp: mb_get_def sample_mb_ok, auto simp: sample_meta_def)
qed

text \<open>
  Lookup by path slices the entries of a version-1 table (58 bytes) at the version-2 size
  (74 bytes). On a table that ends with its last entry, a lookup of a path that is not there never
  reports its absence: it panics on the last entry.
\<close>

theorem find_by_path_v1_panics:
  assumes "mr_new meta paths = Inr r" and "le_u16 (slice 4 6 meta) = 1"
    and "0 < unat (mr_entry_count r)" and "length meta = 10 + unat (mr_entry_count r) * 58"
  shows "find_file_id_by_path r p = panic \<or> (\<exists>f. find_file_id_by_path r p = Inr (Some f))"
proof -
  let ?n = "unat (mr_entry_count r)"
  have r: "mr_data r = meta" "mr_entry_size r = 58"
    using assms(1,2) by (auto simp: mr_new_def Let_def ENTRY_SIZE_V1_def outcome_simps split: if_splits)
  have "\<not> slice_ok (10 + (?n - 1) * 58) (10 + (?n - 1) * 58 + 74) meta"
    using assms(3,4) by (cases ?n) (simp_all add: slice_ok_def)
  then have last: "path_scan r p [?n - 1] = panic"
    by (simp add: r META_HEADER_SIZE_def ENTRY_SIZE_def slice_at_def Let_def)
  have scan: "path_scan r p (ix @ [?n - 1]) = panic \<or> (\<exists>f. path_scan r p (ix @ [?n - 1]) = Inr (Some f))" for ix
  proof (induction ix)
    case Nil
    then show ?case using last by simp
  next
    case (Cons i ix)
    then show ?case
      by (auto simp: Let_def slice_at_def)
  qed
  have "[0..<?n] = [0..<?n - 1] @ [?n - 1]"
    using assms(3) by (metis Suc_pred' upt_Suc_append zero_le)
  then show ?thesis
    using scan [of "[0..<?n - 1]"] by (simp add: find_file_id_by_path_def)
qed

definition sample_v1 :: bytes where
  "sample_v1 = u32_le META_MAGIC @ u16_le 1 @ u32_le 1 @ replicate 58 (CHR 0x00)"

theorem find_by_path_v1_panics_witness:
  "\<exists>r. mr_new sample_v1 [] = Inr r \<and> find_file_id_by_path r ''src/lib.rs'' = panic"
proof -
  define r where "r = \<lparr>mr_data = sample_v1, mr_paths = [], mr_entry_count = 1, mr_entry_size = 58\<rparr>"
  have fields: "slice 0 4 sample_v1 = u32_le META_MAGIC" "slice 4 6 sample_v1 = u16_le 1"
      "slice 6 10 sample_v1 = u32_le 1" "length sample_v1 = 68"
    by (simp_all add: sample_v1_def slice_def)
  then have new: "mr_new sample_v1 [] = Inr r"
    by (simp add: mr_new_def META_HEADER_SIZE_def ENTRY_SIZE_V1_def r_def Let_def)
  have "find_file_id_by_path r ''src/lib.rs'' = panic
      \<or> (\<exists>f. find_file_id_by_path r ''src/lib.rs'' = Inr (Some f))"
    using find_by_path_v1_panics [OF new, of "''src/lib.rs''"] fields by (simp add: r_def)
  moreover have "find_file_id_by_path r p \<noteq> Inr (Some f)" for p f
    by (simp add: find_file_id_by_path_def r_def slice_at_def slice_ok_def META_HEADER_SIZE_def
        ENTRY_SIZE_def fields Let_def)
  ultimately show ?thesis
    using new by blast
qed

end
