(* ===== verification/Trigram_Extract.thy ===== *)
theory Trigram_Extract
  imports Core_Types
begin

text \<open>
  Trigram extraction (\<open>ferret-core/src/trigram.rs\<close>): the sliding three-byte window, plain and
  with ASCII case folding. A \<open>HashSet\<close> of trigrams is a list without repetitions, in the order of
  the first occurrence; no result depends on that order. The lemmas show that the trigrams of a
  text are among those of every text that contains it, whatever the case of its ASCII letters.
\<close>

section \<open>Extraction\<close>

definition extract_trigrams :: "bytes \<Rightarrow> trigram list" where
  "extract_trigrams content = map (\<lambda>(a, b, c). from_bytes a b c) (windows3 content)"

definition extract_unique_trigrams :: "bytes \<Rightarrow> trigram list" where
  "extract_unique_trigrams content = remdups (extract_trigrams content)"

definition ascii_fold_byte :: "u8 \<Rightarrow> u8" where
  "ascii_fold_byte b = (if is_ascii_uppercase b then to_ascii_lowercase b else b)"

definition extract_trigrams_folded :: "bytes \<Rightarrow> trigram list" where
  "extract_trigrams_folded content =
     map (\<lambda>(a, b, c). from_bytes (ascii_fold_byte a) (ascii_fold_byte b) (ascii_fold_byte c))
       (windows3 content)"

definition extract_unique_trigrams_folded :: "bytes \<Rightarrow> trigram list" where
  "extract_unique_trigrams_folded content = remdups (extract_trigrams_folded content)"

text \<open>Folding a text byte by byte.\<close>

abbreviation fold_text :: "bytes \<Rightarrow> bytes" where
  "fold_text s \<equiv> map ascii_fold_byte s"

section \<open>Facts\<close>

lemma ascii_fold_byte_eq: "ascii_fold_byte b = to_ascii_lowercase b"
  by (simp add: ascii_fold_byte_def to_ascii_lowercase_def)

lemma ascii_fold_byte_idem [simp]: "ascii_fold_byte (ascii_fold_byte b) = ascii_fold_byte b"
  by (simp add: ascii_fold_byte_eq)

lemma fold_text_idem [simp]: "map (ascii_fold_byte \<circ> ascii_fold_byte) s = fold_text s"
  by (simp add: comp_def)

lemma fold_text_newline: "ascii_fold_byte b = CHR 0x0A \<longleftrightarrow> b = CHR 0x0A"
proof (cases "is_ascii_uppercase b")
  case True
  then have "byte_val b + 32 \<noteq> 10" and "b \<noteq> CHR 0x0A"
    by (auto simp: is_ascii_uppercase_def)
  moreover have "byte_val (byte_of (byte_val b + 32)) = byte_val b + 32"
    using True by (simp add: is_ascii_uppercase_def)
  moreover have "byte_val (CHR 0x0A) = 10"
    by simp
  ultimately have "byte_of (byte_val b + 32) \<noteq> CHR 0x0A"
    by metis
  with \<open>b \<noteq> CHR 0x0A\<close> show ?thesis
    by (auto simp: ascii_fold_byte_eq to_ascii_lowercase_def)
next
  case False
  then show ?thesis
    by (simp add: ascii_fold_byte_def)
qed

lemma extract_trigrams_folded_eq: "extract_trigrams_folded s = extract_trigrams (fold_text s)"
  by (simp add: extract_trigrams_folded_def extract_trigrams_def windows3_map case_prod_beta)

lemma extract_trigrams_folded_fold [simp]:
  "extract_trigrams_folded (fold_text s) = extract_trigrams_folded s"
  by (simp add: extract_trigrams_folded_eq)

lemma length_extract_trigrams [simp]:
  "length (extract_trigrams s) = length s - 2"
  "length (extract_trigrams_folded s) = length s - 2"
  by (simp_all add: extract_trigrams_def extract_trigrams_folded_def length_windows3)

lemma extract_trigrams_nth:
  "i + 2 < length s \<Longrightarrow> extract_trigrams s ! i = from_bytes (s ! i) (s ! (i + 1)) (s ! (i + 2))"
  by (simp add: extract_trigrams_def windows3_nth length_windows3)

lemma set_extract_unique [simp]:
  "set (extract_unique_trigrams s) = set (extract_trigrams s)"
  "set (extract_unique_trigrams_folded s) = set (extract_trigrams_folded s)"
  by (simp_all add: extract_unique_trigrams_def extract_unique_trigrams_folded_def)

lemma distinct_extract_unique [simp]:
  "distinct (extract_unique_trigrams s)"
  "distinct (extract_unique_trigrams_folded s)"
  by (simp_all add: extract_unique_trigrams_def extract_unique_trigrams_folded_def)

lemma extract_unique_folded_eq_Nil [simp]:
  "extract_unique_trigrams_folded s = [] \<longleftrightarrow> length s < 3"
proof -
  have "extract_unique_trigrams_folded s = [] \<longleftrightarrow> length (extract_trigrams_folded s) = 0"
    unfolding extract_unique_trigrams_folded_def remdups_eq_nil_iff length_0_conv ..
  also have "\<dots> \<longleftrightarrow> length s < 3"
    unfolding length_extract_trigrams by arith
  finally show ?thesis .
qed

lemma trigrams_sublist:
  assumes "sublist s t"
  shows "set (extract_trigrams s) \<subseteq> set (extract_trigrams t)"
proof -
  obtain ps ss where "t = ps @ s @ ss"
    using assms by (auto simp: sublist_def)
  then show ?thesis
    unfolding extract_trigrams_def set_map using windows3_append [of s ps ss] by (simp add: image_mono)
qed

lemma trigrams_folded_sublist:
  "sublist (fold_text s) (fold_text t) \<Longrightarrow>
     set (extract_trigrams_folded s) \<subseteq> set (extract_trigrams_folded t)"
  by (simp add: extract_trigrams_folded_eq trigrams_sublist)

lemma sublist_fold_text: "sublist s t \<Longrightarrow> sublist (fold_text s) (fold_text t)"
  by (rule map_mono_sublist)

text \<open>
  The trigrams of a query are necessary: a text that contains the query, up to the case of its
  ASCII letters, contains each of the query's folded trigrams.
\<close>

lemma trigrams_necessary:
  "sublist (fold_text query) (fold_text content) \<Longrightarrow>
     \<forall>t \<in> set (extract_unique_trigrams_folded query). t \<in> set (extract_trigrams_folded content)"
  using trigrams_folded_sublist by auto

end
