(* ===== verification/Posting.thy ===== *)
theory Posting
  imports Trigram_Extract "HOL-Library.Product_Lexorder"
begin

text \<open>
  The in-memory posting lists (\<open>ferret-core/src/posting.rs\<close>): the builder's state, \<open>add_file\<close>,
  \<open>finalize\<close> and the accessors. The abstract contract of a finished builder is \<open>posting_spec\<close>: the
  file IDs, in ascending order, of the files whose content has the trigram. The lemmas show that a
  builder fed with files of ascending IDs meets it in both modes, and that its positional lists
  are exactly the offsets at which the trigram occurs.
\<close>

section \<open>The builder\<close>

record posting_builder =
  file_postings :: "(trigram \<times> file_id list) list"
  positional_postings :: "(trigram \<times> (file_id \<times> u32) list) list"
  store_positions :: bool

definition new_builder :: posting_builder where
  "new_builder = \<lparr>file_postings = [], positional_postings = [], store_positions = True\<rparr>"

definition file_only :: posting_builder where
  "file_only = \<lparr>file_postings = [], positional_postings = [], store_positions = False\<rparr>"

definition file_only_with_capacity :: "nat \<Rightarrow> posting_builder" where
  "file_only_with_capacity estimated_trigrams =
     \<lparr>file_postings = [], positional_postings = [], store_positions = False\<rparr>"

definition stores_positions :: "posting_builder \<Rightarrow> bool" where
  "stores_positions b = store_positions b"

text \<open>The two loops of \<open>add_file\<close>; the offset is the index of the window, cast to \<open>u32\<close>.\<close>

fun add_with_positions :: "file_id \<Rightarrow> nat \<Rightarrow> trigram list \<Rightarrow> posting_builder \<Rightarrow> posting_builder" where
  "add_with_positions f offset [] b = b"
| "add_with_positions f offset (t # ts) b =
     add_with_positions f (Suc offset) ts
       (b\<lparr>file_postings := push_entry t f (file_postings b),
          positional_postings := push_entry t (f, of_nat offset) (positional_postings b)\<rparr>)"

fun add_file_only :: "file_id \<Rightarrow> trigram list \<Rightarrow> posting_builder \<Rightarrow> posting_builder" where
  "add_file_only f [] b = b"
| "add_file_only f (t # ts) b =
     add_file_only f ts (b\<lparr>file_postings := push_entry t f (file_postings b)\<rparr>)"

definition add_file :: "posting_builder \<Rightarrow> file_id \<Rightarrow> bytes \<Rightarrow> posting_builder" where
  "add_file b f content =
     (if store_positions b then add_with_positions f 0 (extract_trigrams_folded content) b
      else add_file_only f (extract_trigrams_folded content) b)"

definition finalize :: "posting_builder \<Rightarrow> posting_builder" where
  "finalize b =
     (if store_positions b
      then b\<lparr>file_postings := map (\<lambda>(t, ids). (t, remdups_adj (sort ids))) (file_postings b),
             positional_postings := map (\<lambda>(t, ps). (t, sort ps)) (positional_postings b)\<rparr>
      else b\<lparr>file_postings := map (\<lambda>(t, ids). (t, remdups_adj ids)) (file_postings b)\<rparr>)"

definition trigram_count :: "posting_builder \<Rightarrow> nat" where
  "trigram_count b = length (file_postings b)"

text \<open>The callers' loop over the files of a segment.\<close>

definition add_files :: "posting_builder \<Rightarrow> (file_id \<times> bytes) list \<Rightarrow> posting_builder" where
  "add_files b files = fold (\<lambda>(f, content) b. add_file b f content) files b"

section \<open>The contract\<close>

definition posting_spec :: "(file_id \<times> bytes) list \<Rightarrow> trigram \<Rightarrow> file_id list" where
  "posting_spec files t = map fst (filter (\<lambda>(f, content). t \<in> set (extract_trigrams_folded content)) files)"

definition position_spec :: "(file_id \<times> bytes) list \<Rightarrow> trigram \<Rightarrow> (file_id \<times> u32) list" where
  "position_spec files t =
     concat (map (\<lambda>(f, content).
       map (\<lambda>i. (f, of_nat i))
         (filter (\<lambda>i. extract_trigrams_folded content ! i = t)
            [0..<length (extract_trigrams_folded content)])) files)"

text \<open>What the index writer needs of a builder.\<close>

definition wf_postings :: "posting_builder \<Rightarrow> bool" where
  "wf_postings b \<longleftrightarrow>
     distinct (map fst (file_postings b)) \<and>
     (\<forall>(t, ids) \<in> set (file_postings b). ids \<noteq> [] \<and> sorted_wrt (<) ids) \<and>
     (positional_postings b = [] \<or>
      distinct (map fst (positional_postings b)) \<and>
      fst ` set (positional_postings b) = fst ` set (file_postings b) \<and>
      (\<forall>(t, ps) \<in> set (positional_postings b). ps \<noteq> [] \<and> sorted ps))"

section \<open>Adding files\<close>

lemma store_positions_add_with [simp]:
  "store_positions (add_with_positions f n ts b) = store_positions b"
  by (induction f n ts b rule: add_with_positions.induct) simp_all

lemma store_positions_add_only [simp]:
  "store_positions (add_file_only f ts b) = store_positions b"
  by (induction f ts b rule: add_file_only.induct) simp_all

lemma store_positions_add_file [simp]: "store_positions (add_file b f c) = store_positions b"
  by (simp add: add_file_def)

lemma store_positions_finalize [simp]: "store_positions (finalize b) = store_positions b"
  by (simp add: finalize_def)

lemma entries_add_with_positions:
  "entries_of (file_postings (add_with_positions f n ts b)) t
     = entries_of (file_postings b) t @ replicate (count_list ts t) f"
  by (induction f n ts b rule: add_with_positions.induct)
     (simp_all add: replicate_append_same)

lemma entries_add_file_only:
  "entries_of (file_postings (add_file_only f ts b)) t
     = entries_of (file_postings b) t @ replicate (count_list ts t) f"
  by (induction f ts b rule: add_file_only.induct)
     (simp_all add: replicate_append_same)

lemma entries_add_file:
  "entries_of (file_postings (add_file b f c)) t
     = entries_of (file_postings b) t @ replicate (count_list (extract_trigrams_folded c) t) f"
  by (simp add: add_file_def entries_add_with_positions entries_add_file_only)

lemma positions_add_file_only [simp]:
  "positional_postings (add_file_only f ts b) = positional_postings b"
  by (induction f ts b rule: add_file_only.induct) simp_all

lemma positions_add_with_positions:
  "entries_of (positional_postings (add_with_positions f n ts b)) t
     = entries_of (positional_postings b) t
       @ map (\<lambda>i. (f, of_nat (n + i))) (filter (\<lambda>i. ts ! i = t) [0..<length ts])"
proof (induction f n ts b rule: add_with_positions.induct)
  case (1 f n b)
  then show ?case by simp
next
  case (2 f n t' ts b)
  have "[0..<length (t' # ts)] = 0 # map Suc [0..<length ts]"
    by (simp add: upt_conv_Cons map_Suc_upt del: upt_Suc)
  then show ?case
    using 2 by (simp add: filter_map comp_def del: upt_Suc)
qed

lemma keys_add_with_positions:
  "fst ` set (file_postings (add_with_positions f n ts b)) = fst ` set (file_postings b) \<union> set ts \<and>
   fst ` set (positional_postings (add_with_positions f n ts b))
     = fst ` set (positional_postings b) \<union> set ts \<and>
   distinct (map fst (file_postings (add_with_positions f n ts b)))
     = distinct (map fst (file_postings b)) \<and>
   distinct (map fst (positional_postings (add_with_positions f n ts b)))
     = distinct (map fst (positional_postings b))"
  by (induction f n ts b rule: add_with_positions.induct) simp_all

lemma keys_add_file_only:
  "fst ` set (file_postings (add_file_only f ts b)) = fst ` set (file_postings b) \<union> set ts \<and>
   distinct (map fst (file_postings (add_file_only f ts b))) = distinct (map fst (file_postings b))"
  by (induction f ts b rule: add_file_only.induct) simp_all

text \<open>
  The invariant of a builder under construction: distinct keys, and the same keys in both maps
  when positions are stored, none in the positional map otherwise.
\<close>

definition builder_keys_ok :: "posting_builder \<Rightarrow> bool" where
  "builder_keys_ok b \<longleftrightarrow>
     distinct (map fst (file_postings b)) \<and> distinct (map fst (positional_postings b)) \<and>
     (if store_positions b then fst ` set (positional_postings b) = fst ` set (file_postings b)
      else positional_postings b = [])"

lemma builder_keys_ok_add_file: "builder_keys_ok b \<Longrightarrow> builder_keys_ok (add_file b f c)"
  by (auto simp: builder_keys_ok_def add_file_def keys_add_with_positions keys_add_file_only)

lemma builder_keys_ok_new [simp]:
  "builder_keys_ok new_builder" "builder_keys_ok file_only" "builder_keys_ok (file_only_with_capacity n)"
  by (simp_all add: builder_keys_ok_def new_builder_def file_only_def file_only_with_capacity_def)

lemma add_files_Nil [simp]: "add_files b [] = b"
  by (simp add: add_files_def)

lemma add_files_snoc [simp]: "add_files b (files @ [(f, c)]) = add_file (add_files b files) f c"
  by (simp add: add_files_def)

lemma store_positions_add_files [simp]: "store_positions (add_files b files) = store_positions b"
  by (induction files rule: rev_induct) auto

lemma builder_keys_ok_add_files: "builder_keys_ok b \<Longrightarrow> builder_keys_ok (add_files b files)"
  by (induction files rule: rev_induct) (auto simp: builder_keys_ok_add_file)

text \<open>The raw list of a trigram: each file once per occurrence, in the order of addition.\<close>

definition raw_postings :: "(file_id \<times> bytes) list \<Rightarrow> trigram \<Rightarrow> file_id list" where
  "raw_postings files t =
     concat (map (\<lambda>(f, c). replicate (count_list (extract_trigrams_folded c) t) f) files)"

lemma entries_add_files:
  "entries_of (file_postings (add_files b files)) t
     = entries_of (file_postings b) t @ raw_postings files t"
  by (induction files rule: rev_induct) (auto simp: entries_add_file raw_postings_def)

lemma positions_add_files:
  "store_positions b \<Longrightarrow>
     entries_of (positional_postings (add_files b files)) t
       = entries_of (positional_postings b) t @ position_spec files t"
  by (induction files rule: rev_induct)
     (auto simp: add_file_def positions_add_with_positions position_spec_def)

lemma set_raw_postings: "set (raw_postings files t) = set (posting_spec files t)"
proof -
  have "count_list ts t = 0 \<longleftrightarrow> t \<notin> set ts" for ts :: "trigram list"
    by (simp add: count_list_0_iff)
  then show ?thesis
    by (induction files) (auto simp: raw_postings_def posting_spec_def split: if_splits)
qed

lemma posting_spec_ids: "set (posting_spec files t) \<subseteq> fst ` set files"
  by (auto simp: posting_spec_def)

lemma raw_postings_sorted: "sorted (map fst files) \<Longrightarrow> sorted (raw_postings files t)"
proof (induction files)
  case Nil
  then show ?case by (simp add: raw_postings_def)
next
  case (Cons p files)
  obtain f c where p: "p = (f, c)" by fastforce
  have "\<forall>x \<in> set (raw_postings files t). f \<le> x"
    using Cons.prems posting_spec_ids [of files t] by (auto simp: p set_raw_postings)
  with Cons show ?case
    by (auto simp: raw_postings_def p sorted_append)
qed

lemma posting_spec_sorted:
  "sorted_wrt (<) (map fst files) \<Longrightarrow> sorted_wrt (<) (posting_spec files t)"
  by (auto simp: posting_spec_def sorted_wrt_map intro: sorted_wrt_filter)

lemma strict_sorted_unique:
  fixes xs ys :: "'a::linorder list"
  shows "sorted_wrt (<) xs \<Longrightarrow> sorted_wrt (<) ys \<Longrightarrow> set xs = set ys \<Longrightarrow> xs = ys"
  by (rule strict_sorted_equal)

lemma dedup_raw_postings:
  assumes "sorted_wrt (<) (map fst files)"
  shows "remdups_adj (raw_postings files t) = posting_spec files t"
    and "remdups_adj (sort (raw_postings files t)) = posting_spec files t"
proof -
  have sorted: "sorted (raw_postings files t)"
    using assms by (intro raw_postings_sorted strict_sorted_imp_sorted)
  then show "remdups_adj (raw_postings files t) = posting_spec files t"
    using assms
    by (intro strict_sorted_unique sorted_remdups_adj_strict posting_spec_sorted)
       (simp_all add: set_raw_postings)
  with sorted show "remdups_adj (sort (raw_postings files t)) = posting_spec files t"
    by (simp add: sorted_sort_id)
qed

section \<open>Finalised builders\<close>

lemma entries_finalize_files:
  "entries_of (file_postings (finalize b)) t =
     (if store_positions b then remdups_adj (sort (entries_of (file_postings b) t))
      else remdups_adj (entries_of (file_postings b) t))"
  by (simp add: finalize_def entries_of_map entries_of_not_key)

lemma entries_finalize_positions:
  "entries_of (positional_postings (finalize b)) t =
     (if store_positions b then sort (entries_of (positional_postings b) t)
      else entries_of (positional_postings b) t)"
  by (simp add: finalize_def entries_of_map entries_of_not_key)

lemma keys_finalize [simp]:
  "map fst (file_postings (finalize b)) = map fst (file_postings b)"
  "map fst (positional_postings (finalize b)) = map fst (positional_postings b)"
  by (auto simp: finalize_def)

lemma position_spec_sorted: 
  assumes "sorted_wrt (<) (map fst files)" and "\<forall>(f, c) \<in> set files. length c \<le> u32_max"
  shows "sorted (position_spec files t)"
  using assms
proof (induction files)
  case Nil
  then show ?case by (simp add: position_spec_def)
next
  case (Cons p files)
  obtain f c where p: "p = (f, c)" by fastforce
  let ?ts = "extract_trigrams_folded c"
  let ?is = "filter (\<lambda>i. ?ts ! i = t) [0..<length ?ts]"
  have small: "\<forall>i \<in> set ?is. i \<le> u32_max"
    using Cons.prems(2) by (auto simp: p)
  have "sorted (map (\<lambda>i. (f, of_nat i :: u32)) ?is)"
    unfolding sorted_map
  proof (rule sorted_wrt_mono_rel [of _ "(\<le>)"])
    fix i j
    assume "i \<in> set ?is" and "j \<in> set ?is" and "i \<le> j"
    with small show "(f, of_nat i :: u32) \<le> (f, of_nat j)"
      by (simp add: less_eq_prod_def word_le_nat_alt)
  qed (simp add: sorted_wrt_filter)
  moreover have "\<forall>q \<in> set (position_spec files t). f < fst q"
    using Cons.prems(1) by (auto simp: p position_spec_def)
  then have "\<forall>q \<in> set (map (\<lambda>i. (f, of_nat i :: u32)) ?is). \<forall>r \<in> set (position_spec files t). q \<le> r"
    by (auto simp: less_eq_prod_def)
  moreover have "sorted (position_spec files t)"
    using Cons by simp
  ultimately have "sorted (map (\<lambda>i. (f, of_nat i :: u32)) ?is @ position_spec files t)"
    unfolding sorted_append by blast
  then show ?case
    by (simp add: position_spec_def p)
qed

text \<open>A finished builder is well-formed.\<close>

lemma raw_postings_not_Nil:
  "raw_postings files t \<noteq> [] \<longleftrightarrow> (\<exists>(f, c) \<in> set files. t \<in> set (extract_trigrams_folded c))"
proof -
  have "raw_postings files t = [] \<longleftrightarrow> set (posting_spec files t) = {}"
    unfolding set_raw_postings [symmetric] by simp
  then show ?thesis
    by (auto simp: posting_spec_def filter_empty_conv)
qed

lemma keys_add_files:
  assumes "file_postings b = []" and "positional_postings b = []"
  shows "fst ` set (file_postings (add_files b files))
    = (\<Union>(f, c) \<in> set files. set (extract_trigrams_folded c))"
proof (induction files rule: rev_induct)
  case Nil
  then show ?case by (simp add: assms)
next
  case (snoc p files)
  obtain f c where p: "p = (f, c)" by fastforce
  have "fst ` set (file_postings (add_file b' f c)) =
      fst ` set (file_postings b') \<union> set (extract_trigrams_folded c)" for b'
    by (simp add: add_file_def keys_add_with_positions keys_add_file_only)
  with snoc show ?case by (simp add: p Un_commute)
qed

definition empty_builder :: "posting_builder \<Rightarrow> bool" where
  "empty_builder b \<longleftrightarrow> file_postings b = [] \<and> positional_postings b = []"

lemma empty_builder_new [simp]:
  "empty_builder new_builder" "empty_builder file_only" "empty_builder (file_only_with_capacity n)"
  by (simp_all add: empty_builder_def new_builder_def file_only_def file_only_with_capacity_def)

lemma finished_file_postings:
  assumes "empty_builder b" and "sorted_wrt (<) (map fst files)"
  shows "entries_of (file_postings (finalize (add_files b files))) t = posting_spec files t"
  using assms
  by (simp add: empty_builder_def entries_finalize_files entries_add_files dedup_raw_postings)

lemma finished_positional_postings:
  assumes "empty_builder b" and "store_positions b" and "sorted_wrt (<) (map fst files)"
    and "\<forall>(f, c) \<in> set files. length c \<le> u32_max"
  shows "entries_of (positional_postings (finalize (add_files b files))) t = position_spec files t"
  using assms
  by (simp add: empty_builder_def entries_finalize_positions positions_add_files
      sorted_sort_id position_spec_sorted)

lemma empty_builder_keys_ok: "empty_builder b \<Longrightarrow> builder_keys_ok b"
  by (simp add: empty_builder_def builder_keys_ok_def)

lemma builder_keys_ok_finalize: "builder_keys_ok b \<Longrightarrow> builder_keys_ok (finalize b)"
  unfolding builder_keys_ok_def keys_finalize store_positions_finalize set_map [symmetric]
  by (metis Nil_is_map_conv keys_finalize(2))

lemma wf_finished:
  assumes "empty_builder b" and "sorted_wrt (<) (map fst files)"
    and "\<forall>(f, c) \<in> set files. length c \<le> u32_max"
  shows "wf_postings (finalize (add_files b files))"
proof -
  let ?b = "add_files b files" and ?fb = "finalize (add_files b files)"
  have ok: "builder_keys_ok ?b"
    by (intro builder_keys_ok_add_files empty_builder_keys_ok assms)
  then have ok': "builder_keys_ok ?fb"
    by (rule builder_keys_ok_finalize)
  have keys: "t \<in> fst ` set (file_postings ?fb) \<longleftrightarrow> posting_spec files t \<noteq> []" for t
  proof -
    have "fst ` set (file_postings ?fb) = fst ` set (file_postings ?b)"
      by (metis keys_finalize(1) list.set_map)
    then show ?thesis
      using assms(1) by (auto simp: keys_add_files empty_builder_def posting_spec_def filter_empty_conv)
  qed
  have files_ok: "ids \<noteq> [] \<and> sorted_wrt (<) ids" if "(t, ids) \<in> set (file_postings ?fb)" for t ids
  proof -
    have "entries_of (file_postings ?fb) t = ids"
      using that ok by (intro entries_of_key) (simp_all add: builder_keys_ok_def)
    moreover have "posting_spec files t \<noteq> []"
      using that keys by force
    ultimately show ?thesis
      using finished_file_postings [OF assms(1,2)] posting_spec_sorted [OF assms(2)] by metis
  qed
  have positions_ok: "ps \<noteq> [] \<and> sorted ps"
    if "store_positions b" and "(t, ps) \<in> set (positional_postings ?fb)" for t ps
  proof -
    have "entries_of (positional_postings ?fb) t = ps"
      using that ok by (intro entries_of_key) (simp_all add: builder_keys_ok_def)
    then have ps: "ps = position_spec files t"
      using finished_positional_postings [OF assms(1) that(1) assms(2,3)] by metis
    have "t \<in> fst ` set (positional_postings ?b)"
      using that(2) by (metis keys_finalize(2) list.set_map fst_conv image_eqI)
    then have "t \<in> fst ` set (file_postings ?fb)"
      using ok that(1) by (metis builder_keys_ok_def keys_finalize(1) list.set_map store_positions_add_files)
    then obtain f c where "(f, c) \<in> set files" and "t \<in> set (extract_trigrams_folded c)"
      unfolding keys by (auto simp: posting_spec_def filter_empty_conv)
    then obtain i where "i < length (extract_trigrams_folded c)" and "extract_trigrams_folded c ! i = t"
      by (auto simp: in_set_conv_nth)
    then have "filter (\<lambda>i. extract_trigrams_folded c ! i = t) [0..<length (extract_trigrams_folded c)] \<noteq> []"
      unfolding filter_empty_conv by auto
    moreover obtain xs ys where "files = xs @ (f, c) # ys"
      using split_list [OF \<open>(f, c) \<in> set files\<close>] by blast
    ultimately have "position_spec files t \<noteq> []"
      by (simp add: position_spec_def)
    with ps show ?thesis
      using position_spec_sorted [OF assms(2,3)] by simp
  qed
  have files: "distinct (map fst (file_postings ?fb))"
      "\<forall>(t, ids) \<in> set (file_postings ?fb). ids \<noteq> [] \<and> sorted_wrt (<) ids"
    using ok' files_ok by (auto simp: builder_keys_ok_def)
  show ?thesis
  proof (cases "store_positions b")
    case True
    have "\<forall>(t, ps) \<in> set (positional_postings ?fb). ps \<noteq> [] \<and> sorted ps"
      using positions_ok [OF True] by blast
    with ok' True files show ?thesis
      by (simp add: wf_postings_def builder_keys_ok_def)
  next
    case False
    with ok' files show ?thesis
      by (simp add: wf_postings_def builder_keys_ok_def)
  qed
qed

end
