(* ===== verification/Codec.thy ===== *)
theory Codec
  imports Core_Types "HOL-Library.Product_Lexorder"
begin

text \<open>
  The delta-varint codec of posting lists (\<open>ferret-core/src/codec.rs\<close>). The variable-length
  integers themselves come from the crate \<open>integer_encoding\<close>: its writer and its reader are
  parameters of every definition, and the locale \<open>varint_codec\<close> states what the crate documents
  about them. The lemmas show that both formats round-trip on sorted input, that decoding is total
  on arbitrary bytes and returns sorted values, and that an encoding never starts a new value with
  an empty piece.
\<close>

section \<open>The varint interface\<close>

text \<open>
  \<open>write_varint v\<close> is the bytes the writer appends for \<open>v\<close>; \<open>read_varint bs\<close> is the value read at
  the front of \<open>bs\<close> with the bytes that remain, or \<open>None\<close> when the bytes end early or hold no
  32-bit value.
\<close>

type_synonym varint_writer = "u32 \<Rightarrow> bytes"
type_synonym varint_reader = "bytes \<Rightarrow> (u32 \<times> bytes) option"

locale varint_codec =
  fixes write_varint :: varint_writer and read_varint :: varint_reader
  assumes read_write: "read_varint (write_varint v @ rest) = Some (v, rest)"
    and read_suffix: "read_varint bs = Some (v, rest) \<Longrightarrow> \<exists>used. bs = used @ rest \<and> used \<noteq> []"

text \<open>
  The cursor only moves forward. The guard makes that explicit for an arbitrary reader, so that
  the decoding loops below are total; for a reader that satisfies the interface it never fires
  (\<open>varint_codec.step_read\<close>).
\<close>

definition read_step :: "varint_reader \<Rightarrow> varint_reader" where
  "read_step rd bs =
     (case rd bs of
        None \<Rightarrow> None
      | Some (v, rest) \<Rightarrow> if length rest < length bs then Some (v, rest) else None)"

lemma read_step_less: "read_step rd bs = Some (v, rest) \<Longrightarrow> length rest < length bs"
  by (auto simp: read_step_def split: option.splits prod.splits if_splits)

lemma read_step_Nil [simp]: "read_step rd [] = None"
  by (auto simp: read_step_def split: option.splits)

section \<open>File-level posting lists\<close>

fun encode_delta_from :: "varint_writer \<Rightarrow> u32 \<Rightarrow> u32 list \<Rightarrow> bytes" where
  "encode_delta_from wr prev [] = []"
| "encode_delta_from wr prev (val # vals) = wr (val - prev) @ encode_delta_from wr val vals"

definition encode_delta_varint :: "varint_writer \<Rightarrow> u32 list \<Rightarrow> bytes" where
  "encode_delta_varint wr values = encode_delta_from wr 0 values"

function decode_delta_from :: "varint_reader \<Rightarrow> u32 \<Rightarrow> bytes \<Rightarrow> u32 list" where
  "decode_delta_from rd acc bs =
     (case read_step rd bs of
        None \<Rightarrow> []
      | Some (delta, rest) \<Rightarrow>
          saturating_add acc delta # decode_delta_from rd (saturating_add acc delta) rest)"
  by pat_completeness auto
termination
  by (relation "measure (\<lambda>(rd, acc, bs). length bs)") (auto dest: read_step_less)

declare decode_delta_from.simps [simp del]

definition decode_delta_varint :: "varint_reader \<Rightarrow> bytes \<Rightarrow> u32 list" where
  "decode_delta_varint rd bs = decode_delta_from rd 0 bs"

section \<open>Positional posting lists\<close>

text \<open>One file group: its ID, the number of offsets, then the offsets' deltas.\<close>

function encode_positional_postings :: "varint_writer \<Rightarrow> (u32 \<times> u32) list \<Rightarrow> bytes" where
  "encode_positional_postings wr [] = []"
| "encode_positional_postings wr ((fid, off) # ps) =
     (let grp = (fid, off) # takeWhile (\<lambda>p. fst p = fid) ps
      in wr fid @ wr (of_nat (length grp)) @ encode_delta_from wr 0 (map snd grp)
         @ encode_positional_postings wr (dropWhile (\<lambda>p. fst p = fid) ps))"
  by pat_completeness auto
termination
  by (relation "measure (\<lambda>(wr, ps). length ps)") (auto simp: le_imp_less_Suc length_dropWhile_le)

text \<open>
  The inner loop of the decoder reads \<open>count\<close> offsets; a failed read ends the whole decoding
  (\<open>return result\<close>), which the flag reports to the outer loop.
\<close>

fun decode_offsets ::
  "varint_reader \<Rightarrow> u32 \<Rightarrow> u32 \<Rightarrow> nat \<Rightarrow> bytes \<Rightarrow> (u32 \<times> u32) list \<times> bytes option" where
  "decode_offsets rd fid prev 0 bs = ([], Some bs)"
| "decode_offsets rd fid prev (Suc n) bs =
     (case read_step rd bs of
        None \<Rightarrow> ([], None)
      | Some (delta, rest) \<Rightarrow>
          (let off = saturating_add prev delta;
               (ps, rest') = decode_offsets rd fid off n rest
           in ((fid, off) # ps, rest')))"

lemma decode_offsets_length:
  "decode_offsets rd fid prev n bs = (ps, Some rest) \<Longrightarrow> length rest \<le> length bs"
proof (induction n arbitrary: prev bs ps rest)
  case 0
  then show ?case by simp
next
  case (Suc n)
  then obtain delta bs' ps' where step: "read_step rd bs = Some (delta, bs')"
    and "decode_offsets rd fid (saturating_add prev delta) n bs' = (ps', Some rest)"
    by (auto split: option.splits prod.splits simp: Let_def)
  then have "length rest \<le> length bs'" by (blast intro: Suc.IH)
  with read_step_less [OF step] show ?case by simp
qed

function decode_positional_postings :: "varint_reader \<Rightarrow> bytes \<Rightarrow> (u32 \<times> u32) list" where
  "decode_positional_postings rd bs =
     (case read_step rd bs of
        None \<Rightarrow> []
      | Some (fid, bs1) \<Rightarrow>
          (case read_step rd bs1 of
             None \<Rightarrow> []
           | Some (count, bs2) \<Rightarrow>
               (case decode_offsets rd fid 0 (unat count) bs2 of
                  (ps, None) \<Rightarrow> ps
                | (ps, Some rest) \<Rightarrow> ps @ decode_positional_postings rd rest)))"
  by pat_completeness auto
termination
  by (relation "measure (\<lambda>(rd, bs). length bs)")
     (auto dest!: read_step_less decode_offsets_length decode_offsets_length [OF sym])

declare decode_positional_postings.simps [simp del]

section \<open>Correctness\<close>

lemma decode_delta_ge: "v \<in> set (decode_delta_from rd acc bs) \<Longrightarrow> acc \<le> v"
proof (induction rd acc bs rule: decode_delta_from.induct)
  case (1 rd acc bs)
  show ?case
  proof (cases "read_step rd bs")
    case None
    with "1.prems" show ?thesis by (simp add: decode_delta_from.simps [of rd acc bs])
  next
    case (Some p)
    obtain delta rest where p: "p = (delta, rest)" by fastforce
    from "1.prems" consider "v = saturating_add acc delta"
      | "v \<in> set (decode_delta_from rd (saturating_add acc delta) rest)"
      by (auto simp: decode_delta_from.simps [of rd acc bs] Some p)
    then show ?thesis
      using "1.IH" [OF Some p [symmetric]] saturating_add_ge order.trans by (cases; blast)
  qed
qed

lemma decode_delta_sorted: "sorted (decode_delta_from rd acc bs)"
proof (induction rd acc bs rule: decode_delta_from.induct)
  case (1 rd acc bs)
  then show ?case
    by (simp add: decode_delta_from.simps [of rd acc bs] decode_delta_ge split: option.splits prod.splits)
qed

lemma decode_delta_length: "length (decode_delta_from rd acc bs) \<le> length bs"
proof (induction rd acc bs rule: decode_delta_from.induct)
  case (1 rd acc bs)
  show ?case
  proof (cases "read_step rd bs")
    case None
    then show ?thesis by (simp add: decode_delta_from.simps [of rd acc bs])
  next
    case (Some p)
    obtain delta rest where p: "p = (delta, rest)" by fastforce
    from "1.IH" [OF Some p [symmetric]] read_step_less [OF Some [unfolded p]] show ?thesis
      by (simp add: decode_delta_from.simps [of rd acc bs] Some p)
  qed
qed

context varint_codec
begin

lemma write_not_Nil [simp]: "write_varint v \<noteq> []"
  using read_suffix [OF read_write [of v "[]"]] by simp

lemma step_read: "read_step read_varint = read_varint"
proof
  fix bs
  show "read_step read_varint bs = read_varint bs"
    by (cases "read_varint bs") (auto simp: read_step_def dest!: read_suffix)
qed

lemma step_write [simp]: "read_step read_varint (write_varint v @ rest) = Some (v, rest)"
  by (simp add: step_read read_write)

lemma decode_encode_delta:
  "sorted (acc # vals) \<Longrightarrow>
     decode_delta_from read_varint acc (encode_delta_from write_varint acc vals) = vals"
proof (induction vals arbitrary: acc)
  case Nil
  then show ?case by (simp add: decode_delta_from.simps)
next
  case (Cons v vals)
  then have "acc \<le> v" and "sorted (v # vals)" by auto
  with Cons.IH [of v] show ?case
    by (subst decode_delta_from.simps) (simp add: saturating_add_diff)
qed

lemma roundtrip_delta:
  "sorted vals \<Longrightarrow> decode_delta_varint read_varint (encode_delta_varint write_varint vals) = vals"
  by (simp add: decode_delta_varint_def encode_delta_varint_def decode_encode_delta)

lemma decode_offsets_encode:
  "sorted (prev # offs) \<Longrightarrow>
     decode_offsets read_varint fid prev (length offs) (encode_delta_from write_varint prev offs @ rest)
       = (map (Pair fid) offs, Some rest)"
proof (induction offs arbitrary: prev)
  case Nil
  then show ?case by simp
next
  case (Cons v offs)
  then have "prev \<le> v" and "sorted (v # offs)" by auto
  with Cons.IH [of v] show ?case
    by (simp add: saturating_add_diff)
qed

lemma decode_positional_group:
  assumes "sorted offs" and "length offs \<le> u32_max" and "offs \<noteq> []"
  shows "decode_positional_postings read_varint
      (write_varint fid @ write_varint (of_nat (length offs)) @ encode_delta_from write_varint 0 offs
        @ rest)
    = map (Pair fid) offs @ decode_positional_postings read_varint rest"
proof -
  have "sorted (0 # offs)"
    using assms(1) by simp
  from decode_offsets_encode [OF this, of fid rest] assms(2) show ?thesis
    by (subst decode_positional_postings.simps) simp
qed

end

text \<open>Grouping: the leading run of equal file IDs, and what follows it.\<close>

lemma map_Pair_snd_takeWhile:
  "map (Pair f) (map snd (takeWhile (\<lambda>p. fst p = f) ps)) = takeWhile (\<lambda>p. fst p = f) ps"
  by (induction ps) auto

lemma sorted_snd_group:
  fixes ps :: "(u32 \<times> u32) list"
  assumes "sorted ps"
  shows "sorted (map snd (takeWhile (\<lambda>p. fst p = f) ps))"
  using assms
proof (induction ps)
  case Nil
  then show ?case by simp
next
  case (Cons p ps)
  have "snd p \<le> snd q" if "fst p = f" and "q \<in> set (takeWhile (\<lambda>p. fst p = f) ps)" for q
    using that Cons.prems set_takeWhileD [OF that(2)] by (auto simp: less_eq_prod_def)
  with Cons show ?case by simp
qed

lemma sorted_dropWhile_group: "sorted ps \<Longrightarrow> sorted (dropWhile p ps)"
  by (metis sorted_append takeWhile_dropWhile_id)

text \<open>Both formats are inverted by their decoders on every sorted input.\<close>

context varint_codec
begin

lemma roundtrip_positional:
  "sorted ps \<Longrightarrow> length ps \<le> u32_max \<Longrightarrow>
     decode_positional_postings read_varint (encode_positional_postings write_varint ps) = ps"
proof (induction "length ps" arbitrary: ps rule: less_induct)
  case less
  show ?case
  proof (cases ps)
    case Nil
    then show ?thesis by (simp add: decode_positional_postings.simps)
  next
    case (Cons q qs)
    obtain f off where q: "q = (f, off)" by fastforce
    let ?p = "\<lambda>p. fst p = f"
    have grp: "takeWhile ?p ps = (f, off) # takeWhile ?p qs" by (simp add: Cons q)
    have "sorted (map snd (takeWhile ?p ps))"
      by (rule sorted_snd_group [OF less.prems(1)])
    moreover have "length (map snd (takeWhile ?p ps)) \<le> u32_max"
      using less.prems(2) length_takeWhile_le [of ?p ps] by simp
    moreover have "map snd (takeWhile ?p ps) \<noteq> []"
      by (simp add: grp)
    ultimately have step: "decode_positional_postings read_varint
        (write_varint f @ write_varint (of_nat (length (takeWhile ?p ps)))
          @ encode_delta_from write_varint 0 (map snd (takeWhile ?p ps)) @ rest)
      = takeWhile ?p ps @ decode_positional_postings read_varint rest" for rest
      using decode_positional_group [of "map snd (takeWhile ?p ps)" f rest]
      unfolding map_Pair_snd_takeWhile length_map by simp
    have drop: "dropWhile ?p ps = dropWhile ?p qs"
      by (simp add: Cons q)
    have "length (dropWhile ?p qs) < length ps"
      using length_dropWhile_le [of ?p qs] by (simp add: Cons)
    moreover have "sorted (dropWhile ?p qs)"
      unfolding drop [symmetric] by (rule sorted_dropWhile_group [OF less.prems(1)])
    ultimately have IH: "decode_positional_postings read_varint
        (encode_positional_postings write_varint (dropWhile ?p qs)) = dropWhile ?p qs"
      using less.hyps less.prems(2) by simp
    have "encode_positional_postings write_varint ps =
        write_varint f @ write_varint (of_nat (length (takeWhile ?p ps)))
          @ encode_delta_from write_varint 0 (map snd (takeWhile ?p ps))
          @ encode_positional_postings write_varint (dropWhile ?p qs)"
      unfolding grp by (simp add: Cons q Let_def)
    then show ?thesis
      by (simp only: step IH) (simp only: drop [symmetric] takeWhile_dropWhile_id)
  qed
qed

end

end
