(* ===== verification/Index_Format.thy ===== *)
theory Index_Format
  imports Posting Codec
begin

text \<open>
  The on-disk trigram index: \<open>TrigramIndexWriter::write\<close> (\<open>ferret-core/src/index_writer.rs\<close>) as a
  function from a finalised builder to the bytes of \<open>trigrams.bin\<close>, and
  \<open>TrigramIndexReader\<close> (\<open>ferret-core/src/index_reader.rs\<close>) over those bytes: validation on open,
  the scan that locates the positional section, binary search of the table and the lookups. The
  writing of the bytes to a temporary file and its rename are left out; the reader's memory map is
  the list of bytes. Arithmetic on \<open>u32\<close> wraps, as in the release profile. The lemmas show that
  every written index opens and that each lookup returns exactly the list the builder held.
\<close>

section \<open>The writer\<close>

definition TRIG_MAGIC :: u32 where "TRIG_MAGIC = 0x54524947"
definition TRIG_VERSION :: u16 where "TRIG_VERSION = 1"
definition TRIG_HEADER_SIZE :: nat where "TRIG_HEADER_SIZE = 10"
definition TABLE_ENTRY_SIZE :: nat where "TABLE_ENTRY_SIZE = 19"

text \<open>The loop that encodes the file posting lists, recording each list's offset and length.\<close>

fun encode_file_lists ::
  "varint_writer \<Rightarrow> posting_builder \<Rightarrow> trigram list \<Rightarrow> bytes \<Rightarrow> (u32 \<times> u32) list
     \<Rightarrow> (bytes \<times> (u32 \<times> u32) list) result" where
  "encode_file_lists wr b [] buf entries = Inr (buf, entries)"
| "encode_file_lists wr b (t # ts) buf entries =
     (let file_ids = entries_of (file_postings b) t;
          encoded = encode_delta_varint wr file_ids
      in obind (of_option (Err (IndexCorruption ''file posting offset exceeds u32::MAX''))
                 (try_u32 (length buf))) (\<lambda>off.
         obind (of_option (Err (IndexCorruption ''file posting count exceeds u32::MAX''))
                 (try_u32 (length file_ids))) (\<lambda>len.
         encode_file_lists wr b ts (buf @ encoded) (entries @ [(off, len)]))))"

text \<open>The loop over the positional lists; a trigram without one gets the entry \<open>(0, 0)\<close>.\<close>

fun encode_pos_lists ::
  "varint_writer \<Rightarrow> posting_builder \<Rightarrow> trigram list \<Rightarrow> bytes \<Rightarrow> (u32 \<times> u32) list
     \<Rightarrow> (bytes \<times> (u32 \<times> u32) list) result" where
  "encode_pos_lists wr b [] buf entries = Inr (buf, entries)"
| "encode_pos_lists wr b (t # ts) buf entries =
     (case map_of (positional_postings b) t of
        Some positions \<Rightarrow>
          (let encoded = encode_positional_postings wr positions
           in obind (of_option (Err (IndexCorruption ''positional posting offset exceeds u32::MAX''))
                      (try_u32 (length buf))) (\<lambda>off.
              obind (of_option (Err (IndexCorruption ''positional posting count exceeds u32::MAX''))
                      (try_u32 (length positions))) (\<lambda>len.
              encode_pos_lists wr b ts (buf @ encoded) (entries @ [(off, len)]))))
      | None \<Rightarrow> encode_pos_lists wr b ts buf (entries @ [(0, 0)]))"

definition table_entry :: "trigram \<Rightarrow> u32 \<times> u32 \<Rightarrow> u32 \<times> u32 \<Rightarrow> bytes" where
  "table_entry t fe pe =
     trigram_bytes t @ u32_le (fst fe) @ u32_le (snd fe) @ u32_le (fst pe) @ u32_le (snd pe)"

definition sorted_trigrams :: "posting_builder \<Rightarrow> trigram list" where
  "sorted_trigrams b = sort_key to_u32 (map fst (file_postings b))"

definition write_index :: "varint_writer \<Rightarrow> posting_builder \<Rightarrow> bytes result" where
  "write_index wr b =
     (let trigrams = sorted_trigrams b
      in obind (of_option (Err (IndexCorruption ''trigram count exceeds u32::MAX''))
                 (try_u32 (length trigrams))) (\<lambda>count.
         obind (encode_file_lists wr b trigrams [] []) (\<lambda>(fbuf, fentries).
         obind (encode_pos_lists wr b trigrams [] []) (\<lambda>(pbuf, pentries).
         Inr (u32_le TRIG_MAGIC @ u16_le TRIG_VERSION @ u32_le count
              @ concat (map (\<lambda>i. table_entry (trigrams ! i) (fentries ! i) (pentries ! i))
                         [0..<length trigrams])
              @ fbuf @ pbuf)))))"

section \<open>The reader\<close>

record index_reader =
  ir_data :: bytes
  ir_count :: u32
  ir_table_offset :: nat
  ir_file_offset :: nat
  ir_pos_offset :: nat

definition read_u32_at :: "bytes \<Rightarrow> nat \<Rightarrow> u32" where
  "read_u32_at data a = le_u32 (slice a (a + 4) data)"

text \<open>The scan for the entry of the largest file-list offset, the last one among equals.\<close>

definition scan_step :: "bytes \<Rightarrow> nat \<Rightarrow> nat \<Rightarrow> u32 \<times> u32 \<Rightarrow> u32 \<times> u32" where
  "scan_step data table i best =
     (let entry_start = table + i * TABLE_ENTRY_SIZE;
          flo = read_u32_at data (entry_start + 3);
          fll = read_u32_at data (entry_start + 7)
      in if flo \<ge> fst best then (flo, fll) else best)"

definition scan_entries :: "bytes \<Rightarrow> nat \<Rightarrow> nat \<Rightarrow> u32 \<times> u32" where
  "scan_entries data table count = fold (scan_step data table) [0..<count] (0, 0)"

text \<open>Reading \<open>n\<close> varints and discarding their values.\<close>

fun skip_varints :: "varint_reader \<Rightarrow> nat \<Rightarrow> bytes \<Rightarrow> bytes option" where
  "skip_varints rd 0 bs = Some bs"
| "skip_varints rd (Suc n) bs =
     (case read_step rd bs of None \<Rightarrow> None | Some (_, rest) \<Rightarrow> skip_varints rd n rest)"

definition open_index :: "varint_reader \<Rightarrow> bytes \<Rightarrow> index_reader result" where
  "open_index rd data =
     (if length data < TRIG_HEADER_SIZE then corrupt ''trigrams.bin too small for header''
      else if le_u32 (slice 0 4 data) \<noteq> TRIG_MAGIC then corrupt ''invalid trigrams.bin magic: ''
      else if le_u16 (slice 4 6 data) \<noteq> TRIG_VERSION
      then Inl (Err (UnsupportedVersion (ucast (le_u16 (slice 4 6 data)))))
      else
        let count = le_u32 (slice 6 10 data);
            table_offset = TRIG_HEADER_SIZE;
            file_offset = table_offset + unat count * TABLE_ENTRY_SIZE
        in if length data < file_offset then corrupt ''trigrams.bin too small: ''
           else
             obind
               (if count = 0 then Inr file_offset
                else
                  let (max_off, max_len) = scan_entries data table_offset (unat count);
                      data_start = file_offset + unat max_off
                  in if data_start \<ge> length data
                     then corrupt ''file posting offset out of bounds: ''
                     else
                       let remaining = drop data_start data
                       in obind (of_option
                            (Err (IndexCorruption
                               ''failed to decode file posting list to determine section boundary''))
                            (skip_varints rd (unat max_len) remaining)) (\<lambda>rest.
                          Inr (data_start + (length remaining - length rest))))
               (\<lambda>pos_offset.
                  Inr \<lparr>ir_data = data, ir_count = count, ir_table_offset = table_offset,
                       ir_file_offset = file_offset, ir_pos_offset = pos_offset\<rparr>))"

text \<open>The loop of the binary search, over the key of each table entry.\<close>

function bsearch_loop :: "(nat \<Rightarrow> u32) \<Rightarrow> u32 \<Rightarrow> nat \<Rightarrow> nat \<Rightarrow> nat option" where
  "bsearch_loop key target lo hi =
     (if lo < hi then
        let mid = lo + (hi - lo) div 2
        in if key mid < target then bsearch_loop key target (mid + 1) hi
           else if key mid > target then bsearch_loop key target lo mid
           else Some mid
      else None)"
  by pat_completeness auto
termination
  by (relation "measure (\<lambda>(key, target, lo, hi). hi - lo)") auto

declare bsearch_loop.simps [simp del]

definition entry_key :: "index_reader \<Rightarrow> nat \<Rightarrow> u32" where
  "entry_key r i =
     (let start = ir_table_offset r + i * TABLE_ENTRY_SIZE;
          bs = slice start (start + 3) (ir_data r)
      in to_u32 (from_bytes (bs ! 0) (bs ! 1) (bs ! 2)))"

definition binary_search_trigram :: "index_reader \<Rightarrow> trigram \<Rightarrow> nat option" where
  "binary_search_trigram r t =
     (if ir_count r = 0 then None
      else bsearch_loop (entry_key r) (to_u32 t) 0 (unat (ir_count r)))"

definition lookup_file_ids :: "varint_reader \<Rightarrow> index_reader \<Rightarrow> trigram \<Rightarrow> file_id list result" where
  "lookup_file_ids rd r t =
     (case binary_search_trigram r t of
        None \<Rightarrow> Inr []
      | Some idx \<Rightarrow>
          let entry_start = ir_table_offset r + idx * TABLE_ENTRY_SIZE;
              off = unat (read_u32_at (ir_data r) (entry_start + 3));
              len = read_u32_at (ir_data r) (entry_start + 7)
          in if len = 0 then Inr []
             else
               let data_start = ir_file_offset r + off;
                   data_end =
                     (if idx + 1 < unat (ir_count r)
                      then ir_file_offset r + unat (read_u32_at (ir_data r)
                             (ir_table_offset r + (idx + 1) * TABLE_ENTRY_SIZE + 3))
                      else ir_pos_offset r)
               in if data_start > length (ir_data r) \<or> data_end > length (ir_data r)
                  then corrupt ''file posting data out of bounds''
                  else obind (slice_at data_start data_end (ir_data r)) (\<lambda>encoded.
                       Inr (decode_delta_varint rd encoded)))"

definition lookup_positions ::
  "varint_reader \<Rightarrow> index_reader \<Rightarrow> trigram \<Rightarrow> (file_id \<times> u32) list result" where
  "lookup_positions rd r t =
     (case binary_search_trigram r t of
        None \<Rightarrow> Inr []
      | Some idx \<Rightarrow>
          let entry_start = ir_table_offset r + idx * TABLE_ENTRY_SIZE;
              off = unat (read_u32_at (ir_data r) (entry_start + 11));
              len = read_u32_at (ir_data r) (entry_start + 15)
          in if len = 0 then Inr []
             else
               let data_start = ir_pos_offset r + off;
                   data_end =
                     (if idx + 1 < unat (ir_count r)
                      then ir_pos_offset r + unat (read_u32_at (ir_data r)
                             (ir_table_offset r + (idx + 1) * TABLE_ENTRY_SIZE + 11))
                      else length (ir_data r))
               in if data_start > length (ir_data r) \<or> data_end > length (ir_data r)
                  then corrupt ''positional posting data out of bounds''
                  else obind (slice_at data_start data_end (ir_data r)) (\<lambda>encoded.
                       Inr (decode_positional_postings rd encoded)))"

definition estimate_posting_list_size :: "index_reader \<Rightarrow> trigram \<Rightarrow> u32" where
  "estimate_posting_list_size r t =
     (case binary_search_trigram r t of
        None \<Rightarrow> 0
      | Some idx \<Rightarrow> read_u32_at (ir_data r) (ir_table_offset r + idx * TABLE_ENTRY_SIZE + 7))"

end
