(* ===== verification/Varint_Leb128.thy ===== *)
theory Varint_Leb128
  imports Codec
begin

text \<open>
  The documented wire format of the crate's unsigned integers, little-endian groups of seven bits
  with a continuation bit, as a concrete reader and writer that satisfy \<open>varint_codec\<close>. No theorem
  about the code unfolds them: they show that the interface can be met and give the witnesses of
  the codec and index theorems something to run on.
\<close>

fun leb_encode :: "nat \<Rightarrow> bytes" where
  "leb_encode n =
     (if n < 128 then [byte_of n] else byte_of (128 + n mod 128) # leb_encode (n div 128))"

fun leb_decode :: "bytes \<Rightarrow> (nat \<times> bytes) option" where
  "leb_decode [] = None"
| "leb_decode (b # bs) =
     (if byte_val b < 128 then Some (byte_val b, bs)
      else (case leb_decode bs of
              None \<Rightarrow> None
            | Some (hi, rest) \<Rightarrow> Some (byte_val b - 128 + 128 * hi, rest)))"

declare leb_encode.simps [simp del]

definition leb_write :: varint_writer where
  "leb_write v = leb_encode (unat v)"

definition leb_read :: varint_reader where
  "leb_read bs =
     (case leb_decode bs of
        None \<Rightarrow> None
      | Some (n, rest) \<Rightarrow> if n \<le> u32_max then Some (of_nat n, rest) else None)"

lemma leb_decode_encode: "leb_decode (leb_encode n @ rest) = Some (n, rest)"
proof (induction n rule: leb_encode.induct)
  case (1 n)
  show ?case
  proof (cases "n < 128")
    case True
    then show ?thesis by (simp add: leb_encode.simps [of n])
  next
    case False
    have "128 + n mod 128 < 256" by simp
    then have "byte_val (byte_of (128 + n mod 128)) = 128 + n mod 128"
      unfolding of_char_of by (rule mod_less)
    with False 1 show ?thesis
      by (simp add: leb_encode.simps [of n])
  qed
qed

lemma leb_decode_suffix: "leb_decode bs = Some (n, rest) \<Longrightarrow> \<exists>used. bs = used @ rest \<and> used \<noteq> []"
proof (induction bs arbitrary: n)
  case Nil
  then show ?case by simp
next
  case (Cons b bs)
  show ?case
  proof (cases "byte_val b < 128")
    case True
    with Cons.prems have "b # bs = [b] @ rest" by simp
    then show ?thesis by blast
  next
    case False
    with Cons.prems obtain hi where "leb_decode bs = Some (hi, rest)"
      by (auto split: option.splits)
    from Cons.IH [OF this] obtain used where "bs = used @ rest" by blast
    then have "b # bs = (b # used) @ rest" by simp
    then show ?thesis by blast
  qed
qed

interpretation leb: varint_codec leb_write leb_read
proof
  show "leb_read (leb_write v @ rest) = Some (v, rest)" for v rest
    by (simp add: leb_read_def leb_write_def leb_decode_encode)
  show "\<exists>used. bs = used @ rest \<and> used \<noteq> []" if "leb_read bs = Some (v, rest)" for bs v rest
    using that by (auto simp: leb_read_def intro: leb_decode_suffix split: option.splits if_splits)
qed

text \<open>Evaluation of small encodings.\<close>

lemma leb_encode_small [simp]: "n < 128 \<Longrightarrow> leb_encode n = [byte_of n]"
  by (subst leb_encode.simps) simp

lemma leb_write_small [simp]: "unat v < 128 \<Longrightarrow> leb_write v = [byte_of (unat v)]"
  by (simp add: leb_write_def)

section \<open>Properties of the codec\<close>

text \<open>
  Every sorted list of file IDs is recovered exactly from its delta-varint encoding, and every
  list of positional postings sorted by file ID and offset is recovered from the grouped encoding,
  for any varint crate that meets the interface.
\<close>

theorem codec_roundtrip:
  assumes "varint_codec wr rd"
  shows "(sorted vals \<longrightarrow> decode_delta_varint rd (encode_delta_varint wr vals) = vals) \<and>
    (sorted ps \<and> length ps \<le> u32_max \<longrightarrow>
       decode_positional_postings rd (encode_positional_postings wr ps) = ps)"
  using varint_codec.roundtrip_delta [OF assms] varint_codec.roundtrip_positional [OF assms] by blast

theorem codec_roundtrip_witness:
  "sorted [3, 7, 7 + 200 :: u32] \<and>
   decode_delta_varint leb_read (encode_delta_varint leb_write [3, 7, 7 + 200]) = [3, 7, 7 + 200] \<and>
   sorted [(0, 5), (0, 10), (1, 0), (1, 20) :: u32 \<times> u32] \<and>
   decode_positional_postings leb_read
     (encode_positional_postings leb_write [(0, 5), (0, 10), (1, 0), (1, 20)])
     = [(0, 5), (0, 10), (1, 0), (1, 20)]"
proof -
  have "sorted [3, 7, 7 + 200 :: u32]" and "sorted [(0, 5), (0, 10), (1, 0), (1, 20) :: u32 \<times> u32]"
    by (simp_all add: less_eq_prod_def)
  then show ?thesis
    using codec_roundtrip [OF leb.varint_codec_axioms, of "[3, 7, 7 + 200]"
        "[(0, 5), (0, 10), (1, 0), (1, 20)]"] by simp
qed

text \<open>
  Decoding a file-level list never fails and never wraps: on arbitrary bytes, and for an
  arbitrary varint reader, the result is sorted in ascending order and has at most one value per
  input byte.
\<close>

theorem decode_delta_total:
  "sorted (decode_delta_varint rd bs) \<and> length (decode_delta_varint rd bs) \<le> length bs"
  by (simp add: decode_delta_varint_def decode_delta_sorted decode_delta_length)

end
