(* ===== verification/Index_Roundtrip.thy ===== *)
theory Index_Roundtrip
  imports Index_Format Varint_Leb128
begin

text \<open>
  Correctness of the trigram index file: the binary search finds a key exactly when the sorted
  table has it, the layout the writer produces is the one the reader assumes, and a written index
  answers every lookup with the list of the builder it was written from.
\<close>

section \<open>Binary search\<close>

lemma bsearch_loop_Some:
  "bsearch_loop key target lo hi = Some i \<Longrightarrow> lo \<le> i \<and> i < hi \<and> key i = target"
proof (induction key target lo hi rule: bsearch_loop.induct)
  case (1 key target lo hi)
  let ?mid = "lo + (hi - lo) div 2"
  from "1.prems" have lt: "lo < hi"
    by (simp add: bsearch_loop.simps [of key target lo hi] split: if_splits)
  consider "key ?mid < target" | "key ?mid > target" | "key ?mid = target"
    by (cases "key ?mid" target rule: linorder_cases) auto
  then show ?case
  proof cases
    case 1
    with "1.prems" lt have "bsearch_loop key target (?mid + 1) hi = Some i"
      by (simp add: bsearch_loop.simps [of key target lo hi] Let_def)
    from "1.IH"(1) [OF lt refl 1 this] show ?thesis by simp
  next
    case 2
    then have "\<not> key ?mid < target" by simp
    with 2 "1.prems" lt have "bsearch_loop key target lo ?mid = Some i"
      by (auto simp: bsearch_loop.simps [of key target lo hi] Let_def)
    with "1.IH"(2) [OF lt refl _ 2 this] 2 lt show ?thesis by fastforce
  next
    case 3
    with "1.prems" lt show ?thesis
      by (auto simp: bsearch_loop.simps [of key target lo hi] Let_def)
  qed
qed

lemma bsearch_loop_None:
  assumes "bsearch_loop key target lo hi = None"
    and "\<And>i j. lo \<le> i \<Longrightarrow> i < j \<Longrightarrow> j < hi \<Longrightarrow> key i < key j"
    and "lo \<le> k" and "k < hi"
  shows "key k \<noteq> target"
  using assms
proof (induction key target lo hi rule: bsearch_loop.induct)
  case (1 key target lo hi)
  let ?mid = "lo + (hi - lo) div 2"
  have lt: "lo < hi" using "1.prems"(3,4) by simp
  then have mid: "lo \<le> ?mid" "?mid < hi" by auto
  consider "key ?mid < target" | "key ?mid > target" | "key ?mid = target"
    by (cases "key ?mid" target rule: linorder_cases) auto
  then show ?case
  proof cases
    case 1
    with "1.prems"(1) lt have "bsearch_loop key target (?mid + 1) hi = None"
      by (simp add: bsearch_loop.simps [of key target lo hi] Let_def)
    note IH = "1.IH"(1) [OF lt refl 1 this]
    show ?thesis
    proof (cases "?mid < k")
      case True
      with IH "1.prems" mid show ?thesis by simp
    next
      case False
      then have "key k \<le> key ?mid"
        using "1.prems"(2) [of k ?mid] "1.prems"(3) mid by (cases "k = ?mid") auto
      with 1 show ?thesis by auto
    qed
  next
    case 2
    then have "\<not> key ?mid < target" by simp
    with 2 "1.prems"(1) lt have "bsearch_loop key target lo ?mid = None"
      by (auto simp: bsearch_loop.simps [of key target lo hi] Let_def)
    note IH = "1.IH"(2) [OF lt refl _ 2 this]
    show ?thesis
    proof (cases "k < ?mid")
      case True
      with IH 2 "1.prems" mid show ?thesis by auto
    next
      case False
      then have "key ?mid \<le> key k"
        using "1.prems"(2) [of ?mid k] "1.prems"(4) mid by (cases "k = ?mid") auto
      with 2 show ?thesis by auto
    qed
  next
    case 3
    with "1.prems"(1) lt show ?thesis
      by (auto simp: bsearch_loop.simps [of key target lo hi] Let_def)
  qed
qed

section \<open>What the writer produces\<close>

text \<open>
  A section of the file is a list of chunks; its table entries hold the offset of each chunk and
  the number of values in it.
\<close>

definition section_ok :: "bytes list \<Rightarrow> nat list \<Rightarrow> (u32 \<times> u32) list \<Rightarrow> bool" where
  "section_ok chunks lens entries \<longleftrightarrow>
     length entries = length chunks \<and> length lens = length chunks \<and>
     (\<forall>i < length chunks. unat (fst (entries ! i)) = offset_of chunks i
        \<and> unat (snd (entries ! i)) = lens ! i)"

lemma section_ok_shift:
  "section_ok chunks lens entries \<longleftrightarrow>
     length entries = length chunks \<and> length lens = length chunks \<and>
     (\<forall>i < length chunks. unat (fst (entries ! i)) = 0 + offset_of chunks i
        \<and> unat (snd (entries ! i)) = lens ! i)"
  by (simp add: section_ok_def)

abbreviation file_chunk :: "varint_writer \<Rightarrow> posting_builder \<Rightarrow> trigram \<Rightarrow> bytes" where
  "file_chunk wr b t \<equiv> encode_delta_varint wr (entries_of (file_postings b) t)"

lemma encode_file_lists_new:
  "encode_file_lists wr b ts buf entries = Inr (buf', entries') \<Longrightarrow>
     \<exists>new. entries' = entries @ new \<and> buf' = buf @ concat (map (file_chunk wr b) ts)
       \<and> length new = length ts
       \<and> (\<forall>i < length ts. unat (fst (new ! i)) = length buf + offset_of (map (file_chunk wr b) ts) i
            \<and> unat (snd (new ! i)) = length (entries_of (file_postings b) (ts ! i)))"
proof (induction ts arbitrary: buf entries)
  case Nil
  then show ?case by simp
next
  case (Cons t ts)
  let ?c = "file_chunk wr b"
  from Cons.prems obtain off len where off: "try_u32 (length buf) = Some off"
    and len: "try_u32 (length (entries_of (file_postings b) t)) = Some len"
    and rest: "encode_file_lists wr b ts (buf @ ?c t) (entries @ [(off, len)]) = Inr (buf', entries')"
    by (auto simp: Let_def outcome_simps)
  from Cons.IH [OF rest] obtain new where new: "entries' = (entries @ [(off, len)]) @ new"
    "buf' = (buf @ ?c t) @ concat (map ?c ts)" "length new = length ts"
    "\<forall>i < length ts. unat (fst (new ! i)) = length (buf @ ?c t) + offset_of (map ?c ts) i
       \<and> unat (snd (new ! i)) = length (entries_of (file_postings b) (ts ! i))"
    by blast
  have "\<forall>i < length (t # ts). unat (fst (((off, len) # new) ! i))
        = length buf + offset_of (map ?c (t # ts)) i
      \<and> unat (snd (((off, len) # new) ! i)) = length (entries_of (file_postings b) ((t # ts) ! i))"
    using new(4) try_u32_Some [OF off] try_u32_Some [OF len]
    by (auto simp: less_Suc_eq_0_disj)
  then show ?case
    using new(1-3) by (intro exI [of _ "(off, len) # new"]) simp
qed

text \<open>The positional loop when every trigram has a positional list, and when none has.\<close>

abbreviation pos_chunk :: "varint_writer \<Rightarrow> posting_builder \<Rightarrow> trigram \<Rightarrow> bytes" where
  "pos_chunk wr b t \<equiv> encode_positional_postings wr (entries_of (positional_postings b) t)"

lemma encode_pos_lists_new:
  assumes "encode_pos_lists wr b ts buf entries = Inr (buf', entries')"
    and "set ts \<subseteq> fst ` set (positional_postings b)"
  shows "\<exists>new. entries' = entries @ new \<and> buf' = buf @ concat (map (pos_chunk wr b) ts)
       \<and> length new = length ts
       \<and> (\<forall>i < length ts. unat (fst (new ! i)) = length buf + offset_of (map (pos_chunk wr b) ts) i
            \<and> unat (snd (new ! i)) = length (entries_of (positional_postings b) (ts ! i)))"
  using assms
proof (induction ts arbitrary: buf entries)
  case Nil
  then show ?case by simp
next
  case (Cons t ts)
  let ?c = "pos_chunk wr b"
  obtain ps where ps: "map_of (positional_postings b) t = Some ps"
    using Cons.prems(2) by (metis insert_subset list.simps(15) map_of_eq_None_iff not_None_eq)
  then have entries: "entries_of (positional_postings b) t = ps"
    by (simp add: entries_of_def)
  from Cons.prems(1) obtain off len where off: "try_u32 (length buf) = Some off"
    and len: "try_u32 (length ps) = Some len"
    and rest: "encode_pos_lists wr b ts (buf @ ?c t) (entries @ [(off, len)]) = Inr (buf', entries')"
    by (auto simp: Let_def outcome_simps ps entries)
  have "set ts \<subseteq> fst ` set (positional_postings b)"
    using Cons.prems(2) by simp
  from Cons.IH [OF rest this] obtain new where new: "entries' = (entries @ [(off, len)]) @ new"
    "buf' = (buf @ ?c t) @ concat (map ?c ts)" "length new = length ts"
    "\<forall>i < length ts. unat (fst (new ! i)) = length (buf @ ?c t) + offset_of (map ?c ts) i
       \<and> unat (snd (new ! i)) = length (entries_of (positional_postings b) (ts ! i))"
    by blast
  have "\<forall>i < length (t # ts). unat (fst (((off, len) # new) ! i))
        = length buf + offset_of (map ?c (t # ts)) i
      \<and> unat (snd (((off, len) # new) ! i)) = length (entries_of (positional_postings b) ((t # ts) ! i))"
    using new(4) try_u32_Some [OF off] try_u32_Some [OF len]
    by (auto simp: less_Suc_eq_0_disj entries)
  then show ?case
    using new(1-3) by (intro exI [of _ "(off, len) # new"]) simp
qed

lemma encode_pos_lists_none:
  "positional_postings b = [] \<Longrightarrow>
     encode_pos_lists wr b ts buf entries = Inr (buf, entries @ replicate (length ts) (0, 0))"
  by (induction ts arbitrary: entries) (simp_all add: replicate_append_same [symmetric])

text \<open>
  The layout of a written file: header, table, file section, positional section. Without
  positional lists the positional section consists of empty chunks.
\<close>

definition index_layout ::
  "bytes \<Rightarrow> trigram list \<Rightarrow> bytes list \<Rightarrow> nat list \<Rightarrow> bytes list \<Rightarrow> nat list \<Rightarrow> bool" where
  "index_layout data ts fchunks flens pchunks plens \<longleftrightarrow>
     length ts \<le> u32_max \<and> length fchunks = length ts \<and> length pchunks = length ts \<and>
     (\<exists>fe pe. section_ok fchunks flens fe \<and> section_ok pchunks plens pe \<and>
        data = (u32_le TRIG_MAGIC @ u16_le TRIG_VERSION @ u32_le (of_nat (length ts)))
          @ concat (map (\<lambda>i. table_entry (ts ! i) (fe ! i) (pe ! i)) [0..<length ts])
          @ concat fchunks @ concat pchunks)"

definition position_chunks :: "varint_writer \<Rightarrow> posting_builder \<Rightarrow> bytes list" where
  "position_chunks wr b =
     map (\<lambda>t. if positional_postings b = [] then [] else pos_chunk wr b t) (sorted_trigrams b)"

lemma set_sorted_trigrams [simp]: "set (sorted_trigrams b) = fst ` set (file_postings b)"
  by (simp add: sorted_trigrams_def)

lemma length_sorted_trigrams [simp]: "length (sorted_trigrams b) = length (file_postings b)"
  by (simp add: sorted_trigrams_def)

lemma write_index_layout:
  assumes "write_index wr b = Inr data" and "wf_postings b"
  shows "index_layout data (sorted_trigrams b)
      (map (file_chunk wr b) (sorted_trigrams b))
      (map (\<lambda>t. length (entries_of (file_postings b) t)) (sorted_trigrams b))
      (position_chunks wr b)
      (map (\<lambda>t. length (entries_of (positional_postings b) t)) (sorted_trigrams b))"
proof -
  let ?ts = "sorted_trigrams b"
  from assms(1) obtain count fbuf fe pbuf pe where count: "try_u32 (length ?ts) = Some count"
    and fle: "encode_file_lists wr b ?ts [] [] = Inr (fbuf, fe)"
    and pos: "encode_pos_lists wr b ?ts [] [] = Inr (pbuf, pe)"
    and data: "data = u32_le TRIG_MAGIC @ u16_le TRIG_VERSION @ u32_le count
      @ concat (map (\<lambda>i. table_entry (?ts ! i) (fe ! i) (pe ! i)) [0..<length ?ts]) @ fbuf @ pbuf"
    by (auto simp: write_index_def Let_def outcome_simps split: prod.splits)
  have fsec: "fbuf = concat (map (file_chunk wr b) ?ts)"
      "section_ok (map (file_chunk wr b) ?ts)
         (map (\<lambda>t. length (entries_of (file_postings b) t)) ?ts) fe"
    using encode_file_lists_new [OF fle] by (auto simp: section_ok_def)
  have psec: "pbuf = concat (position_chunks wr b) \<and> section_ok (position_chunks wr b)
         (map (\<lambda>t. length (entries_of (positional_postings b) t)) ?ts) pe"
  proof (cases "positional_postings b = []")
    case True
    have chunks: "position_chunks wr b = replicate (length ?ts) []"
      by (simp add: position_chunks_def True map_replicate_const)
    have "offset_of (replicate n ([] :: bytes)) i = 0" for n i
      by (simp add: offset_of_def)
    moreover have "pbuf = []" and "pe = replicate (length ?ts) (0, 0)"
      using pos encode_pos_lists_none [OF True] by simp_all
    ultimately show ?thesis
      by (simp add: chunks section_ok_def True)
  next
    case False
    then have "set ?ts \<subseteq> fst ` set (positional_postings b)"
      using assms(2) by (auto simp: wf_postings_def)
    from encode_pos_lists_new [OF pos this] show ?thesis
      by (auto simp: section_ok_def position_chunks_def False)
  qed
  have "length ?ts \<le> u32_max" and "count = of_nat (length ?ts)"
    using count by (auto simp: try_u32_def split: if_splits)
  with data have "data = (u32_le TRIG_MAGIC @ u16_le TRIG_VERSION @ u32_le (of_nat (length ?ts)))
      @ concat (map (\<lambda>i. table_entry (?ts ! i) (fe ! i) (pe ! i)) [0..<length ?ts])
      @ concat (map (file_chunk wr b) ?ts) @ concat (position_chunks wr b)"
    using fsec(1) psec by simp
  moreover have "length (position_chunks wr b) = length ?ts"
    by (simp add: position_chunks_def)
  ultimately show ?thesis
    using fsec(2) psec \<open>length ?ts \<le> u32_max\<close> unfolding index_layout_def length_map by blast
qed

section \<open>Reading a layout\<close>

lemma length_table_entry [simp]: "length (table_entry t fe pe) = 19"
  by (simp add: table_entry_def)

lemma table_entry_fields:
  "slice 0 3 (table_entry t fe pe) = trigram_bytes t"
  "slice 3 7 (table_entry t fe pe) = u32_le (fst fe)"
  "slice 7 11 (table_entry t fe pe) = u32_le (snd fe)"
  "slice 11 15 (table_entry t fe pe) = u32_le (fst pe)"
  "slice 15 19 (table_entry t fe pe) = u32_le (snd pe)"
  by (simp_all add: table_entry_def slice_def)

text \<open>The pieces of a layout, with the header and the table as one prefix.\<close>

lemma layout_pieces:
  assumes "index_layout data ts fch fl pch pl"
  obtains fe pe header table where
    "section_ok fch fl fe" "section_ok pch pl pe"
    "header = u32_le TRIG_MAGIC @ u16_le TRIG_VERSION @ u32_le (of_nat (length ts))"
    "table = map (\<lambda>i. table_entry (ts ! i) (fe ! i) (pe ! i)) [0..<length ts]"
    "data = header @ concat table @ concat fch @ concat pch"
    "length header = 10" "length table = length ts" "\<forall>e \<in> set table. length e = 19"
    "length (concat table) = length ts * 19" "length fch = length ts" "length pch = length ts"
proof -
  from assms obtain fe pe where *: "section_ok fch fl fe" "section_ok pch pl pe"
    "data = (u32_le TRIG_MAGIC @ u16_le TRIG_VERSION @ u32_le (of_nat (length ts)))
        @ concat (map (\<lambda>i. table_entry (ts ! i) (fe ! i) (pe ! i)) [0..<length ts])
        @ concat fch @ concat pch" "length fch = length ts" "length pch = length ts"
    by (auto simp: index_layout_def)
  let ?table = "map (\<lambda>i. table_entry (ts ! i) (fe ! i) (pe ! i)) [0..<length ts]"
  have "length (concat ?table) = length ts * 19"
    using offset_of_uniform [of ?table 19 "length ts"] offset_of_length [of ?table] by simp
  with * show thesis
    by (intro that [of fe pe "u32_le TRIG_MAGIC @ u16_le TRIG_VERSION @ u32_le (of_nat (length ts))"
          ?table]) simp_all
qed

lemma length_layout:
  assumes "index_layout data ts fch fl pch pl"
  shows "length data = 10 + length ts * 19 + length (concat fch) + length (concat pch)"
  by (rule layout_pieces [OF assms]) simp

lemma layout_entry:
  assumes "index_layout data ts fch fl pch pl" and "i < length ts"
  shows "slice (10 + i * 19) (10 + i * 19 + 3) data = trigram_bytes (ts ! i)"
    and "unat (read_u32_at data (10 + i * 19 + 3)) = offset_of fch i"
    and "unat (read_u32_at data (10 + i * 19 + 7)) = fl ! i"
    and "unat (read_u32_at data (10 + i * 19 + 11)) = offset_of pch i"
    and "unat (read_u32_at data (10 + i * 19 + 15)) = pl ! i"
proof -
  from assms(1) obtain fe pe header table where l: "section_ok fch fl fe" "section_ok pch pl pe"
    "table = map (\<lambda>i. table_entry (ts ! i) (fe ! i) (pe ! i)) [0..<length ts]"
    "data = header @ concat table @ concat fch @ concat pch"
    "length header = 10" "length table = length ts" "\<forall>e \<in> set table. length e = 19"
    "length fch = length ts" "length pch = length ts"
    by (rule layout_pieces)
  have "slice (10 + i * 19) (10 + i * 19 + 19) data = table ! i"
    unfolding l(4) using l(5-7) assms(2)
    by (intro slice_concat) (simp_all add: offset_of_uniform [of table 19])
  then have entry: "slice (10 + i * 19 + a) (10 + i * 19 + b) data
      = slice a b (table_entry (ts ! i) (fe ! i) (pe ! i))" if "b \<le> 19" for a b
    using slice_slice [of b "10 + i * 19 + 19" "10 + i * 19" a data] that assms(2) l(3) by simp
  show "slice (10 + i * 19) (10 + i * 19 + 3) data = trigram_bytes (ts ! i)"
    using entry [of 3 0] by (simp add: table_entry_fields)
  have chunk: "unat (fst (fe ! i)) = offset_of fch i" "unat (snd (fe ! i)) = fl ! i"
      "unat (fst (pe ! i)) = offset_of pch i" "unat (snd (pe ! i)) = pl ! i"
    using l(1,2,8,9) assms(2) by (auto simp: section_ok_def)
  show "unat (read_u32_at data (10 + i * 19 + 3)) = offset_of fch i"
    and "unat (read_u32_at data (10 + i * 19 + 7)) = fl ! i"
    and "unat (read_u32_at data (10 + i * 19 + 11)) = offset_of pch i"
    and "unat (read_u32_at data (10 + i * 19 + 15)) = pl ! i"
    using entry [of 7 3] entry [of 11 7] entry [of 15 11] entry [of 19 15]
    by (simp_all add: read_u32_at_def table_entry_fields chunk)
qed

lemma layout_fchunk:
  assumes "index_layout data ts fch fl pch pl" and "i < length ts"
  shows "slice (10 + length ts * 19 + offset_of fch i) (10 + length ts * 19 + offset_of fch (Suc i)) data
    = fch ! i"
proof -
  from assms(1) obtain header table :: "bytes list" and hd :: bytes where
    "data = hd @ concat table @ concat fch @ concat pch" "length hd = 10"
    "length (concat table) = length ts * 19" "length fch = length ts"
    by (rule layout_pieces) blast
  then show ?thesis
    using slice_concat [of i fch _ "hd @ concat table" _ "concat pch"] assms(2) by simp
qed

lemma layout_pchunk:
  assumes "index_layout data ts fch fl pch pl" and "i < length ts"
  shows "slice (10 + length ts * 19 + length (concat fch) + offset_of pch i)
      (10 + length ts * 19 + length (concat fch) + offset_of pch (Suc i)) data = pch ! i"
proof -
  from assms(1) obtain table :: "bytes list" and hd :: bytes where
    "data = hd @ concat table @ concat fch @ concat pch" "length hd = 10"
    "length (concat table) = length ts * 19" "length pch = length ts"
    by (rule layout_pieces) blast
  then show ?thesis
    using slice_concat [of i pch _ "hd @ concat table @ concat fch" _ "[]"] assms(2)
    by (simp add: add.assoc)
qed

lemma layout_header:
  assumes "index_layout data ts fch fl pch pl"
  shows "le_u32 (slice 0 4 data) = TRIG_MAGIC" and "le_u16 (slice 4 6 data) = TRIG_VERSION"
    and "le_u32 (slice 6 10 data) = of_nat (length ts)"
    and "unat (le_u32 (slice 6 10 data)) = length ts"
proof -
  have "length ts \<le> u32_max"
    using assms by (simp add: index_layout_def)
  moreover have "slice 0 4 data = u32_le TRIG_MAGIC" and "slice 4 6 data = u16_le TRIG_VERSION"
    and "slice 6 10 data = u32_le (of_nat (length ts))"
    by (rule layout_pieces [OF assms], simp add: slice_def)+
  ultimately show "le_u32 (slice 0 4 data) = TRIG_MAGIC" "le_u16 (slice 4 6 data) = TRIG_VERSION"
      "le_u32 (slice 6 10 data) = of_nat (length ts)" "unat (le_u32 (slice 6 10 data)) = length ts"
    by simp_all
qed

text \<open>Offsets never decrease along the table, so the scan ends on the last entry.\<close>

lemma layout_scan:
  assumes "index_layout data ts fch fl pch pl" and "n < length ts"
  shows "scan_entries data 10 (Suc n)
    = (read_u32_at data (10 + n * 19 + 3), read_u32_at data (10 + n * 19 + 7))"
  using assms(2)
proof (induction n)
  case 0
  then show ?case
    by (simp add: scan_entries_def scan_step_def TABLE_ENTRY_SIZE_def Let_def)
next
  case (Suc n)
  then have "scan_entries data 10 (Suc n)
      = (read_u32_at data (10 + n * 19 + 3), read_u32_at data (10 + n * 19 + 7))" by simp
  moreover have "read_u32_at data (10 + n * 19 + 3) \<le> read_u32_at data (10 + Suc n * 19 + 3)"
    unfolding word_le_nat_alt
    using layout_entry(2) [OF assms(1), of n] layout_entry(2) [OF assms(1), of "Suc n"] Suc.prems
      offset_of_mono [of n "Suc n" fch] by simp
  ultimately show ?case
    by (simp add: scan_entries_def scan_step_def TABLE_ENTRY_SIZE_def Let_def)
qed

section \<open>Opening and looking up\<close>

lemma skip_encode_delta:
  assumes "varint_codec wr rd"
  shows "skip_varints rd (length vals) (encode_delta_from wr acc vals @ rest) = Some rest"
  by (induction vals arbitrary: acc) (simp_all add: varint_codec.step_write [OF assms])

lemma encode_delta_not_Nil:
  assumes "varint_codec wr rd"
  shows "encode_delta_varint wr vals = [] \<longleftrightarrow> vals = []"
  using varint_codec.write_not_Nil [OF assms] by (cases vals) (simp_all add: encode_delta_varint_def)

text \<open>
  A layout opens when every file chunk is non-empty and holds as many varints as its table entry
  says.
\<close>

definition layout_reader :: "bytes \<Rightarrow> trigram list \<Rightarrow> bytes list \<Rightarrow> index_reader" where
  "layout_reader data ts fch =
     \<lparr>ir_data = data, ir_count = of_nat (length ts), ir_table_offset = 10,
      ir_file_offset = 10 + length ts * 19, ir_pos_offset = 10 + length ts * 19 + length (concat fch)\<rparr>"

lemma open_layout:
  assumes l: "index_layout data ts fch fl pch pl"
    and chunks: "\<And>i rest. i < length ts \<Longrightarrow> fch ! i \<noteq> [] \<and> skip_varints rd (fl ! i) (fch ! i @ rest) = Some rest"
  shows "open_index rd data = Inr (layout_reader data ts fch)"
proof -
  let ?fo = "10 + length ts * 19"
  have len: "length data = ?fo + length (concat fch) + length (concat pch)"
    by (rule length_layout [OF l])
  have count: "le_u32 (slice 6 10 data) = of_nat (length ts)"
    by (rule layout_header(3) [OF l])
  have max: "length ts \<le> u32_max" and fch: "length fch = length ts"
    using l by (simp_all add: index_layout_def)
  note start = layout_header [OF l] count len max
  show ?thesis
  proof (cases "length ts")
    case 0
    then show ?thesis
      using start fch by (simp add: open_index_def layout_reader_def TRIG_HEADER_SIZE_def TABLE_ENTRY_SIZE_def)
  next
    case (Suc n)
    then have n: "n < length ts" by simp
    obtain header table where data: "data = header @ concat table @ concat fch @ concat pch"
      and hl: "length header = 10" "length (concat table) = length ts * 19"
      by (rule layout_pieces [OF l]) blast
    have split: "concat fch = concat (take n fch) @ fch ! n"
      using id_take_nth_drop [of n fch] n fch Suc
      by (metis append_Nil2 concat.simps(1) concat.simps(2) concat_append drop_all less_eq_Suc_le lessI)
    have off: "offset_of fch n = length (concat (take n fch))"
      by (simp add: offset_of_def)
    have drop: "drop (?fo + offset_of fch n) data = fch ! n @ concat pch"
      unfolding data split using hl off by simp
    have "?fo + offset_of fch n < length data"
      using chunks [OF n] len split off by simp
    moreover have scan: "scan_entries data 10 (length ts)
        = (read_u32_at data (10 + n * 19 + 3), read_u32_at data (10 + n * 19 + 7))"
      unfolding Suc by (rule layout_scan [OF l n])
    moreover have "skip_varints rd (fl ! n) (drop (?fo + offset_of fch n) data) = Some (concat pch)"
      unfolding drop using chunks [OF n] by simp
    moreover have "?fo + offset_of fch n + (length (drop (?fo + offset_of fch n) data) - length (concat pch))
        = ?fo + length (concat fch)"
      by (simp only: drop) (simp add: split off)
    moreover have "(of_nat (length ts) :: u32) \<noteq> 0"
      using max n by (metis less_nat_zero_code unat_0 unat_of_nat_u32)
    ultimately show ?thesis
      using start layout_entry(2,3) [OF l n]
      by (simp add: open_index_def layout_reader_def TRIG_HEADER_SIZE_def TABLE_ENTRY_SIZE_def Let_def)
  qed
qed

lemma entry_key_layout:
  assumes "index_layout data ts fch fl pch pl" and "i < length ts"
  shows "entry_key (layout_reader data ts fch) i = to_u32 (ts ! i)"
  using layout_entry(1) [OF assms]
  by (cases "ts ! i") (simp add: entry_key_def layout_reader_def TABLE_ENTRY_SIZE_def Let_def from_bytes_def)

text \<open>The search of a sorted table: the index of the trigram, or nothing when it is absent.\<close>

lemma binary_search_layout:
  assumes l: "index_layout data ts fch fl pch pl" and sorted: "sorted_wrt (<) ts"
  shows "case binary_search_trigram (layout_reader data ts fch) t of
      None \<Rightarrow> t \<notin> set ts | Some i \<Rightarrow> i < length ts \<and> ts ! i = t"
proof -
  let ?r = "layout_reader data ts fch"
  have max: "length ts \<le> u32_max"
    using l by (simp add: index_layout_def)
  then have count: "unat (ir_count ?r) = length ts"
    by (simp add: layout_reader_def)
  have mono: "entry_key ?r i < entry_key ?r j" if "i < j" and "j < length ts" for i j
    using that sorted by (simp add: entry_key_layout [OF l] to_u32_less_iff sorted_wrt_nth_less)
  show ?thesis
  proof (cases "bsearch_loop (entry_key ?r) (to_u32 t) 0 (length ts)")
    case None
    have "ts ! k \<noteq> t" if "k < length ts" for k
      using bsearch_loop_None [OF None mono, of k] that by (auto simp: entry_key_layout [OF l])
    then have "t \<notin> set ts" by (auto simp: in_set_conv_nth)
    with None count show ?thesis
      by (simp add: binary_search_trigram_def split: option.splits)
  next
    case (Some i)
    from bsearch_loop_Some [OF this] have i: "i < length ts" "ts ! i = t"
      by (auto simp: entry_key_layout [OF l])
    moreover have "ir_count ?r \<noteq> 0"
      using count i(1) by (metis less_nat_zero_code unat_0)
    ultimately show ?thesis
      using Some count by (simp add: binary_search_trigram_def)
  qed
qed

lemma binary_search_found:
  assumes l: "index_layout data ts fch fl pch pl" and sorted: "sorted_wrt (<) ts"
    and i: "i < length ts" "ts ! i = t"
  shows "binary_search_trigram (layout_reader data ts fch) t = Some i"
proof -
  have "distinct ts"
    using sorted by (simp add: strict_sorted_iff)
  moreover have "t \<in> set ts" using i by auto
  then obtain j where "binary_search_trigram (layout_reader data ts fch) t = Some j"
      and "j < length ts \<and> ts ! j = t"
    using binary_search_layout [OF l sorted, of t] by (auto split: option.splits)
  ultimately show ?thesis
    using i nth_eq_iff_index_eq [of ts j i] by simp
qed

lemma binary_search_absent:
  assumes "index_layout data ts fch fl pch pl" and "sorted_wrt (<) ts" and "t \<notin> set ts"
  shows "binary_search_trigram (layout_reader data ts fch) t = None"
  using binary_search_layout [OF assms(1,2), of t] assms(3) by (auto split: option.splits)

lemma lookup_file_ids_layout:
  assumes l: "index_layout data ts fch fl pch pl" and sorted: "sorted_wrt (<) ts"
    and i: "i < length ts" "ts ! i = t"
  shows "lookup_file_ids rd (layout_reader data ts fch) t
    = (if fl ! i = 0 then Inr [] else Inr (decode_delta_varint rd (fch ! i)))"
proof -
  let ?r = "layout_reader data ts fch" and ?fo = "10 + length ts * 19"
  have lens: "length fch = length ts" "length ts \<le> u32_max"
    using l by (simp_all add: index_layout_def)
  note entry = layout_entry(2,3) [OF l i(1)]
  have len0: "read_u32_at data (10 + i * 19 + 7) = 0 \<longleftrightarrow> fl ! i = 0"
    using entry(2) by (simp add: unat_eq_0 [symmetric])
  have nxt: "Suc i < length ts \<Longrightarrow> unat (read_u32_at data (32 + i * 19)) = offset_of fch (Suc i)"
    using layout_entry(2) [OF l, of "Suc i"] by simp
  have last: "\<not> Suc i < length ts \<Longrightarrow> length (concat fch) = offset_of fch (Suc i)"
    using i(1) lens offset_of_length [of fch] by (metis Suc_lessI)
  have "?fo + offset_of fch (Suc i) \<le> length data"
    using length_layout [OF l] offset_of_le_concat [of fch "Suc i"] by simp
  moreover have "offset_of fch i \<le> offset_of fch (Suc i)"
    by (rule offset_of_mono) simp
  ultimately have "slice_at (?fo + offset_of fch i) (?fo + offset_of fch (Suc i)) data = Inr (fch ! i)"
    using layout_fchunk [OF l i(1)] by (simp add: slice_ok_def)
  with \<open>?fo + offset_of fch (Suc i) \<le> length data\<close> \<open>offset_of fch i \<le> offset_of fch (Suc i)\<close>
  show ?thesis
    using entry binary_search_found [OF l sorted i] lens len0 nxt last
    by (cases "Suc i < length ts")
       (simp_all add: lookup_file_ids_def layout_reader_def TABLE_ENTRY_SIZE_def Let_def)
qed

lemma lookup_positions_layout:
  assumes l: "index_layout data ts fch fl pch pl" and sorted: "sorted_wrt (<) ts"
    and i: "i < length ts" "ts ! i = t"
  shows "lookup_positions rd (layout_reader data ts fch) t
    = (if pl ! i = 0 then Inr [] else Inr (decode_positional_postings rd (pch ! i)))"
proof -
  let ?po = "10 + length ts * 19 + length (concat fch)"
  have lens: "length pch = length ts" "length ts \<le> u32_max"
    using l by (simp_all add: index_layout_def)
  note entry = layout_entry(4,5) [OF l i(1)]
  have len0: "read_u32_at data (10 + i * 19 + 15) = 0 \<longleftrightarrow> pl ! i = 0"
    using entry(2) by (simp add: unat_eq_0 [symmetric])
  have nxt: "Suc i < length ts \<Longrightarrow> unat (read_u32_at data (40 + i * 19)) = offset_of pch (Suc i)"
    using layout_entry(4) [OF l, of "Suc i"] by simp
  have last: "\<not> Suc i < length ts \<Longrightarrow> length data = ?po + offset_of pch (Suc i)"
    using i(1) lens offset_of_length [of pch] length_layout [OF l] by (metis Suc_lessI)
  have "?po + offset_of pch (Suc i) \<le> length data"
    using length_layout [OF l] offset_of_le_concat [of pch "Suc i"] by simp
  moreover have "offset_of pch i \<le> offset_of pch (Suc i)"
    by (rule offset_of_mono) simp
  ultimately have "slice_at (?po + offset_of pch i) (?po + offset_of pch (Suc i)) data = Inr (pch ! i)"
    using layout_pchunk [OF l i(1)] by (simp add: slice_ok_def)
  with \<open>?po + offset_of pch (Suc i) \<le> length data\<close> \<open>offset_of pch i \<le> offset_of pch (Suc i)\<close>
  show ?thesis
    using entry binary_search_found [OF l sorted i] lens len0 nxt last
    by (cases "Suc i < length ts")
       (simp_all add: lookup_positions_def layout_reader_def TABLE_ENTRY_SIZE_def Let_def)
qed

lemma estimate_layout:
  assumes "index_layout data ts fch fl pch pl" and "sorted_wrt (<) ts"
    and "i < length ts" "ts ! i = t"
  shows "unat (estimate_posting_list_size (layout_reader data ts fch) t) = fl ! i"
  using binary_search_found [OF assms] layout_entry(3) [OF assms(1,3)]
  by (simp add: estimate_posting_list_size_def layout_reader_def TABLE_ENTRY_SIZE_def)

section \<open>A written index\<close>

lemma sorted_sorted_trigrams:
  assumes "wf_postings b"
  shows "sorted_wrt (<) (sorted_trigrams b)"
proof -
  let ?ts = "sorted_trigrams b"
  have "sorted (map to_u32 ?ts)"
    by (simp add: sorted_trigrams_def)
  then have "sorted ?ts"
    by (simp add: sorted_map sorted_wrt_iff_nth_less to_u32_le_iff)
  moreover have "distinct ?ts"
    using assms by (simp add: sorted_trigrams_def wf_postings_def)
  ultimately show ?thesis
    by (simp add: strict_sorted_iff)
qed

definition written_reader :: "varint_writer \<Rightarrow> posting_builder \<Rightarrow> bytes \<Rightarrow> index_reader" where
  "written_reader wr b data =
     layout_reader data (sorted_trigrams b) (map (file_chunk wr b) (sorted_trigrams b))"

lemma entries_of_nonempty:
  assumes "wf_postings b" and "t \<in> fst ` set (file_postings b)"
  shows "entries_of (file_postings b) t \<noteq> []"
proof -
  obtain ids where "(t, ids) \<in> set (file_postings b)"
    using assms(2) by force
  moreover from this have "entries_of (file_postings b) t = ids"
    using assms(1) by (intro entries_of_key) (simp_all add: wf_postings_def)
  ultimately show ?thesis
    using assms(1) by (auto simp: wf_postings_def)
qed

lemma entries_of_sorted:
  assumes "wf_postings b"
  shows "sorted_wrt (<) (entries_of (file_postings b) t)"
proof (cases "t \<in> fst ` set (file_postings b)")
  case True
  then obtain ids where "(t, ids) \<in> set (file_postings b)" by force
  moreover from this have "entries_of (file_postings b) t = ids"
    using assms by (intro entries_of_key) (simp_all add: wf_postings_def)
  ultimately show ?thesis
    using assms by (auto simp: wf_postings_def)
qed (simp add: entries_of_not_key)

lemma positions_of_sorted:
  assumes "wf_postings b"
  shows "sorted (entries_of (positional_postings b) t)"
proof (cases "t \<in> fst ` set (positional_postings b)")
  case True
  then obtain ps where ps: "(t, ps) \<in> set (positional_postings b)" by force
  then have "positional_postings b \<noteq> []" by auto
  with ps assms have "entries_of (positional_postings b) t = ps"
    by (intro entries_of_key) (simp_all add: wf_postings_def)
  with ps assms \<open>positional_postings b \<noteq> []\<close> show ?thesis
    by (auto simp: wf_postings_def)
qed (simp add: entries_of_not_key)

lemma open_written:
  assumes codec: "varint_codec wr rd" and wf: "wf_postings b" and written: "write_index wr b = Inr data"
  shows "open_index rd data = Inr (written_reader wr b data)"
  unfolding written_reader_def
proof (rule open_layout [OF write_index_layout [OF written wf]])
  fix i rest
  assume i: "i < length (sorted_trigrams b)"
  let ?ids = "entries_of (file_postings b) (sorted_trigrams b ! i)"
  have "sorted_trigrams b ! i \<in> set (sorted_trigrams b)"
    using i by (rule nth_mem)
  then have "?ids \<noteq> []"
    using entries_of_nonempty [OF wf] by simp
  then have "encode_delta_varint wr ?ids \<noteq> [] \<and>
      skip_varints rd (length ?ids) (encode_delta_varint wr ?ids @ rest) = Some rest"
    using encode_delta_not_Nil [OF codec] skip_encode_delta [OF codec]
    by (simp add: encode_delta_varint_def)
  then show "map (file_chunk wr b) (sorted_trigrams b) ! i \<noteq> [] \<and>
      skip_varints rd (map (\<lambda>t. length (entries_of (file_postings b) t)) (sorted_trigrams b) ! i)
        (map (file_chunk wr b) (sorted_trigrams b) ! i @ rest) = Some rest"
    using i by (simp only: nth_map) simp
qed

lemma written_lookup_file_ids:
  assumes codec: "varint_codec wr rd" and wf: "wf_postings b" and written: "write_index wr b = Inr data"
  shows "lookup_file_ids rd (written_reader wr b data) t = Inr (entries_of (file_postings b) t)"
proof (cases "t \<in> set (sorted_trigrams b)")
  case True
  then obtain i where i: "i < length (sorted_trigrams b)" "sorted_trigrams b ! i = t"
    unfolding in_set_conv_nth by blast
  have "sorted (entries_of (file_postings b) t)"
    using entries_of_sorted [OF wf] by (rule strict_sorted_imp_sorted)
  then show ?thesis
    using lookup_file_ids_layout [OF write_index_layout [OF written wf] sorted_sorted_trigrams [OF wf] i, of rd] i
    by (simp add: written_reader_def varint_codec.roundtrip_delta [OF codec])
next
  case False
  then show ?thesis
    using binary_search_absent [OF write_index_layout [OF written wf] sorted_sorted_trigrams [OF wf] False]
    by (simp add: lookup_file_ids_def written_reader_def entries_of_not_key)
qed

lemma written_estimate:
  assumes wf: "wf_postings b" and written: "write_index wr b = Inr data"
  shows "unat (estimate_posting_list_size (written_reader wr b data) t)
    = length (entries_of (file_postings b) t)"
proof (cases "t \<in> set (sorted_trigrams b)")
  case True
  then obtain i where i: "i < length (sorted_trigrams b)" "sorted_trigrams b ! i = t"
    unfolding in_set_conv_nth by blast
  show ?thesis
    using estimate_layout [OF write_index_layout [OF written wf] sorted_sorted_trigrams [OF wf] i] i
    by (simp add: written_reader_def)
next
  case False
  then show ?thesis
    using binary_search_absent [OF write_index_layout [OF written wf] sorted_sorted_trigrams [OF wf] False]
    by (simp add: estimate_posting_list_size_def written_reader_def entries_of_not_key)
qed

lemma written_positions_length:
  assumes wf: "wf_postings b" and written: "write_index wr b = Inr data"
    and "t \<in> set (sorted_trigrams b)"
  shows "length (entries_of (positional_postings b) t) \<le> u32_max"
proof -
  obtain i where i: "i < length (sorted_trigrams b)" "sorted_trigrams b ! i = t"
    using assms(3) unfolding in_set_conv_nth by blast
  show ?thesis
    using layout_entry(5) [OF write_index_layout [OF written wf] i(1)] i unat_u32_le
    by (metis length_map nth_map)
qed

lemma written_lookup_positions:
  assumes codec: "varint_codec wr rd" and wf: "wf_postings b" and written: "write_index wr b = Inr data"
  shows "lookup_positions rd (written_reader wr b data) t = Inr (entries_of (positional_postings b) t)"
proof (cases "t \<in> set (sorted_trigrams b)")
  case True
  then obtain i where i: "i < length (sorted_trigrams b)" "sorted_trigrams b ! i = t"
    unfolding in_set_conv_nth by blast
  have "positional_postings b = [] \<Longrightarrow> entries_of (positional_postings b) t = []"
    by (simp add: entries_of_def)
  then show ?thesis
    using lookup_positions_layout [OF write_index_layout [OF written wf] sorted_sorted_trigrams [OF wf] i, of rd] i
      varint_codec.roundtrip_positional [OF codec positions_of_sorted [OF wf, of t]
        written_positions_length [OF wf written True]]
    by (cases "positional_postings b = []") (simp_all add: written_reader_def position_chunks_def)
next
  case False
  moreover have "entries_of (positional_postings b) t = []"
  proof (cases "positional_postings b = []")
    case True
    then show ?thesis by (simp add: entries_of_def)
  next
    case nonempty: False
    then show ?thesis
      using False wf by (simp add: wf_postings_def entries_of_not_key)
  qed
  ultimately show ?thesis
    using binary_search_absent [OF write_index_layout [OF written wf] sorted_sorted_trigrams [OF wf] False]
    by (simp add: lookup_positions_def written_reader_def)
qed

section \<open>When writing succeeds\<close>

text \<open>Every value takes at least one byte, so the size of a section bounds all of its counts.\<close>

lemma encode_delta_length:
  assumes "varint_codec wr rd"
  shows "length vals \<le> length (encode_delta_from wr acc vals)"
proof (induction vals arbitrary: acc)
  case (Cons v vals)
  have "wr (v - acc) \<noteq> []"
    by (rule varint_codec.write_not_Nil [OF assms])
  then have "1 \<le> length (wr (v - acc))"
    by (cases "wr (v - acc)") simp_all
  with Cons.IH [of v] show ?case by simp
qed simp

lemma encode_positional_length:
  assumes codec: "varint_codec wr rd"
  shows "length ps \<le> length (encode_positional_postings wr ps)"
proof (induction "length ps" arbitrary: ps rule: less_induct)
  case less
  show ?case
  proof (cases ps)
    case Nil
    then show ?thesis by simp
  next
    case (Cons q qs)
    let ?p = "\<lambda>p. fst p = fst q"
    have "length (dropWhile ?p qs) < length ps"
      using length_dropWhile_le [of ?p qs] by (simp add: Cons)
    note less.hyps [OF this]
    moreover have "length (takeWhile ?p qs) + length (dropWhile ?p qs) = length qs"
      by (metis length_append takeWhile_dropWhile_id)
    moreover have "Suc (length (takeWhile ?p qs))
        \<le> length (encode_delta_from wr 0 (snd q # map snd (takeWhile ?p qs)))"
      using encode_delta_length [OF codec, of "snd q # map snd (takeWhile ?p qs)" 0] by simp
    ultimately show ?thesis
      by (cases q) (simp add: Cons Let_def)
  qed
qed

lemma encode_file_lists_ok:
  assumes "varint_codec wr rd"
    and "length buf + length (concat (map (file_chunk wr b) ts)) \<le> u32_max"
  shows "\<exists>out. encode_file_lists wr b ts buf entries = Inr out"
  using assms(2)
proof (induction ts arbitrary: buf entries)
  case Nil
  then show ?case by simp
next
  case (Cons t ts)
  have "length (entries_of (file_postings b) t) \<le> length (file_chunk wr b t)"
    unfolding encode_delta_varint_def by (rule encode_delta_length [OF assms(1)])
  with Cons.prems have "length buf \<le> u32_max" "length (entries_of (file_postings b) t) \<le> u32_max"
      "length (buf @ file_chunk wr b t) + length (concat (map (file_chunk wr b) ts)) \<le> u32_max"
    by simp_all
  then show ?case
    using Cons.IH [of "buf @ file_chunk wr b t"] by (simp add: Let_def)
qed

lemma encode_pos_lists_ok:
  assumes "varint_codec wr rd"
    and "length buf + length (concat (map (pos_chunk wr b) ts)) \<le> u32_max"
  shows "\<exists>out. encode_pos_lists wr b ts buf entries = Inr out"
  using assms(2)
proof (induction ts arbitrary: buf entries)
  case Nil
  then show ?case by simp
next
  case (Cons t ts)
  have "length (entries_of (positional_postings b) t) \<le> length (pos_chunk wr b t)"
    by (rule encode_positional_length [OF assms(1)])
  with Cons.prems have *: "length buf \<le> u32_max" "length (entries_of (positional_postings b) t) \<le> u32_max"
      "length (buf @ pos_chunk wr b t) + length (concat (map (pos_chunk wr b) ts)) \<le> u32_max"
      "length buf + length (concat (map (pos_chunk wr b) ts)) \<le> u32_max"
    by simp_all
  show ?case
  proof (cases "map_of (positional_postings b) t")
    case None
    with Cons.IH [OF *(4)] show ?thesis by simp
  next
    case (Some ps)
    then have "entries_of (positional_postings b) t = ps"
      by (simp add: entries_of_def)
    with Some * Cons.IH [of "buf @ pos_chunk wr b t"] show ?thesis
      by (simp add: Let_def)
  qed
qed

definition section_sizes_ok :: "varint_writer \<Rightarrow> posting_builder \<Rightarrow> bool" where
  "section_sizes_ok wr b \<longleftrightarrow>
     length (concat (map (file_chunk wr b) (sorted_trigrams b))) \<le> u32_max \<and>
     length (concat (map (pos_chunk wr b) (sorted_trigrams b))) \<le> u32_max"

lemma length_concat_nonempty: "\<forall>x \<in> set xs. f x \<noteq> [] \<Longrightarrow> length xs \<le> length (concat (map f xs))"
proof (induction xs)
  case (Cons x xs)
  then have "1 \<le> length (f x)" by (cases "f x") simp_all
  with Cons show ?case by simp
qed simp

lemma write_index_ok:
  assumes codec: "varint_codec wr rd" and wf: "wf_postings b" and sizes: "section_sizes_ok wr b"
  shows "\<exists>data. write_index wr b = Inr data"
proof -
  let ?ts = "sorted_trigrams b"
  have "\<forall>t \<in> set ?ts. file_chunk wr b t \<noteq> []"
    using entries_of_nonempty [OF wf] by (simp add: encode_delta_not_Nil [OF codec])
  from length_concat_nonempty [OF this] sizes have "length ?ts \<le> u32_max"
    unfolding section_sizes_ok_def by linarith
  moreover from sizes have "length ([] :: bytes) + length (concat (map (file_chunk wr b) ?ts)) \<le> u32_max"
      "length ([] :: bytes) + length (concat (map (pos_chunk wr b) ?ts)) \<le> u32_max"
    by (simp_all add: section_sizes_ok_def)
  note encode_file_lists_ok [OF codec this(1), of "[]"] encode_pos_lists_ok [OF codec this(2), of "[]"]
  ultimately show ?thesis
    by (auto simp: write_index_def Let_def)
qed

text \<open>A builder over two small files, for the witnesses.\<close>

definition sample_builder :: posting_builder where
  "sample_builder = finalize (add_files new_builder [(0, ''Abcd''), (1, ''xabc'')])"

lemma sample_builder_wf: "wf_postings sample_builder"
  unfolding sample_builder_def by (rule wf_finished) simp_all

lemma sample_builder_lengths:
  "trigram_count sample_builder = 3"
  "length (concat (map (file_chunk leb_write sample_builder) (sorted_trigrams sample_builder))) = 4"
  "length (concat (map (pos_chunk leb_write sample_builder) (sorted_trigrams sample_builder))) = 12"
  "length (concat (position_chunks leb_write sample_builder)) = 12"
  by code_simp+

lemma sample_builder_sizes: "section_sizes_ok leb_write sample_builder"
  by (simp add: section_sizes_ok_def sample_builder_lengths)

lemma sample_builder_entries:
  "entries_of (file_postings sample_builder) (from_bytes (CHR ''a'') (CHR ''b'') (CHR ''c'')) = [0, 1]"
  "entries_of (positional_postings sample_builder) (from_bytes (CHR ''a'') (CHR ''b'') (CHR ''c''))
    = [(0, 0), (1, 1)]"
proof -
  have folded: "extract_trigrams_folded ''Abcd''
      = [Trigram (CHR ''a'') (CHR ''b'') (CHR ''c''), Trigram (CHR ''b'') (CHR ''c'') (CHR ''d'')]"
    "extract_trigrams_folded ''xabc''
      = [Trigram (CHR ''x'') (CHR ''a'') (CHR ''b''), Trigram (CHR ''a'') (CHR ''b'') (CHR ''c'')]"
    by code_simp+
  show "entries_of (file_postings sample_builder) (from_bytes (CHR ''a'') (CHR ''b'') (CHR ''c'')) = [0, 1]"
    unfolding sample_builder_def
    by (subst finished_file_postings) (simp_all add: posting_spec_def folded from_bytes_def)
  show "entries_of (positional_postings sample_builder) (from_bytes (CHR ''a'') (CHR ''b'') (CHR ''c''))
      = [(0, 0), (1, 1)]"
    unfolding sample_builder_def
    by (subst finished_positional_postings)
       (simp_all add: position_spec_def folded from_bytes_def, simp add: new_builder_def)
qed

section \<open>Properties of the index file\<close>

text \<open>
  C10. A written trigram index answers like the builder it was written from: it opens, every file
  lookup and every positional lookup, of present and of absent trigrams alike, returns exactly the
  builder's list, and the size estimate is the length of that list.
\<close>

theorem index_roundtrip:
  assumes "varint_codec wr rd" and "wf_postings b" and "write_index wr b = Inr data"
  shows "\<exists>r. open_index rd data = Inr r \<and>
    (\<forall>t. lookup_file_ids rd r t = Inr (entries_of (file_postings b) t) \<and>
         lookup_positions rd r t = Inr (entries_of (positional_postings b) t) \<and>
         unat (estimate_posting_list_size r t) = length (entries_of (file_postings b) t))"
  using open_written [OF assms] written_lookup_file_ids [OF assms] written_lookup_positions [OF assms]
    written_estimate [OF assms(2,3)] by blast

theorem index_roundtrip_witness:
  "\<exists>data r. write_index leb_write sample_builder = Inr data \<and> open_index leb_read data = Inr r \<and>
    lookup_file_ids leb_read r (from_bytes (CHR ''a'') (CHR ''b'') (CHR ''c'')) = Inr [0, 1] \<and>
    lookup_positions leb_read r (from_bytes (CHR ''a'') (CHR ''b'') (CHR ''c'')) = Inr [(0, 0), (1, 1)]"
proof -
  obtain data where "write_index leb_write sample_builder = Inr data"
    using write_index_ok [OF leb.varint_codec_axioms sample_builder_wf sample_builder_sizes] by blast
  with index_roundtrip [OF leb.varint_codec_axioms sample_builder_wf this] show ?thesis
    using sample_builder_entries by metis
qed

text \<open>
  C40. Writing fails only for want of space: whenever both posting sections stay below 4 GiB, the
  writer produces a file, whatever the number of trigrams, lists and values, and the file has the
  header, table and section sizes the format prescribes.
\<close>

theorem write_index_succeeds:
  assumes "varint_codec wr rd" and "wf_postings b" and "section_sizes_ok wr b"
  shows "\<exists>data. write_index wr b = Inr data \<and>
    length data = TRIG_HEADER_SIZE + trigram_count b * TABLE_ENTRY_SIZE
      + length (concat (map (file_chunk wr b) (sorted_trigrams b)))
      + length (concat (position_chunks wr b))"
proof -
  obtain data where data: "write_index wr b = Inr data"
    using write_index_ok [OF assms] by blast
  from length_layout [OF write_index_layout [OF data assms(2)]] show ?thesis
    by (intro exI [of _ data])
       (simp add: data trigram_count_def TRIG_HEADER_SIZE_def TABLE_ENTRY_SIZE_def)
qed

theorem write_index_succeeds_witness:
  "\<exists>data. write_index leb_write sample_builder = Inr data \<and> length data = 83"
proof -
  show ?thesis
    using write_index_succeeds [OF leb.varint_codec_axioms sample_builder_wf sample_builder_sizes]
    by (simp add: sample_builder_lengths TRIG_HEADER_SIZE_def TABLE_ENTRY_SIZE_def)
qed

end
