(* ===== verification/Intersection.thy ===== *)
theory Intersection
  imports Index_Roundtrip
begin

text \<open>
  Candidate selection: \<open>intersect_two\<close>, \<open>intersect_file_ids\<close> and \<open>find_candidates\<close>
  (\<open>ferret-core/src/intersection.rs\<close>), and the variant of the query pipeline that intersects the
  smallest lists first (\<open>intersect_trigrams_smallest_first\<close> of \<open>ferret-core/src/multi_search.rs\<close>).
  What they need of an index is the locale \<open>posting_index\<close>: lookups that succeed with the strictly
  ascending posting list of each trigram, and an estimate that is zero exactly for the empty lists.
  A written index file provides it. A set of trigrams is a list without repetitions, and the
  results do not depend on its order.
\<close>

section \<open>Intersection of sorted lists\<close>

text \<open>The two-pointer merge; the suffixes that remain stand for the two indices.\<close>

fun intersect_two :: "file_id list \<Rightarrow> file_id list \<Rightarrow> file_id list" where
  "intersect_two [] b = []"
| "intersect_two (x # a) [] = []"
| "intersect_two (x # a) (y # b) =
     (if x < y then intersect_two a (y # b)
      else if x > y then intersect_two (x # a) b
      else x # intersect_two a b)"

text \<open>The loop over the remaining lists, left as soon as nothing remains.\<close>

fun intersect_loop :: "file_id list \<Rightarrow> file_id list list \<Rightarrow> file_id list" where
  "intersect_loop result [] = result"
| "intersect_loop result (l # ls) =
     (let result = intersect_two result l
      in if result = [] then result else intersect_loop result ls)"

definition intersect_file_ids :: "file_id list list \<Rightarrow> file_id list" where
  "intersect_file_ids plists =
     (if plists = [] then []
      else if length plists = 1 then plists ! 0
      else if list_ex (\<lambda>l. l = []) plists then []
      else
        let indices = sort_key (\<lambda>i. length (plists ! i)) [0..<length plists]
        in intersect_loop (plists ! (indices ! 0)) (map (\<lambda>i. plists ! i) (drop 1 indices)))"

lemma intersect_two_subset: "set (intersect_two a b) \<subseteq> set a"
  by (induction a b rule: intersect_two.induct) (simp_all, blast+)

lemma sorted_intersect_two: "sorted_wrt (<) a \<Longrightarrow> sorted_wrt (<) (intersect_two a b)"
proof (induction a b rule: intersect_two.induct)
  case (3 x a y b)
  consider "x < y" | "y < x" | "x = y"
    using less_linear by blast
  then show ?case
  proof cases
    case 3
    have "\<forall>z \<in> set (intersect_two a b). x < z"
      using "3.prems" intersect_two_subset [of a b] by auto
    with 3 "3.IH"(3) "3.prems" show ?thesis by simp
  qed (use "3.IH" "3.prems" in simp_all)
qed simp_all

lemma set_intersect_two:
  "sorted_wrt (<) a \<Longrightarrow> sorted_wrt (<) b \<Longrightarrow> set (intersect_two a b) = set a \<inter> set b"
proof (induction a b rule: intersect_two.induct)
  case (3 x a y b)
  consider "x < y" | "y < x" | "x = y"
    using less_linear by blast
  then show ?case
  proof cases
    case 1
    then have "x \<notin> set (y # b)" using "3.prems"(2) by auto
    with 1 "3.IH"(1) "3.prems" show ?thesis by simp
  next
    case 2
    then have "y \<notin> set (x # a)" using "3.prems"(1) by auto
    with 2 less_not_sym [OF 2] "3.IH"(2) "3.prems" show ?thesis by simp
  next
    case 3
    then have "x \<notin> set a" "x \<notin> set b" using "3.prems" by auto
    with 3 "3.IH"(3) "3.prems" show ?thesis by auto
  qed
qed simp_all

lemma intersect_loop_spec:
  assumes "sorted_wrt (<) result" and "\<forall>l \<in> set ls. sorted_wrt (<) l"
  shows "sorted_wrt (<) (intersect_loop result ls) \<and>
    set (intersect_loop result ls) = set result \<inter> (\<Inter>l \<in> set ls. set l)"
  using assms
proof (induction ls arbitrary: result)
  case (Cons l ls)
  then have two: "sorted_wrt (<) (intersect_two result l)"
      "set (intersect_two result l) = set result \<inter> set l"
    by (simp_all add: sorted_intersect_two set_intersect_two)
  show ?case
  proof (cases "intersect_two result l = []")
    case True
    with two(2) show ?thesis by auto
  next
    case False
    with Cons.IH [OF two(1)] Cons.prems two(2) show ?thesis by (auto simp: Let_def)
  qed
qed simp

lemma intersect_file_ids_set:
  assumes "\<forall>l \<in> set plists. sorted_wrt (<) l" and "plists \<noteq> []"
  shows "sorted_wrt (<) (intersect_file_ids plists) \<and>
    set (intersect_file_ids plists) = (\<Inter>l \<in> set plists. set l)"
proof -
  consider "length plists = 1" | "length plists \<noteq> 1" "[] \<in> set plists"
    | "length plists \<noteq> 1" "[] \<notin> set plists" by blast
  then show ?thesis
  proof cases
    case 1
    then obtain l where "plists = [l]" by (metis One_nat_def length_0_conv length_Suc_conv)
    with assms show ?thesis by (simp add: intersect_file_ids_def)
  next
    case 2
    with assms(2) show ?thesis
      by (force simp: intersect_file_ids_def list_ex_iff)
  next
    case 3
    let ?ix = "sort_key (\<lambda>i. length (plists ! i)) [0..<length plists]"
    have len: "length ?ix = length plists" by simp
    then obtain i js where ix: "?ix = i # js"
      using assms(2) by (metis length_0_conv list.exhaust)
    have "set ?ix = {0..<length plists}" by simp
    then have "(\<lambda>i. plists ! i) ` set (i # js) = set plists"
      unfolding ix using nth_image [of "length plists" plists] by (simp add: atLeast0LessThan)
    then have sets: "set plists = insert (plists ! i) (set (map (\<lambda>i. plists ! i) js))"
      by simp
    have "intersect_file_ids plists = intersect_loop (plists ! i) (map (\<lambda>i. plists ! i) js)"
      using 3 assms(2) ix by (auto simp: intersect_file_ids_def list_ex_iff)
    then show ?thesis
      using intersect_loop_spec [of "plists ! i" "map (\<lambda>i. plists ! i) js"] assms(1) sets by simp
  qed
qed

section \<open>The candidates of a query text and of a set of trigrams\<close>

definition find_candidates ::
  "(trigram \<Rightarrow> file_id list result) \<Rightarrow> text_utf8 \<Rightarrow> file_id list result" where
  "find_candidates lookup query =
     (if length query < 3 then Inr []
      else
        let trigrams = extract_unique_trigrams_folded query
        in if trigrams = [] then Inr []
           else obind (collect_results lookup trigrams) (\<lambda>plists. Inr (intersect_file_ids plists)))"

text \<open>The incremental intersection: lists are decoded only while something remains.\<close>

fun intersect_scored ::
  "(trigram \<Rightarrow> file_id list result) \<Rightarrow> file_id list \<Rightarrow> (trigram \<times> u32) list \<Rightarrow> file_id list result" where
  "intersect_scored lookup result [] = Inr result"
| "intersect_scored lookup result ((t, est) # scored) =
     obind (lookup t) (\<lambda>list.
       let result = intersect_two result list
       in if result = [] then Inr [] else intersect_scored lookup result scored)"

definition intersect_trigrams_smallest_first ::
  "(trigram \<Rightarrow> file_id list result) \<Rightarrow> (trigram \<Rightarrow> u32) \<Rightarrow> file_id list result \<Rightarrow> trigram list
     \<Rightarrow> file_id list result" where
  "intersect_trigrams_smallest_first lookup estimate all_file_ids trigrams =
     (if trigrams = [] then all_file_ids
      else
        let scored = sort_key snd (map (\<lambda>t. (t, estimate t)) trigrams)
        in if snd (scored ! 0) = 0 then Inr []
           else
             obind (lookup (fst (scored ! 0))) (\<lambda>result.
               if result = [] then Inr []
               else intersect_scored lookup result (drop 1 scored)))"

section \<open>What candidate selection needs of an index\<close>

locale posting_index =
  fixes lookup :: "trigram \<Rightarrow> file_id list result"
    and estimate :: "trigram \<Rightarrow> u32"
    and postings :: "trigram \<Rightarrow> file_id list"
  assumes lookup_postings: "lookup t = Inr (postings t)"
    and postings_sorted: "sorted_wrt (<) (postings t)"
    and estimate_zero: "estimate t = 0 \<longleftrightarrow> postings t = []"
begin

lemma collect_lookups: "collect_results lookup ts = Inr (map postings ts)"
  by (induction ts) (simp_all add: lookup_postings)

lemma find_candidates_spec:
  assumes "3 \<le> length query"
  shows "\<exists>ids. find_candidates lookup query = Inr ids \<and> sorted_wrt (<) ids \<and>
    set ids = (\<Inter>t \<in> set (extract_unique_trigrams_folded query). set (postings t))"
proof -
  let ?ts = "extract_unique_trigrams_folded query"
  have "?ts \<noteq> []"
    using assms by (simp add: extract_unique_folded_eq_Nil)
  then have "find_candidates lookup query = Inr (intersect_file_ids (map postings ?ts))"
    using assms by (simp add: find_candidates_def Let_def collect_lookups)
  with intersect_file_ids_set [of "map postings ?ts"] \<open>?ts \<noteq> []\<close> show ?thesis
    by (auto simp: postings_sorted)
qed

lemma intersect_scored_spec:
  "sorted_wrt (<) result \<Longrightarrow>
     \<exists>ids. intersect_scored lookup result scored = Inr ids \<and> sorted_wrt (<) ids \<and>
       set ids = set result \<inter> (\<Inter>t \<in> set (map fst scored). set (postings t))"
proof (induction scored arbitrary: result)
  case Nil
  then show ?case by simp
next
  case (Cons te scored)
  obtain t est where te: "te = (t, est)" by fastforce
  let ?r = "intersect_two result (postings t)"
  have two: "sorted_wrt (<) ?r" "set ?r = set result \<inter> set (postings t)"
    using Cons.prems by (simp_all add: sorted_intersect_two set_intersect_two postings_sorted)
  show ?case
  proof (cases "?r = []")
    case True
    with two(2) show ?thesis by (auto simp: te lookup_postings)
  next
    case False
    with Cons.IH [OF two(1)] two(2) show ?thesis by (auto simp: te lookup_postings Let_def)
  qed
qed

lemma smallest_first_spec:
  assumes "ts \<noteq> []"
  shows "\<exists>ids. intersect_trigrams_smallest_first lookup estimate all_ids ts = Inr ids \<and>
    sorted_wrt (<) ids \<and> set ids = (\<Inter>t \<in> set ts. set (postings t))"
proof -
  let ?sc = "sort_key snd (map (\<lambda>t. (t, estimate t)) ts)"
  have members: "set ?sc = (\<lambda>t. (t, estimate t)) ` set ts" by simp
  have "length ?sc = length ts" by simp
  then obtain te rest where sc: "?sc = te # rest"
    using assms by (metis length_0_conv list.exhaust)
  obtain t est where te: "te = (t, est)" by fastforce
  from members have "te \<in> (\<lambda>t. (t, estimate t)) ` set ts"
    by (metis list.set_intros(1) sc)
  then have t: "t \<in> set ts" and est: "est = estimate t"
    by (auto simp: te)
  have "fst ` set (te # rest) = set ts"
    unfolding sc [symmetric] members by force
  then have ts: "set ts = insert t (set (map fst rest))"
    by (simp add: te)
  show ?thesis
  proof (cases "postings t = []")
    case True
    then have "intersect_trigrams_smallest_first lookup estimate all_ids ts = Inr []"
      using assms est estimate_zero
      by (simp add: intersect_trigrams_smallest_first_def Let_def sc te)
    with True t show ?thesis by force
  next
    case False
    then have "intersect_trigrams_smallest_first lookup estimate all_ids ts
        = intersect_scored lookup (postings t) rest"
      using assms est estimate_zero
      by (simp add: intersect_trigrams_smallest_first_def Let_def sc te lookup_postings)
    with intersect_scored_spec [OF postings_sorted, of t rest] ts show ?thesis by auto
  qed
qed

end

section \<open>A written index is one\<close>

locale written_index = varint_codec wr rd for wr :: varint_writer and rd :: varint_reader +
  fixes b :: posting_builder and data :: bytes
  assumes wf: "wf_postings b"
    and written: "write_index wr b = Inr data"

sublocale written_index \<subseteq> posting_index
  "lookup_file_ids rd (written_reader wr b data)"
  "estimate_posting_list_size (written_reader wr b data)"
  "entries_of (file_postings b)"
proof
  fix t
  show "lookup_file_ids rd (written_reader wr b data) t = Inr (entries_of (file_postings b) t)"
    by (rule written_lookup_file_ids [OF varint_codec_axioms wf written])
  show "sorted_wrt (<) (entries_of (file_postings b) t)"
    by (rule entries_of_sorted [OF wf])
  show "estimate_posting_list_size (written_reader wr b data) t = 0
      \<longleftrightarrow> entries_of (file_postings b) t = []"
    using written_estimate [OF wf written, of t] by (metis length_0_conv unat_eq_zero)
qed

context written_index
begin

lemmas is_posting_index = posting_index_axioms

end

text \<open>The index of the sample builder, written and read with the LEB128 codec.\<close>

definition sample_data :: bytes where
  "sample_data = (case write_index leb_write sample_builder of Inr d \<Rightarrow> d | Inl _ \<Rightarrow> [])"

interpretation sample: written_index leb_write leb_read sample_builder sample_data
proof
  show "wf_postings sample_builder"
    by (rule sample_builder_wf)
  show "write_index leb_write sample_builder = Inr sample_data"
    using write_index_ok [OF leb.varint_codec_axioms sample_builder_wf sample_builder_sizes]
    by (auto simp: sample_data_def)
qed

text \<open>A finished builder over files of ascending IDs, written: what lookups mean.\<close>

definition indexed_files ::
  "varint_writer \<Rightarrow> posting_builder \<Rightarrow> (file_id \<times> bytes) list \<Rightarrow> bytes \<Rightarrow> bool" where
  "indexed_files wr b0 files data \<longleftrightarrow>
     empty_builder b0 \<and> sorted_wrt (<) (map fst files) \<and>
     list_all (\<lambda>(f, c). length c \<le> u32_max) files \<and>
     write_index wr (finalize (add_files b0 files)) = Inr data"

definition candidate_spec :: "(file_id \<times> bytes) list \<Rightarrow> trigram list \<Rightarrow> file_id list" where
  "candidate_spec files ts =
     map fst (filter (\<lambda>(f, c). list_all (\<lambda>t. t \<in> set (extract_trigrams_folded c)) ts) files)"

lemma indexed_files_written:
  assumes "varint_codec wr rd" and "indexed_files wr b0 files data"
  shows "written_index wr rd (finalize (add_files b0 files)) data"
  using assms wf_finished [of b0 files]
  by (simp add: written_index_def written_index_axioms_def indexed_files_def list_all_iff)

lemma indexed_files_open:
  assumes "varint_codec wr rd" and "indexed_files wr b0 files data"
  shows "open_index rd data = Inr (written_reader wr (finalize (add_files b0 files)) data)"
  using assms wf_finished [of b0 files]
  by (intro open_written) (simp_all add: indexed_files_def list_all_iff)

lemma indexed_files_index:
  assumes "varint_codec wr rd" and "indexed_files wr b0 files data"
  shows "posting_index
    (lookup_file_ids rd (written_reader wr (finalize (add_files b0 files)) data))
    (estimate_posting_list_size (written_reader wr (finalize (add_files b0 files)) data))
    (posting_spec files)"
proof -
  have "entries_of (file_postings (finalize (add_files b0 files))) = posting_spec files"
    using assms(2) by (intro ext finished_file_postings) (simp_all add: indexed_files_def)
  then show ?thesis
    using written_index.is_posting_index [OF indexed_files_written [OF assms]] by simp
qed

lemma candidate_spec_unique:
  assumes files: "sorted_wrt (<) (map fst files)" and ts: "ts \<noteq> []"
    and ids: "sorted_wrt (<) ids" "set ids = (\<Inter>t \<in> set ts. set (posting_spec files t))"
  shows "ids = candidate_spec files ts"
proof (rule strict_sorted_unique [OF ids(1)])
  show "sorted_wrt (<) (candidate_spec files ts)"
    using files by (auto simp: candidate_spec_def sorted_wrt_map intro: sorted_wrt_filter)
  have dist: "distinct (map fst files)"
    using files by (simp add: strict_sorted_iff)
  have "f \<in> (\<Inter>t \<in> set ts. set (posting_spec files t)) \<longleftrightarrow> f \<in> set (candidate_spec files ts)" for f
  proof
    assume *: "f \<in> (\<Inter>t \<in> set ts. set (posting_spec files t))"
    then obtain c where c: "(f, c) \<in> set files"
      using ts by (fastforce simp: posting_spec_def neq_Nil_conv)
    have "t \<in> set (extract_trigrams_folded c)" if "t \<in> set ts" for t
    proof -
      from * that have "f \<in> set (posting_spec files t)" by blast
      then obtain c' where "(f, c') \<in> set files" "t \<in> set (extract_trigrams_folded c')"
        by (auto simp: posting_spec_def)
      with c dist show ?thesis by (metis eq_key_imp_eq_value)
    qed
    with c show "f \<in> set (candidate_spec files ts)"
      by (force simp: candidate_spec_def list_all_iff)
  qed (force simp: candidate_spec_def posting_spec_def list_all_iff)
  then show "set ids = set (candidate_spec files ts)"
    using ids(2) by blast
qed

lemma sample_indexed:
  "indexed_files leb_write new_builder [(0, ''Abcd''), (1, ''xabc'')] sample_data"
  using sample.written by (simp add: indexed_files_def sample_builder_def)

section \<open>Properties of candidate selection\<close>

text \<open>
  The intersection of strictly ascending posting lists is strictly ascending and holds exactly
  the file IDs common to all of them, whatever the lengths of the lists and the order in which
  they are merged; the early exits never drop a common ID.
\<close>

theorem intersect_file_ids_correct:
  assumes "\<forall>l \<in> set posting_lists. sorted_wrt (<) l"
  shows "sorted_wrt (<) (intersect_file_ids posting_lists) \<and>
    set (intersect_file_ids posting_lists)
      = (if posting_lists = [] then {} else (\<Inter>l \<in> set posting_lists. set l))"
  using intersect_file_ids_set [OF assms] by (auto simp: intersect_file_ids_def)

theorem intersect_file_ids_correct_witness:
  "set (intersect_file_ids [[1, 3, 5, 7], [3, 7, 9], [2, 3, 4, 7, 8 :: u32]]) = {3, 7}"
proof -
  have "\<forall>l \<in> set [[1, 3, 5, 7], [3, 7, 9], [2, 3, 4, 7, 8 :: u32]]. sorted_wrt (<) l"
    by simp
  from intersect_file_ids_correct [OF this] show ?thesis by auto
qed

text \<open>
  C13. End to end: files are added to a builder in ascending order of their IDs, the builder is
  finalised, written, and the file opened. Then the candidates of any query of at least three bytes
  are exactly the files whose content has every case-folded trigram of the query, in ascending
  order.
\<close>

theorem candidates_of_written_index:
  assumes "varint_codec wr rd" and "indexed_files wr b0 files data" and "3 \<le> length query"
  shows "\<exists>r. open_index rd data = Inr r \<and>
    find_candidates (lookup_file_ids rd r) query
      = Inr (candidate_spec files (extract_unique_trigrams_folded query))"
proof -
  note idx = indexed_files_index [OF assms(1,2)]
  from posting_index.find_candidates_spec [OF idx assms(3)] assms(2,3) show ?thesis
    using candidate_spec_unique [of files "extract_unique_trigrams_folded query"]
      indexed_files_open [OF assms(1,2)]
    by (auto simp: indexed_files_def)
qed

theorem candidates_of_written_index_witness:
  "\<exists>r. open_index leb_read sample_data = Inr r \<and>
    find_candidates (lookup_file_ids leb_read r) ''ABCD'' = Inr [0]"
proof -
  have "candidate_spec [(0, ''Abcd''), (1, ''xabc'')] (extract_unique_trigrams_folded ''ABCD'') = [0]"
    by code_simp
  then show ?thesis
    using candidates_of_written_index [OF leb.varint_codec_axioms sample_indexed, of "''ABCD''"] by simp
qed

text \<open>
  C27. No false negatives: under the same conditions, every file whose content contains the query
  text, up to the case of ASCII letters, is among the candidates, so the verification stage sees
  it.
\<close>

theorem candidates_complete:
  assumes "varint_codec wr rd" and "indexed_files wr b0 files data" and "open_index rd data = Inr r"
    and "3 \<le> length query" and "(f, content) \<in> set files"
    and "sublist (fold_text query) (fold_text content)"
  shows "\<exists>ids. find_candidates (lookup_file_ids rd r) query = Inr ids \<and> f \<in> set ids"
proof -
  have r: "r = written_reader wr (finalize (add_files b0 files)) data"
    using indexed_files_open [OF assms(1,2)] assms(3) by simp
  from posting_index.find_candidates_spec [OF indexed_files_index [OF assms(1,2)] assms(4)]
  obtain ids where ids: "find_candidates (lookup_file_ids rd r) query = Inr ids"
      "set ids = (\<Inter>t \<in> set (extract_unique_trigrams_folded query). set (posting_spec files t))"
    unfolding r by blast
  have "f \<in> set (posting_spec files t)" if "t \<in> set (extract_unique_trigrams_folded query)" for t
    using trigrams_necessary [OF assms(6)] that assms(5) by (force simp: posting_spec_def)
  with ids show ?thesis by blast
qed

theorem candidates_complete_witness:
  "\<exists>r ids. open_index leb_read sample_data = Inr r \<and>
    find_candidates (lookup_file_ids leb_read r) ''ABC'' = Inr ids \<and> 1 \<in> set ids"
proof -
  have "sublist (fold_text ''ABC'') (fold_text ''xabc'')"
    by (simp add: ascii_fold_byte_eq sublist_Cons_right)
  then show ?thesis
    using candidates_complete [OF leb.varint_codec_axioms sample_indexed, of _ "''ABC''" 1 "''xabc''"]
      indexed_files_open [OF leb.varint_codec_axioms sample_indexed] by simp
qed

text \<open>
  The incremental strategy of the query pipeline, which sorts the trigrams by estimated list
  size and decodes lists only while candidates remain, is equivalent to intersecting all the lists:
  for every non-empty set of trigrams and in every order of it, the result is the files that have
  all of them.
\<close>

theorem smallest_first_correct:
  assumes "varint_codec wr rd" and "indexed_files wr b0 files data" and "open_index rd data = Inr r"
    and "ts \<noteq> []"
  shows "intersect_trigrams_smallest_first (lookup_file_ids rd r) (estimate_posting_list_size r) all_ids ts
    = Inr (candidate_spec files ts)"
proof -
  have r: "r = written_reader wr (finalize (add_files b0 files)) data"
    using indexed_files_open [OF assms(1,2)] assms(3) by simp
  have "sorted_wrt (<) (map fst files)"
    using assms(2) by (simp add: indexed_files_def)
  with posting_index.smallest_first_spec [OF indexed_files_index [OF assms(1,2)] assms(4), of all_ids]
  show ?thesis
    unfolding r using candidate_spec_unique [OF _ assms(4), of files] by auto
qed

theorem smallest_first_correct_witness:
  "\<exists>r. open_index leb_read sample_data = Inr r \<and>
    intersect_trigrams_smallest_first (lookup_file_ids leb_read r) (estimate_posting_list_size r) (Inr [])
      [Trigram (CHR ''b'') (CHR ''c'') (CHR ''d''), Trigram (CHR ''a'') (CHR ''b'') (CHR ''c'')] = Inr [0]"
proof -
  have "candidate_spec [(0, ''Abcd''), (1, ''xabc'')]
      [Trigram (CHR ''b'') (CHR ''c'') (CHR ''d''), Trigram (CHR ''a'') (CHR ''b'') (CHR ''c'')] = [0]"
    by code_simp
  then show ?thesis
    using smallest_first_correct [OF leb.varint_codec_axioms sample_indexed]
      indexed_files_open [OF leb.varint_codec_axioms sample_indexed] by simp
qed

end
