(* ===== verification/Tombstone.thy ===== *)
theory Tombstone
  imports Core_Types
begin

unbundle bit_operations_syntax

text \<open>
  The bitmap of deleted and superseded files (\<open>ferret-core/src/tombstone.rs\<close>): the operations of
  \<open>TombstoneSet\<close>, its iterator, its file format and the two predicates on change kinds. The bitmap
  words are 64-bit words and the cached count is a 32-bit word. \<open>tombstone_ratio\<close> is left out, it
  is the only operation with floating-point numbers. The lemmas show that the bitmap implements a
  finite set of file IDs whose count is its cardinality, that the iterator lists it in ascending
  order, and that the file format round-trips.
\<close>

section \<open>The operations\<close>

definition TOMB_MAGIC :: u32 where "TOMB_MAGIC = 0x544F4D42"
definition TOMB_VERSION :: u16 where "TOMB_VERSION = 1"
definition TOMB_HEADER_SIZE :: nat where "TOMB_HEADER_SIZE = 14"

record tombstone_set =
  ts_words :: "u64 list"
  ts_count :: u32

definition word_and_bit :: "file_id \<Rightarrow> nat \<times> nat" where
  "word_and_bit f = (unat (f div 64), unat (f mod 64))"

definition word_count :: "u32 \<Rightarrow> nat" where
  "word_count max_file_id =
     (if max_file_id = 0 then 0 else (unat max_file_id + 63) div 64)"

text \<open>\<open>u64::count_ones\<close>, \<open>u64::trailing_zeros\<close> and \<open>Vec::resize\<close> of the standard library.\<close>

definition count_ones :: "u64 \<Rightarrow> nat" where
  "count_ones w = length (filter (bit w) [0..<64])"

definition trailing_zeros :: "u64 \<Rightarrow> nat" where
  "trailing_zeros w = length (takeWhile (\<lambda>i. \<not> bit w i) [0..<64])"

definition resize :: "nat \<Rightarrow> 'a \<Rightarrow> 'a list \<Rightarrow> 'a list" where
  "resize n x xs = (if n \<le> length xs then take n xs else xs @ replicate (n - length xs) x)"

definition ts_new :: tombstone_set where
  "ts_new = \<lparr>ts_words = [], ts_count = 0\<rparr>"

definition ts_with_capacity :: "u32 \<Rightarrow> tombstone_set" where
  "ts_with_capacity capacity = \<lparr>ts_words = replicate (word_count capacity) 0, ts_count = 0\<rparr>"

definition ts_insert :: "file_id \<Rightarrow> tombstone_set \<Rightarrow> tombstone_set" where
  "ts_insert f ts =
     (let (word_idx, bit_idx) = word_and_bit f;
          words = (if word_idx \<ge> length (ts_words ts) then resize (word_idx + 1) 0 (ts_words ts)
                   else ts_words ts);
          mask = push_bit bit_idx 1
      in if words ! word_idx AND mask = 0
         then \<lparr>ts_words = words[word_idx := words ! word_idx OR mask], ts_count = ts_count ts + 1\<rparr>
         else \<lparr>ts_words = words, ts_count = ts_count ts\<rparr>)"

definition ts_remove :: "file_id \<Rightarrow> tombstone_set \<Rightarrow> tombstone_set" where
  "ts_remove f ts =
     (let (word_idx, bit_idx) = word_and_bit f
      in if word_idx \<ge> length (ts_words ts) then ts
         else
           let mask = push_bit bit_idx 1; w = ts_words ts ! word_idx
           in if w AND mask \<noteq> 0
              then \<lparr>ts_words = (ts_words ts)[word_idx := w AND NOT mask], ts_count = ts_count ts - 1\<rparr>
              else ts)"

definition ts_contains :: "tombstone_set \<Rightarrow> file_id \<Rightarrow> bool" where
  "ts_contains ts f =
     (let (word_idx, bit_idx) = word_and_bit f
      in if word_idx \<ge> length (ts_words ts) then False
         else ts_words ts ! word_idx AND push_bit bit_idx 1 \<noteq> 0)"

definition ts_len :: "tombstone_set \<Rightarrow> u32" where
  "ts_len ts = ts_count ts"

definition ts_is_empty :: "tombstone_set \<Rightarrow> bool" where
  "ts_is_empty ts = (ts_count ts = 0)"

definition ts_capacity :: "tombstone_set \<Rightarrow> u32" where
  "ts_capacity ts = of_nat (length (ts_words ts)) * 64"

definition ts_clear :: "tombstone_set \<Rightarrow> tombstone_set" where
  "ts_clear ts = \<lparr>ts_words = map (\<lambda>_. 0) (ts_words ts), ts_count = 0\<rparr>"

definition ts_merge :: "tombstone_set \<Rightarrow> tombstone_set \<Rightarrow> tombstone_set" where
  "ts_merge ts other =
     (let words = (if length (ts_words other) > length (ts_words ts)
                   then resize (length (ts_words other)) 0 (ts_words ts) else ts_words ts);
          words = fold (\<lambda>(i, w) ws. ws[i := ws ! i OR w]) (enumerate 0 (ts_words other)) words
      in \<lparr>ts_words = words, ts_count = of_nat (sum_list (map count_ones words))\<rparr>)"

text \<open>The iterator: its state, one step, and the list it yields.\<close>

record tombstone_iter =
  it_words :: "u64 list"
  it_word_idx :: nat
  it_current_word :: u64

definition ts_iter :: "tombstone_set \<Rightarrow> tombstone_iter" where
  "ts_iter ts =
     \<lparr>it_words = ts_words ts, it_word_idx = 0,
      it_current_word = (case ts_words ts of [] \<Rightarrow> 0 | w # _ \<Rightarrow> w)\<rparr>"

function iter_next :: "tombstone_iter \<Rightarrow> file_id option \<times> tombstone_iter" where
  "iter_next it =
     (if it_current_word it \<noteq> 0 then
        let b = trailing_zeros (it_current_word it)
        in (Some (of_nat (it_word_idx it) * 64 + of_nat b),
            it\<lparr>it_current_word := it_current_word it AND (it_current_word it - 1)\<rparr>)
      else
        let idx = it_word_idx it + 1
        in if idx \<ge> length (it_words it) then (None, it\<lparr>it_word_idx := idx\<rparr>)
           else iter_next (it\<lparr>it_word_idx := idx, it_current_word := it_words it ! idx\<rparr>))"
  by pat_completeness auto
termination
  by (relation "measure (\<lambda>it. length (it_words it) - it_word_idx it)") auto

declare iter_next.simps [simp del]

definition ts_write_to :: "tombstone_set \<Rightarrow> bytes" where
  "ts_write_to ts =
     u32_le TOMB_MAGIC @ u16_le TOMB_VERSION @ u32_le (ts_capacity ts) @ u32_le (ts_count ts)
       @ concat (map u64_le (ts_words ts))"

definition ts_read_from :: "bytes \<Rightarrow> tombstone_set result" where
  "ts_read_from data =
     (if length data < TOMB_HEADER_SIZE then corrupt ''tombstone.bin too small for header''
      else if le_u32 (slice 0 4 data) \<noteq> TOMB_MAGIC then corrupt ''invalid tombstone.bin magic: expected 0x''
      else if le_u16 (slice 4 6 data) \<noteq> TOMB_VERSION
      then Inl (Err (UnsupportedVersion (ucast (le_u16 (slice 4 6 data)))))
      else
        let max_file_id = le_u32 (slice 6 10 data);
            tombstone_count = le_u32 (slice 10 14 data);
            num_words = word_count max_file_id;
            expected_size = TOMB_HEADER_SIZE + num_words * 8
        in if length data < expected_size then corrupt ''tombstone.bin too small: expected at least ''
           else
             let words = map (\<lambda>i. le_u64 (slice (TOMB_HEADER_SIZE + i * 8)
                                     (TOMB_HEADER_SIZE + i * 8 + 8) data)) [0..<num_words]
             in if (of_nat (sum_list (map count_ones words)) :: u32) \<noteq> tombstone_count
                then corrupt ''tombstone count mismatch: header says ''
                else Inr \<lparr>ts_words = words, ts_count = tombstone_count\<rparr>)"

definition needs_tombstone :: "change_kind \<Rightarrow> bool" where
  "needs_tombstone k = (case k of Created \<Rightarrow> False | Modified \<Rightarrow> True | Deleted \<Rightarrow> True | Renamed \<Rightarrow> True)"

definition needs_new_entry :: "change_kind \<Rightarrow> bool" where
  "needs_new_entry k = (case k of Created \<Rightarrow> True | Modified \<Rightarrow> True | Renamed \<Rightarrow> True | Deleted \<Rightarrow> False)"

section \<open>Bits\<close>

text \<open>The file IDs of a bitmap, as positions of set bits.\<close>

definition bitmap_bits :: "u64 list \<Rightarrow> nat set" where
  "bitmap_bits words = {i. i < 64 * length words \<and> bit (words ! (i div 64)) (i mod 64)}"

definition tombstones :: "tombstone_set \<Rightarrow> file_id set" where
  "tombstones ts = {f. unat f \<in> bitmap_bits (ts_words ts)}"

text \<open>The invariant: the count is the number of set bits, as a 32-bit word.\<close>

definition ts_ok :: "tombstone_set \<Rightarrow> bool" where
  "ts_ok ts \<longleftrightarrow> ts_count ts = of_nat (sum_list (map count_ones (ts_words ts)))"

lemma word_and_bit_eq: "word_and_bit f = (unat f div 64, unat f mod 64)"
  by (simp add: word_and_bit_def unat_div unat_mod)

lemma and_mask_eq_0: "(w :: u64) AND 2 ^ n = 0 \<longleftrightarrow> \<not> bit w n"
  by (simp add: bit_iff_and_push_bit_not_eq_0)

lemma bit_or_mask: "n < 64 \<Longrightarrow> bit ((w :: u64) OR 2 ^ n) i \<longleftrightarrow> bit w i \<or> i = n"
  by (auto simp: bit_or_iff bit_exp_iff)

lemma bit_and_not_mask: "n < 64 \<Longrightarrow> bit ((w :: u64) AND NOT (2 ^ n)) i \<longleftrightarrow> bit w i \<and> i \<noteq> n"
  by (auto simp: bit_and_iff bit_not_iff bit_exp_iff dest: bit_imp_le_length)

lemma contains_bits: "ts_contains ts f \<longleftrightarrow> f \<in> tombstones ts"
  by (auto simp: ts_contains_def word_and_bit_eq tombstones_def bitmap_bits_def and_mask_eq_0
      less_mult_imp_div_less div_less_iff_less_mult mult.commute not_le)

lemma count_ones_card: "count_ones w = card {i. bit w i}"
proof -
  have "{i. bit w i} = set (filter (bit w) [0..<64])"
    using bit_imp_le_length [of w] by auto
  then show ?thesis
    by (metis count_ones_def distinct_card distinct_filter distinct_upt)
qed

lemma count_ones_0 [simp]: "count_ones 0 = 0"
  by (simp add: count_ones_card)

lemma finite_bits: "finite {i. bit (w :: u64) i}"
  by (rule finite_subset [of _ "{..<64}"]) (auto dest: bit_imp_le_length)

lemma count_ones_or: 
  assumes "n < 64" and "\<not> bit w n"
  shows "count_ones (w OR 2 ^ n) = Suc (count_ones w)"
proof -
  have "{i. bit (w OR 2 ^ n) i} = insert n {i. bit w i}"
    using assms by (auto simp: bit_or_mask)
  then show ?thesis
    using assms finite_bits by (simp add: count_ones_card)
qed

lemma count_ones_and_not:
  assumes "n < 64" and "bit w n"
  shows "count_ones w = Suc (count_ones (w AND NOT (2 ^ n)))"
proof -
  have "{i. bit w i} = insert n {i. bit (w AND NOT (2 ^ n)) i}"
    using assms by (auto simp: bit_and_not_mask)
  moreover have "finite {i. bit (w AND NOT (2 ^ n)) i}"
    by (rule finite_bits)
  moreover have "n \<notin> {i. bit (w AND NOT (2 ^ n)) i}"
    using assms by (simp add: bit_and_not_mask)
  ultimately show ?thesis
    by (metis card_insert_disjoint count_ones_card)
qed

lemma bitmap_bits_update:
  "i < length words \<Longrightarrow> n \<in> bitmap_bits (words[i := w]) \<longleftrightarrow>
     (if n div 64 = i then bit w (n mod 64) else n \<in> bitmap_bits words)"
  by (auto simp: bitmap_bits_def nth_list_update)

lemma div_lt: "i < 64 * n \<longleftrightarrow> i div 64 < (n :: nat)"
  by (simp add: div_less_iff_less_mult mult.commute)

lemma bitmap_bits_iff:
  "i \<in> bitmap_bits words \<longleftrightarrow> i div 64 < length words \<and> bit (words ! (i div 64)) (i mod 64)"
  by (simp add: bitmap_bits_def div_lt)

lemma nth_zeros: "i < length xs + n \<Longrightarrow> (xs @ replicate n (0 :: u64)) ! i = (if i < length xs then xs ! i else 0)"
  by (simp add: nth_append)

lemma bitmap_bits_zeros: "bitmap_bits (words @ replicate n 0) = bitmap_bits words"
  by (auto simp: bitmap_bits_iff nth_zeros split: if_splits)

lemma bitmap_bits_resize: "length words \<le> n \<Longrightarrow> bitmap_bits (resize n 0 words) = bitmap_bits words"
  by (auto simp: resize_def bitmap_bits_zeros)

lemma length_resize [simp]: "length (resize n x xs) = n"
  by (simp add: resize_def)

lemma count_ones_resize:
  "length words \<le> n \<Longrightarrow> sum_list (map count_ones (resize n 0 words)) = sum_list (map count_ones words)"
  by (simp add: resize_def)

lemma finite_bitmap_bits [simp]: "finite (bitmap_bits words)"
  by (simp add: bitmap_bits_def)

lemma bitmap_bits_snoc:
  "bitmap_bits (words @ [w]) = bitmap_bits words \<union> (+) (64 * length words) ` {i. bit w i}"
proof (intro set_eqI iffI)
  fix n
  assume n: "n \<in> bitmap_bits (words @ [w])"
  show "n \<in> bitmap_bits words \<union> (+) (64 * length words) ` {i. bit w i}"
  proof (cases "n < 64 * length words")
    case True
    with n show ?thesis
      by (simp add: bitmap_bits_def nth_append less_mult_imp_div_less mult.commute)
  next
    case False
    moreover have "n < 64 * length words + 64"
      using n by (simp add: bitmap_bits_def)
    ultimately have d: "n div 64 = length words"
      by (intro div_nat_eqI) simp_all
    then have "n = 64 * length words + n mod 64"
      using mult_div_mod_eq [of 64 n] by simp
    with n d show ?thesis by (force simp: bitmap_bits_def nth_append)
  qed
next
  fix n
  assume "n \<in> bitmap_bits words \<union> (+) (64 * length words) ` {i. bit w i}"
  then show "n \<in> bitmap_bits (words @ [w])"
    using bit_imp_le_length [of w]
    by (auto simp: bitmap_bits_def nth_append less_mult_imp_div_less mult.commute)
qed

lemma card_bitmap_bits: "card (bitmap_bits words) = sum_list (map count_ones words)"
proof (induction words rule: rev_induct)
  case Nil
  then show ?case by (simp add: bitmap_bits_def)
next
  case (snoc w words)
  have "bitmap_bits words \<inter> (+) (64 * length words) ` {i. bit w i} = {}"
    by (auto simp: bitmap_bits_def)
  then have "card (bitmap_bits (words @ [w]))
      = card (bitmap_bits words) + card ((+) (64 * length words) ` {i. bit w i})"
    unfolding bitmap_bits_snoc by (intro card_Un_disjoint) (simp_all add: finite_bits)
  then show ?case
    using snoc by (simp add: card_image count_ones_card)
qed

section \<open>The operations on the set of file IDs\<close>

lemma file_id_bit_eq:
  fixes f g :: file_id
  assumes "unat g div 64 = unat f div 64"
  shows "unat g mod 64 = unat f mod 64 \<longleftrightarrow> g = f"
  using assms by (metis div_mult_mod_eq word_unat_eq_iff)

lemma insert_words:
  obtains words where "length words > unat f div 64" "bitmap_bits words = bitmap_bits (ts_words ts)"
    "sum_list (map count_ones words) = sum_list (map count_ones (ts_words ts))"
    "length words = max (length (ts_words ts)) (Suc (unat f div 64))"
    "ts_insert f ts =
       (if words ! (unat f div 64) AND push_bit (unat f mod 64) 1 = 0
        then \<lparr>ts_words = words[unat f div 64 := words ! (unat f div 64) OR push_bit (unat f mod 64) 1],
              ts_count = ts_count ts + 1\<rparr>
        else \<lparr>ts_words = words, ts_count = ts_count ts\<rparr>)"
proof -
  let ?w = "if unat f div 64 \<ge> length (ts_words ts) then resize (Suc (unat f div 64)) 0 (ts_words ts)
    else ts_words ts"
  show thesis
    by (rule that [of ?w])
       (simp_all add: bitmap_bits_resize count_ones_resize ts_insert_def word_and_bit_eq Let_def max_def)
qed

lemma sum_list_count_update:
  "i < length words \<Longrightarrow> sum_list (map count_ones (words[i := w])) + count_ones (words ! i)
     = sum_list (map count_ones words) + count_ones w"
  by (induction words arbitrary: i) (auto split: nat.split simp: nth_Cons)

lemma tombstones_insert: "tombstones (ts_insert f ts) = insert f (tombstones ts)"
proof (rule insert_words [of f ts])
  fix words
  assume len: "unat f div 64 < length words" and bits: "bitmap_bits words = bitmap_bits (ts_words ts)"
    and ins: "ts_insert f ts =
       (if words ! (unat f div 64) AND push_bit (unat f mod 64) 1 = 0
        then \<lparr>ts_words = words[unat f div 64 := words ! (unat f div 64) OR push_bit (unat f mod 64) 1],
              ts_count = ts_count ts + 1\<rparr>
        else \<lparr>ts_words = words, ts_count = ts_count ts\<rparr>)"
  have bit: "bit (words ! (n div 64)) (n mod 64) \<longleftrightarrow> n \<in> bitmap_bits words"
    if "n div 64 < length words" for n
    using that by (auto simp: bitmap_bits_def)
  have "unat g \<in> bitmap_bits (ts_words (ts_insert f ts)) \<longleftrightarrow> g = f \<or> unat g \<in> bitmap_bits words" for g
  proof (cases "unat g div 64 = unat f div 64")
    case True
    then have "unat g mod 64 = unat f mod 64 \<longleftrightarrow> g = f"
      by (intro file_id_bit_eq) simp
    with True show ?thesis
      using len bit [of "unat g"] bit [of "unat f"] unfolding ins
      by (auto simp: bitmap_bits_update bit_or_mask and_mask_eq_0)
  next
    case False
    then have "g \<noteq> f" by auto
    with False show ?thesis
      using len by (simp add: ins bitmap_bits_update)
  qed
  then show ?thesis
    by (auto simp: tombstones_def bits)
qed

lemma ts_ok_insert: "ts_ok ts \<Longrightarrow> ts_ok (ts_insert f ts)"
proof (rule insert_words [of f ts])
  fix words
  assume ok: "ts_ok ts" and len: "unat f div 64 < length words"
    and ones: "sum_list (map count_ones words) = sum_list (map count_ones (ts_words ts))"
    and ins: "ts_insert f ts =
       (if words ! (unat f div 64) AND push_bit (unat f mod 64) 1 = 0
        then \<lparr>ts_words = words[unat f div 64 := words ! (unat f div 64) OR push_bit (unat f mod 64) 1],
              ts_count = ts_count ts + 1\<rparr>
        else \<lparr>ts_words = words, ts_count = ts_count ts\<rparr>)"
  show ?thesis
  proof (cases "bit (words ! (unat f div 64)) (unat f mod 64)")
    case True
    with ok ones show ?thesis by (simp add: ins ts_ok_def and_mask_eq_0)
  next
    case False
    let ?w = "words ! (unat f div 64) OR 2 ^ (unat f mod 64)"
    have "sum_list (map count_ones (words[unat f div 64 := ?w])) = Suc (sum_list (map count_ones words))"
      using sum_list_count_update [OF len, of ?w] False by (simp add: count_ones_or)
    with ok ones False show ?thesis by (simp add: ins ts_ok_def and_mask_eq_0)
  qed
qed

lemma tombstones_remove: "tombstones (ts_remove f ts) = tombstones ts - {f}"
proof -
  let ?i = "unat f div 64" and ?w = "ts_words ts"
  have bit: "bit (?w ! (n div 64)) (n mod 64) \<longleftrightarrow> n \<in> bitmap_bits ?w" if "n div 64 < length ?w" for n
    using that by (auto simp: bitmap_bits_def)
  have outside: "unat f \<notin> bitmap_bits ?w" if "length ?w \<le> ?i"
    using that by (auto simp: bitmap_bits_def)
  have "unat g \<in> bitmap_bits (ts_words (ts_remove f ts)) \<longleftrightarrow> g \<noteq> f \<and> unat g \<in> bitmap_bits ?w" for g
  proof (cases "?i < length ?w \<and> unat g div 64 = ?i")
    case True
    then have "unat g mod 64 = unat f mod 64 \<longleftrightarrow> g = f"
      by (intro file_id_bit_eq) simp
    with True show ?thesis
      using bit [of "unat g"] bit [of "unat f"]
      by (auto simp: ts_remove_def word_and_bit_eq Let_def bitmap_bits_update bit_and_not_mask
          and_mask_eq_0)
  next
    case False
    with outside show ?thesis
      by (auto simp: ts_remove_def word_and_bit_eq Let_def bitmap_bits_update)
  qed
  then show ?thesis by (auto simp: tombstones_def)
qed

lemma ts_ok_remove:
  assumes "ts_ok ts"
  shows "ts_ok (ts_remove f ts)"
proof -
  let ?i = "unat f div 64" and ?m = "unat f mod 64" and ?w = "ts_words ts"
  show ?thesis
  proof (cases "?i < length ?w \<and> bit (?w ! ?i) ?m")
    case True
    let ?v = "?w ! ?i AND NOT (2 ^ ?m)"
    have "sum_list (map count_ones ?w) = Suc (sum_list (map count_ones (?w[?i := ?v])))"
      using sum_list_count_update [of ?i ?w ?v] True count_ones_and_not [of ?m "?w ! ?i"] by simp
    with True assms show ?thesis
      by (simp add: ts_remove_def word_and_bit_eq Let_def and_mask_eq_0 ts_ok_def)
  next
    case False
    with assms show ?thesis
      by (auto simp: ts_remove_def word_and_bit_eq Let_def and_mask_eq_0)
  qed
qed

lemma tombstones_empty [simp]:
  "tombstones ts_new = {}" "tombstones (ts_with_capacity n) = {}" "tombstones (ts_clear ts) = {}"
  by (auto simp: tombstones_def bitmap_bits_iff ts_new_def ts_with_capacity_def ts_clear_def)

lemma ts_ok_empty [simp]: "ts_ok ts_new" "ts_ok (ts_with_capacity n)" "ts_ok (ts_clear ts)"
  by (simp_all add: ts_ok_def ts_new_def ts_with_capacity_def ts_clear_def comp_def sum_list_replicate)

text \<open>The OR loop of \<open>merge\<close>, word by word.\<close>

lemma merge_loop_length [simp]:
  "length (fold (\<lambda>(i, w) ws. ws[i := ws ! i OR w]) ps ws) = length ws"
  by (induction ps arbitrary: ws) auto

lemma merge_loop_nth:
  "j < length ws \<Longrightarrow> fold (\<lambda>(i, w) ws. ws[i := ws ! i OR w]) (enumerate k os) ws ! j
     = (if k \<le> j \<and> j < k + length os then ws ! j OR os ! (j - k) else ws ! j)"
proof (induction os arbitrary: k ws)
  case (Cons w os)
  then show ?case
    by (auto simp: nth_list_update nth_Cons' Suc_diff_le not_less_eq_eq less_Suc_eq_le le_Suc_eq)
qed auto

lemma merge_loop_bits:
  "length os \<le> length ws \<Longrightarrow>
     n \<in> bitmap_bits (fold (\<lambda>(i, w) ws. ws[i := ws ! i OR w]) (enumerate 0 os) ws)
       \<longleftrightarrow> n \<in> bitmap_bits ws \<or> n \<in> bitmap_bits os"
  by (auto simp: bitmap_bits_iff merge_loop_nth bit_or_iff split: if_splits)

lemma tombstones_merge: "tombstones (ts_merge ts other) = tombstones ts \<union> tombstones other"
proof -
  let ?o = "ts_words other"
  let ?w = "if length ?o > length (ts_words ts) then resize (length ?o) 0 (ts_words ts) else ts_words ts"
  let ?m = "fold (\<lambda>(i, w) ws. ws[i := ws ! i OR w]) (enumerate 0 ?o) ?w"
  have bits: "bitmap_bits ?w = bitmap_bits (ts_words ts)" and len: "length ?o \<le> length ?w"
    by (simp_all add: bitmap_bits_resize)
  note merge_loop_bits [OF len]
  then show ?thesis
    unfolding bits by (auto simp: tombstones_def ts_merge_def Let_def)
qed

lemma ts_ok_merge: "ts_ok (ts_merge ts other)"
  by (simp add: ts_ok_def ts_merge_def Let_def)

section \<open>The iterator\<close>

text \<open>Clearing the lowest set bit.\<close>

lemma bit_and_minus_one_nat:
  "bit n k \<Longrightarrow> (\<And>j. j < k \<Longrightarrow> \<not> bit n j) \<Longrightarrow> bit (n AND (n - 1)) i \<longleftrightarrow> bit n i \<and> i \<noteq> k"
  for n :: nat
proof (induction k arbitrary: n i)
  case 0
  then have "odd n" by (simp add: bit_0)
  then obtain m where "n = 2 * m + 1" by (rule oddE)
  then show ?case
    unfolding bit_and_iff by (cases i) (simp_all add: bit_0 bit_Suc)
next
  case (Suc k)
  from Suc.prems(2) [of 0] have "even n" by (simp add: bit_0)
  then obtain m where n: "n = 2 * m" by (rule evenE)
  have "bit m k" and "\<And>j. j < k \<Longrightarrow> \<not> bit m j"
    using Suc.prems(1) Suc.prems(2) [of "Suc _"] by (simp_all add: n bit_Suc)
  note IH = Suc.IH [OF this]
  have "m > 0"
    using \<open>bit m k\<close> by (cases m) simp_all
  then have "(n - 1) div 2 = m - 1" and "odd (n - 1)"
    by (simp_all add: n)
  then show ?case
    using IH unfolding bit_and_iff by (cases i) (simp_all add: n bit_0 bit_Suc)
qed

lemma bit_and_minus_one:
  fixes w :: u64
  assumes "bit w k" and "\<And>j. j < k \<Longrightarrow> \<not> bit w j"
  shows "bit (w AND (w - 1)) i \<longleftrightarrow> bit w i \<and> i \<noteq> k"
proof -
  have nat: "bit v j \<longleftrightarrow> bit (unat v) j" for v :: u64 and j
    by (simp add: bit_unsigned_iff)
  have "w \<noteq> 0" using assms(1) by auto
  then have "unat (w - 1) = unat w - 1" by (rule unat_minus_one)
  then show ?thesis
    using bit_and_minus_one_nat [of "unat w" k i] assms unfolding bit_and_iff by (simp add: nat)
qed

abbreviation set_bits :: "u64 \<Rightarrow> nat list" where
  "set_bits w \<equiv> filter (bit w) [0..<64]"

lemma set_bits_step:
  assumes "w \<noteq> 0"
  shows "set_bits w = trailing_zeros w # set_bits (w AND (w - 1))"
proof -
  let ?t = "takeWhile (\<lambda>i. \<not> bit w i) [0..<64]"
  obtain i where "bit w i" using assms by (auto simp: bit_eq_iff)
  moreover from this have "i < 64" using bit_imp_le_length [of w i] by simp
  ultimately have "dropWhile (\<lambda>i. \<not> bit w i) [0..<64] \<noteq> []"
    by (auto simp: dropWhile_eq_Nil_conv)
  then obtain k ks where drop: "dropWhile (\<lambda>i. \<not> bit w i) [0..<64] = k # ks"
    by (meson neq_Nil_conv)
  then have split: "[0..<64] = ?t @ k # ks"
    by (metis takeWhile_dropWhile_id)
  have k: "k = trailing_zeros w"
    using arg_cong [OF split, of "\<lambda>xs. xs ! length ?t"] arg_cong [OF split, of length]
    by (simp add: trailing_zeros_def)
  have bitk: "bit w k"
    using hd_dropWhile [of "\<lambda>i. \<not> bit w i" "[0..<64]"] drop by simp
  have none: "\<not> bit w j" if "j < k" for j
    using nth_length_takeWhile that k trailing_zeros_def
    by (metis (no_types, lifting) nth_mem nth_upt length_upt add_0 diff_zero length_takeWhile_le
        order_less_le_trans set_takeWhileD takeWhile_nth)
  have dist: "distinct (?t @ k # ks)"
    unfolding split [symmetric] by simp
  have "filter (bit w) ?t = []" and "filter (bit (w AND (w - 1))) ?t = []"
    by (auto simp: filter_empty_conv bit_and_iff dest: set_takeWhileD)
  moreover have "filter (bit (w AND (w - 1))) ks = filter (bit w) ks"
    using dist by (intro filter_cong) (auto simp: bit_and_minus_one [OF bitk none])
  moreover have "\<not> bit (w AND (w - 1)) k"
    using bit_and_minus_one [OF bitk none] by blast
  ultimately show ?thesis
    using bitk k by (subst split, subst (2) split) simp
qed

text \<open>What an iterator has still to yield.\<close>

definition word_ids :: "nat \<Rightarrow> u64 \<Rightarrow> nat list" where
  "word_ids idx w = map (\<lambda>i. 64 * idx + i) (set_bits w)"

definition iter_rest :: "tombstone_iter \<Rightarrow> nat list" where
  "iter_rest it = word_ids (it_word_idx it) (it_current_word it)
     @ concat (map (\<lambda>i. word_ids i (it_words it ! i)) [Suc (it_word_idx it)..<length (it_words it)])"

lemma word_ids_0 [simp]: "word_ids idx 0 = []"
  by (simp add: word_ids_def)

lemma iter_next_rest:
  "case iter_next it of
     (None, _) \<Rightarrow> iter_rest it = []
   | (Some f, it') \<Rightarrow> \<exists>n. iter_rest it = n # iter_rest it' \<and> f = of_nat n"
proof (induction it rule: iter_next.induct)
  case (1 it)
  show ?case
  proof (cases "it_current_word it = 0")
    case False
    then show ?thesis
      using set_bits_step [OF False]
      by (simp add: iter_next.simps [of it] iter_rest_def word_ids_def Let_def mult.commute)
  next
    case True
    let ?i = "it_word_idx it + 1"
    show ?thesis
    proof (cases "?i \<ge> length (it_words it)")
      case len: True
      with True show ?thesis
        by (simp add: iter_next.simps [of it] iter_rest_def Let_def)
    next
      case False
      let ?it = "it\<lparr>it_word_idx := ?i, it_current_word := it_words it ! ?i\<rparr>"
      have "iter_rest it = iter_rest ?it"
        using True False by (simp add: iter_rest_def upt_conv_Cons)
      moreover have "iter_next it = iter_next ?it"
        using True False by (simp add: iter_next.simps [of it] Let_def)
      moreover have "case iter_next ?it of (None, _) \<Rightarrow> iter_rest ?it = []
          | (Some f, it') \<Rightarrow> \<exists>n. iter_rest ?it = n # iter_rest it' \<and> f = of_nat n"
        by (rule "1.IH" [OF _ refl]) (use True False in simp_all)
      ultimately show ?thesis by (simp only:)
    qed
  qed
qed

lemma iter_next_shorter:
  "iter_next it = (Some f, it') \<Longrightarrow> length (iter_rest it') < length (iter_rest it)"
  using iter_next_rest [of it] by auto

text \<open>All the IDs an iterator yields.\<close>

function iter_collect :: "tombstone_iter \<Rightarrow> file_id list" where
  "iter_collect it =
     (case iter_next it of (None, _) \<Rightarrow> [] | (Some f, it') \<Rightarrow> f # iter_collect it')"
  by pat_completeness auto
termination
  by (relation "measure (\<lambda>it. length (iter_rest it))") (auto dest: iter_next_shorter [OF sym])

declare iter_collect.simps [simp del]

lemma iter_collect_rest: "iter_collect it = map of_nat (iter_rest it)"
proof (induction it rule: iter_collect.induct)
  case (1 it)
  then show ?case
    using iter_next_rest [of it]
    by (auto simp: iter_collect.simps [of it] split: prod.splits option.splits)
qed

lemma word_ids_upt: "filter (\<lambda>n. n \<in> bitmap_bits words) [0..<64 * length words]
    = concat (map (\<lambda>i. word_ids i (words ! i)) [0..<length words])"
proof (induction words rule: rev_induct)
  case Nil
  then show ?case by simp
next
  case (snoc w words)
  let ?l = "length words"
  have upt: "[0..<64 * length (words @ [w])] = [0..<64 * ?l] @ map (\<lambda>i. 64 * ?l + i) [0..<64]"
  proof -
    have "[0..<64 * ?l + 64] = [0..<64 * ?l] @ [64 * ?l..<64 * ?l + 64]"
      using upt_add_eq_append [of 0 "64 * ?l" 64] by simp
    also have "[64 * ?l..<64 * ?l + 64] = map (\<lambda>i. 64 * ?l + i) [0..<64]"
      using map_add_upt [of "64 * ?l" 64] by (simp add: add.commute)
    finally show ?thesis by (simp add: algebra_simps)
  qed
  have "filter (\<lambda>n. n \<in> bitmap_bits (words @ [w])) [0..<64 * ?l]
      = filter (\<lambda>n. n \<in> bitmap_bits words) [0..<64 * ?l]"
    by (intro filter_cong) (auto simp: bitmap_bits_iff div_lt nth_append)
  moreover have "filter (\<lambda>n. n \<in> bitmap_bits (words @ [w])) (map (\<lambda>i. 64 * ?l + i) [0..<64])
      = word_ids ?l w"
    unfolding word_ids_def filter_map
    by (intro arg_cong [of _ _ "map _"] filter_cong) (auto simp: bitmap_bits_iff nth_append)
  moreover have "concat (map (\<lambda>i. word_ids i ((words @ [w]) ! i)) [0..<?l])
      = concat (map (\<lambda>i. word_ids i (words ! i)) [0..<?l])"
    by (intro arg_cong [of _ _ concat] map_cong) (simp_all add: nth_append)
  ultimately show ?case
    unfolding upt filter_append using snoc by simp
qed

lemma iter_rest_start:
  "iter_rest (ts_iter ts) = filter (\<lambda>n. n \<in> bitmap_bits (ts_words ts)) [0..<64 * length (ts_words ts)]"
  unfolding word_ids_upt
  by (cases "ts_words ts") (simp_all add: iter_rest_def ts_iter_def upt_conv_Cons del: upt_Suc)

text \<open>The bound on the bitmap: every 32-bit file ID has a bit, and no bit lies beyond them.\<close>

definition bitmap_bounded :: "tombstone_set \<Rightarrow> bool" where
  "bitmap_bounded ts \<longleftrightarrow> length (ts_words ts) \<le> 67108864"

lemma unat_file_id_bit: "n \<in> bitmap_bits (ts_words ts) \<Longrightarrow> bitmap_bounded ts \<Longrightarrow> n \<le> u32_max"
  by (auto simp: bitmap_bounded_def bitmap_bits_def)

lemma tombstones_image:
  assumes "bitmap_bounded ts"
  shows "tombstones ts = of_nat ` bitmap_bits (ts_words ts)"
proof (intro set_eqI iffI)
  fix f
  assume "f \<in> tombstones ts"
  then have "unat f \<in> bitmap_bits (ts_words ts)" and "f = of_nat (unat f)"
    by (simp_all add: tombstones_def)
  then show "f \<in> of_nat ` bitmap_bits (ts_words ts)" by blast
next
  fix f :: file_id
  assume "f \<in> of_nat ` bitmap_bits (ts_words ts)"
  then show "f \<in> tombstones ts"
    using unat_file_id_bit assms by (auto simp: tombstones_def)
qed

lemma inj_on_of_nat_u32: "(\<And>n. n \<in> A \<Longrightarrow> n \<le> u32_max) \<Longrightarrow> inj_on (of_nat :: nat \<Rightarrow> u32) A"
  by (rule inj_onI) (metis unat_of_nat_u32)

lemma card_tombstones:
  assumes "bitmap_bounded ts"
  shows "card (tombstones ts) = sum_list (map count_ones (ts_words ts))"
  using unat_file_id_bit [OF _ assms]
  by (simp add: tombstones_image [OF assms] card_image inj_on_of_nat_u32 card_bitmap_bits)

lemma iter_collect_sorted:
  assumes "bitmap_bounded ts"
  shows "sorted_wrt (<) (iter_collect (ts_iter ts))"
proof -
  have "sorted_wrt (\<lambda>m n. (of_nat m :: u32) < of_nat n)
      (filter (\<lambda>n. n \<in> bitmap_bits (ts_words ts)) [0..<64 * length (ts_words ts)])"
  proof (rule sorted_wrt_mono_rel [of _ "(<)"])
    fix m n
    assume "m \<in> set (filter (\<lambda>n. n \<in> bitmap_bits (ts_words ts)) [0..<64 * length (ts_words ts)])"
      and "n \<in> set (filter (\<lambda>n. n \<in> bitmap_bits (ts_words ts)) [0..<64 * length (ts_words ts)])"
      and "m < n"
    then show "(of_nat m :: u32) < of_nat n"
      using unat_file_id_bit [OF _ assms] by (simp add: word_less_nat_alt)
  qed (simp add: sorted_wrt_filter)
  then show ?thesis
    by (simp add: iter_collect_rest iter_rest_start sorted_wrt_map)
qed

lemma set_iter_collect:
  assumes "bitmap_bounded ts"
  shows "set (iter_collect (ts_iter ts)) = tombstones ts"
  unfolding iter_collect_rest iter_rest_start tombstones_image [OF assms]
  by (auto simp: bitmap_bits_def)

section \<open>The file format\<close>

lemma length_write_words: "length (concat (map u64_le ws)) = 8 * length ws"
  by (induction ws) simp_all

lemma write_words_slice:
  "i < length ws \<Longrightarrow> length hdr = 14 \<Longrightarrow>
     slice (14 + i * 8) (22 + i * 8) (hdr @ concat (map u64_le ws)) = u64_le (ws ! i)"
  using slice_concat [of i "map u64_le ws" "14 + i * 8" hdr "22 + i * 8" "[]"]
    offset_of_uniform [of "map u64_le ws" 8]
  by simp

lemma ts_read_write:
  assumes "ts_ok ts" and "length (ts_words ts) < 67108864"
  shows "ts_read_from (ts_write_to ts) = Inr ts"
proof -
  let ?ws = "ts_words ts"
  define hdr where "hdr = u32_le TOMB_MAGIC @ u16_le TOMB_VERSION @ u32_le (ts_capacity ts) @ u32_le (ts_count ts)"
  have data: "ts_write_to ts = hdr @ concat (map u64_le ?ws)"
    by (simp add: ts_write_to_def hdr_def)
  have len: "length hdr = 14" by (simp add: hdr_def)
  have cap: "unat (ts_capacity ts) = 64 * length ?ws"
  proof -
    have "ts_capacity ts = of_nat (64 * length ?ws)"
      by (simp add: ts_capacity_def mult.commute)
    then show ?thesis
      using assms(2) by (simp del: of_nat_mult)
  qed
  then have words: "word_count (ts_capacity ts) = length ?ws"
    by (auto simp: word_count_def unat_eq_0 [symmetric])
  have fields: "slice 0 4 (ts_write_to ts) = u32_le TOMB_MAGIC" "slice 4 6 (ts_write_to ts) = u16_le TOMB_VERSION"
    "slice 6 10 (ts_write_to ts) = u32_le (ts_capacity ts)"
    "slice 10 14 (ts_write_to ts) = u32_le (ts_count ts)"
    by (simp_all add: ts_write_to_def slice_def)
  have body: "map (\<lambda>i. le_u64 (slice (14 + i * 8) (22 + i * 8) (ts_write_to ts))) [0..<length ?ws] = ?ws"
    by (rule nth_equalityI) (simp_all add: data write_words_slice len)
  show ?thesis
    using assms(1) fields words body
    by (simp add: ts_read_from_def TOMB_HEADER_SIZE_def data len length_write_words Let_def ts_ok_def
        add.commute)
qed

lemma word_count_le: "word_count n \<le> 67108864"
proof -
  have "unat n \<le> u32_max" by simp
  then have "(unat n + 63) div 64 \<le> (u32_max + 63) div 64"
    by (intro div_le_mono) simp
  then show ?thesis by (simp add: word_count_def)
qed

lemma ts_read_from_ok:
  "ts_read_from data = Inr ts \<Longrightarrow> ts_ok ts \<and> bitmap_bounded ts"
  using word_count_le
  by (auto simp: ts_read_from_def Let_def ts_ok_def bitmap_bounded_def split: if_splits)

text \<open>
  The capacity of a bitmap of the largest possible size is \<open>2 ^ 32\<close>, which wraps to zero: the
  file then declares an empty bitmap.
\<close>

lemma ts_read_write_full:
  assumes "length (ts_words ts) = 67108864" and "ts_count ts \<noteq> 0"
  shows "ts_read_from (ts_write_to ts) = corrupt ''tombstone count mismatch: header says ''"
proof -
  have cap: "ts_capacity ts = 0"
    by (simp add: ts_capacity_def assms(1))
  have fields: "slice 0 4 (ts_write_to ts) = u32_le TOMB_MAGIC" "slice 4 6 (ts_write_to ts) = u16_le TOMB_VERSION"
    "slice 6 10 (ts_write_to ts) = u32_le (ts_capacity ts)"
    "slice 10 14 (ts_write_to ts) = u32_le (ts_count ts)"
    by (simp_all add: ts_write_to_def slice_def)
  have "14 \<le> length (ts_write_to ts)"
    by (simp add: ts_write_to_def)
  then show ?thesis
    using assms(2) by (simp add: ts_read_from_def TOMB_HEADER_SIZE_def fields cap word_count_def Let_def)
qed

section \<open>Tombstone sets as file-ID sets\<close>

text \<open>What the segments and the search need of a set of file IDs.\<close>

locale file_id_set =
  fixes contains :: "'s \<Rightarrow> file_id \<Rightarrow> bool"
    and insert_id :: "file_id \<Rightarrow> 's \<Rightarrow> 's"
    and remove_id :: "file_id \<Rightarrow> 's \<Rightarrow> 's"
    and empty_set :: 's
  assumes contains_insert: "contains (insert_id f s) g \<longleftrightarrow> g = f \<or> contains s g"
    and contains_remove: "contains (remove_id f s) g \<longleftrightarrow> g \<noteq> f \<and> contains s g"
    and contains_empty: "\<not> contains empty_set g"
begin

lemma contains_fold: "contains (fold insert_id fs s) g \<longleftrightarrow> g \<in> set fs \<or> contains s g"
  by (induction fs arbitrary: s) (auto simp: contains_insert)

lemma contains_collect: "contains (fold insert_id fs empty_set) g \<longleftrightarrow> g \<in> set fs"
  by (simp add: contains_fold contains_empty)

lemma live_ids:
  "filter (\<lambda>f. \<not> contains (fold insert_id dead s) f) ids
     = filter (\<lambda>f. f \<notin> set dead) (filter (\<lambda>f. \<not> contains s f) ids)"
  by (induction ids) (auto simp: contains_fold)

end

interpretation tomb: file_id_set ts_contains ts_insert ts_remove ts_new
  by unfold_locales (auto simp: contains_bits tombstones_insert tombstones_remove)

text \<open>The sets the code can build: constructors, updates, and files read back.\<close>

inductive ts_reachable :: "tombstone_set \<Rightarrow> bool" where
  reach_new: "ts_reachable ts_new"
| reach_capacity: "ts_reachable (ts_with_capacity n)"
| reach_insert: "ts_reachable ts \<Longrightarrow> ts_reachable (ts_insert f ts)"
| reach_remove: "ts_reachable ts \<Longrightarrow> ts_reachable (ts_remove f ts)"
| reach_clear: "ts_reachable ts \<Longrightarrow> ts_reachable (ts_clear ts)"
| reach_merge: "ts_reachable ts \<Longrightarrow> ts_reachable other \<Longrightarrow> ts_reachable (ts_merge ts other)"
| reach_read: "ts_read_from data = Inr ts \<Longrightarrow> ts_reachable ts"

lemma bitmap_bounded_insert: "bitmap_bounded ts \<Longrightarrow> bitmap_bounded (ts_insert f ts)"
proof (rule insert_words [of f ts])
  fix words
  assume bounded: "bitmap_bounded ts"
    and len: "length words = max (length (ts_words ts)) (Suc (unat f div 64))"
    and ins: "ts_insert f ts =
       (if words ! (unat f div 64) AND push_bit (unat f mod 64) 1 = 0
        then \<lparr>ts_words = words[unat f div 64 := words ! (unat f div 64) OR push_bit (unat f mod 64) 1],
              ts_count = ts_count ts + 1\<rparr>
        else \<lparr>ts_words = words, ts_count = ts_count ts\<rparr>)"
  have "unat f < 67108864 * 64"
    using unsigned_less [where 'a = nat, of f] by simp
  then have "unat f div 64 < 67108864"
    by (rule less_mult_imp_div_less)
  with bounded show "bitmap_bounded (ts_insert f ts)"
    by (simp add: ins bitmap_bounded_def len)
qed

lemma bitmap_bounded_simple:
  "bitmap_bounded ts_new" "bitmap_bounded (ts_clear ts) \<longleftrightarrow> bitmap_bounded ts"
  "bitmap_bounded ts \<Longrightarrow> bitmap_bounded (ts_remove f ts)"
  by (simp_all add: bitmap_bounded_def ts_new_def ts_clear_def ts_remove_def Let_def split: prod.split)

lemma ts_reachable_ok: "ts_reachable ts \<Longrightarrow> ts_ok ts \<and> bitmap_bounded ts"
proof (induction rule: ts_reachable.induct)
  case (reach_capacity n)
  then show ?case
    using word_count_le [of n] by (simp add: bitmap_bounded_def, simp add: ts_with_capacity_def)
next
  case (reach_merge ts other)
  then show ?case
    by (intro conjI ts_ok_merge) (simp add: bitmap_bounded_def ts_merge_def Let_def)
qed (auto simp: ts_ok_insert ts_ok_remove bitmap_bounded_insert bitmap_bounded_simple
    dest: ts_read_from_ok)

section \<open>Properties of the tombstone set\<close>

text \<open>
  C31. The bitmap implements a set of file IDs: membership after each update is membership in the
  updated set, for every file ID and every state of the bitmap, beyond its current size included.
\<close>

theorem tombstone_set_operations:
  "(ts_contains (ts_insert f ts) g \<longleftrightarrow> g = f \<or> ts_contains ts g) \<and>
   (ts_contains (ts_remove f ts) g \<longleftrightarrow> g \<noteq> f \<and> ts_contains ts g) \<and>
   (ts_contains (ts_merge ts other) g \<longleftrightarrow> ts_contains ts g \<or> ts_contains other g) \<and>
   \<not> ts_contains (ts_clear ts) g \<and> \<not> ts_contains ts_new g \<and> \<not> ts_contains (ts_with_capacity n) g"
  by (auto simp: contains_bits tombstones_insert tombstones_remove tombstones_merge)

text \<open>
  C30. In every state the code can build, by any sequence of updates, merges and reads of stored
  files, the cached count is the number of file IDs in the set, and the iterator yields exactly
  those IDs, each once and in ascending order.
\<close>

theorem tombstone_count_and_iter:
  assumes "ts_reachable ts"
  shows "ts_len ts = of_nat (card {f. ts_contains ts f}) \<and>
    sorted_wrt (<) (iter_collect (ts_iter ts)) \<and>
    set (iter_collect (ts_iter ts)) = {f. ts_contains ts f}"
proof -
  have ok: "ts_ok ts" "bitmap_bounded ts"
    using ts_reachable_ok [OF assms] by simp_all
  have set: "{f. ts_contains ts f} = tombstones ts"
    by (simp add: contains_bits)
  show ?thesis
    unfolding set using ok
    by (simp add: ts_len_def ts_ok_def card_tombstones iter_collect_sorted set_iter_collect)
qed

theorem tombstone_count_and_iter_witness:
  "ts_reachable (ts_remove 70 (ts_insert 5 (ts_insert 70 (ts_insert 3 ts_new)))) \<and>
   set (iter_collect (ts_iter (ts_remove 70 (ts_insert 5 (ts_insert 70 (ts_insert 3 ts_new)))))) = {3, 5}"
proof -
  let ?ts = "ts_remove 70 (ts_insert 5 (ts_insert 70 (ts_insert 3 ts_new)))"
  have r: "ts_reachable ?ts"
    by (intro ts_reachable.intros)
  from tombstone_count_and_iter [OF r] have "set (iter_collect (ts_iter ?ts)) = {f. ts_contains ?ts f}"
    by blast
  also have "\<dots> = {3, 5}"
    by (auto simp: tomb.contains_insert tomb.contains_remove tomb.contains_empty)
  finally show ?thesis using r by blast
qed

text \<open>
  The file format round-trips: reading back what \<open>write_to\<close> wrote gives the same bitmap and
  count, for every reachable set whose bitmap is not of the maximal size (the largest 64 file IDs
  of the 32-bit range are unused).
\<close>

theorem tombstone_roundtrip:
  assumes "ts_reachable ts" and "length (ts_words ts) < 67108864"
  shows "ts_read_from (ts_write_to ts) = Inr ts"
  using ts_read_write ts_reachable_ok assms by blast

theorem tombstone_roundtrip_witness:
  "ts_read_from (ts_write_to (ts_insert 70 ts_new)) = Inr (ts_insert 70 ts_new)"
proof (rule tombstone_roundtrip)
  show "ts_reachable (ts_insert 70 ts_new)"
    by (intro ts_reachable.intros)
  show "length (ts_words (ts_insert 70 ts_new)) < 67108864"
    by (simp add: ts_insert_def ts_new_def word_and_bit_def resize_def Let_def)
qed

text \<open>
  For the largest file ID the format does not round-trip: the capacity written to the header
  is \<open>2 ^ 32\<close> as a 32-bit word, hence zero, and the reader rejects the file it finds as corrupt.
\<close>

theorem tombstone_capacity_wraps:
  "ts_capacity (ts_insert 0xFFFFFFFF ts_new) = 0 \<and>
   ts_read_from (ts_write_to (ts_insert 0xFFFFFFFF ts_new))
     = corrupt ''tombstone count mismatch: header says ''"
proof -
  have ins: "length (ts_words (ts_insert 0xFFFFFFFF ts_new)) = 67108864"
    "ts_count (ts_insert 0xFFFFFFFF ts_new) = 1"
    by (simp_all add: ts_insert_def ts_new_def word_and_bit_eq resize_def Let_def and_mask_eq_0
        nth_zeros [of _ "[]", simplified] del: replicate_Suc)
  then show ?thesis
    by (simp add: ts_read_write_full ts_capacity_def)
qed

end
