(* ===== verification/Decimal.thy ===== *)
theory Decimal
  imports Core_Types
begin

text \<open>
  Decimal numerals of the standard library: \<open>Display\<close> of an unsigned integer, the zero-padded form
  \<open>{:04}\<close>, and \<open>str::parse::<u32>\<close>. The lemmas show that parsing inverts printing, and that
  zero-padded numerals of one length compare as their numbers do.
\<close>

function display_nat :: "nat \<Rightarrow> text_utf8" where
  "display_nat n = (if n < 10 then [byte_of (48 + n)] else display_nat (n div 10) @ [byte_of (48 + n mod 10)])"
  by pat_completeness auto
termination by (relation "measure id") auto

declare display_nat.simps [simp del]

definition display_padded :: "nat \<Rightarrow> nat \<Rightarrow> text_utf8" where
  "display_padded width n =
     (let ds = display_nat n in replicate (width - length ds) (CHR ''0'') @ ds)"

definition is_digit :: "u8 \<Rightarrow> bool" where
  "is_digit b \<longleftrightarrow> 48 \<le> byte_val b \<and> byte_val b \<le> 57"

definition digits_value :: "bytes \<Rightarrow> nat" where
  "digits_value ds = foldl (\<lambda>n d. n * 10 + (byte_val d - 48)) 0 ds"

text \<open>A leading plus sign is accepted; no digits, another character or an overflow is an error.\<close>

definition parse_u32 :: "text_utf8 \<Rightarrow> u32 option" where
  "parse_u32 s =
     (let ds = (case s of [] \<Rightarrow> [] | b # rest \<Rightarrow> if b = CHR ''+'' then rest else s)
      in if ds \<noteq> [] \<and> list_all is_digit ds then try_u32 (digits_value ds) else None)"

section \<open>Round trip\<close>

lemma digits_value_from: "foldl (\<lambda>n d. n * 10 + (byte_val d - 48)) k ds = k * 10 ^ length ds + digits_value ds"
proof (induction ds arbitrary: k rule: rev_induct)
  case Nil
  then show ?case by (simp add: digits_value_def)
next
  case (snoc d ds)
  have "foldl (\<lambda>n d. n * 10 + (byte_val d - 48)) k (ds @ [d])
      = (k * 10 ^ length ds + digits_value ds) * 10 + (byte_val d - 48)"
    unfolding foldl_append by (simp only: snoc foldl.simps)
  then show ?case
    by (simp add: digits_value_def distrib_right)
qed

lemma digits_value_simps [simp]:
  "digits_value [] = 0" "digits_value (ds @ [d]) = digits_value ds * 10 + (byte_val d - 48)"
  by (simp_all add: digits_value_def)

lemma digits_value_Cons [simp]:
  "digits_value (d # ds) = (byte_val d - 48) * 10 ^ length ds + digits_value ds"
  using digits_value_from [of "byte_val d - 48" ds] by (simp add: digits_value_def)

lemma byte_of_digit: "k < 10 \<Longrightarrow> byte_val (byte_of (48 + k)) = 48 + k"
  by (simp add: of_char_mod_256)

lemma display_nat_facts:
  "list_all is_digit (display_nat n) \<and> display_nat n \<noteq> [] \<and> digits_value (display_nat n) = n"
proof (induction n rule: display_nat.induct)
  case (1 n)
  show ?case
  proof (cases "n < 10")
    case True
    then show ?thesis
      by (simp add: display_nat.simps [of n] is_digit_def byte_of_digit)
  next
    case False
    have "n mod 10 < 10" by simp
    with 1 False show ?thesis
      by (simp add: display_nat.simps [of n] is_digit_def byte_of_digit)
  qed
qed

lemma display_padded_facts:
  "list_all is_digit (display_padded w n)" "display_padded w n \<noteq> []" "digits_value (display_padded w n) = n"
proof -
  have zeros: "digits_value (replicate k (CHR ''0'') @ ds) = digits_value ds" for k ds
    by (induction k) simp_all
  show "digits_value (display_padded w n) = n"
    by (simp add: display_padded_def Let_def zeros display_nat_facts)
  show "list_all is_digit (display_padded w n)"
    using display_nat_facts [of n] by (auto simp: display_padded_def Let_def is_digit_def list_all_iff)
  show "display_padded w n \<noteq> []"
    using display_nat_facts [of n] by (simp add: display_padded_def Let_def)
qed

lemma parse_display_padded: "parse_u32 (display_padded w (unat n)) = Some n"
proof -
  note facts = display_padded_facts [of w "unat n"]
  obtain b rest where ds: "display_padded w (unat n) = b # rest"
    using facts(2) by (cases "display_padded w (unat n)") auto
  with facts(1) have "b \<noteq> CHR ''+''"
    by (auto simp: is_digit_def)
  with ds have "(case display_padded w (unat n) of [] \<Rightarrow> [] | b # rest \<Rightarrow> if b = CHR ''+'' then rest else display_padded w (unat n))
      = display_padded w (unat n)"
    by simp
  with facts show ?thesis
    by (simp add: parse_u32_def Let_def)
qed

lemma display_padded_inject: "display_padded w n = display_padded w m \<longleftrightarrow> n = m"
  by (metis display_padded_facts(3))

section \<open>Order\<close>

lemma digits_value_less: "list_all is_digit ds \<Longrightarrow> digits_value ds < 10 ^ length ds"
proof (induction ds rule: rev_induct)
  case Nil
  then show ?case by simp
next
  case (snoc d ds)
  then have "digits_value ds < 10 ^ length ds" and "byte_val d - 48 < 10"
    by (auto simp: is_digit_def)
  then have "digits_value ds * 10 + (byte_val d - 48) < 10 ^ length ds * 10"
    by linarith
  then show ?case by (simp add: mult.commute)
qed

lemma digits_less_iff:
  "length xs = length ys \<Longrightarrow> list_all is_digit xs \<Longrightarrow> list_all is_digit ys \<Longrightarrow>
     xs < ys \<longleftrightarrow> digits_value xs < digits_value ys"
proof (induction xs ys rule: list_induct2)
  case Nil
  then show ?case by simp
next
  case (Cons x xs y ys)
  let ?p = "10 ^ length ys :: nat"
  have lt: "digits_value xs < ?p" "digits_value ys < ?p"
    using Cons.prems digits_value_less [of xs] digits_value_less [of ys] Cons.hyps by simp_all
  have digits: "48 \<le> byte_val x" "48 \<le> byte_val y"
    using Cons.prems by (simp_all add: is_digit_def)
  have step: "a * ?p + u < b * ?p + v" if "a < b" "u < ?p" for a b u v :: nat
  proof -
    have "a * ?p + u < Suc a * ?p" using that by simp
    also have "\<dots> \<le> b * ?p" using that by (intro mult_le_mono1) simp
    finally show ?thesis by simp
  qed
  show ?case
  proof (cases "byte_val x" "byte_val y" rule: linorder_cases)
    case less
    then have "byte_val x - 48 < byte_val y - 48"
      using digits by (simp add: diff_less_mono)
    with less show ?thesis
      using step [of "byte_val x - 48" "byte_val y - 48"] digits lt Cons.hyps by (simp add: less_char_def)
  next
    case equal
    then have "x = y" by simp
    with Cons show ?thesis by simp
  next
    case greater
    then have "byte_val y - 48 < byte_val x - 48"
      using digits by (simp add: diff_less_mono)
    with greater show ?thesis
      using step [of "byte_val y - 48" "byte_val x - 48" "digits_value ys" "digits_value xs"] digits lt Cons.hyps
      by (auto simp: less_char_def)
  qed
qed

lemma length_display_nat: "n < 10 ^ k \<Longrightarrow> 0 < k \<Longrightarrow> length (display_nat n) \<le> k"
proof (induction n arbitrary: k rule: display_nat.induct)
  case (1 n)
  show ?case
  proof (cases "n < 10")
    case True
    with 1 show ?thesis by (simp add: display_nat.simps [of n])
  next
    case False
    with 1 obtain k' where k: "k = Suc k'" "0 < k'"
      by (cases k; cases "k - 1") auto
    with 1(2) have "n div 10 < 10 ^ k'" by (simp add: less_mult_imp_div_less mult.commute)
    with 1(1) [OF False] k show ?thesis
      using False by (simp add: display_nat.simps [of n])
  qed
qed

lemma length_display_padded: "n < 10 ^ w \<Longrightarrow> 0 < w \<Longrightarrow> length (display_padded w n) = w"
  using length_display_nat [of n w] by (simp add: display_padded_def Let_def)

lemma display_padded_less:
  assumes "n < 10 ^ w" and "m < 10 ^ w" and "0 < w"
  shows "display_padded w n < display_padded w m \<longleftrightarrow> n < m"
  using digits_less_iff [of "display_padded w n" "display_padded w m"] assms
  by (simp add: length_display_padded display_padded_facts)

end
