(* ===== verification/Segment.thy ===== *)
theory Segment
  imports Content_Store Metadata Intersection Tombstone Decimal
begin

text \<open>
  Segments (\<open>ferret-core/src/segment.rs\<close>): building one from input files (hashing, language, line
  count and compression per file, then posting lists, metadata and stores in order of the files),
  the copy-through build of compaction, opening a segment and its accessors with the cached tombstone
  set. A directory is the contents of its files. Parameters stand for blake3, zstd, the varint
  codec and the tree-sitter highlighter. The model is that of a build without the \<open>symbols\<close> feature;
  the symbol index is in \<open>Symbol_Index\<close>. The lemmas show that an opened segment gives back every file it was built from.
\<close>

section \<open>Input and output\<close>

record input_file =
  in_path :: text_utf8
  in_content :: bytes
  in_mtime :: u64

record compact_input_file =
  cf_path :: text_utf8
  cf_raw_content :: bytes
  cf_compressed :: bytes
  cf_content_hash :: bytes
  cf_language :: language
  cf_size_bytes :: u32
  cf_line_count :: u32
  cf_mtime :: u64

text \<open>The third-party parts of a build.\<close>

record build_env =
  be_hash :: "bytes \<Rightarrow> bytes"
  be_zstd :: zstd
  be_highlights :: "bytes \<Rightarrow> language \<Rightarrow> token list list option"
  be_write_varint :: varint_writer

text \<open>The files of a segment directory; the last two need not exist.\<close>

record segment_files =
  sf_trigrams :: bytes
  sf_meta :: bytes
  sf_paths :: bytes
  sf_content :: bytes
  sf_highlights :: "bytes option"
  sf_tombstones :: "bytes option"

section \<open>Building\<close>

record processed_file =
  pf_content_hash :: bytes
  pf_language :: language
  pf_line_count :: u32
  pf_compressed :: bytes
  pf_highlight_compressed :: "(bytes \<times> u32) option"

text \<open>The parallel phase, one file; \<open>expect\<close> panics when compression fails.\<close>

definition process_file :: "build_env \<Rightarrow> input_file \<Rightarrow> processed_file result" where
  "process_file env inp =
     (let content_hash = take 16 (be_hash env (in_content inp));
          language = language_from_path (in_path inp);
          line_count = of_nat (length (filter (\<lambda>b. b = CHR 0x0A) (in_content inp)))
      in obind (of_option Panic (z_compress (be_zstd env) (in_content inp))) (\<lambda>compressed.
         obind (case be_highlights env (in_content inp) language of
                  None \<Rightarrow> Inr None
                | Some line_tokens \<Rightarrow>
                    let fh = build_file_highlight line_tokens;
                        serialized = serialize_file_highlight fh
                    in obind (of_option Panic (z_compress (be_zstd env) serialized)) (\<lambda>hl.
                       Inr (Some (hl, of_nat (length (line_offsets fh))))))
           (\<lambda>highlight_compressed.
              Inr \<lparr>pf_content_hash = content_hash, pf_language = language, pf_line_count = line_count,
                   pf_compressed = compressed, pf_highlight_compressed = highlight_compressed\<rparr>)))"

record build_state =
  bs_posting :: posting_builder
  bs_meta :: metadata_builder
  bs_content :: content_writer
  bs_highlights :: highlight_writer

definition build_state_new :: build_state where
  "build_state_new =
     \<lparr>bs_posting = file_only_with_capacity 65536, bs_meta = mb_new,
      bs_content = content_writer_new, bs_highlights = highlight_writer_new\<rparr>"

definition segment_file_id :: "nat \<Rightarrow> file_id result" where
  "segment_file_id i =
     of_option (Err (IndexCorruption ''too many files for segment (>4B)'')) (try_u32 i)"

definition add_highlight_raw ::
  "highlight_writer \<Rightarrow> (bytes \<times> u32) option \<Rightarrow> ((u64 \<times> u32 \<times> u32) \<times> highlight_writer) result" where
  "add_highlight_raw hw hl =
     (case hl of
        None \<Rightarrow> Inr ((0, 0, 0), hw)
      | Some (compressed, hl_lines) \<Rightarrow>
          obind (hw_add_raw hw compressed) (\<lambda>((off, len), hw). Inr ((off, len, hl_lines), hw)))"

definition build_step ::
  "nat \<Rightarrow> input_file \<Rightarrow> processed_file \<Rightarrow> build_state \<Rightarrow> build_state result" where
  "build_step i inp p st =
     obind (segment_file_id i) (\<lambda>f.
     let posting = add_file (bs_posting st) f (in_content inp)
     in obind (cw_add_raw (bs_content st) (pf_compressed p)) (\<lambda>((content_offset, content_len), cw).
        obind (add_highlight_raw (bs_highlights st) (pf_highlight_compressed p))
          (\<lambda>((highlight_offset, highlight_len, highlight_lines), hw).
        Inr \<lparr>bs_posting = posting,
             bs_meta = mb_add_file (bs_meta st)
               \<lparr>fm_file_id = f, fm_path = in_path inp, fm_content_hash = pf_content_hash p,
                fm_language = pf_language p,
                fm_size_bytes = (case try_u32 (length (in_content inp)) of Some n \<Rightarrow> n | None \<Rightarrow> of_nat u32_max),
                fm_mtime_epoch_secs = in_mtime inp, fm_line_count = pf_line_count p,
                fm_content_offset = content_offset, fm_content_len = content_len,
                fm_highlight_offset = highlight_offset, fm_highlight_len = highlight_len,
                fm_highlight_lines = highlight_lines\<rparr>,
             bs_content = cw, bs_highlights = hw\<rparr>)))"

fun build_loop :: "nat \<Rightarrow> (input_file \<times> processed_file) list \<Rightarrow> build_state \<Rightarrow> build_state result" where
  "build_loop i [] st = Inr st"
| "build_loop i ((inp, p) # rest) st =
     obind (build_step i inp p st) (build_loop (i + 1) rest)"

definition write_segment :: "build_env \<Rightarrow> build_state \<Rightarrow> segment_files result" where
  "write_segment env st =
     (let posting = finalize (bs_posting st)
      in obind (write_index (be_write_varint env) posting) (\<lambda>trigrams.
         obind (mb_write_to (bs_meta st)) (\<lambda>(meta, paths).
         Inr \<lparr>sf_trigrams = trigrams, sf_meta = meta, sf_paths = paths,
              sf_content = cw_file (bs_content st), sf_highlights = Some (hw_file (bs_highlights st)),
              sf_tombstones = Some []\<rparr>)))"

definition segment_build :: "build_env \<Rightarrow> input_file list \<Rightarrow> segment_files result" where
  "segment_build env files =
     obind (collect_results (process_file env) files) (\<lambda>processed.
     obind (build_loop 0 (zip files processed) build_state_new) (write_segment env))"

text \<open>Compaction copies the compressed content and the known metadata.\<close>

definition compact_step :: "build_env \<Rightarrow> nat \<Rightarrow> compact_input_file \<Rightarrow> build_state \<Rightarrow> build_state result" where
  "compact_step env i c st =
     obind (segment_file_id i) (\<lambda>f.
     let posting = add_file (bs_posting st) f (cf_raw_content c)
     in obind (cw_add_raw (bs_content st) (cf_compressed c)) (\<lambda>((content_offset, content_len), cw).
        obind (case be_highlights env (cf_raw_content c) (cf_language c) of
                 None \<Rightarrow> Inr ((0, 0, 0), bs_highlights st)
               | Some line_tokens \<Rightarrow>
                   hw_add_file (z_compress (be_zstd env)) (bs_highlights st) (build_file_highlight line_tokens))
          (\<lambda>((highlight_offset, highlight_len, highlight_lines), hw).
        Inr \<lparr>bs_posting = posting,
             bs_meta = mb_add_file (bs_meta st)
               \<lparr>fm_file_id = f, fm_path = cf_path c, fm_content_hash = cf_content_hash c,
                fm_language = cf_language c, fm_size_bytes = cf_size_bytes c,
                fm_mtime_epoch_secs = cf_mtime c, fm_line_count = cf_line_count c,
                fm_content_offset = content_offset, fm_content_len = content_len,
                fm_highlight_offset = highlight_offset, fm_highlight_len = highlight_len,
                fm_highlight_lines = highlight_lines\<rparr>,
             bs_content = cw, bs_highlights = hw\<rparr>)))"

fun compact_loop :: "build_env \<Rightarrow> nat \<Rightarrow> compact_input_file list \<Rightarrow> build_state \<Rightarrow> build_state result" where
  "compact_loop env i [] st = Inr st"
| "compact_loop env i (c # rest) st = obind (compact_step env i c st) (compact_loop env (i + 1) rest)"

definition segment_build_from_compact :: "build_env \<Rightarrow> compact_input_file list \<Rightarrow> segment_files result" where
  "segment_build_from_compact env files =
     obind (compact_loop env 0 files build_state_new) (write_segment env)"

section \<open>An opened segment\<close>

text \<open>The name of the directory of a segment, \<open>seg_{:04}\<close>.\<close>

definition seg_name :: "segment_id \<Rightarrow> text_utf8" where
  "seg_name segment_id = ''seg_'' @ display_padded 4 (unat segment_id)"

record segment =
  sg_id :: segment_id
  sg_dir_name :: text_utf8
  sg_trigram_reader :: index_reader
  sg_content :: bytes
  sg_meta :: bytes
  sg_paths :: bytes
  sg_entry_count :: u32
  sg_meta_entry_size :: nat
  sg_highlights :: "bytes option"
  sg_disk_tombstones :: "bytes option"
  sg_cached_tombstones :: "tombstone_set option"

definition segment_open :: "varint_reader \<Rightarrow> segment_files \<Rightarrow> segment_id \<Rightarrow> segment result" where
  "segment_open rd files segment_id =
     obind (open_index rd (sf_trigrams files)) (\<lambda>trigram_reader.
     obind (mr_new (sf_meta files) (sf_paths files)) (\<lambda>reader.
     Inr \<lparr>sg_id = segment_id, sg_dir_name = seg_name segment_id, sg_trigram_reader = trigram_reader, sg_content = sf_content files,
          sg_meta = sf_meta files, sg_paths = sf_paths files,
          sg_entry_count = mr_entry_count reader, sg_meta_entry_size = mr_entry_size reader,
          sg_highlights = sf_highlights files, sg_disk_tombstones = sf_tombstones files,
          sg_cached_tombstones = None\<rparr>))"

definition sg_metadata_reader :: "segment \<Rightarrow> metadata_reader" where
  "sg_metadata_reader s =
     mr_new_unchecked (sg_meta s) (sg_paths s) (sg_entry_count s) (sg_meta_entry_size s)"

definition get_metadata :: "segment \<Rightarrow> file_id \<Rightarrow> file_metadata option result" where
  "get_metadata s f = mr_get (sg_metadata_reader s) f"

definition sg_get_size_bytes :: "segment \<Rightarrow> file_id \<Rightarrow> u32 option result" where
  "sg_get_size_bytes s f = get_size_bytes (sg_metadata_reader s) f"

definition all_file_ids :: "segment \<Rightarrow> file_id list result" where
  "all_file_ids s = Inr (map of_nat [0..<unat (sg_entry_count s)])"

definition load_tombstones_from_disk :: "segment \<Rightarrow> tombstone_set result" where
  "load_tombstones_from_disk s =
     (case sg_disk_tombstones s of
        None \<Rightarrow> Inr ts_new
      | Some data \<Rightarrow> if data = [] then Inr ts_new else ts_read_from data)"

text \<open>The cache is filled by the first load; a failed load leaves it empty.\<close>

definition load_tombstones :: "segment \<Rightarrow> (tombstone_set \<times> segment) result" where
  "load_tombstones s =
     (case sg_cached_tombstones s of
        Some ts \<Rightarrow> Inr (ts, s)
      | None \<Rightarrow>
          obind (load_tombstones_from_disk s) (\<lambda>ts. Inr (ts, s\<lparr>sg_cached_tombstones := Some ts\<rparr>)))"

definition set_cached_tombstones :: "tombstone_set \<Rightarrow> segment \<Rightarrow> segment" where
  "set_cached_tombstones ts s = s\<lparr>sg_cached_tombstones := Some ts\<rparr>"

definition sg_read_content :: "zstd \<Rightarrow> segment \<Rightarrow> file_metadata \<Rightarrow> bytes result" where
  "sg_read_content z s m =
     cr_read_content_with_size_hint z (sg_content s) (fm_content_offset m) (fm_content_len m)
       (unat (fm_size_bytes m))"

section \<open>What a build leaves behind\<close>

text \<open>The entry of a file: its data, and where its compressed content lies.\<close>

definition entry_for :: "bytes \<Rightarrow> nat \<Rightarrow> input_file \<Rightarrow> processed_file \<Rightarrow> file_metadata \<Rightarrow> bool" where
  "entry_for content i inp p m \<longleftrightarrow>
     fm_file_id m = of_nat i \<and> fm_path m = in_path inp \<and> fm_content_hash m = pf_content_hash p \<and>
     fm_language m = pf_language p \<and>
     fm_size_bytes m = of_nat (min (length (in_content inp)) u32_max) \<and>
     fm_mtime_epoch_secs m = in_mtime inp \<and> fm_line_count m = pf_line_count p \<and>
     block_at content (fm_content_offset m) (fm_content_len m) (pf_compressed p) \<and>
     (pf_highlight_compressed p = None \<longrightarrow> fm_highlight_len m = 0)"

definition with_ids :: "(input_file \<times> processed_file) list \<Rightarrow> (file_id \<times> bytes) list" where
  "with_ids fs = map (\<lambda>i. (of_nat i, in_content (fst (fs ! i)))) [0..<length fs]"

definition build_inv :: "(input_file \<times> processed_file) list \<Rightarrow> build_state \<Rightarrow> bool" where
  "build_inv fs st \<longleftrightarrow>
     length fs \<le> u32_max + 1 \<and>
     bs_posting st = add_files (file_only_with_capacity 65536) (with_ids fs) \<and>
     cw_ok (bs_content st) \<and> cw_file (bs_content st) = concat (map (pf_compressed \<circ> snd) fs) \<and>
     length (mb_entries (bs_meta st)) = length fs \<and>
     (\<forall>i < length fs. entry_for (cw_file (bs_content st)) i (fst (fs ! i)) (snd (fs ! i))
        (mb_entries (bs_meta st) ! i))"

lemma build_inv_entry:
  "build_inv fs st \<Longrightarrow> i < length fs \<Longrightarrow>
     entry_for (cw_file (bs_content st)) i (fst (fs ! i)) (snd (fs ! i)) (mb_entries (bs_meta st) ! i)"
  unfolding build_inv_def by blast

lemma build_inv_new: "build_inv [] build_state_new"
  by (simp add: build_inv_def build_state_new_def cw_ok_def content_writer_new_def mb_new_def with_ids_def)

lemma with_ids_snoc: "with_ids (fs @ [f]) = with_ids fs @ [(of_nat (length fs), in_content (fst f))]"
  by (simp add: with_ids_def nth_append cong: map_cong)

lemma entry_for_append: "entry_for content i inp p m \<Longrightarrow> entry_for (content @ later) i inp p m"
  by (simp add: entry_for_def block_at_append)

lemma build_inv_step:
  assumes inv: "build_inv fs st" and step: "build_step (length fs) inp p st = Inr st'"
    and size: "length (concat (map (pf_compressed \<circ> snd) (fs @ [(inp, p)]))) < 2 ^ 64"
  shows "build_inv (fs @ [(inp, p)]) st'"
proof -
  let ?file = "cw_file (bs_content st)"
  obtain f off len cw ho hl hn hw where f: "segment_file_id (length fs) = Inr f"
    and cw: "cw_add_raw (bs_content st) (pf_compressed p) = Inr ((off, len), cw)"
    and st': "bs_posting st' = add_file (bs_posting st) f (in_content inp)" "bs_content st' = cw"
      "mb_entries (bs_meta st') = mb_entries (bs_meta st) @ [\<lparr>fm_file_id = f, fm_path = in_path inp,
        fm_content_hash = pf_content_hash p, fm_language = pf_language p,
        fm_size_bytes = (case try_u32 (length (in_content inp)) of Some n \<Rightarrow> n | None \<Rightarrow> of_nat u32_max),
        fm_mtime_epoch_secs = in_mtime inp, fm_line_count = pf_line_count p, fm_content_offset = off,
        fm_content_len = len, fm_highlight_offset = ho, fm_highlight_len = hl, fm_highlight_lines = hn\<rparr>]"
    and hl: "pf_highlight_compressed p = None \<longrightarrow> hl = 0"
    using step by (auto simp: build_step_def Let_def obind_eq_Inr mb_add_file_def add_highlight_raw_def
        split: prod.splits option.splits)
  have n: "length fs \<le> u32_max" and fid: "f = of_nat (length fs)"
    using f by (auto simp: segment_file_id_def try_u32_def split: if_splits)
  have block: "length (pf_compressed p) \<le> u32_max"
    using cw by (auto simp: cw_add_raw_def Let_def obind_eq_Inr try_u32_def split: if_splits)
  have raw: "cw_ok cw" "cw_file cw = ?file @ pf_compressed p" "block_at (cw_file cw) off len (pf_compressed p)"
    using cw_add_raw_ok [OF _ block, of "bs_content st"] inv size cw by (auto simp: build_inv_def)
  have "(case try_u32 (length (in_content inp)) of Some n \<Rightarrow> n | None \<Rightarrow> of_nat u32_max)
      = (of_nat (min (length (in_content inp)) u32_max) :: u32)"
    by (simp add: try_u32_def min_def)
  then have new: "entry_for (cw_file cw) (length fs) inp p (mb_entries (bs_meta st') ! length fs)"
    using inv raw(3) fid hl by (simp add: entry_for_def build_inv_def st' nth_append)
  have "entry_for (cw_file cw) i (fst ((fs @ [(inp, p)]) ! i)) (snd ((fs @ [(inp, p)]) ! i))
      (mb_entries (bs_meta st') ! i)" if "i < length fs + 1" for i
  proof (cases "i < length fs")
    case True
    then have "entry_for ?file i (fst (fs ! i)) (snd (fs ! i)) (mb_entries (bs_meta st) ! i)"
      by (rule build_inv_entry [OF inv])
    with True show ?thesis
      using inv by (simp add: raw(2) entry_for_append st' nth_append build_inv_def)
  next
    case False
    with that have "i = length fs" by simp
    with new show ?thesis by simp
  qed
  with inv n raw st' fid show ?thesis
    by (simp add: build_inv_def with_ids_snoc)
qed

lemma build_inv_loop:
  assumes "build_inv fs st" and "build_loop (length fs) rest st = Inr st'"
    and "length (concat (map (pf_compressed \<circ> snd) (fs @ rest))) < 2 ^ 64"
  shows "build_inv (fs @ rest) st'"
  using assms
proof (induction rest arbitrary: fs st)
  case Nil
  then show ?case by simp
next
  case (Cons x rest)
  obtain inp p where x: "x = (inp, p)" by fastforce
  from Cons.prems(2) obtain st1 where step: "build_step (length fs) inp p st = Inr st1"
    and loop: "build_loop (length (fs @ [x])) rest st1 = Inr st'"
    by (auto simp: x obind_eq_Inr)
  have "length (concat (map (pf_compressed \<circ> snd) (fs @ [(inp, p)]))) < 2 ^ 64"
    using Cons.prems(3) by (simp add: x comp_def)
  from build_inv_step [OF Cons.prems(1) step this] have "build_inv (fs @ [x]) st1"
    by (simp add: x)
  from Cons.IH [OF this loop] Cons.prems(3) show ?case by simp
qed

lemma of_nat_u32_inject:
  assumes "(of_nat i :: u32) = of_nat j" and "i \<le> u32_max" and "j \<le> u32_max"
  shows "i = j"
  using arg_cong [OF assms(1), of unat] assms(2,3) by simp

section \<open>What searching needs of a segment\<close>

text \<open>
  A segment over files: entry \<open>i\<close> has file ID \<open>i\<close>, its metadata can be read, its content
  decompresses to the file, and the index lists, per trigram, the files that have it.
\<close>

definition enum_contents :: "bytes list \<Rightarrow> (file_id \<times> bytes) list" where
  "enum_contents cs = map (\<lambda>i. (of_nat i, cs ! i)) [0..<length cs]"

locale file_segment =
  fixes z :: zstd and rd :: varint_reader and s :: segment
    and files :: "(file_metadata \<times> bytes) list"
  assumes index: "posting_index (lookup_file_ids rd (sg_trigram_reader s))
      (estimate_posting_list_size (sg_trigram_reader s)) (posting_spec (enum_contents (map snd files)))"
    and count: "unat (sg_entry_count s) = length files"
    and metadata: "i < length files \<Longrightarrow> get_metadata s (of_nat i) = Inr (Some (fst (files ! i)))"
    and size: "i < length files \<Longrightarrow>
      sg_get_size_bytes s (of_nat i) = Inr (Some (fm_size_bytes (fst (files ! i))))"
    and file_id: "i < length files \<Longrightarrow> fm_file_id (fst (files ! i)) = of_nat i"
    and content: "i < length files \<Longrightarrow> sg_read_content z s (fst (files ! i)) = Inr (snd (files ! i))"
begin

lemma length_files: "length files \<le> u32_max"
  using unat_u32_le [of "sg_entry_count s"] by (simp add: count)

lemma all_ids: "all_file_ids s = Inr (map of_nat [0..<length files])"
  by (simp add: all_file_ids_def count)

lemma file_ids_inject: "i < length files \<Longrightarrow> j < length files \<Longrightarrow> (of_nat i :: file_id) = of_nat j \<Longrightarrow> i = j"
  using of_nat_u32_inject [of i j] length_files by simp

end

section \<open>A built segment is one\<close>

definition inputs_ok :: "input_file list \<Rightarrow> bool" where
  "inputs_ok files \<longleftrightarrow>
     length files \<le> u32_max \<and> length (concat (map in_path files)) \<le> u32_max \<and>
     list_all (\<lambda>f. utf8_valid (in_path f) \<and> length (in_content f) \<le> MAX_DECOMPRESSED_SIZE) files"

definition env_ok :: "build_env \<Rightarrow> varint_reader \<Rightarrow> bool" where
  "env_ok env rd \<longleftrightarrow>
     varint_codec (be_write_varint env) rd \<and> zstd_stream (be_zstd env) \<and> (\<forall>d. length (be_hash env d) = 32)"

lemma process_file_facts:
  assumes "process_file env inp = Inr p"
  shows "pf_content_hash p = take 16 (be_hash env (in_content inp))"
    "pf_language p = language_from_path (in_path inp)"
    "pf_line_count p = of_nat (length (filter (\<lambda>b. b = CHR 0x0A) (in_content inp)))"
    "z_compress (be_zstd env) (in_content inp) = Some (pf_compressed p)"
    "be_highlights env = (\<lambda>d l. None) \<Longrightarrow> pf_highlight_compressed p = None"
  using assms by (auto simp: process_file_def Let_def obind_eq_Inr of_option_eq_Inr split: option.splits)

lemma distinct_file_ids:
  assumes "length es \<le> u32_max" and "\<And>i. i < length es \<Longrightarrow> fm_file_id (es ! i) = of_nat i"
  shows "distinct (map fm_file_id es)"
  unfolding distinct_conv_nth
proof (intro allI impI)
  fix i j assume ij: "i < length (map fm_file_id es)" "j < length (map fm_file_id es)" "i \<noteq> j"
  then have "(of_nat i :: file_id) \<noteq> of_nat j"
    using of_nat_u32_inject [of i j] assms(1) by auto
  with ij assms(2) show "map fm_file_id es ! i \<noteq> map fm_file_id es ! j" by simp
qed

lemma find_file_id:
  assumes "length es \<le> u32_max" and "\<And>i. i < length es \<Longrightarrow> fm_file_id (es ! i) = of_nat i" and "i < length es"
  shows "find (\<lambda>e. fm_file_id e = of_nat i) es = Some (es ! i)"
  using find_distinct_key [OF distinct_file_ids [OF assms(1,2)], of "es ! i"] assms(3)
  by (simp add: assms(2))

lemma map_nth_zip: "length xs = length ys \<Longrightarrow> map (\<lambda>i. f (xs ! i) (ys ! i)) [0..<length xs] = map (\<lambda>(x, y). f x y) (zip xs ys)"
  by (rule nth_equalityI) simp_all

lemma entries_ok_built:
  assumes inv: "build_inv (zip files ps) st" and ps: "collect_results (process_file env) files = Inr ps"
    and hash: "\<forall>d. length (be_hash env d) = 32" and inputs: "inputs_ok files"
  shows "entries_ok (mb_entries (bs_meta st))"
proof -
  let ?es = "mb_entries (bs_meta st)"
  have len: "length ps = length files" and proc: "\<And>i. i < length files \<Longrightarrow> process_file env (files ! i) = Inr (ps ! i)"
    using collect_results_Inr_nth [OF ps] by auto
  have n: "length ?es = length files" using inv len by (simp add: build_inv_def)
  have e: "entry_for (cw_file (bs_content st)) i (files ! i) (ps ! i) (?es ! i)" if "i < length files" for i
    using build_inv_entry [OF inv, of i] that len by simp
  have "map fm_path ?es = map in_path files"
    using e by (intro nth_equalityI) (simp_all add: n entry_for_def)
  moreover have "length (fm_content_hash (?es ! i)) = 16 \<and> utf8_valid (fm_path (?es ! i))" if "i < length files" for i
    using e [OF that] process_file_facts(1) [OF proc [OF that]] hash inputs that
    by (simp add: entry_for_def inputs_ok_def list_all_length)
  ultimately show ?thesis
    using inputs by (simp add: entries_ok_def inputs_ok_def n list_all_length)
qed

lemma mr_new_unchecked_written:
  "mr_new_unchecked (mr_data (written_meta es)) (mr_paths (written_meta es)) (mr_entry_count (written_meta es))
    (mr_entry_size (written_meta es)) = written_meta es"
  by (simp add: mr_new_unchecked_def)

lemma build_loop_content:
  "build_loop i fs st = Inr st' \<Longrightarrow>
     cw_file (bs_content st') = cw_file (bs_content st) @ concat (map (pf_compressed \<circ> snd) fs)"
proof (induction fs arbitrary: i st)
  case Nil
  then show ?case by simp
next
  case (Cons x fs)
  obtain inp p where x: "x = (inp, p)" by fastforce
  with Cons.prems obtain st1 where step: "build_step i inp p st = Inr st1"
    and loop: "build_loop (i + 1) fs st1 = Inr st'"
    by (auto simp: obind_eq_Inr)
  have "cw_file (bs_content st1) = cw_file (bs_content st) @ pf_compressed p"
    using step by (auto simp: build_step_def cw_add_raw_def Let_def obind_eq_Inr split: prod.splits)
  with Cons.IH [OF loop] show ?case by (simp add: x)
qed

lemma sorted_enum:
  assumes "length cs \<le> u32_max"
  shows "sorted_wrt (<) (map fst (enum_contents cs))"
proof -
  have "(of_nat i :: u32) < of_nat j" if "i < j" "j < length cs" for i j
    using that assms by (simp add: word_less_nat_alt)
  then show ?thesis
    by (auto simp: enum_contents_def sorted_wrt_iff_nth_less)
qed

lemma with_ids_enum: "with_ids fs = enum_contents (map (in_content \<circ> fst) fs)"
  by (simp add: with_ids_def enum_contents_def)

text \<open>
  A segment over input files: its table has one entry per file, in order, each stored content block
  is the compressed file, and it is a \<open>file_segment\<close>.
\<close>

definition segment_over ::
  "build_env \<Rightarrow> varint_reader \<Rightarrow> segment \<Rightarrow> input_file list \<Rightarrow> processed_file list \<Rightarrow> file_metadata list \<Rightarrow> bool"
where
  "segment_over env rd s files ps metas \<longleftrightarrow>
     collect_results (process_file env) files = Inr ps \<and> length metas = length files \<and>
     iter_all (sg_metadata_reader s) = map Inr metas \<and>
     (\<forall>i < length files. entry_for (sg_content s) i (files ! i) (ps ! i) (metas ! i)) \<and>
     file_segment (be_zstd env) rd s (zip metas (map in_content files))"

lemma segment_build_over:
  assumes env: "env_ok env rd" and inputs: "inputs_ok files" and build: "segment_build env files = Inr sf"
    and small: "length (sf_content sf) < 2 ^ 64"
  shows "\<exists>seg ps metas. segment_open rd sf segment_id = Inr seg \<and> segment_over env rd seg files ps metas \<and>
    sg_id seg = segment_id \<and> sg_dir_name seg = seg_name segment_id \<and>
    sg_disk_tombstones seg = Some [] \<and> sg_cached_tombstones seg = None"
proof -
  have codec: "varint_codec (be_write_varint env) rd" and zs: "zstd_stream (be_zstd env)"
    and hash: "\<forall>d. length (be_hash env d) = 32"
    using env by (simp_all add: env_ok_def)
  obtain ps st where ps: "collect_results (process_file env) files = Inr ps"
    and loop: "build_loop 0 (zip files ps) build_state_new = Inr st" and wr: "write_segment env st = Inr sf"
    using build by (auto simp: segment_build_def obind_eq_Inr)
  have len: "length ps = length files" and proc: "\<And>i. i < length files \<Longrightarrow> process_file env (files ! i) = Inr (ps ! i)"
    using collect_results_Inr_nth [OF ps] by auto
  let ?es = "mb_entries (bs_meta st)" and ?cs = "map in_content files"
  let ?b = "finalize (bs_posting st)"
  have files_le: "length files \<le> u32_max" using inputs by (simp add: inputs_ok_def)
  obtain trigrams meta paths where trig: "write_index (be_write_varint env) ?b = Inr trigrams"
    and mw: "mb_write_to (bs_meta st) = Inr (meta, paths)"
    and sf: "sf = \<lparr>sf_trigrams = trigrams, sf_meta = meta, sf_paths = paths, sf_content = cw_file (bs_content st),
      sf_highlights = Some (hw_file (bs_highlights st)), sf_tombstones = Some []\<rparr>"
    using wr by (auto simp: write_segment_def Let_def obind_eq_Inr)
  have "length (concat (map (pf_compressed \<circ> snd) (zip files ps))) < 2 ^ 64"
    using small build_loop_content [OF loop] by (simp add: sf build_state_new_def content_writer_new_def)
  with build_inv_loop [OF build_inv_new, of "zip files ps" st] loop have inv: "build_inv (zip files ps) st"
    by simp
  have n: "length ?es = length files" using inv len by (simp add: build_inv_def)
  have e: "entry_for (cw_file (bs_content st)) i (files ! i) (ps ! i) (?es ! i)" if "i < length files" for i
    using build_inv_entry [OF inv, of i] that len by simp
  have ids: "fm_file_id (?es ! i) = of_nat i" if "i < length ?es" for i
    using e [of i] that n by (simp add: entry_for_def)
  note es_ok = entries_ok_built [OF inv ps hash inputs]
  have meta: "meta = mr_data (written_meta ?es)" "paths = mr_paths (written_meta ?es)"
    using mw mb_write_to_bytes [OF es_ok] by (simp_all add: written_meta_def)
  have open_meta: "mr_new meta paths = Inr (written_meta ?es)"
    using mr_new_written [OF es_ok] by (simp add: meta written_meta_def)
  have "map (in_content \<circ> fst) (zip files ps) = ?cs"
    using len by (simp add: map_map [symmetric] del: map_map)
  then have posting: "bs_posting st = add_files (file_only_with_capacity 65536) (enum_contents ?cs)"
    using inv by (simp add: build_inv_def with_ids_enum)
  have "length (in_content f) \<le> u32_max" if "f \<in> set files" for f
    using inputs that by (auto simp: inputs_ok_def list_all_iff MAX_DECOMPRESSED_SIZE_def)
  then have "list_all (\<lambda>(f, c). length c \<le> u32_max) (enum_contents ?cs)"
    by (simp add: enum_contents_def list_all_length)
  then have indexed: "indexed_files (be_write_varint env) (file_only_with_capacity 65536) (enum_contents ?cs) trigrams"
    using trig sorted_enum [of ?cs] files_le by (simp add: indexed_files_def posting)
  let ?r = "written_reader (be_write_varint env) (finalize (add_files (file_only_with_capacity 65536) (enum_contents ?cs))) trigrams"
  let ?seg = "\<lparr>sg_id = segment_id, sg_dir_name = seg_name segment_id, sg_trigram_reader = ?r, sg_content = cw_file (bs_content st), sg_meta = meta,
    sg_paths = paths, sg_entry_count = mr_entry_count (written_meta ?es), sg_meta_entry_size = mr_entry_size (written_meta ?es),
    sg_highlights = Some (hw_file (bs_highlights st)), sg_disk_tombstones = Some [], sg_cached_tombstones = None\<rparr>"
  have seg: "segment_open rd sf segment_id = Inr ?seg"
    using indexed_files_open [OF codec indexed] open_meta by (simp add: segment_open_def sf)
  have reader: "sg_metadata_reader ?seg = written_meta ?es"
    using mr_new_unchecked_written [of ?es] by (simp add: sg_metadata_reader_def meta)
  note es_le = files_le [folded n]
  note distinct = distinct_file_ids [OF es_le ids]
  have content: "sg_read_content (be_zstd env) ?seg (?es ! i) = Inr (in_content (files ! i))"
    if i: "i < length files" for i
  proof -
    have len_le: "length (in_content (files ! i)) \<le> MAX_DECOMPRESSED_SIZE"
      using inputs i by (simp add: inputs_ok_def list_all_length)
    have "content_range (cw_file (bs_content st)) (fm_content_offset (?es ! i)) (fm_content_len (?es ! i))
        = Inr (pf_compressed (ps ! i))"
      using e [OF i] by (intro content_range_block) (simp add: entry_for_def)
    with cr_decode_compressed [OF zs process_file_facts(4) [OF proc [OF i]] len_le]
    show ?thesis
      by (simp add: sg_read_content_def cr_read_content_with_size_hint_def)
  qed
  have entries: "iter_all (sg_metadata_reader ?seg) = map Inr ?es"
    unfolding reader iter_all_def
    using read_entry_written [OF es_ok] by (intro nth_equalityI) (simp_all add: written_meta_count [OF es_ok])
  have "file_segment (be_zstd env) rd ?seg (zip ?es ?cs)"
  proof (rule file_segment.intro)
    show "posting_index (lookup_file_ids rd (sg_trigram_reader ?seg))
        (estimate_posting_list_size (sg_trigram_reader ?seg)) (posting_spec (enum_contents (map snd (zip ?es ?cs))))"
      using indexed_files_index [OF codec indexed] n by simp
    show "unat (sg_entry_count ?seg) = length (zip ?es ?cs)"
      using written_meta_count [OF es_ok] n by simp
  next
    fix i assume i: "i < length (zip ?es ?cs)"
    then have found: "find (\<lambda>e. fm_file_id e = of_nat i) ?es = Some (?es ! i)"
      using n by (intro find_file_id es_le ids) simp_all
    show "get_metadata ?seg (of_nat i) = Inr (Some (fst (zip ?es ?cs ! i)))"
      using mr_get_written [OF es_ok distinct, of "of_nat i"] found i
      by (simp add: get_metadata_def reader)
    show "sg_get_size_bytes ?seg (of_nat i) = Inr (Some (fm_size_bytes (fst (zip ?es ?cs ! i))))"
      using get_size_written [OF es_ok distinct, of "of_nat i"] found i
      by (simp add: sg_get_size_bytes_def reader)
    show "fm_file_id (fst (zip ?es ?cs ! i)) = of_nat i"
      using ids [of i] i by simp
    show "sg_read_content (be_zstd env) ?seg (fst (zip ?es ?cs ! i)) = Inr (snd (zip ?es ?cs ! i))"
      using content [of i] i n by simp
  qed
  then have "segment_over env rd ?seg files ps ?es"
    using ps n entries e by (simp add: segment_over_def)
  with seg show ?thesis
    by (intro exI [of _ ?seg] exI [of _ ps] exI [of _ ?es]) simp
qed

lemma segment_over_metas:
  assumes over: "segment_over env rd seg files ps metas" and inputs: "inputs_ok files" and i: "i < length files"
  shows "fm_path (metas ! i) = in_path (files ! i)"
    "fm_language (metas ! i) = language_from_path (in_path (files ! i))"
    "fm_size_bytes (metas ! i) = of_nat (length (in_content (files ! i)))"
    "fm_mtime_epoch_secs (metas ! i) = in_mtime (files ! i)"
    "fm_line_count (metas ! i) = of_nat (length (filter (\<lambda>b. b = CHR 0x0A) (in_content (files ! i))))"
    "be_highlights env = (\<lambda>d l. None) \<Longrightarrow> fm_highlight_len (metas ! i) = 0"
proof -
  have e: "entry_for (sg_content seg) i (files ! i) (ps ! i) (metas ! i)"
    using over i by (simp add: segment_over_def)
  have proc: "process_file env (files ! i) = Inr (ps ! i)"
    using over i collect_results_Inr_nth [of "process_file env" files ps] by (simp add: segment_over_def)
  have "length (in_content (files ! i)) \<le> MAX_DECOMPRESSED_SIZE"
    using inputs i by (simp add: inputs_ok_def list_all_length)
  then have "length (in_content (files ! i)) \<le> u32_max"
    by (simp add: MAX_DECOMPRESSED_SIZE_def)
  with e process_file_facts [OF proc]
  show "fm_path (metas ! i) = in_path (files ! i)"
    "fm_language (metas ! i) = language_from_path (in_path (files ! i))"
    "fm_size_bytes (metas ! i) = of_nat (length (in_content (files ! i)))"
    "fm_mtime_epoch_secs (metas ! i) = in_mtime (files ! i)"
    "fm_line_count (metas ! i) = of_nat (length (filter (\<lambda>b. b = CHR 0x0A) (in_content (files ! i))))"
    "be_highlights env = (\<lambda>d l. None) \<Longrightarrow> fm_highlight_len (metas ! i) = 0"
    by (simp_all add: entry_for_def min_def)
qed

lemma segment_build_holds:
  assumes env: "env_ok env rd" and inputs: "inputs_ok files" and build: "segment_build env files = Inr sf"
    and small: "length (sf_content sf) < 2 ^ 64"
  shows "\<exists>seg metas. segment_open rd sf segment_id = Inr seg \<and>
    file_segment (be_zstd env) rd seg (zip metas (map in_content files)) \<and> length metas = length files \<and>
    sg_id seg = segment_id \<and> sg_disk_tombstones seg = Some [] \<and> sg_cached_tombstones seg = None \<and>
    (\<forall>i < length files. fm_path (metas ! i) = in_path (files ! i) \<and>
      fm_language (metas ! i) = language_from_path (in_path (files ! i)) \<and>
      fm_size_bytes (metas ! i) = of_nat (length (in_content (files ! i))) \<and>
      fm_mtime_epoch_secs (metas ! i) = in_mtime (files ! i) \<and>
      fm_line_count (metas ! i) = of_nat (length (filter (\<lambda>b. b = CHR 0x0A) (in_content (files ! i)))) \<and>
      (be_highlights env = (\<lambda>d l. None) \<longrightarrow> fm_highlight_len (metas ! i) = 0))"
proof -
  obtain seg ps metas where seg: "segment_open rd sf segment_id = Inr seg"
    and over: "segment_over env rd seg files ps metas" and ids: "sg_id seg = segment_id"
      "sg_disk_tombstones seg = Some []" "sg_cached_tombstones seg = None"
    using segment_build_over [OF assms, of segment_id] by blast
  then show ?thesis
    using segment_over_metas [OF over inputs] over
    by (intro exI [of _ seg] exI [of _ metas]) (simp add: segment_over_def)
qed


text \<open>
  C8. A segment built from input files opens, and gives back what it was built from: its file IDs are
  \<open>0\<close> to the number of files, each with the path, language, size, time and line count of its file;
  reading its content decompresses to the bytes of the file; the posting list of a trigram names
  exactly the files whose folded content has it; and the tombstone set is empty and then cached.
\<close>

theorem segment_build_reads:
  assumes "env_ok env rd" and "inputs_ok files" and "segment_build env files = Inr sf"
    and "length (sf_content sf) < 2 ^ 64"
  shows "\<exists>seg. segment_open rd sf segment_id = Inr seg \<and>
    all_file_ids seg = Inr (map of_nat [0..<length files]) \<and>
    (\<forall>i < length files. \<exists>m. get_metadata seg (of_nat i) = Inr (Some m) \<and>
      fm_file_id m = of_nat i \<and> fm_path m = in_path (files ! i) \<and>
      fm_language m = language_from_path (in_path (files ! i)) \<and>
      fm_size_bytes m = of_nat (length (in_content (files ! i))) \<and>
      fm_mtime_epoch_secs m = in_mtime (files ! i) \<and>
      fm_line_count m = of_nat (length (filter (\<lambda>b. b = CHR 0x0A) (in_content (files ! i)))) \<and>
      sg_read_content (be_zstd env) seg m = Inr (in_content (files ! i))) \<and>
    (\<forall>t. lookup_file_ids rd (sg_trigram_reader seg) t
      = Inr (posting_spec (enum_contents (map in_content files)) t)) \<and>
    load_tombstones seg = Inr (ts_new, set_cached_tombstones ts_new seg)"
proof -
  obtain seg metas where seg: "segment_open rd sf segment_id = Inr seg"
    and fs: "file_segment (be_zstd env) rd seg (zip metas (map in_content files))"
    and len: "length metas = length files"
    and ts: "sg_disk_tombstones seg = Some []" "sg_cached_tombstones seg = None"
    and metas: "\<forall>i < length files. fm_path (metas ! i) = in_path (files ! i) \<and>
      fm_language (metas ! i) = language_from_path (in_path (files ! i)) \<and>
      fm_size_bytes (metas ! i) = of_nat (length (in_content (files ! i))) \<and>
      fm_mtime_epoch_secs (metas ! i) = in_mtime (files ! i) \<and>
      fm_line_count (metas ! i) = of_nat (length (filter (\<lambda>b. b = CHR 0x0A) (in_content (files ! i))))"
    using segment_build_holds [OF assms, of segment_id] by blast
  have "\<exists>m. get_metadata seg (of_nat i) = Inr (Some m) \<and>
      fm_file_id m = of_nat i \<and> fm_path m = in_path (files ! i) \<and>
      fm_language m = language_from_path (in_path (files ! i)) \<and>
      fm_size_bytes m = of_nat (length (in_content (files ! i))) \<and>
      fm_mtime_epoch_secs m = in_mtime (files ! i) \<and>
      fm_line_count m = of_nat (length (filter (\<lambda>b. b = CHR 0x0A) (in_content (files ! i)))) \<and>
      sg_read_content (be_zstd env) seg m = Inr (in_content (files ! i))" if "i < length files" for i
    using that len metas file_segment.metadata [OF fs, of i] file_segment.file_id [OF fs, of i]
      file_segment.content [OF fs, of i] by (intro exI [of _ "metas ! i"]) simp
  moreover have "lookup_file_ids rd (sg_trigram_reader seg) t
      = Inr (posting_spec (enum_contents (map in_content files)) t)" for t
    using posting_index.lookup_postings [OF file_segment.index [OF fs], of t] len by simp
  ultimately show ?thesis
    using seg file_segment.all_ids [OF fs] len ts
    by (simp add: load_tombstones_def load_tombstones_from_disk_def set_cached_tombstones_def)
qed

section \<open>Copy-through compaction\<close>

text \<open>What compaction reads back of a file of an earlier segment.\<close>

definition compact_input :: "input_file \<times> processed_file \<Rightarrow> compact_input_file" where
  "compact_input = (\<lambda>(inp, p).
     \<lparr>cf_path = in_path inp, cf_raw_content = in_content inp, cf_compressed = pf_compressed p,
      cf_content_hash = pf_content_hash p, cf_language = pf_language p,
      cf_size_bytes = of_nat (min (length (in_content inp)) u32_max), cf_line_count = pf_line_count p,
      cf_mtime = in_mtime inp\<rparr>)"

lemma hw_add_file_raw:
  assumes "z serialized = Some c" and "serialized = serialize_file_highlight fh"
  shows "hw_add_file z hw fh = add_highlight_raw hw (Some (c, of_nat (length (line_offsets fh))))"
  using assms
  by (simp add: hw_add_file_def add_highlight_raw_def hw_add_raw_def Let_def obind_def split: sum.splits)

lemma compact_step_eq:
  assumes "process_file env inp = Inr p"
  shows "compact_step env i (compact_input (inp, p)) st = build_step i inp p st"
proof -
  have "(case be_highlights env (in_content inp) (pf_language p) of
           None \<Rightarrow> Inr ((0, 0, 0), bs_highlights st)
         | Some ts \<Rightarrow> hw_add_file (z_compress (be_zstd env)) (bs_highlights st) (build_file_highlight ts))
      = add_highlight_raw (bs_highlights st) (pf_highlight_compressed p)"
    using assms hw_add_file_raw
    by (auto simp: process_file_def Let_def obind_eq_Inr of_option_eq_Inr add_highlight_raw_def
        split: option.splits)
  moreover have "(case try_u32 n of Some m \<Rightarrow> m | None \<Rightarrow> of_nat u32_max) = (of_nat (min n u32_max) :: u32)" for n
    by (simp add: try_u32_def min_def)
  ultimately show ?thesis
    by (simp add: compact_step_def build_step_def compact_input_def)
qed

lemma compact_loop_eq:
  "list_all (\<lambda>(inp, p). process_file env inp = Inr p) fs \<Longrightarrow>
     compact_loop env i (map compact_input fs) st = build_loop i fs st"
proof (induction fs arbitrary: i st)
  case Nil
  then show ?case by simp
next
  case (Cons x fs)
  obtain inp p where x: "x = (inp, p)" by fastforce
  from Cons have "compact_loop env i (map compact_input fs) = build_loop i fs" for i
    by (intro ext) simp
  with Cons.prems x show ?case by (simp add: compact_step_eq)
qed

lemma compact_build_eq:
  assumes "collect_results (process_file env) files = Inr ps"
  shows "segment_build_from_compact env (map compact_input (zip files ps)) = segment_build env files"
proof -
  have "list_all (\<lambda>(inp, p). process_file env inp = Inr p) (zip files ps)"
    using collect_results_Inr_nth [OF assms] by (auto simp: list_all_length)
  with assms show ?thesis
    by (simp add: segment_build_from_compact_def segment_build_def compact_loop_eq)
qed

text \<open>
  C34. Copy-through compaction is a build: from the stored compressed blocks, hashes and counts of
  files it writes byte for byte the segment that indexing the files anew would write.
\<close>

theorem compact_equals_build:
  assumes "collect_results (process_file env) files = Inr ps"
  shows "segment_build_from_compact env (map compact_input (zip files ps)) = segment_build env files"
  using assms by (rule compact_build_eq)

text \<open>The content of a segment is within the range of its 64-bit offsets, whatever is built.\<close>

lemma build_loop_bounds:
  "build_loop i fs st = Inr st' \<Longrightarrow>
     list_all (\<lambda>x. length (pf_compressed (snd x)) \<le> u32_max) fs \<and> (fs \<noteq> [] \<longrightarrow> i + length fs \<le> u32_max + 1)"
proof (induction fs arbitrary: i st)
  case Nil
  then show ?case by simp
next
  case (Cons x fs)
  obtain inp p where x: "x = (inp, p)" by fastforce
  with Cons.prems obtain st1 where step: "build_step i inp p st = Inr st1"
    and loop: "build_loop (i + 1) fs st1 = Inr st'"
    by (auto simp: obind_eq_Inr)
  have "i \<le> u32_max" "length (pf_compressed p) \<le> u32_max"
    using step by (auto simp: build_step_def segment_file_id_def cw_add_raw_def Let_def obind_eq_Inr try_u32_def
        split: prod.splits if_splits)
  with Cons.IH [OF loop] show ?case by (cases fs) (simp_all add: x)
qed

lemma length_concat_le: "(\<And>x. x \<in> set xs \<Longrightarrow> length x \<le> n) \<Longrightarrow> length (concat xs) \<le> length xs * n"
proof (induction xs)
  case Nil
  then show ?case by simp
next
  case (Cons x xs)
  then have "length x \<le> n" and "length (concat xs) \<le> length xs * n" by simp_all
  then show ?case by simp
qed

lemma segment_build_small:
  assumes "segment_build env files = Inr sf"
  shows "length (sf_content sf) < 2 ^ 64"
proof -
  obtain fs st where loop: "build_loop 0 fs build_state_new = Inr st"
    and sf: "sf_content sf = cw_file (bs_content st)"
    using assms by (auto simp: segment_build_def write_segment_def Let_def obind_eq_Inr)
  have content: "sf_content sf = concat (map (pf_compressed \<circ> snd) fs)"
    using build_loop_content [OF loop] by (simp add: sf build_state_new_def content_writer_new_def)
  have n: "length fs \<le> u32_max + 1"
    using build_loop_bounds [OF loop] by (cases fs) simp_all
  have "length (sf_content sf) \<le> length fs * u32_max"
    using length_concat_le [of "map (pf_compressed \<circ> snd) fs" u32_max] build_loop_bounds [OF loop]
    by (auto simp: content list_all_iff)
  also have "\<dots> \<le> (u32_max + 1) * u32_max"
    using n by (intro mult_le_mono1)
  finally show ?thesis by simp
qed

section \<open>A built sample\<close>

definition sample_env :: build_env where
  "sample_env =
     \<lparr>be_hash = (\<lambda>d. replicate 32 (CHR 0x00)), be_zstd = store_zstd, be_highlights = (\<lambda>d l. None),
      be_write_varint = leb_write\<rparr>"

definition sample_inputs :: "input_file list" where
  "sample_inputs =
     [\<lparr>in_path = ''a.rs'', in_content = ''Abcd'', in_mtime = 7\<rparr>,
      \<lparr>in_path = ''b.py'', in_content = ''xabc'', in_mtime = 9\<rparr>]"

definition sample_built :: segment_files where
  "sample_built =
     (case segment_build sample_env sample_inputs of Inr sf \<Rightarrow> sf
      | Inl _ \<Rightarrow> \<lparr>sf_trigrams = [], sf_meta = [], sf_paths = [], sf_content = [], sf_highlights = None,
                  sf_tombstones = None\<rparr>)"

lemma sample_env_ok: "env_ok sample_env leb_read"
  by (simp add: env_ok_def sample_env_def leb.varint_codec_axioms store_stream.zstd_stream_axioms)

lemma sample_inputs_ok: "inputs_ok sample_inputs"
proof -
  have "utf8_valid ''a.rs''" "utf8_valid ''b.py''" by code_simp+
  then show ?thesis by (simp add: inputs_ok_def sample_inputs_def MAX_DECOMPRESSED_SIZE_def)
qed

lemma sample_posting_sizes:
  fixes b defines "b \<equiv> finalize (add_files (file_only_with_capacity 65536) [(0, ''Abcd''), (1, ''xabc'')])"
  shows "wf_postings b" and "section_sizes_ok leb_write b"
proof -
  show "wf_postings b"
    unfolding b_def by (rule wf_finished) simp_all
  have b: "b = finalize (add_files file_only [(0, ''Abcd''), (1, ''xabc'')])"
    by (simp add: b_def file_only_with_capacity_def file_only_def)
  have f: "length (concat (map (file_chunk leb_write b) (sorted_trigrams b))) = 4"
    and p: "length (concat (map (pos_chunk leb_write b) (sorted_trigrams b))) = 0"
    unfolding b by code_simp+
  show "section_sizes_ok leb_write b"
    unfolding section_sizes_ok_def f p by simp
qed

lemma sample_segment_build: "segment_build sample_env sample_inputs = Inr sample_built"
  and sample_content_length: "length (sf_content sample_built) = 8"
proof -
  let ?ps = "map (\<lambda>inp. \<lparr>pf_content_hash = replicate 16 (CHR 0x00),
    pf_language = language_from_path (in_path inp), pf_line_count = 0,
    pf_compressed = in_content inp, pf_highlight_compressed = None\<rparr>) sample_inputs"
  have ps: "collect_results (process_file sample_env) sample_inputs = Inr ?ps"
    by (simp add: sample_inputs_def sample_env_def process_file_def store_zstd_def obind_def)
  obtain st where st: "build_loop 0 (zip sample_inputs ?ps) build_state_new = Inr st"
    and content: "length (cw_file (bs_content st)) = 8"
    by (simp add: sample_inputs_def build_step_def segment_file_id_def cw_add_raw_def Let_def obind_def
        try_u32_def build_state_new_def content_writer_new_def mb_new_def add_highlight_raw_def
        mb_add_file_def of_option_def)
  have inv: "build_inv (zip sample_inputs ?ps) st"
    using build_inv_loop [OF build_inv_new, of "zip sample_inputs ?ps" st] st
    by (simp add: sample_inputs_def)
  have "bs_posting st = add_files (file_only_with_capacity 65536) [(0, ''Abcd''), (1, ''xabc'')]"
    using inv by (simp add: build_inv_def with_ids_def sample_inputs_def upt_rec)
  then obtain data where data: "write_index leb_write (finalize (bs_posting st)) = Inr data"
    using write_index_ok [OF leb.varint_codec_axioms sample_posting_sizes] by auto
  have "entries_ok (mb_entries (bs_meta st))"
    using entries_ok_built [OF inv ps _ sample_inputs_ok] sample_env_ok by (simp add: env_ok_def)
  from mb_write_to_bytes [OF this] obtain meta paths where "mb_write_to (bs_meta st) = Inr (meta, paths)"
    by simp
  with data have "\<exists>sf. segment_build sample_env sample_inputs = Inr sf \<and> sf_content sf = cw_file (bs_content st)"
    using ps st by (simp add: segment_build_def write_segment_def sample_env_def)
  then show "segment_build sample_env sample_inputs = Inr sample_built"
    and "length (sf_content sample_built) = 8"
    using content by (auto simp: sample_built_def)
qed

theorem segment_build_reads_witness:
  "\<exists>seg m. segment_open leb_read sample_built 3 = Inr seg \<and> all_file_ids seg = Inr [0, 1] \<and>
    get_metadata seg 1 = Inr (Some m) \<and> fm_path m = ''b.py'' \<and>
    sg_read_content store_zstd seg m = Inr ''xabc''"
proof -
  have "length (sf_content sample_built) < 2 ^ 64" by (simp add: sample_content_length)
  from segment_build_reads [OF sample_env_ok sample_inputs_ok sample_segment_build this, of 3]
  obtain seg where seg: "segment_open leb_read sample_built 3 = Inr seg"
    and ids: "all_file_ids seg = Inr (map of_nat [0..<length sample_inputs])"
    and all: "\<forall>i < length sample_inputs. \<exists>m. get_metadata seg (of_nat i) = Inr (Some m) \<and>
      fm_path m = in_path (sample_inputs ! i) \<and>
      sg_read_content (be_zstd sample_env) seg m = Inr (in_content (sample_inputs ! i))"
    by blast
  from seg ids all [rule_format, of 1] show ?thesis
    by (auto simp: sample_inputs_def sample_env_def upt_rec)
qed

theorem compact_equals_build_witness:
  "\<exists>ps. segment_build_from_compact sample_env (map compact_input (zip sample_inputs ps)) = Inr sample_built"
proof -
  obtain ps where "collect_results (process_file sample_env) sample_inputs = Inr ps"
    using sample_segment_build by (auto simp: segment_build_def obind_eq_Inr)
  from compact_equals_build [OF this] show ?thesis
    using sample_segment_build by auto
qed

text \<open>The sample, opened, is a segment over its two files.\<close>

definition sample_segment :: segment where
  "sample_segment = projr (segment_open leb_read sample_built 3)"

definition sample_files :: "(file_metadata \<times> bytes) list" where
  "sample_files =
     map (\<lambda>i. (the (projr (get_metadata sample_segment (of_nat i))), in_content (sample_inputs ! i)))
       [0..<length sample_inputs]"

lemma sample_metas:
  "\<exists>metas. sample_files = zip metas (map in_content sample_inputs) \<and> length metas = length sample_inputs \<and>
     file_segment store_zstd leb_read sample_segment sample_files \<and>
     (\<forall>i < length sample_files. fm_highlight_len (fst (sample_files ! i)) = 0)"
proof -
  have "length (sf_content sample_built) < 2 ^ 64" by (simp add: sample_content_length)
  from segment_build_holds [OF sample_env_ok sample_inputs_ok sample_segment_build this, of 3]
  obtain metas where fs: "file_segment (be_zstd sample_env) leb_read sample_segment
      (zip metas (map in_content sample_inputs))" and len: "length metas = length sample_inputs"
    and hl: "\<forall>i < length sample_inputs. be_highlights sample_env = (\<lambda>d l. None) \<longrightarrow> fm_highlight_len (metas ! i) = 0"
    by (auto simp: sample_segment_def)
  have files: "sample_files = zip metas (map in_content sample_inputs)"
    using file_segment.metadata [OF fs] len by (intro nth_equalityI) (simp_all add: sample_files_def)
  then have "\<forall>i < length sample_files. fm_highlight_len (fst (sample_files ! i)) = 0"
    unfolding files using hl len by (simp add: sample_env_def)
  with fs len files show ?thesis
    by (intro exI [of _ metas]) (simp add: sample_env_def)
qed

interpretation opened: file_segment store_zstd leb_read sample_segment sample_files
  using sample_metas by blast

end
