(* ===== verification/Line_Index.thy ===== *)
theory Line_Index
  imports Paths Utf8
begin

text \<open>
  Lines of a text: the newline table of \<open>ferret-core/src/verify.rs\<close> (\<open>LineIndex\<close>) with its
  byte-offset-to-line lookup and line contents, and \<open>String::from_utf8_lossy\<close>, which the verifier
  applies to the bytes of a file. The reference for a line is splitting the text at its newlines: for
  valid UTF-8 the table returns exactly those pieces, without a trailing carriage return.
\<close>

abbreviation newline :: u8 where
  "newline \<equiv> CHR 0x0A"

section \<open>Lossy decoding\<close>

text \<open>
  The length of the maximal invalid prefix that one replacement character stands for; a byte
  past the end counts as no continuation.
\<close>

definition utf8_bad_len :: "bytes \<Rightarrow> nat" where
  "utf8_bad_len bs =
     (case bs of
        [] \<Rightarrow> 1
      | a # r \<Rightarrow>
          let x = byte_val a in
          if 0xE0 \<le> x \<and> x \<le> 0xF4 then
            (case r of
               b # s \<Rightarrow>
                 if \<not> second_ok a b then 1
                 else if x \<le> 0xEF then 2
                 else (case s of c # _ \<Rightarrow> if is_continuation c then 3 else 2 | [] \<Rightarrow> 2)
             | [] \<Rightarrow> 1)
          else 1)"

lemma utf8_bad_len_pos [simp]: "0 < utf8_bad_len bs"
  by (auto simp: utf8_bad_len_def Let_def split: list.splits)

definition REPLACEMENT :: bytes where
  "REPLACEMENT = [CHR 0xEF, CHR 0xBF, CHR 0xBD]"

lemma utf8_next_shorter: "utf8_next bs = Some (c, n) \<Longrightarrow> length (drop n bs) < length bs"
  using utf8_next_bounds [of bs c n] by (cases bs) auto

function from_utf8_lossy :: "bytes \<Rightarrow> text_utf8" where
  "from_utf8_lossy bs =
     (if bs = [] then []
      else case utf8_next bs of
        Some (c, n) \<Rightarrow> take n bs @ from_utf8_lossy (drop n bs)
      | None \<Rightarrow> REPLACEMENT @ from_utf8_lossy (drop (utf8_bad_len bs) bs))"
  by pat_completeness auto
termination
proof (relation "measure length")
  fix bs :: bytes and p c n
  assume "bs \<noteq> []" and "utf8_next bs = Some p" and "(c, n) = p"
  with utf8_next_shorter [of bs c n] show "(drop n bs, bs) \<in> measure length" by simp
qed simp_all

declare from_utf8_lossy.simps [simp del]

lemma from_utf8_lossy_Nil [simp]: "from_utf8_lossy [] = []"
  by (simp add: from_utf8_lossy.simps)

lemma utf8_decode_step:
  "utf8_valid bs \<Longrightarrow> bs \<noteq> [] \<Longrightarrow> \<exists>c n. utf8_next bs = Some (c, n) \<and> utf8_valid (drop n bs)"
  by (auto simp: utf8_valid_def utf8_decode.simps [of bs] split: option.splits)

lemma utf8_valid_Nil [simp]: "utf8_valid []"
  by (simp add: utf8_valid_def utf8_decode.simps)

lemma utf8_valid_unfold:
  "utf8_next bs = Some (c, n) \<Longrightarrow> utf8_valid bs \<longleftrightarrow> utf8_valid (drop n bs)"
  by (auto simp: utf8_valid_def utf8_decode.simps [of bs] utf8_next_def)

lemma utf8_valid_induct [consumes 1, case_names Nil step]:
  assumes "utf8_valid bs" and "P []"
    and step: "\<And>bs c n. bs \<noteq> [] \<Longrightarrow> utf8_next bs = Some (c, n) \<Longrightarrow> utf8_valid (drop n bs) \<Longrightarrow>
      P (drop n bs) \<Longrightarrow> P bs"
  shows "P bs"
  using assms(1)
proof (induction bs rule: length_induct)
  case (1 bs)
  show ?case
  proof (cases "bs = []")
    case False
    with 1 obtain c n where nx: "utf8_next bs = Some (c, n)" and v: "utf8_valid (drop n bs)"
      using utf8_decode_step by blast
    moreover have "length (drop n bs) < length bs"
      by (rule utf8_next_shorter) (rule nx)
    ultimately show ?thesis using step False 1 by blast
  qed (simp add: assms(2))
qed

lemma from_utf8_lossy_valid: "utf8_valid bs \<Longrightarrow> from_utf8_lossy bs = bs"
  by (induction rule: utf8_valid_induct) (simp_all add: from_utf8_lossy.simps)

lemma utf8_next_cases:
  assumes "utf8_next bs = Some (c, n)"
  obtains (1) a r where "bs = a # r" "n = 1" "byte_val a < 128"
  | (2) a b r where "bs = a # b # r" "n = 2" "128 \<le> byte_val b"
  | (3) a b d r where "bs = a # b # d # r" "n = 3" "128 \<le> byte_val b" "128 \<le> byte_val d"
  | (4) a b d e r where "bs = a # b # d # e # r" "n = 4" "128 \<le> byte_val b" "128 \<le> byte_val d"
      "128 \<le> byte_val e"
  using assms
  by (auto simp: utf8_next_def Let_def is_continuation_def second_ok_def second_range_def
      split: list.splits if_splits)

lemma utf8_next_take:
  assumes "utf8_next bs = Some (c, n)"
  shows "utf8_next (take n bs @ r) = Some (c, n)"
  using assms
  by (cases rule: utf8_next_cases [OF assms])
    (simp_all add: utf8_next_def Let_def take_Cons' split: if_splits list.splits)

lemma utf8_valid_char_append:
  "utf8_next bs = Some (c, n) \<Longrightarrow> utf8_valid (take n bs @ r) \<longleftrightarrow> utf8_valid r"
  using utf8_next_take [of bs c n r] utf8_next_bounds [of bs c n]
  by (simp add: utf8_valid_unfold [of "take n bs @ r" c n])

lemma utf8_valid_replacement: "utf8_valid (REPLACEMENT @ r) \<longleftrightarrow> utf8_valid r"
  by (subst utf8_valid_unfold [of _ 65533 3])
    (simp_all add: REPLACEMENT_def utf8_next_def second_ok_def second_range_def is_continuation_def)

text \<open>What lossy decoding returns is always valid UTF-8, and never shorter than its input.\<close>

lemma from_utf8_lossy_is_valid: "utf8_valid (from_utf8_lossy bs)"
proof (induction bs rule: from_utf8_lossy.induct)
  case (1 bs)
  then show ?case
    by (cases "bs = []"; cases "utf8_next bs")
      (auto simp: from_utf8_lossy.simps [of bs] utf8_valid_replacement utf8_valid_char_append)
qed

lemma utf8_bad_len_le: "utf8_bad_len bs \<le> 3"
  by (auto simp: utf8_bad_len_def Let_def split: list.splits)

lemma from_utf8_lossy_length: "length bs \<le> length (from_utf8_lossy bs)"
proof (induction bs rule: from_utf8_lossy.induct)
  case (1 bs)
  show ?case
  proof (cases "bs = []")
    case False
    show ?thesis
    proof (cases "utf8_next bs")
      case None
      then have "length (drop (utf8_bad_len bs) bs) \<le> length (from_utf8_lossy (drop (utf8_bad_len bs) bs))"
        using 1 False by blast
      with None False utf8_bad_len_le [of bs] show ?thesis
        by (simp add: from_utf8_lossy.simps [of bs] REPLACEMENT_def)
    next
      case (Some cn)
      then obtain c n where cn: "utf8_next bs = Some (c, n)" by (cases cn) auto
      then have "length (drop n bs) \<le> length (from_utf8_lossy (drop n bs))"
        using 1 False by blast
      with cn False utf8_next_bounds [OF cn] show ?thesis
        by (simp add: from_utf8_lossy.simps [of bs])
    qed
  qed simp
qed

text \<open>A newline is a character of its own: cutting valid text there leaves valid text on both sides.\<close>

lemma utf8_next_before_ascii:
  assumes "utf8_next (xs @ b # ys) = Some (c, n)" and "byte_val b < 128" and "xs \<noteq> []"
  shows "n \<le> length xs"
proof (rule ccontr)
  assume "\<not> n \<le> length xs"
  moreover have "0 < length xs" using assms(3) by simp
  ultimately have "128 \<le> byte_val ((xs @ b # ys) ! length xs)"
    by (cases rule: utf8_next_cases [OF assms(1)])
      (auto simp: nth_Cons' less_Suc_eq numeral_eq_Suc simp del: nth_append_length)
  with assms(2) show False by simp
qed

lemma utf8_valid_split:
  assumes "utf8_valid (xs @ b # ys)" and "byte_val b < 128"
  shows "utf8_valid xs \<and> utf8_valid ys"
  using assms(1)
proof (induction xs rule: length_induct)
  case (1 xs)
  show ?case
  proof (cases "xs = []")
    case True
    have "utf8_next (b # ys) = Some (byte_val b, 1)"
      using assms(2) by (simp add: utf8_next_def)
    then have "utf8_valid (b # ys) \<longleftrightarrow> utf8_valid ys"
      by (simp add: utf8_valid_unfold)
    with 1 True show ?thesis by simp
  next
    case False
    with 1 obtain c n where cn: "utf8_next (xs @ b # ys) = Some (c, n)"
        and v: "utf8_valid (drop n (xs @ b # ys))"
      using utf8_decode_step [of "xs @ b # ys"] by blast
    have n: "0 < n" "n \<le> length xs"
      using utf8_next_bounds [OF cn] utf8_next_before_ascii [OF cn assms(2) False] by simp_all
    then have "utf8_next (take n xs @ drop n xs) = Some (c, n)"
      using utf8_next_take [OF cn, of "drop n xs"] by simp
    then have "utf8_valid xs \<longleftrightarrow> utf8_valid (drop n xs)"
      by (simp add: utf8_valid_unfold)
    moreover have "length (drop n xs) < length xs" using n by simp
    moreover have "utf8_valid (drop n xs @ b # ys)" using v n by simp
    ultimately show ?thesis using 1 by blast
  qed
qed

section \<open>The newline table\<close>

text \<open>\<open>memchr_iter\<close>: the positions of a byte, counted from \<open>k\<close>.\<close>

fun memchr_iter :: "u8 \<Rightarrow> nat \<Rightarrow> bytes \<Rightarrow> nat list" where
  "memchr_iter b k [] = []"
| "memchr_iter b k (x # xs) = (if x = b then k # memchr_iter b (k + 1) xs else memchr_iter b (k + 1) xs)"

record line_index =
  li_newline_offsets :: "nat list"
  li_content_len :: nat

definition line_index_new :: "bytes \<Rightarrow> line_index" where
  "line_index_new content =
     \<lparr>li_newline_offsets = memchr_iter newline 0 content, li_content_len = length content\<rparr>"

definition line_count :: "line_index \<Rightarrow> nat" where
  "line_count li =
     (if li_content_len li = 0 then 0
      else if li_newline_offsets li \<noteq> [] \<and> last (li_newline_offsets li) = li_content_len li - 1
      then length (li_newline_offsets li)
      else length (li_newline_offsets li) + 1)"

text \<open>\<open>partition_point\<close> on a partitioned vector: how many leading elements satisfy the test.\<close>

definition partition_point :: "('a \<Rightarrow> bool) \<Rightarrow> 'a list \<Rightarrow> nat" where
  "partition_point P xs = length (takeWhile P xs)"

definition line_at_byte :: "line_index \<Rightarrow> nat \<Rightarrow> u32" where
  "line_at_byte li byte_offset =
     of_nat (partition_point (\<lambda>nl. nl < byte_offset) (li_newline_offsets li) + 1)"

definition column_at_byte :: "line_index \<Rightarrow> nat \<Rightarrow> u32" where
  "column_at_byte li byte_offset =
     (let line_0 = partition_point (\<lambda>nl. nl < byte_offset) (li_newline_offsets li)
      in if line_0 = 0 then of_nat (byte_offset + 1)
         else of_nat (byte_offset - li_newline_offsets li ! (line_0 - 1)))"

text \<open>\<open>&xs[i]\<close> panics out of range.\<close>

definition index_at :: "nat \<Rightarrow> 'a list \<Rightarrow> 'a result" where
  "index_at i xs = (if i < length xs then Inr (xs ! i) else panic)"

text \<open>Where a line starts, and \<open>line_start_offset\<close> of the verifier, which is the same computation.\<close>

definition line_start_offset :: "line_index \<Rightarrow> u32 \<Rightarrow> nat result" where
  "line_start_offset li line_number =
     (let line_0 = unat (line_number - 1)
      in if line_0 = 0 then Inr 0
         else obind (index_at (line_0 - 1) (li_newline_offsets li)) (\<lambda>nl. Inr (nl + 1)))"

text \<open>\<open>str::from_utf8(s).unwrap_or("")\<close> without a trailing carriage return.\<close>

definition strip_cr :: "text_utf8 \<Rightarrow> text_utf8" where
  "strip_cr s = (if s \<noteq> [] \<and> last s = CHR 0x0D then butlast s else s)"

definition utf8_or_empty :: "bytes \<Rightarrow> text_utf8" where
  "utf8_or_empty s = (if utf8_valid s then s else [])"

definition line_content :: "line_index \<Rightarrow> bytes \<Rightarrow> u32 \<Rightarrow> text_utf8 result" where
  "line_content li content line_number =
     obind (line_start_offset li line_number) (\<lambda>start.
       let line_0 = unat (line_number - 1);
           stop = (if line_0 < length (li_newline_offsets li) then li_newline_offsets li ! line_0
                   else li_content_len li)
       in obind (slice_at start stop content) (\<lambda>s. Inr (strip_cr (utf8_or_empty s))))"

section \<open>Lines of a text\<close>

text \<open>The reference: the pieces between newlines, where each starts, and the line of an offset.\<close>

definition lines_of :: "bytes \<Rightarrow> bytes list" where
  "lines_of content = split_on newline content"

definition line_start :: "bytes \<Rightarrow> nat \<Rightarrow> nat" where
  "line_start content i = offset_of (map (\<lambda>l. l @ [newline]) (lines_of content)) i"

definition line_of :: "bytes \<Rightarrow> nat \<Rightarrow> nat" where
  "line_of content p = length (filter (\<lambda>b. b = newline) (take p content))"

lemma memchr_iter_append:
  "memchr_iter b k (xs @ ys) = memchr_iter b k xs @ memchr_iter b (k + length xs) ys"
  by (induction xs arbitrary: k) auto

lemma memchr_iter_none: "b \<notin> set xs \<Longrightarrow> memchr_iter b k xs = []"
  by (induction xs arbitrary: k) auto

lemma memchr_iter_shift: "memchr_iter b (k + j) xs = map (\<lambda>i. i + j) (memchr_iter b k xs)"
  by (induction xs arbitrary: k) (simp_all, metis add_Suc)

lemma memchr_iter_ge: "i \<in> set (memchr_iter b k xs) \<Longrightarrow> k \<le> i \<and> i < k + length xs"
  by (induction xs arbitrary: k) (fastforce split: if_splits)+

lemma sorted_memchr_iter: "sorted_wrt (<) (memchr_iter b k xs)"
  by (induction xs arbitrary: k) (auto dest: memchr_iter_ge)

lemma length_memchr_iter: "length (memchr_iter b k xs) = length (filter (\<lambda>x. x = b) xs)"
  by (induction xs arbitrary: k) auto

lemma length_split_on: "length (split_on b xs) = length (filter (\<lambda>x. x = b) xs) + 1"
  by (induction xs) (auto split: list.splits)

lemma length_lines_of: "length (lines_of content) = length (memchr_iter newline k content) + 1"
  by (simp add: lines_of_def length_split_on length_memchr_iter)

lemma lines_of_not_Nil [simp]: "lines_of content \<noteq> []" "0 < length (lines_of content)"
  by (simp_all add: lines_of_def)

lemma line_start_0 [simp]: "line_start content 0 = 0"
  by (simp add: line_start_def)

lemma line_start_Suc:
  "i < length (lines_of content) \<Longrightarrow>
     line_start content (Suc i) = line_start content i + length (lines_of content ! i) + 1"
  by (simp add: line_start_def offset_of_Suc)

lemma concat_lines: "concat (map (\<lambda>l. l @ [newline]) (lines_of content)) = content @ [newline]"
proof (unfold lines_of_def, induction content)
  case Nil
  then show ?case by simp
next
  case (Cons b bs)
  then show ?case by (cases "split_on newline bs") auto
qed

lemma line_start_total: "line_start content (length (lines_of content)) = length content + 1"
  unfolding line_start_def
  using offset_of_length [of "map (\<lambda>l. l @ [newline]) (lines_of content)"] concat_lines [of content]
  by simp

lemma line_end_le:
  assumes "i < length (lines_of content)"
  shows "line_start content i + length (lines_of content ! i) \<le> length content"
proof -
  have "line_start content (Suc i) \<le> length content + 1"
    using offset_of_le_concat [of "map (\<lambda>l. l @ [newline]) (lines_of content)" "Suc i"]
    by (simp add: line_start_def concat_lines)
  with line_start_Suc [OF assms] show ?thesis by simp
qed

lemma slice_line:
  assumes "i < length (lines_of content)"
  shows "slice (line_start content i) (line_start content i + length (lines_of content ! i)) content
    = lines_of content ! i"
proof -
  let ?e = "map (\<lambda>l. l @ [newline]) (lines_of content)" and ?a = "line_start content i"
  let ?l = "lines_of content ! i"
  have "slice ?a (line_start content (Suc i)) (content @ [newline]) = ?l @ [newline]"
    using slice_concat [of i ?e ?a "[]" "line_start content (Suc i)" "[]"] assms
    by (simp add: concat_lines) (simp add: line_start_def)
  then have "take (length ?l) (slice ?a (line_start content (Suc i)) (content @ [newline])) = ?l"
    by simp
  moreover have "take (length ?l) (slice ?a (line_start content (Suc i)) (content @ [newline]))
      = slice ?a (?a + length ?l) (content @ [newline])"
    unfolding slice_def take_take line_start_Suc [OF assms] by (simp add: min_def del: drop_append)
  moreover have "slice ?a (?a + length ?l) (content @ [newline]) = slice ?a (?a + length ?l) content"
    by (rule slice_append_left [OF line_end_le [OF assms]])
  ultimately show ?thesis by simp
qed

lemma newline_offset:
  "i < length (memchr_iter newline k content) \<Longrightarrow>
     memchr_iter newline k content ! i = k + line_start content i + length (lines_of content ! i)"
proof (induction content arbitrary: i k)
  case Nil
  then show ?case by simp
next
  case (Cons b bs)
  obtain p ps where ps: "split_on newline bs = p # ps"
    by (cases "split_on newline bs") simp_all
  show ?case
  proof (cases "b = newline")
    case True
    with Cons show ?thesis
      by (cases i) (simp_all add: lines_of_def line_start_def)
  next
    case False
    with Cons.prems have "i < length (memchr_iter newline (k + 1) bs)" by simp
    from Cons.IH [OF this] False ps show ?thesis
      by (cases i) (simp_all add: lines_of_def line_start_def)
  qed
qed

lemma newline_offset_line:
  assumes "i < length (memchr_iter newline 0 content)"
  shows "memchr_iter newline 0 content ! i = line_start content i + length (lines_of content ! i)"
    "memchr_iter newline 0 content ! i + 1 = line_start content (Suc i)"
  using newline_offset [OF assms] assms line_start_Suc [of i content]
  by (simp_all add: length_lines_of [of _ 0])

lemma partition_memchr:
  "partition_point (\<lambda>nl. nl < k + p) (memchr_iter newline k content) = line_of content p"
proof (induction content arbitrary: k p)
  case Nil
  then show ?case by (simp add: partition_point_def line_of_def)
next
  case (Cons b bs)
  show ?case
  proof (cases p)
    case 0
    have "takeWhile (\<lambda>nl. nl < k) (memchr_iter newline k (b # bs)) = []"
      using memchr_iter_ge [of _ newline k "b # bs"]
      by (cases "memchr_iter newline k (b # bs)")
        (simp_all add: takeWhile_eq_Nil_iff leD del: memchr_iter.simps)
    with 0 show ?thesis by (simp add: partition_point_def line_of_def del: memchr_iter.simps)
  next
    case (Suc q)
    with Cons.IH [of "k + 1" q] show ?thesis
      by (auto simp: partition_point_def line_of_def)
  qed
qed

lemma partition_line_of:
  "partition_point (\<lambda>nl. nl < p) (li_newline_offsets (line_index_new content)) = line_of content p"
  using partition_memchr [of 0 p content] by (simp add: line_index_new_def)

lemma line_of_less: "line_of content p < length (lines_of content)"
proof -
  have "line_of content p \<le> length (filter (\<lambda>b. b = newline) content)"
    unfolding line_of_def by (metis append_take_drop_id filter_append le_add1 length_append)
  then show ?thesis
    by (simp add: length_lines_of [of _ 0] length_memchr_iter)
qed

text \<open>An offset lies on its line.\<close>

lemma line_of_bounds:
  assumes "p \<le> length content"
  shows "line_start content (line_of content p) \<le> p"
    "p \<le> line_start content (line_of content p) + length (lines_of content ! line_of content p)"
proof -
  let ?nls = "memchr_iter newline 0 content" and ?n = "line_of content p"
  have n: "?n = length (takeWhile (\<lambda>nl. nl < p) ?nls)"
    using partition_memchr [of 0 p content] by (simp add: partition_point_def)
  show "line_start content ?n \<le> p"
  proof (cases ?n)
    case (Suc m)
    then have "takeWhile (\<lambda>nl. nl < p) ?nls ! m \<in> set (takeWhile (\<lambda>nl. nl < p) ?nls)"
      using n by (intro nth_mem) simp
    then have "takeWhile (\<lambda>nl. nl < p) ?nls ! m < p"
      using set_takeWhileD [of _ "\<lambda>nl. nl < p" ?nls] by blast
    moreover have "m < length ?nls"
      using Suc n length_takeWhile_le [of "\<lambda>nl. nl < p" ?nls] by simp
    moreover have "takeWhile (\<lambda>nl. nl < p) ?nls ! m = ?nls ! m"
      using Suc n by (intro takeWhile_nth) simp
    ultimately have "?nls ! m < p"
      by metis
    with newline_offset_line(2) [OF \<open>m < length ?nls\<close>] Suc show ?thesis by simp
  qed simp
  show "p \<le> line_start content ?n + length (lines_of content ! ?n)"
  proof (cases "?n < length ?nls")
    case True
    then have "\<not> ?nls ! ?n < p"
      using n nth_length_takeWhile [of "\<lambda>nl. nl < p" ?nls] by simp
    with newline_offset_line(1) [OF True] show ?thesis by simp
  next
    case False
    with line_of_less [of content p] have last: "Suc ?n = length (lines_of content)"
      by (simp add: length_lines_of [of _ 0])
    from line_start_Suc [OF line_of_less, of content p] show ?thesis
      unfolding last line_start_total using assms by simp
  qed
qed

lemma lines_valid: "utf8_valid content \<Longrightarrow> l \<in> set (lines_of content) \<Longrightarrow> utf8_valid l"
proof (unfold lines_of_def, induction content rule: length_induct)
  case (1 content)
  show ?case
  proof (cases "newline \<in> set content")
    case False
    with 1 show ?thesis by (simp add: split_on_no_sep)
  next
    case True
    then obtain a b where split: "content = a @ newline # b" and "newline \<notin> set a"
      by (meson split_list_first)
    then have "split_on newline content = a # split_on newline b"
      by (simp add: split_on_append split_on_no_sep)
    moreover have "utf8_valid a" and "utf8_valid b"
      using 1(2) utf8_valid_split [of a newline b] split by simp_all
    moreover have "length a < length content" and "length b < length content"
      using split by simp_all
    ultimately show ?thesis using 1 by auto
  qed
qed

text \<open>The table of a text answers as its lines say.\<close>

lemma line_at_byte_new:
  "line_at_byte (line_index_new content) p = of_nat (line_of content p + 1)"
  by (simp add: line_at_byte_def partition_line_of)

lemma u32_pred: "n < u32_max \<Longrightarrow> unat ((of_nat (n + 1) :: u32) - 1) = n"
  by (simp add: unat_of_nat take_bit_nat_eq_self)

lemma line_start_offset_new:
  assumes "n < length (lines_of content)" and "n < u32_max"
  shows "line_start_offset (line_index_new content) (of_nat (n + 1)) = Inr (line_start content n)"
proof (cases n)
  case 0
  then show ?thesis by (simp add: line_start_offset_def)
next
  case (Suc m)
  then have m: "m < length (memchr_iter newline 0 content)"
    using assms by (simp add: length_lines_of [of _ 0])
  then show ?thesis
    using newline_offset_line(2) [OF m] u32_pred [OF assms(2)] Suc
    by (simp add: line_start_offset_def line_index_new_def index_at_def Let_def)
qed

lemma line_content_new:
  assumes "n < length (lines_of content)" and "n < u32_max" and "length content \<le> length text"
  shows "line_content (line_index_new content) text (of_nat (n + 1))
    = Inr (strip_cr (utf8_or_empty
        (slice (line_start content n) (line_start content n + length (lines_of content ! n)) text)))"
proof -
  let ?nls = "memchr_iter newline 0 content"
  let ?stop = "line_start content n + length (lines_of content ! n)"
  have stop: "(if n < length ?nls then ?nls ! n else length content) = ?stop"
  proof (cases "n < length ?nls")
    case True
    then show ?thesis by (simp add: newline_offset_line(1))
  next
    case False
    with assms(1) have last: "Suc n = length (lines_of content)"
      by (simp add: length_lines_of [of _ 0])
    from line_start_Suc [OF assms(1)] False show ?thesis
      unfolding last line_start_total by simp
  qed
  have ok: "slice_ok (line_start content n) ?stop text"
    using line_end_le [OF assms(1)] assms(3) by (simp add: slice_ok_def)
  show ?thesis
    unfolding line_content_def line_start_offset_new [OF assms(1,2)] obind_Inr Let_def
      u32_pred [OF assms(2)]
    unfolding line_index_new_def line_index.simps stop slice_at_ok [OF ok] obind_Inr ..
qed

lemma line_content_valid:
  assumes "n < length (lines_of content)" and "n < u32_max" and "utf8_valid content"
  shows "line_content (line_index_new content) content (of_nat (n + 1)) = Inr (strip_cr (lines_of content ! n))"
  using line_content_new [OF assms(1,2), of content] lines_valid [OF assms(3), of "lines_of content ! n"] assms(1)
  by (simp add: slice_line utf8_or_empty_def)

lemma line_count_le: "line_count (line_index_new content) \<le> length (lines_of content)"
  by (simp add: line_count_def line_index_new_def length_lines_of [of _ 0])

lemma length_lines_le: "length (lines_of content) \<le> length content + 1"
  by (simp add: length_lines_of [of _ 0] length_memchr_iter)

text \<open>
  C39. The line index answers as the text itself: for a valid UTF-8 text below 4 GiB and any byte
  offset in it, the line number the binary search returns is that of a line whose extent contains
  the offset, its start is where that line starts, and its content is the piece between the
  newlines, without a trailing carriage return; nothing panics.
\<close>

theorem line_index_correct:
  assumes "utf8_valid content" and "length content < u32_max" and "p \<le> length content"
  shows "\<exists>n < length (lines_of content).
    line_at_byte (line_index_new content) p = of_nat (n + 1) \<and>
    line_start_offset (line_index_new content) (of_nat (n + 1)) = Inr (line_start content n) \<and>
    line_start content n \<le> p \<and> p \<le> line_start content n + length (lines_of content ! n) \<and>
    line_content (line_index_new content) content (of_nat (n + 1)) = Inr (strip_cr (lines_of content ! n))"
proof (intro exI conjI)
  let ?n = "line_of content p"
  show n: "?n < length (lines_of content)"
    by (rule line_of_less)
  with assms(2) length_lines_le [of content] have small: "?n < u32_max" by linarith
  show "line_at_byte (line_index_new content) p = of_nat (?n + 1)"
    by (rule line_at_byte_new)
  show "line_start_offset (line_index_new content) (of_nat (?n + 1)) = Inr (line_start content ?n)"
    by (rule line_start_offset_new [OF n small])
  show "line_start content ?n \<le> p" "p \<le> line_start content ?n + length (lines_of content ! ?n)"
    by (rule line_of_bounds [OF assms(3)])+
  show "line_content (line_index_new content) content (of_nat (?n + 1)) = Inr (strip_cr (lines_of content ! ?n))"
    by (rule line_content_valid [OF n small assms(1)])
qed

definition sample_text :: bytes where
  "sample_text = ''ab'' @ [CHR 0x0D, newline] @ ''cde'' @ [newline, newline] @ ''f''"

lemma sample_text_valid: "utf8_valid sample_text" "length sample_text = 10"
proof -
  have "is_ascii_text sample_text" by code_simp
  then show "utf8_valid sample_text" by (rule utf8_valid_ascii)
  show "length sample_text = 10" by (simp add: sample_text_def)
qed

theorem line_index_correct_witness:
  "\<exists>n < length (lines_of sample_text).
    line_at_byte (line_index_new sample_text) 5 = of_nat (n + 1) \<and>
    line_content (line_index_new sample_text) sample_text (of_nat (n + 1)) = Inr (strip_cr (lines_of sample_text ! n))"
proof -
  have "length sample_text < u32_max" "5 \<le> length sample_text"
    by (simp_all add: sample_text_valid)
  from line_index_correct [OF sample_text_valid(1) this] show ?thesis
    by blast
qed

end
