(* ===== verification/Search_Types.thy ===== *)
theory Search_Types
  imports Languages Line_Index Highlight Decimal
begin

text \<open>
  The result types of the search engine (\<open>ferret-core/src/search.rs\<close>), with pagination and the
  plain-text form of a matched file. A relevance score is a 64-bit float in the source; nothing here
  computes with it, so the type of scores is a parameter. A duration is its number of nanoseconds.
\<close>

datatype match_pattern =
  MP_Literal text_utf8
| MP_Regex text_utf8
| MP_LiteralCaseInsensitive text_utf8

record context_line =
  cl_line_number :: u32
  cl_content :: text_utf8
  cl_highlight_tokens :: "token list"

record line_match =
  lm_line_number :: u32
  lm_content :: text_utf8
  lm_ranges :: "(nat \<times> nat) list"
  lm_context_before :: "context_line list"
  lm_context_after :: "context_line list"
  lm_highlight_tokens :: "token list"

record 'score file_match =
  mf_file_id :: file_id
  mf_path :: text_utf8
  mf_language :: language
  mf_lines :: "line_match list"
  mf_score :: 'score

record context_block =
  cb_before :: "context_line list"
  cb_matches :: "line_match list"
  cb_after :: "context_line list"

record search_options =
  so_context_lines :: nat
  so_max_results :: "nat option"

record 'score search_result =
  sr_total_match_count :: nat
  sr_total_file_count :: nat
  sr_files :: "'score file_match list"
  sr_duration :: nat

definition paginate :: "'s search_result \<Rightarrow> nat \<Rightarrow> nat \<Rightarrow> 's search_result" where
  "paginate r offset limit =
     \<lparr>sr_total_match_count = sr_total_match_count r,
      sr_total_file_count = sr_total_file_count r,
      sr_files = take limit (drop offset (sr_files r)),
      sr_duration = sr_duration r\<rparr>"

definition display_context_line :: "context_line \<Rightarrow> text_utf8" where
  "display_context_line c =
     ''L'' @ display_nat (unat (cl_line_number c)) @ '':  '' @ cl_content c @ [newline]"

definition display_line_match :: "line_match \<Rightarrow> text_utf8" where
  "display_line_match m =
     concat (map display_context_line (lm_context_before m))
     @ ''L'' @ display_nat (unat (lm_line_number m)) @ '':* '' @ lm_content m @ [newline]
     @ concat (map display_context_line (lm_context_after m))"

definition display_file_match :: "'s file_match \<Rightarrow> text_utf8" where
  "display_file_match f =
     ''## '' @ from_utf8_lossy (mf_path f) @ '' ('' @ display_language (mf_language f) @ '', ''
     @ display_nat (length (mf_lines f)) @ '' matches)'' @ [newline]
     @ concat (map display_line_match (mf_lines f))"

lemma pages_take: "0 < k \<Longrightarrow> concat (map (\<lambda>i. take k (drop (i * k) xs)) [0..<n]) = take (n * k) xs"
proof (induction n)
  case 0
  then show ?case by simp
next
  case (Suc n)
  then show ?case using take_add [of "n * k" k xs] by (simp add: add.commute)
qed

text \<open>
  Paging through a result set loses and repeats nothing: the pages of any positive size, taken
  in order until the last file is reached, concatenate to the files of the result, each page holds
  at most \<open>limit\<close> files, and the totals on every page are those of the whole set.
\<close>

theorem paginate_pages:
  assumes "0 < limit" and "length (sr_files r) \<le> n * limit"
  shows "concat (map (\<lambda>i. sr_files (paginate r (i * limit) limit)) [0..<n]) = sr_files r \<and>
    (\<forall>i. length (sr_files (paginate r (i * limit) limit)) \<le> limit \<and>
      sr_total_match_count (paginate r (i * limit) limit) = sr_total_match_count r \<and>
      sr_total_file_count (paginate r (i * limit) limit) = sr_total_file_count r)"
  using pages_take [OF assms(1), of "sr_files r" n] assms(2) by (simp add: paginate_def)

theorem paginate_pages_witness:
  "\<forall>f g h :: nat file_match. concat (map (\<lambda>i. sr_files (paginate \<lparr>sr_total_match_count = 3,
      sr_total_file_count = 3, sr_files = [f, g, h], sr_duration = 0\<rparr> (i * 2) 2)) [0..<2]) = [f, g, h]"
proof (intro allI)
  fix f g h :: "nat file_match"
  let ?r = "\<lparr>sr_total_match_count = 3, sr_total_file_count = 3, sr_files = [f, g, h], sr_duration = 0\<rparr>"
  have "length (sr_files ?r) \<le> 2 * 2" and "(0::nat) < 2"
    by simp_all
  from conjunct1 [OF paginate_pages [OF this(2,1)]]
  show "concat (map (\<lambda>i. sr_files (paginate ?r (i * 2) 2)) [0..<2]) = [f, g, h]"
    by simp
qed

end
