(* ===== verification/Verify.thy ===== *)
theory Verify
  imports Search_Types
begin

text \<open>
  Content verification (\<open>ferret-core/src/verify.rs\<close>): after the trigram index has produced
  candidate files, the verifier finds the pattern in a file's bytes and reports the matching lines
  with their highlight ranges, or blocks of lines with context. The \<open>regex\<close> crate is a parameter:
  compilation, escaping of a literal, and the successive matches of a compiled expression. The
  lemmas reduce both kinds of verification to one reference, the grouping of match ranges by the
  lines of the text, and show that verification never panics.
\<close>

section \<open>The regex crate\<close>

text \<open>
  \<open>re_build\<close> compiles with the size limit of one megabyte the code sets; \<open>re_find_iter\<close> is the list
  of the ranges \<open>find_iter\<close> yields.
\<close>

record 'r regex_crate =
  re_build :: "text_utf8 \<Rightarrow> 'r option"
  re_escape :: "text_utf8 \<Rightarrow> text_utf8"
  re_find_iter :: "'r \<Rightarrow> text_utf8 \<Rightarrow> (nat \<times> nat) list"

section \<open>The verifier\<close>

record 'r content_verifier =
  cv_pattern :: match_pattern
  cv_context_lines :: u32
  cv_compiled_regex :: "'r option"

definition content_verifier_new :: "'r regex_crate \<Rightarrow> match_pattern \<Rightarrow> u32 \<Rightarrow> 'r content_verifier" where
  "content_verifier_new rx pattern context_lines =
     \<lparr>cv_pattern = pattern,
      cv_context_lines = min context_lines 1000,
      cv_compiled_regex =
        (case pattern of
           MP_Regex pat \<Rightarrow> re_build rx pat
         | MP_LiteralCaseInsensitive lit \<Rightarrow> re_build rx (''(?i)'' @ re_escape rx lit)
         | MP_Literal _ \<Rightarrow> None)\<rparr>"

text \<open>\<open>BTreeMap::entry(k).or_default().push(v)\<close>: the keys stay in increasing order.\<close>

fun btree_push :: "'k::linorder \<Rightarrow> 'v \<Rightarrow> ('k \<times> 'v list) list \<Rightarrow> ('k \<times> 'v list) list" where
  "btree_push k v [] = [(k, [v])]"
| "btree_push k v ((k', vs) # m) =
     (if k < k' then (k, [v]) # (k', vs) # m
      else if k = k' then (k', vs @ [v]) # m
      else (k', vs) # btree_push k v m)"

type_synonym matches_by_line = "(u32 \<times> (nat \<times> nat) list) list"

text \<open>The body of both match loops: file the range under its line, relative to the line's start.\<close>

definition record_range :: "line_index \<Rightarrow> nat \<times> nat \<Rightarrow> matches_by_line \<Rightarrow> matches_by_line result" where
  "record_range li rng m =
     (case rng of (abs_start, abs_end) \<Rightarrow>
        let line_num = line_at_byte li abs_start
        in obind (line_start_offset li line_num) (\<lambda>line_start.
           let rel_start = abs_start - line_start
           in Inr (btree_push line_num (rel_start, rel_start + (abs_end - abs_start)) m)))"

text \<open>
  The search for a literal goes on one byte after the start of the last occurrence, so that
  overlapping occurrences are found.
\<close>

function literal_loop ::
  "line_index \<Rightarrow> bytes \<Rightarrow> bytes \<Rightarrow> nat \<Rightarrow> matches_by_line \<Rightarrow> matches_by_line result" where
  "literal_loop li text_bytes pattern_bytes search_start m =
     (if search_start + length pattern_bytes \<le> length text_bytes then
        (case find_sub (drop search_start text_bytes) pattern_bytes of
           Some pos \<Rightarrow>
             let abs_start = search_start + pos
             in obind (record_range li (abs_start, abs_start + length pattern_bytes) m)
                  (\<lambda>m'. literal_loop li text_bytes pattern_bytes (abs_start + 1) m')
         | None \<Rightarrow> Inr m)
      else Inr m)"
  by pat_completeness auto
termination
  by (relation "measure (\<lambda>(li, text, pat, start, m). length text + 1 - start)") auto

declare literal_loop.simps [simp del]

fun record_ranges :: "line_index \<Rightarrow> matches_by_line \<Rightarrow> (nat \<times> nat) list \<Rightarrow> matches_by_line result" where
  "record_ranges li m [] = Inr m"
| "record_ranges li m (r # rs) = obind (record_range li r m) (\<lambda>m'. record_ranges li m' rs)"

definition line_matches_of :: "line_index \<Rightarrow> bytes \<Rightarrow> matches_by_line \<Rightarrow> line_match list result" where
  "line_matches_of li text m =
     collect_results (\<lambda>(line_num, ranges). obind (line_content li text line_num) (\<lambda>content.
       Inr \<lparr>lm_line_number = line_num, lm_content = content, lm_ranges = ranges,
            lm_context_before = [], lm_context_after = [], lm_highlight_tokens = []\<rparr>)) m"

definition verify_literal :: "text_utf8 \<Rightarrow> line_index \<Rightarrow> bytes \<Rightarrow> line_match list result" where
  "verify_literal text li pattern_bytes =
     (if pattern_bytes = [] then Inr []
      else obind (literal_loop li text pattern_bytes 0 []) (line_matches_of li text))"

definition verify_regex ::
  "'r regex_crate \<Rightarrow> 'r content_verifier \<Rightarrow> text_utf8 \<Rightarrow> line_index \<Rightarrow> line_match list result" where
  "verify_regex rx v text li =
     (case cv_compiled_regex v of
        None \<Rightarrow> Inr []
      | Some re \<Rightarrow> obind (record_ranges li [] (re_find_iter rx re text)) (line_matches_of li text))"

definition verify_inner ::
  "'r regex_crate \<Rightarrow> 'r content_verifier \<Rightarrow> bytes \<Rightarrow> (line_match list \<times> line_index) result" where
  "verify_inner rx v content =
     (if content = [] then Inr ([], line_index_new content)
      else
        let li = line_index_new content;
            text = from_utf8_lossy content
        in obind (case cv_pattern v of
             MP_Literal lit \<Rightarrow> verify_literal text li lit
           | _ \<Rightarrow> verify_regex rx v text li) (\<lambda>ms. Inr (ms, li)))"

definition verify :: "'r regex_crate \<Rightarrow> 'r content_verifier \<Rightarrow> bytes \<Rightarrow> line_match list result" where
  "verify rx v content = obind (verify_inner rx v content) (\<lambda>(ms, li). Inr ms)"

section \<open>Context blocks\<close>

definition saturating_sub :: "u32 \<Rightarrow> u32 \<Rightarrow> u32" where
  "saturating_sub a b = (if b \<le> a then a - b else 0)"

text \<open>\<open>a..b\<close> over \<open>u32\<close>.\<close>

definition u32_range :: "u32 \<Rightarrow> u32 \<Rightarrow> u32 list" where
  "u32_range a b = map of_nat [unat a..<unat b]"

definition u32_range_incl :: "u32 \<Rightarrow> u32 \<Rightarrow> u32 list" where
  "u32_range_incl a b = map of_nat [unat a..<unat b + 1]"

definition should_merge :: "u32 \<Rightarrow> u32 \<Rightarrow> u32 \<Rightarrow> bool" where
  "should_merge context_lines last_line line = (unat line \<le> unat last_line + 2 * unat context_lines + 1)"

definition push_group :: "u32 \<Rightarrow> line_match list list \<Rightarrow> line_match \<Rightarrow> line_match list list" where
  "push_group context_lines groups m =
     (if groups \<noteq> []
         \<and> should_merge context_lines (lm_line_number (last (last groups))) (lm_line_number m)
      then butlast groups @ [last groups @ [m]] else groups @ [[m]])"

definition context_lines_at :: "line_index \<Rightarrow> bytes \<Rightarrow> u32 list \<Rightarrow> context_line list result" where
  "context_lines_at li content lns =
     collect_results (\<lambda>ln. obind (line_content li content ln) (\<lambda>c.
       Inr \<lparr>cl_line_number = ln, cl_content = c, cl_highlight_tokens = []\<rparr>)) lns"

definition build_block ::
  "line_index \<Rightarrow> bytes \<Rightarrow> u32 \<Rightarrow> u32 \<Rightarrow> line_match list \<Rightarrow> context_block result" where
  "build_block li content context_lines total_lines matches =
     (let first_match_line = lm_line_number (hd matches);
          last_match_line = lm_line_number (last matches);
          before_start = max (saturating_sub first_match_line context_lines) 1;
          after_end = min (last_match_line + context_lines) total_lines
      in obind (context_lines_at li content (u32_range before_start first_match_line)) (\<lambda>before.
         obind (context_lines_at li content (u32_range_incl (last_match_line + 1) after_end)) (\<lambda>after.
         Inr \<lparr>cb_before = before, cb_matches = matches, cb_after = after\<rparr>)))"

definition verify_with_context ::
  "'r regex_crate \<Rightarrow> 'r content_verifier \<Rightarrow> bytes \<Rightarrow> context_block list result" where
  "verify_with_context rx v content =
     obind (verify_inner rx v content) (\<lambda>(line_matches, li).
       if line_matches = [] then Inr []
       else
         let total_lines = of_nat (line_count li)
         in if cv_context_lines v = 0
            then Inr (map (\<lambda>m. \<lparr>cb_before = [], cb_matches = [m], cb_after = []\<rparr>) line_matches)
            else
              let groups = foldl (push_group (cv_context_lines v)) [] line_matches
              in collect_results (build_block li content (cv_context_lines v) total_lines) groups)"

section \<open>Match ranges grouped by line\<close>

text \<open>
  The positions at which a pattern occurs, and the grouping of match ranges by line: for each line on
  which a match starts, in order, the line's text and the ranges of the matches that start on it,
  relative to the start of the line, in the order they were found. The reference \<open>reported_matches\<close>
  does so for the lines of the text that was searched. The code finds the ranges in the decoded text and
  the lines in the raw bytes (\<open>grouped_matches\<close>), which is the same for valid UTF-8.
\<close>

definition occurrences :: "bytes \<Rightarrow> bytes \<Rightarrow> nat list" where
  "occurrences pat text = filter (\<lambda>p. prefix pat (drop p text)) [0..<length text]"

definition line_ranges :: "bytes \<Rightarrow> (nat \<times> nat) list \<Rightarrow> nat \<Rightarrow> (nat \<times> nat) list" where
  "line_ranges content rs n =
     map (\<lambda>(a, b). (a - line_start content n, a - line_start content n + (b - a)))
       (filter (\<lambda>r. line_of content (fst r) = n) rs)"

definition matched_lines :: "bytes \<Rightarrow> (nat \<times> nat) list \<Rightarrow> nat list" where
  "matched_lines content rs =
     filter (\<lambda>n. n \<in> line_of content ` fst ` set rs) [0..<length (lines_of content)]"

definition line_text :: "bytes \<Rightarrow> bytes \<Rightarrow> nat \<Rightarrow> text_utf8" where
  "line_text content text n =
     strip_cr (utf8_or_empty (slice (line_start content n)
       (line_start content n + length (lines_of content ! n)) text))"

definition plain_match :: "bytes \<Rightarrow> bytes \<Rightarrow> (nat \<times> nat) list \<Rightarrow> nat \<Rightarrow> line_match" where
  "plain_match content text rs n =
     \<lparr>lm_line_number = of_nat (n + 1), lm_content = line_text content text n,
      lm_ranges = line_ranges content rs n,
      lm_context_before = [], lm_context_after = [], lm_highlight_tokens = []\<rparr>"

definition grouped_matches :: "bytes \<Rightarrow> bytes \<Rightarrow> (nat \<times> nat) list \<Rightarrow> line_match list" where
  "grouped_matches content text rs = map (plain_match content text rs) (matched_lines content rs)"

definition reported_match :: "bytes \<Rightarrow> (nat \<times> nat) list \<Rightarrow> nat \<Rightarrow> line_match" where
  "reported_match text rs n =
     \<lparr>lm_line_number = of_nat (n + 1), lm_content = strip_cr (lines_of text ! n),
      lm_ranges = line_ranges text rs n,
      lm_context_before = [], lm_context_after = [], lm_highlight_tokens = []\<rparr>"

definition reported_matches :: "bytes \<Rightarrow> (nat \<times> nat) list \<Rightarrow> line_match list" where
  "reported_matches text rs = map (reported_match text rs) (matched_lines text rs)"

lemma insort_filter:
  fixes P :: "nat \<Rightarrow> bool"
  assumes "k < N" and "\<not> P k"
  shows "insort k (filter P [0..<N]) = filter (\<lambda>n. n = k \<or> P n) [0..<N]"
proof (rule sorted_distinct_set_unique)
  show "distinct (insort k (filter P [0..<N]))"
    using assms(2) by (simp add: distinct_insort)
  show "set (insort k (filter P [0..<N])) = set (filter (\<lambda>n. n = k \<or> P n) [0..<N])"
    using assms by (auto simp: set_insort_key)
qed (simp_all add: sorted_insort sorted_wrt_filter)

lemma btree_push_map_new:
  assumes "\<And>a b. a \<in> insert k (set ks) \<Longrightarrow> b \<in> insert k (set ks) \<Longrightarrow> a < b \<longleftrightarrow> key a < key b"
    and "sorted_wrt (<) ks" and "(k :: nat) \<notin> set ks"
  shows "btree_push (key k) v (map (\<lambda>n. (key n :: 'k::linorder, h n)) ks)
    = map (\<lambda>n. (key n, if n = k then [v] else h n)) (insort k ks)"
  using assms
proof (induction ks)
  case Nil
  then show ?case by simp
next
  case (Cons a ks)
  have ak: "a \<noteq> k" "a < k \<longleftrightarrow> key a < key k" "k < a \<longleftrightarrow> key k < key a"
    using Cons.prems(1) [of a k] Cons.prems(1) [of k a] Cons.prems(3) by auto
  have rest: "\<forall>n \<in> set ks. n \<noteq> k"
    using Cons.prems(3) by auto
  show ?case
  proof (cases "k < a")
    case True
    with ak rest show ?thesis by (auto simp: insort_is_Cons)
  next
    case False
    then have "key k \<noteq> key a" and "\<not> key k < key a" and "\<not> k \<le> a"
      using ak by auto
    with Cons show ?thesis by auto
  qed
qed

lemma btree_push_map_old:
  assumes "\<And>a b. a \<in> set ks \<Longrightarrow> b \<in> set ks \<Longrightarrow> a < b \<longleftrightarrow> key a < key b"
    and "sorted_wrt (<) ks" and "(k :: nat) \<in> set ks"
  shows "btree_push (key k) v (map (\<lambda>n. (key n :: 'k::linorder, h n)) ks)
    = map (\<lambda>n. (key n, if n = k then h n @ [v] else h n)) ks"
  using assms
proof (induction ks)
  case Nil
  then show ?case by simp
next
  case (Cons a ks)
  have ak: "a < k \<longleftrightarrow> key a < key k" "k < a \<longleftrightarrow> key k < key a"
    using Cons.prems(1) [of a k] Cons.prems(1) [of k a] Cons.prems(3) by auto
  show ?case
  proof (cases "k = a")
    case True
    with Cons.prems(2) show ?thesis by auto
  next
    case False
    with Cons.prems have "a < k" and "k \<in> set ks" by auto
    with Cons ak False show ?thesis by auto
  qed
qed

text \<open>Pushing every element under the key of its group lists the groups in order.\<close>

lemma foldl_btree_push:
  fixes grp :: "'r \<Rightarrow> nat" and key :: "nat \<Rightarrow> 'k::linorder"
  assumes mono: "\<And>a b. a < N \<Longrightarrow> b < N \<Longrightarrow> a < b \<longleftrightarrow> key a < key b"
    and "\<And>r. r \<in> set rs \<Longrightarrow> grp r < N"
  shows "foldl (\<lambda>m r. btree_push (key (grp r)) (val r) m) [] rs
    = map (\<lambda>n. (key n, map val (filter (\<lambda>r. grp r = n) rs))) (filter (\<lambda>n. n \<in> grp ` set rs) [0..<N])"
  using assms(2)
proof (induction rs rule: rev_induct)
  case Nil
  then show ?case by simp
next
  case (snoc r rs)
  let ?h = "\<lambda>n. map val (filter (\<lambda>r. grp r = n) rs)" and ?ks = "filter (\<lambda>n. n \<in> grp ` set rs) [0..<N]"
  have ks: "sorted_wrt (<) ?ks"
    by (intro sorted_wrt_filter sorted_wrt_upt)
  have ih: "foldl (\<lambda>m r. btree_push (key (grp r)) (val r) m) [] rs = map (\<lambda>n. (key n, ?h n)) ?ks"
    using snoc by simp
  have r: "grp r < N" using snoc.prems by simp
  show ?case
  proof (cases "grp r \<in> grp ` set rs")
    case True
    then have "btree_push (key (grp r)) (val r) (map (\<lambda>n. (key n, ?h n)) ?ks)
        = map (\<lambda>n. (key n, if n = grp r then ?h n @ [val r] else ?h n)) ?ks"
      using r by (intro btree_push_map_old mono ks) auto
    moreover have "filter (\<lambda>n. n \<in> grp ` set (rs @ [r])) [0..<N] = ?ks"
      using True by (intro filter_cong) auto
    ultimately show ?thesis
      using ih by (simp add: map_eq_conv)
  next
    case False
    then have "btree_push (key (grp r)) (val r) (map (\<lambda>n. (key n, ?h n)) ?ks)
        = map (\<lambda>n. (key n, if n = grp r then [val r] else ?h n)) (insort (grp r) ?ks)"
      using r by (intro btree_push_map_new mono ks) auto
    moreover have "insort (grp r) ?ks = filter (\<lambda>n. n \<in> grp ` set (rs @ [r])) [0..<N]"
      using insort_filter [OF r, of "\<lambda>n. n \<in> grp ` set rs"] False by simp
    moreover have "?h (grp r) = []"
      using False by (auto simp: filter_empty_conv image_iff)
    ultimately show ?thesis
      using ih by (simp add: map_eq_conv)
  qed
qed

section \<open>Both loops compute the reference\<close>

lemma u32_key_mono: "a < u32_max \<Longrightarrow> b < u32_max \<Longrightarrow> a < b \<longleftrightarrow> (of_nat (a + 1) :: u32) < of_nat (b + 1)"
  by (simp add: word_less_nat_alt unat_of_nat take_bit_nat_eq_self del: of_nat_add of_nat_Suc)

lemma line_small: "length content < u32_max \<Longrightarrow> n < length (lines_of content) \<Longrightarrow> n < u32_max"
  using length_lines_le [of content] by linarith

lemma record_range_new:
  assumes "length content < u32_max"
  shows "record_range (line_index_new content) (a, b) m
    = Inr (btree_push (of_nat (line_of content a + 1))
        (a - line_start content (line_of content a), a - line_start content (line_of content a) + (b - a)) m)"
  unfolding record_range_def prod.case Let_def line_at_byte_new
    line_start_offset_new [OF line_of_less line_small [OF assms line_of_less]] obind_Inr ..

lemma record_ranges_new:
  assumes "length content < u32_max"
  shows "record_ranges (line_index_new content) m rs
    = Inr (foldl (\<lambda>m r. btree_push (of_nat (line_of content (fst r) + 1))
        (fst r - line_start content (line_of content (fst r)),
         fst r - line_start content (line_of content (fst r)) + (snd r - fst r)) m) m rs)"
proof (induction rs arbitrary: m)
  case Nil
  then show ?case by simp
next
  case (Cons r rs)
  then show ?case
    by (cases r) (simp only: record_ranges.simps record_range_new [OF assms] obind_Inr foldl.simps prod.sel)
qed

lemma line_matches_of_new:
  assumes "length content < u32_max" and "length content \<le> length text"
    and "\<And>n. n \<in> set ns \<Longrightarrow> n < length (lines_of content)"
  shows "line_matches_of (line_index_new content) text (map (\<lambda>n. (of_nat (n + 1), f n)) ns)
    = Inr (map (\<lambda>n. \<lparr>lm_line_number = of_nat (n + 1), lm_content = line_text content text n,
        lm_ranges = f n, lm_context_before = [], lm_context_after = [], lm_highlight_tokens = []\<rparr>) ns)"
  using assms(3)
proof (induction ns)
  case Nil
  then show ?case by (simp add: line_matches_of_def)
next
  case (Cons n ns)
  then have n: "n < length (lines_of content)" by simp
  have "line_content (line_index_new content) text (of_nat (n + 1)) = Inr (line_text content text n)"
    unfolding line_text_def by (rule line_content_new [OF n line_small [OF assms(1) n] assms(2)])
  with Cons show ?case
    by (simp only: line_matches_of_def list.map collect_results.simps prod.case obind_Inr list.set_intros)
qed

lemma verify_ranges:
  assumes "length content < u32_max" and "length content \<le> length text"
  shows "obind (record_ranges (line_index_new content) [] rs) (line_matches_of (line_index_new content) text)
    = Inr (grouped_matches content text rs)"
proof -
  have lines: "length (lines_of content) \<le> u32_max"
    using length_lines_le [of content] assms(1) by linarith
  have "record_ranges (line_index_new content) [] rs
      = Inr (map (\<lambda>n. (of_nat (n + 1), map (\<lambda>r. (fst r - line_start content (line_of content (fst r)),
          fst r - line_start content (line_of content (fst r)) + (snd r - fst r)))
          (filter (\<lambda>r. line_of content (fst r) = n) rs)))
        (filter (\<lambda>n. n \<in> (\<lambda>r. line_of content (fst r)) ` set rs) [0..<length (lines_of content)]))"
    unfolding record_ranges_new [OF assms(1)]
    by (subst foldl_btree_push [where grp = "\<lambda>r. line_of content (fst r)" and key = "\<lambda>n. of_nat (n + 1)"])
      (use lines u32_key_mono in \<open>auto simp del: of_nat_Suc simp: line_of_less\<close>)
  also have "\<dots> = Inr (map (\<lambda>n. (of_nat (n + 1), line_ranges content rs n)) (matched_lines content rs))"
    unfolding matched_lines_def line_ranges_def image_image
    by (auto simp: case_prod_beta intro!: map_cong)
  finally show ?thesis
    using line_matches_of_new [OF assms, of "matched_lines content rs" "line_ranges content rs"]
    by (simp add: grouped_matches_def plain_match_def [abs_def] matched_lines_def del: of_nat_Suc of_nat_add)
qed

lemma filter_upt_first:
  assumes "a \<le> p" and "p < n" and "P p" and "\<And>q. a \<le> q \<Longrightarrow> q < p \<Longrightarrow> \<not> P q"
  shows "filter P [a..<n] = p # filter P [p + 1..<n]"
proof -
  have "[a..<n] = [a..<p] @ p # [p + 1..<n]"
    using assms(1,2) upt_add_eq_append [of a p "n - p"] by (simp add: upt_conv_Cons)
  moreover have "filter P [a..<p] = []"
    using assms(4) by (auto simp: filter_empty_conv)
  ultimately show ?thesis using assms(3) by simp
qed

lemma literal_loop_ranges:
  assumes "pat \<noteq> []"
  shows "literal_loop li hay pat start m
    = record_ranges li m (map (\<lambda>p. (p, p + length pat))
        (filter (\<lambda>p. prefix pat (drop p hay)) [start..<length hay]))"
  using assms
proof (induction li hay pat start m rule: literal_loop.induct)
  case (1 li hay pat start m)
  let ?P = "\<lambda>p. prefix pat (drop p hay)"
  show ?case
  proof (cases "start + length pat \<le> length hay")
    case False
    then have "filter ?P [start..<length hay] = []"
      using prefix_length_le by (fastforce simp: filter_empty_conv)
    with False show ?thesis by (simp add: literal_loop.simps)
  next
    case True
    show ?thesis
    proof (cases "find_sub (drop start hay) pat")
      case None
      have "\<not> ?P q" if "start \<le> q" "q < length hay" for q
        using None that find_sub_None [of "drop start hay" pat]
        by (auto dest!: spec [of _ "q - start"])
      then have "filter ?P [start..<length hay] = []"
        by (auto simp: filter_empty_conv)
      with True None show ?thesis by (simp add: literal_loop.simps)
    next
      case (Some pos)
      note first = find_sub_Some [OF Some]
      have here: "?P (start + pos)"
        using first by (simp add: add.commute)
      have before: "\<not> ?P q" if "start \<le> q" "q < start + pos" for q
        using first that by (auto dest!: spec [of _ "q - start"])
      have "start + pos < length hay"
        using prefix_length_le [OF here] 1(2) by (cases pat) auto
      then have list: "filter ?P [start..<length hay]
          = (start + pos) # filter ?P [start + pos + 1..<length hay]"
        using here before by (intro filter_upt_first) auto
      show ?thesis
      proof (cases "record_range li (start + pos, start + pos + length pat) m")
        case (Inl e)
        with True Some list show ?thesis by (simp add: literal_loop.simps)
      next
        case (Inr m')
        with 1(1) [OF True Some refl, of m'] 1(2) True Some list show ?thesis
          by (simp add: literal_loop.simps [of li hay pat start m])
      qed
    qed
  qed
qed

definition match_ranges :: "'r regex_crate \<Rightarrow> 'r content_verifier \<Rightarrow> bytes \<Rightarrow> (nat \<times> nat) list" where
  "match_ranges rx v content =
     (if content = [] then []
      else case cv_pattern v of
        MP_Literal lit \<Rightarrow>
          (if lit = [] then []
           else map (\<lambda>p. (p, p + length lit)) (occurrences lit (from_utf8_lossy content)))
      | _ \<Rightarrow> (case cv_compiled_regex v of
          None \<Rightarrow> [] | Some re \<Rightarrow> re_find_iter rx re (from_utf8_lossy content)))"

lemma grouped_Nil [simp]: "grouped_matches content hay [] = []"
  by (simp add: grouped_matches_def matched_lines_def)

lemma verify_inner_grouped:
  assumes "length content < u32_max"
  shows "verify_inner rx v content
    = Inr (grouped_matches content (from_utf8_lossy content) (match_ranges rx v content), line_index_new content)"
proof (cases "content = []")
  case True
  then show ?thesis by (simp add: verify_inner_def match_ranges_def)
next
  case False
  note ranges = verify_ranges [OF assms from_utf8_lossy_length]
  have lit: "verify_literal (from_utf8_lossy content) (line_index_new content) lit
      = Inr (grouped_matches content (from_utf8_lossy content)
          (if lit = [] then [] else map (\<lambda>p. (p, p + length lit)) (occurrences lit (from_utf8_lossy content))))" for lit
    by (simp add: verify_literal_def literal_loop_ranges occurrences_def [symmetric] ranges)
  have re: "verify_regex rx v (from_utf8_lossy content) (line_index_new content)
      = Inr (grouped_matches content (from_utf8_lossy content)
          (case cv_compiled_regex v of None \<Rightarrow> [] | Some re \<Rightarrow> re_find_iter rx re (from_utf8_lossy content)))"
    by (cases "cv_compiled_regex v") (simp_all add: verify_regex_def ranges)
  from False show ?thesis
    by (cases "cv_pattern v") (simp_all add: verify_inner_def match_ranges_def lit re)
qed

lemma verify_eq_grouped:
  "length content < u32_max \<Longrightarrow>
     verify rx v content
       = Inr (grouped_matches content (from_utf8_lossy content) (match_ranges rx v content))"
  by (simp add: verify_def verify_inner_grouped)

lemma matched_lines_sorted: "sorted_wrt (<) (matched_lines content rs)"
  by (simp add: matched_lines_def sorted_wrt_filter)

lemma matched_lines_less: "n \<in> set (matched_lines content rs) \<Longrightarrow> n < length (lines_of content)"
  by (simp add: matched_lines_def)

abbreviation line_no :: "line_match \<Rightarrow> nat" where
  "line_no m \<equiv> unat (lm_line_number m)"

lemma unat_line_number: "n < u32_max \<Longrightarrow> unat (of_nat (n + 1) :: u32) = n + 1"
  by (rule unat_of_nat_u32) simp

lemma grouped_line_numbers:
  assumes "length content < u32_max"
  shows "map line_no (grouped_matches content hay rs) = map Suc (matched_lines content rs)"
proof -
  have "line_no (plain_match content hay rs n) = Suc n" if "n \<in> set (matched_lines content rs)" for n
    using unat_line_number [OF line_small [OF assms matched_lines_less [OF that]]]
    by (simp add: plain_match_def del: of_nat_add of_nat_Suc)
  then show ?thesis by (simp add: grouped_matches_def)
qed

lemma sorted_wrt_map_Suc: "sorted_wrt (<) xs \<Longrightarrow> sorted_wrt (<) (map Suc xs)"
  by (simp add: sorted_wrt_map)

lemma grouped_sorted:
  "length content < u32_max \<Longrightarrow> sorted_wrt (<) (map line_no (grouped_matches content hay rs))"
  by (simp add: grouped_line_numbers sorted_wrt_map_Suc matched_lines_sorted)

lemma grouped_eq_Nil: "grouped_matches content hay rs = [] \<longleftrightarrow> rs = []"
proof (cases rs)
  case (Cons r rs')
  then have "line_of content (fst r) \<in> set (matched_lines content rs)"
    by (simp add: matched_lines_def line_of_less)
  then have "matched_lines content rs \<noteq> []" by auto
  with Cons show ?thesis by (simp add: grouped_matches_def)
qed simp

section \<open>Context blocks\<close>

definition context_of :: "bytes \<Rightarrow> nat \<Rightarrow> context_line" where
  "context_of content ln =
     \<lparr>cl_line_number = of_nat ln, cl_content = line_text content content (ln - 1), cl_highlight_tokens = []\<rparr>"

lemma context_lines_at_new:
  assumes "length content < u32_max" and "\<And>ln. ln \<in> set lns \<Longrightarrow> 1 \<le> ln \<and> ln \<le> length (lines_of content)"
  shows "context_lines_at (line_index_new content) content (map of_nat lns) = Inr (map (context_of content) lns)"
  using assms(2)
proof (induction lns)
  case Nil
  then show ?case by (simp add: context_lines_at_def)
next
  case (Cons ln lns)
  have "1 \<le> ln \<and> ln \<le> length (lines_of content)"
    by (rule Cons.prems) simp
  then have n: "ln - 1 < length (lines_of content)" and ln: "ln - 1 + 1 = ln"
    by linarith+
  from line_content_new [OF n line_small [OF assms(1) n] order_refl]
  have "line_content (line_index_new content) content (of_nat ln) = Inr (line_text content content (ln - 1))"
    unfolding ln line_text_def .
  with Cons show ?case
    by (simp add: context_lines_at_def context_of_def)
qed

text \<open>The block of a group of matches between lines \<open>f\<close> and \<open>l\<close>, in natural numbers.\<close>

definition block_of :: "bytes \<Rightarrow> nat \<Rightarrow> line_match list \<Rightarrow> context_block" where
  "block_of content k g =
     \<lparr>cb_before = map (context_of content) [max (line_no (hd g) - k) 1..<line_no (hd g)],
      cb_matches = g,
      cb_after = map (context_of content)
        [line_no (last g) + 1..<min (line_no (last g) + k) (line_count (line_index_new content)) + 1]\<rparr>"

lemma unat_saturating_sub: "unat (saturating_sub a b) = unat a - unat b"
  by (simp add: saturating_sub_def unat_sub word_le_nat_alt)

lemma unat_max: "unat (max a b :: u32) = max (unat a) (unat b)"
  by (simp add: max_def word_le_nat_alt)

lemma unat_min: "unat (min a b :: u32) = min (unat a) (unat b)"
  by (simp add: min_def word_le_nat_alt)

lemma unat_add_small: "unat a + unat b \<le> u32_max \<Longrightarrow> unat (a + b :: u32) = unat a + unat b"
  by (simp add: unat_word_ariths)

lemma build_block_new:
  assumes "length content + unat k + 1 < u32_max" and "g \<noteq> []"
    and "\<And>m. m \<in> set g \<Longrightarrow> line_no m \<le> length (lines_of content)"
  shows "build_block (line_index_new content) content k (of_nat (line_count (line_index_new content))) g
    = Inr (block_of content (unat k) g)"
proof -
  let ?f = "lm_line_number (hd g)" and ?l = "lm_line_number (last g)"
  let ?total = "line_count (line_index_new content)"
  have small: "length content < u32_max" using assms(1) by simp
  have f: "unat ?f \<le> length (lines_of content)" and l: "unat ?l \<le> length (lines_of content)"
    using assms(2,3) by simp_all
  have total: "?total \<le> length (lines_of content)" by (rule line_count_le)
  note lines = length_lines_le [of content]
  have l1: "unat (?l + 1) = unat ?l + 1"
    using unat_add_small [of ?l 1] l lines assms(1) by simp
  have lk: "unat (?l + k) = unat ?l + unat k"
    using unat_add_small [of ?l k] l lines assms(1) by simp
  have t: "unat (of_nat ?total :: u32) = ?total"
    using total lines assms(1) by (intro unat_of_nat_u32) simp
  have before: "context_lines_at (line_index_new content) content (u32_range (max (saturating_sub ?f k) 1) ?f)
      = Inr (map (context_of content) [max (unat ?f - unat k) 1..<unat ?f])"
    unfolding u32_range_def unat_max unat_saturating_sub unsigned_1
    using f by (intro context_lines_at_new [OF small]) auto
  have after: "context_lines_at (line_index_new content) content
        (u32_range_incl (?l + 1) (min (?l + k) (of_nat ?total)))
      = Inr (map (context_of content) [unat ?l + 1..<min (unat ?l + unat k) ?total + 1])"
    unfolding u32_range_incl_def unat_min l1 lk t
    using total by (intro context_lines_at_new [OF small]) auto
  show ?thesis
    unfolding build_block_def Let_def before after obind_Inr block_of_def ..
qed

text \<open>Grouping keeps every match, and leaves more than the context of both sides between groups.\<close>

definition groups_ok :: "nat \<Rightarrow> line_match list list \<Rightarrow> line_match list \<Rightarrow> bool" where
  "groups_ok k gs ms \<longleftrightarrow> concat gs = ms \<and> [] \<notin> set gs \<and>
     sorted_wrt (\<lambda>g h. line_no (last g) + 2 * k + 1 < line_no (hd h)) gs"

lemma groups_ok_concat: "groups_ok k gs ms \<Longrightarrow> concat gs = ms"
  by (simp add: groups_ok_def)

lemma groups_ok_member: "groups_ok k gs ms \<Longrightarrow> g \<in> set gs \<Longrightarrow> g \<noteq> [] \<and> set g \<subseteq> set ms"
  by (auto simp: groups_ok_def)

lemma groups_ok_Nil: "groups_ok k [] []"
  by (simp add: groups_ok_def)

lemma groups_ok_push:
  assumes ok: "groups_ok (unat k) gs ms" and less: "\<And>x. x \<in> set ms \<Longrightarrow> line_no x < line_no m"
  shows "groups_ok (unat k) (push_group k gs m) (ms @ [m])"
proof (cases gs rule: rev_cases)
  case Nil
  with ok show ?thesis by (simp add: groups_ok_def push_group_def)
next
  case (snoc hs g)
  have g: "g \<noteq> []" and hs: "[] \<notin> set hs" and ms: "ms = concat hs @ g"
    and sorted: "sorted_wrt (\<lambda>g h. line_no (last g) + 2 * unat k + 1 < line_no (hd h)) hs"
    and before: "\<And>h. h \<in> set hs \<Longrightarrow> line_no (last h) + 2 * unat k + 1 < line_no (hd g)"
    using ok snoc by (auto simp: groups_ok_def sorted_wrt_append)
  have hd_m: "line_no (hd g) < line_no m"
    using g by (intro less) (simp add: ms)
  show ?thesis
  proof (cases "should_merge k (lm_line_number (last g)) (lm_line_number m)")
    case True
    then have "push_group k gs m = hs @ [g @ [m]]"
      using snoc by (simp add: push_group_def)
    with g hs ms sorted before show ?thesis
      by (simp add: groups_ok_def sorted_wrt_append)
  next
    case False
    then have push: "push_group k gs m = gs @ [[m]]" and gap: "line_no (last g) + 2 * unat k + 1 < line_no m"
      using snoc by (simp_all add: push_group_def should_merge_def)
    have "line_no (last h) + 2 * unat k + 1 < line_no m" if "h \<in> set gs" for h
      using that gap before [of h] hd_m snoc by auto
    with ok push show ?thesis
      by (simp add: groups_ok_def sorted_wrt_append)
  qed
qed

lemma groups_ok_foldl:
  assumes "sorted_wrt (<) (map line_no ms)"
  shows "groups_ok (unat k) (foldl (push_group k) [] ms) ms"
  using assms
proof (induction ms rule: rev_induct)
  case Nil
  then show ?case by (simp add: groups_ok_Nil)
next
  case (snoc m ms)
  then show ?case
    by (simp add: sorted_wrt_append groups_ok_push)
qed

definition block_lines :: "context_block \<Rightarrow> nat list" where
  "block_lines b =
     map (\<lambda>c. unat (cl_line_number c)) (cb_before b) @ map line_no (cb_matches b)
     @ map (\<lambda>c. unat (cl_line_number c)) (cb_after b)"

lemma sorted_wrt_concat:
  "(\<And>xs. xs \<in> set xss \<Longrightarrow> sorted_wrt R xs) \<Longrightarrow>
   sorted_wrt (\<lambda>xs ys. \<forall>x \<in> set xs. \<forall>y \<in> set ys. R x y) xss \<Longrightarrow> sorted_wrt R (concat xss)"
  by (induction xss) (auto simp: sorted_wrt_append)

lemma context_numbers:
  "(\<And>ln. ln \<in> set lns \<Longrightarrow> ln \<le> u32_max) \<Longrightarrow>
     map (\<lambda>c. unat (cl_line_number c)) (map (context_of content) lns) = lns"
  by (simp add: context_of_def map_idI)

lemma sorted_hd_last:
  "sorted_wrt (<) (map line_no g) \<Longrightarrow> m \<in> set g \<Longrightarrow> line_no (hd g) \<le> line_no m \<and> line_no m \<le> line_no (last g)"
proof (induction g)
  case Nil
  then show ?case by simp
next
  case (Cons x g)
  then show ?case
    by (cases g) (auto dest: less_imp_le intro: order.trans less_imp_le)
qed

text \<open>The line numbers of one block lie within its context of the first and last match.\<close>

lemma block_lines_of:
  assumes "length content + k + 1 < u32_max" and "g \<noteq> []" and "sorted_wrt (<) (map line_no g)"
    and "\<And>m. m \<in> set g \<Longrightarrow> line_no m \<le> length (lines_of content)"
  shows "sorted_wrt (<) (block_lines (block_of content k g))"
    "\<And>x. x \<in> set (block_lines (block_of content k g)) \<Longrightarrow>
       line_no (hd g) \<le> x + k \<and> x \<le> line_no (last g) + k"
proof -
  let ?f = "line_no (hd g)" and ?l = "line_no (last g)"
  let ?a = "[max (?f - k) 1..<?f]" and ?b = "[?l + 1..<min (?l + k) (line_count (line_index_new content)) + 1]"
  have fl: "?f \<le> length (lines_of content)" "?l \<le> length (lines_of content)"
    using assms(2,4) by simp_all
  note lines = length_lines_le [of content]
  have numbers: "block_lines (block_of content k g) = ?a @ map line_no g @ ?b"
    unfolding block_lines_def block_of_def context_block.simps
    by (subst (1 2) context_numbers) (use fl lines assms(1) in auto)
  have mid: "?f \<le> line_no m \<and> line_no m \<le> ?l" if "m \<in> set g" for m
    using sorted_hd_last [OF assms(3) that] .
  have "?f \<le> ?l" using mid [of "hd g"] assms(2) by simp
  moreover have "x < y" if "x \<in> set (map line_no g)" "y \<in> set ?b" for x y
    using that by (auto dest!: mid)
  moreover have "x < y" if "x \<in> set ?a" "y \<in> set (map line_no g)" for x y
    using that by (auto dest!: mid)
  moreover have "x < y" if "x \<in> set ?a" "y \<in> set ?b" for x y
    using that \<open>?f \<le> ?l\<close> by auto
  moreover have "sorted_wrt (<) ?a" and "sorted_wrt (<) ?b"
    by (rule sorted_wrt_upt)+
  ultimately show "sorted_wrt (<) (block_lines (block_of content k g))"
    unfolding numbers sorted_wrt_append set_append using assms(3) by blast
  have "?f \<le> ?l" using mid [of "hd g"] assms(2) by simp
  then show "?f \<le> x + k \<and> x \<le> ?l + k" if "x \<in> set (block_lines (block_of content k g))" for x
    using that unfolding numbers by (auto dest!: mid)
qed

lemma min_context: "unat (min ctx 1000 :: u32) \<le> 1000"
  by (simp add: unat_min)

lemma verify_with_context_eq:
  fixes rx :: "'r regex_crate" and pat :: match_pattern and ctx :: u32
  assumes "length content + 1001 < u32_max"
  defines "v \<equiv> content_verifier_new rx pat ctx"
  defines "ms \<equiv> grouped_matches content (from_utf8_lossy content) (match_ranges rx v content)"
  shows "verify_with_context rx v content
    = Inr (if min ctx 1000 = 0 then map (\<lambda>m. \<lparr>cb_before = [], cb_matches = [m], cb_after = []\<rparr>) ms
        else map (block_of content (unat (min ctx 1000))) (foldl (push_group (min ctx 1000)) [] ms))"
proof -
  let ?k = "min ctx 1000"
  have small: "length content < u32_max" and k: "length content + unat ?k + 1 < u32_max"
    using assms(1) min_context [of ctx] by linarith+
  have ctx: "cv_context_lines v = ?k"
    by (simp add: v_def content_verifier_new_def)
  have ok: "groups_ok (unat ?k) (foldl (push_group ?k) [] ms) ms"
    by (rule groups_ok_foldl) (simp add: ms_def grouped_sorted [OF small])
  have le: "line_no m \<le> length (lines_of content)" if "m \<in> set ms" for m
  proof -
    have "line_no m \<in> set (map line_no ms)" using that by simp
    then show ?thesis
      unfolding ms_def grouped_line_numbers [OF small] by (auto dest: matched_lines_less)
  qed
  have "collect_results (build_block (line_index_new content) content ?k
        (of_nat (line_count (line_index_new content)))) (foldl (push_group ?k) [] ms)
      = Inr (map (block_of content (unat ?k)) (foldl (push_group ?k) [] ms))"
  proof (rule collect_results_map)
    fix g
    assume "g \<in> set (foldl (push_group ?k) [] ms)"
    then have "g \<noteq> []" and "set g \<subseteq> set ms"
      using groups_ok_member [OF ok] by simp_all
    then show "build_block (line_index_new content) content ?k (of_nat (line_count (line_index_new content))) g
        = Inr (block_of content (unat ?k) g)"
      using le by (intro build_block_new [OF k]) auto
  qed
  then show ?thesis
    unfolding verify_with_context_def verify_inner_grouped [OF small] obind_Inr prod.case ctx ms_def [symmetric]
    by (simp add: Let_def)
qed

lemma concat_map_cb_matches:
  "concat (map cb_matches (map (block_of content k) gs)) = concat gs"
  "concat (map cb_matches (map (\<lambda>m. \<lparr>cb_before = [], cb_matches = [m], cb_after = []\<rparr>) ms)) = ms"
  by (simp_all add: block_of_def comp_def)

lemma grouped_line_le:
  assumes "length content < u32_max" and "m \<in> set (grouped_matches content hay rs)"
  shows "line_no m \<le> length (lines_of content)"
proof -
  have "line_no m \<in> set (map line_no (grouped_matches content hay rs))"
    using assms(2) by simp
  then show ?thesis
    unfolding grouped_line_numbers [OF assms(1)] by (auto dest: matched_lines_less)
qed

lemma blocks_of_groups_sorted:
  assumes "length content + k + 1 < u32_max" and "groups_ok k gs ms" and "sorted_wrt (<) (map line_no ms)"
    and "\<And>m. m \<in> set ms \<Longrightarrow> line_no m \<le> length (lines_of content)"
  shows "sorted_wrt (<) (concat (map block_lines (map (block_of content k) gs)))"
proof -
  have g: "g \<noteq> []" "sorted_wrt (<) (map line_no g)"
    "\<And>m. m \<in> set g \<Longrightarrow> line_no m \<le> length (lines_of content)" if g_in: "g \<in> set gs" for g
  proof -
    show "g \<noteq> []" using assms(2) g_in by (auto simp: groups_ok_def)
    obtain xs ys where gs: "gs = xs @ g # ys" using split_list [OF g_in] by blast
    then have "ms = concat xs @ g @ concat ys" using assms(2) by (simp add: groups_ok_def)
    then show "sorted_wrt (<) (map line_no g)" "\<And>m. m \<in> set g \<Longrightarrow> line_no m \<le> length (lines_of content)"
      using assms(3,4) by (simp_all add: sorted_wrt_append)
  qed
  have inner: "sorted_wrt (<) (block_lines (block_of content k g))" if "g \<in> set gs" for g
    using that by (intro block_lines_of(1) [OF assms(1)] g)
  have bounds: "line_no (hd g) \<le> x + k \<and> x \<le> line_no (last g) + k"
    if "g \<in> set gs" "x \<in> set (block_lines (block_of content k g))" for g x
    using that by (intro block_lines_of(2) [OF assms(1)] g)
  have apart: "x < y" if "g \<in> set gs" "h \<in> set gs" "line_no (last g) + 2 * k + 1 < line_no (hd h)"
    "x \<in> set (block_lines (block_of content k g))" "y \<in> set (block_lines (block_of content k h))" for g h x y
    using bounds [OF that(1,4)] bounds [OF that(2,5)] that(3) by linarith
  have "sorted_wrt (\<lambda>g h. \<forall>x \<in> set (block_lines (block_of content k g)).
      \<forall>y \<in> set (block_lines (block_of content k h)). x < y) gs"
  proof (rule sorted_wrt_mono_rel)
    show "sorted_wrt (\<lambda>g h. line_no (last g) + 2 * k + 1 < line_no (hd h)) gs"
      using assms(2) by (simp add: groups_ok_def)
  qed (use apart in blast)
  with inner show ?thesis
    by (intro sorted_wrt_concat) (auto simp: sorted_wrt_map)
qed

text \<open>
  C37. Blocks with context partition what they show: for a file below 4 GiB the verifier returns
  blocks whose matches, in order, are exactly the matches without context, and no line number
  appears twice in the whole sequence of blocks: the lines of before-context, matches and
  after-context of all blocks are strictly increasing, so that contexts of neighbouring blocks never
  overlap; nothing panics.
\<close>

theorem context_blocks_disjoint:
  assumes "length content + 1001 < u32_max"
  shows "\<exists>ms blocks. verify rx (content_verifier_new rx pat ctx) content = Inr ms \<and>
    verify_with_context rx (content_verifier_new rx pat ctx) content = Inr blocks \<and>
    concat (map cb_matches blocks) = ms \<and> sorted_wrt (<) (concat (map block_lines blocks))"
proof -
  let ?v = "content_verifier_new rx pat ctx" and ?k = "min ctx 1000"
  let ?ms = "grouped_matches content (from_utf8_lossy content) (match_ranges rx ?v content)"
  have small: "length content < u32_max" and k: "length content + unat ?k + 1 < u32_max"
    using assms min_context [of ctx] by linarith+
  note sorted = grouped_sorted [OF small, of "from_utf8_lossy content" "match_ranges rx ?v content"]
  note ok = groups_ok_foldl [OF sorted, of ?k]
  have verify: "verify rx ?v content = Inr ?ms"
    by (rule verify_eq_grouped [OF small])
  have "sorted_wrt (<) (concat (map block_lines (map (block_of content (unat ?k)) (foldl (push_group ?k) [] ?ms))))"
    by (rule blocks_of_groups_sorted [OF k ok sorted grouped_line_le [OF small]])
  moreover have "sorted_wrt (<) (concat (map block_lines
      (map (\<lambda>m. \<lparr>cb_before = [], cb_matches = [m], cb_after = []\<rparr>) ?ms)))"
    using sorted by (simp add: block_lines_def comp_def)
  ultimately have sorted_blocks: "sorted_wrt (<) (concat (map block_lines
      (if ?k = 0 then map (\<lambda>m. \<lparr>cb_before = [], cb_matches = [m], cb_after = []\<rparr>) ?ms
       else map (block_of content (unat ?k)) (foldl (push_group ?k) [] ?ms))))"
    by presburger
  have matches: "concat (map cb_matches
      (if ?k = 0 then map (\<lambda>m. \<lparr>cb_before = [], cb_matches = [m], cb_after = []\<rparr>) ?ms
       else map (block_of content (unat ?k)) (foldl (push_group ?k) [] ?ms))) = ?ms"
    using concat_map_cb_matches(1) [of content "unat ?k" "foldl (push_group ?k) [] ?ms"]
      concat_map_cb_matches(2) [where ms = ?ms] groups_ok_concat [OF ok] by presburger
  show ?thesis
    by (intro exI conjI) (rule verify, rule verify_with_context_eq [OF assms], rule matches, rule sorted_blocks)
qed

text \<open>A compiler of regular expressions that accepts every pattern and never matches, for the witnesses.\<close>

definition sample_regex :: "text_utf8 regex_crate" where
  "sample_regex = \<lparr>re_build = Some, re_escape = (\<lambda>s. s), re_find_iter = (\<lambda>_ _. [])\<rparr>"

theorem context_blocks_disjoint_witness:
  "\<exists>ms blocks. verify sample_regex (content_verifier_new sample_regex (MP_Literal ''c'') 1) sample_text = Inr ms \<and>
    verify_with_context sample_regex (content_verifier_new sample_regex (MP_Literal ''c'') 1) sample_text = Inr blocks \<and>
    concat (map cb_matches blocks) = ms \<and> sorted_wrt (<) (concat (map block_lines blocks))"
  by (rule context_blocks_disjoint) (simp add: sample_text_valid)

lemma grouped_reported:
  assumes "utf8_valid content"
  shows "grouped_matches content content rs = reported_matches content rs"
proof -
  have "plain_match content content rs n = reported_match content rs n" if "n \<in> set (matched_lines content rs)" for n
    using lines_valid [OF assms, of "lines_of content ! n"] matched_lines_less [OF that]
    by (simp add: plain_match_def reported_match_def line_text_def slice_line utf8_or_empty_def)
  then show ?thesis by (simp add: grouped_matches_def reported_matches_def)
qed

text \<open>
  C35. Verification of any pattern agrees with the reference: for a file below 4 GiB it never
  panics, and for one that is valid UTF-8 it returns, for each line of the file on which a match of the
  pattern starts, in increasing order, that line's text with the ranges of those matches relative to
  the line; an expression that does not compile, an empty literal and an empty file give no
  lines. (For other files see \<open>invalid_utf8_wrong_line\<close>.)
\<close>

theorem verify_groups_matches:
  assumes "length content < u32_max"
  shows "\<exists>ms. verify rx (content_verifier_new rx pat ctx) content = Inr ms \<and>
    (utf8_valid content \<longrightarrow>
       ms = reported_matches content (match_ranges rx (content_verifier_new rx pat ctx) content))"
  by (simp add: verify_eq_grouped [OF assms] from_utf8_lossy_valid grouped_reported)

theorem verify_groups_matches_witness:
  "verify sample_regex (content_verifier_new sample_regex (MP_Literal ''c'') 1) sample_text
    = Inr (reported_matches sample_text
        (match_ranges sample_regex (content_verifier_new sample_regex (MP_Literal ''c'') 1) sample_text))"
proof -
  have "length sample_text < u32_max" by (simp add: sample_text_valid)
  from verify_groups_matches [OF this, of sample_regex "MP_Literal ''c''" 1] show ?thesis
    by (auto simp: sample_text_valid)
qed

text \<open>
  The lines are those of the raw bytes and the matches those of the decoded text, in which each invalid
  byte takes three: a match on the first line is reported on the second, with the text of neither.
\<close>

definition invalid_text :: bytes where
  "invalid_text = [CHR 0xFF, CHR 0xFF, CHR ''a'', CHR ''b'', CHR ''c'', newline, CHR ''x'']"

definition reported :: "line_match \<Rightarrow> nat \<times> text_utf8 \<times> (nat \<times> nat) list" where
  "reported m = (line_no m, lm_content m, lm_ranges m)"

lemma invalid_utf8_wrong_line:
  "map_sum (\<lambda>e. e) (map reported)
     (verify sample_regex (content_verifier_new sample_regex (MP_Literal ''abc'') 0) invalid_text)
   = Inr [(2, ''a'', [(0, 3)])]"
  "map reported (reported_matches (from_utf8_lossy invalid_text) [(6, 9)])
   = [(1, [CHR 0xEF, CHR 0xBF, CHR 0xBD, CHR 0xEF, CHR 0xBF, CHR 0xBD, CHR ''a'', CHR ''b'', CHR ''c''], [(6, 9)])]"
  by code_simp+

text \<open>The absolute byte ranges a list of line matches stands for.\<close>

definition absolute_ranges :: "bytes \<Rightarrow> line_match list \<Rightarrow> (nat \<times> nat) set" where
  "absolute_ranges content ms =
     (\<Union>m \<in> set ms. (\<lambda>(a, b). (line_start content (line_no m - 1) + a, line_start content (line_no m - 1) + b))
        ` set (lm_ranges m))"

lemma absolute_grouped:
  assumes "length content < u32_max" and "\<And>a b. (a, b) \<in> set rs \<Longrightarrow> a \<le> b \<and> a \<le> length content"
  shows "absolute_ranges content (grouped_matches content hay rs) = set rs"
proof -
  have piece: "(\<lambda>(a, b). (line_start content (line_no (plain_match content hay rs n) - 1) + a,
          line_start content (line_no (plain_match content hay rs n) - 1) + b))
        ` set (lm_ranges (plain_match content hay rs n))
      = {r \<in> set rs. line_of content (fst r) = n}" if n: "n < length (lines_of content)" for n
  proof -
    have "line_no (plain_match content hay rs n) - 1 = n"
      using unat_line_number [OF line_small [OF assms(1) n]]
      by (simp add: plain_match_def del: of_nat_add of_nat_Suc)
    moreover have "line_start content n + (fst r - line_start content n) = fst r
        \<and> line_start content n + (fst r - line_start content n + (snd r - fst r)) = snd r"
      if "r \<in> set rs" "line_of content (fst r) = n" for r
      using assms(2) [of "fst r" "snd r"] line_of_bounds(1) [of "fst r" content] that by auto
    ultimately show ?thesis
      by (force simp: plain_match_def line_ranges_def image_iff case_prod_beta)
  qed
  have "absolute_ranges content (grouped_matches content hay rs)
      = (\<Union>n \<in> set (matched_lines content rs). {r \<in> set rs. line_of content (fst r) = n})"
    unfolding absolute_ranges_def grouped_matches_def set_map UN_simps
    using piece matched_lines_less by (intro SUP_cong refl) blast
  also have "\<dots> = set rs"
  proof
    show "set rs \<subseteq> (\<Union>n \<in> set (matched_lines content rs). {r \<in> set rs. line_of content (fst r) = n})"
    proof
      fix r
      assume r: "r \<in> set rs"
      then have "line_of content (fst r) \<in> set (matched_lines content rs)"
        by (simp add: matched_lines_def line_of_less)
      with r show "r \<in> (\<Union>n \<in> set (matched_lines content rs). {r \<in> set rs. line_of content (fst r) = n})"
        by blast
    qed
  qed blast
  finally show ?thesis .
qed

text \<open>
  C29. Verification of a literal is sound and complete: in a valid UTF-8 file below 4 GiB the byte
  ranges reported, over all lines together, are exactly the occurrences of the literal, overlapping
  ones included; the lines come in increasing order, each with its own text; and nothing is
  reported precisely when the literal does not occur.
\<close>

theorem verify_literal_occurrences:
  assumes "utf8_valid content" and "length content < u32_max" and "lit \<noteq> []"
  shows "\<exists>ms. verify rx (content_verifier_new rx (MP_Literal lit) ctx) content = Inr ms \<and>
    absolute_ranges content ms = {(p, p + length lit) |p. p < length content \<and> prefix lit (drop p content)} \<and>
    sorted_wrt (<) (map line_no ms) \<and>
    (\<forall>m \<in> set ms. lm_content m = strip_cr (lines_of content ! (line_no m - 1))) \<and>
    (ms = [] \<longleftrightarrow> \<not> sublist lit content)"
proof -
  let ?rs = "map (\<lambda>p. (p, p + length lit)) (occurrences lit content)"
  let ?ms = "grouped_matches content content ?rs"
  have set_rs: "set ?rs = {(p, p + length lit) |p. p < length content \<and> prefix lit (drop p content)}"
    by (auto simp: occurrences_def)
  have empty: "?rs = [] \<longleftrightarrow> \<not> sublist lit content"
  proof
    assume "?rs = []"
    then have "\<not> prefix lit (drop p content)" if "p \<le> length content" for p
      using that assms(3) by (cases "p = length content") (auto simp: occurrences_def filter_empty_conv)
    then show "\<not> sublist lit content"
      using find_sub_None find_sub_None_sublist by blast
  next
    assume "\<not> sublist lit content"
    then have "find_sub content lit = None" by (simp add: find_sub_None_sublist)
    then show "?rs = []"
      by (auto simp: occurrences_def filter_empty_conv find_sub_None)
  qed
  have content: "lm_content m = strip_cr (lines_of content ! (line_no m - 1))" if "m \<in> set ?ms" for m
  proof -
    from that obtain n where m: "m = plain_match content content ?rs n" and "n \<in> set (matched_lines content ?rs)"
      unfolding grouped_matches_def set_map by (erule imageE)
    then have n: "n < length (lines_of content)" by (intro matched_lines_less)
    have "line_no m - 1 = n"
      using unat_line_number [OF line_small [OF assms(2) n]]
      by (simp add: m plain_match_def del: of_nat_add of_nat_Suc)
    then show ?thesis
      using lines_valid [OF assms(1), of "lines_of content ! n"] n
      by (simp add: m plain_match_def line_text_def slice_line utf8_or_empty_def)
  qed
  have "match_ranges rx (content_verifier_new rx (MP_Literal lit) ctx) content = ?rs"
    using assms(3) by (simp add: match_ranges_def content_verifier_new_def from_utf8_lossy_valid [OF assms(1)]
        occurrences_def)
  then have "verify rx (content_verifier_new rx (MP_Literal lit) ctx) content = Inr ?ms"
    using verify_eq_grouped [OF assms(2), of rx "content_verifier_new rx (MP_Literal lit) ctx"]
    by (simp only: from_utf8_lossy_valid [OF assms(1)])
  moreover have "absolute_ranges content ?ms = set ?rs"
    by (rule absolute_grouped [OF assms(2)]) (auto simp: occurrences_def)
  ultimately show ?thesis
    using content empty set_rs grouped_sorted [OF assms(2)] grouped_eq_Nil [of content content ?rs] by blast
qed

theorem verify_literal_occurrences_witness:
  "\<exists>ms. verify sample_regex (content_verifier_new sample_regex (MP_Literal ''cd'') 0) sample_text = Inr ms \<and>
    absolute_ranges sample_text ms = {(p, p + length ''cd'') |p. p < length sample_text \<and> prefix ''cd'' (drop p sample_text)} \<and>
    sorted_wrt (<) (map line_no ms) \<and>
    (\<forall>m \<in> set ms. lm_content m = strip_cr (lines_of sample_text ! (line_no m - 1))) \<and>
    (ms = [] \<longleftrightarrow> \<not> sublist ''cd'' sample_text)"
  by (rule verify_literal_occurrences) (simp_all add: sample_text_valid)

text \<open>
  What merging leaves out: two matches at distance three with one line of context form one block,
  and the two lines between them, each next to a match, are shown in no context at all.
\<close>

definition gap_text :: bytes where
  "gap_text = [CHR ''x'', newline, CHR ''a'', newline, CHR ''b'', newline, CHR ''x'', newline]"

lemma merged_block_gap:
  "map_sum (\<lambda>e. e) (map block_lines)
     (verify_with_context sample_regex (content_verifier_new sample_regex (MP_Literal ''x'') 1) gap_text)
   = Inr [[1, 4]]"
  by code_simp

end
