(* ===== verification/Query_Match.thy ===== *)
theory Query_Match
  imports Query Verify
begin

text \<open>
  The query matcher (\<open>ferret-core/src/query_match.rs\<close>): it evaluates a query against the bytes of
  a file, with the content verifier at the leaves and boolean logic above them, and attaches context
  lines to the result. The lemmas relate it to the boolean meaning of a query and show that
  the index-based grouping of the context pass is the grouping of the verifier.
\<close>

section \<open>Evaluation\<close>

definition eval_leaf :: "'r regex_crate \<Rightarrow> match_pattern \<Rightarrow> bytes \<Rightarrow> line_match list option result" where
  "eval_leaf rx pattern content =
     (let verifier = content_verifier_new rx pattern 0
      in obind (verify rx verifier content) (\<lambda>lines. Inr (if lines = [] then None else Some lines)))"

definition literal_pattern :: "bool \<Rightarrow> text_utf8 \<Rightarrow> match_pattern" where
  "literal_pattern case_sensitive s =
     (if case_sensitive then MP_Literal s else MP_LiteralCaseInsensitive s)"

definition regex_pattern :: "regex_query \<Rightarrow> match_pattern" where
  "regex_pattern re =
     MP_Regex (if rq_case_sensitive re then rq_pattern re else ''(?i)'' @ rq_pattern re)"

text \<open>\<open>Vec::sort_by_key\<close> is stable, as is \<open>sort_key\<close>.\<close>

definition sort_dedup_lines :: "line_match list \<Rightarrow> line_match list" where
  "sort_dedup_lines lines = dedup_by lm_line_number (sort_key lm_line_number lines)"

definition merge_line_matches :: "line_match list \<Rightarrow> line_match list \<Rightarrow> line_match list" where
  "merge_line_matches left right = sort_dedup_lines (left @ right)"

fun eval_query :: "'r regex_crate \<Rightarrow> query \<Rightarrow> bytes \<Rightarrow> line_match list option result"
  and eval_children ::
    "'r regex_crate \<Rightarrow> query list \<Rightarrow> bytes \<Rightarrow> line_match list \<Rightarrow> line_match list option result"
where
  "eval_query rx (Q_Literal lit) content =
     eval_leaf rx (literal_pattern (lq_case_sensitive lit) (lq_text lit)) content"
| "eval_query rx (Q_Phrase ph) content =
     eval_leaf rx (literal_pattern (pq_case_sensitive ph) (pq_text ph)) content"
| "eval_query rx (Q_Regex re) content = eval_leaf rx (regex_pattern re) content"
| "eval_query rx (Q_PathFilter p) content = Inr (Some [])"
| "eval_query rx (Q_LanguageFilter l) content = Inr (Some [])"
| "eval_query rx (Q_Not q) content =
     obind (eval_query rx q content) (\<lambda>r. Inr (case r of Some _ \<Rightarrow> None | None \<Rightarrow> Some []))"
| "eval_query rx (Q_Or left right) content =
     obind (eval_query rx left content) (\<lambda>left_result.
     obind (eval_query rx right content) (\<lambda>right_result.
     Inr (case (left_result, right_result) of
        (None, None) \<Rightarrow> None
      | (Some lines, None) \<Rightarrow> Some lines
      | (None, Some lines) \<Rightarrow> Some lines
      | (Some left_lines, Some right_lines) \<Rightarrow> Some (merge_line_matches left_lines right_lines))))"
| "eval_query rx (Q_And children) content =
     obind (eval_children rx children content []) (\<lambda>r. Inr (map_option sort_dedup_lines r))"
| "eval_children rx [] content merged = Inr (Some merged)"
| "eval_children rx (child # children) content merged =
     obind (eval_query rx child content) (\<lambda>r.
       case r of None \<Rightarrow> Inr None
       | Some lines \<Rightarrow> eval_children rx children content (merged @ lines))"

section \<open>Context\<close>

definition total_lines_of :: "bytes \<Rightarrow> nat list \<Rightarrow> u32" where
  "total_lines_of content newline_offsets =
     (if newline_offsets \<noteq> [] \<and> last newline_offsets = length content - 1
      then of_nat (length newline_offsets) else of_nat (length newline_offsets) + 1)"

definition line_content_at :: "bytes \<Rightarrow> nat list \<Rightarrow> u32 \<Rightarrow> text_utf8 result" where
  "line_content_at content newline_offsets line_num =
     (let line_0 = unat (line_num - 1);
          stop = (if line_0 < length newline_offsets then newline_offsets ! line_0 else length content)
      in obind (if line_0 = 0 then Inr 0
                else obind (index_at (line_0 - 1) newline_offsets) (\<lambda>nl. Inr (nl + 1))) (\<lambda>start.
         obind (slice_at start stop content) (\<lambda>s. Inr (strip_cr (utf8_or_empty s)))))"

definition context_at :: "bytes \<Rightarrow> nat list \<Rightarrow> u32 list \<Rightarrow> context_line list result" where
  "context_at content newline_offsets lns =
     collect_results (\<lambda>ln. obind (line_content_at content newline_offsets ln) (\<lambda>c.
       Inr \<lparr>cl_line_number = ln, cl_content = c, cl_highlight_tokens = []\<rparr>)) lns"

text \<open>Groups of indices into \<open>lines\<close>.\<close>

definition push_index :: "u32 \<Rightarrow> line_match list \<Rightarrow> nat list list \<Rightarrow> nat \<Rightarrow> nat list list" where
  "push_index context_lines lines groups i =
     (if groups \<noteq> []
         \<and> should_merge context_lines (lm_line_number (lines ! last (last groups))) (lm_line_number (lines ! i))
      then butlast groups @ [last groups @ [i]] else groups @ [[i]])"

definition attach_group ::
  "bytes \<Rightarrow> nat list \<Rightarrow> u32 \<Rightarrow> u32 \<Rightarrow> nat list \<Rightarrow> line_match list \<Rightarrow> line_match list result" where
  "attach_group content newline_offsets total_lines context_lines grp lines =
     (let first_idx = hd grp;
          last_idx = last grp;
          first_line = lm_line_number (lines ! first_idx);
          last_line = lm_line_number (lines ! last_idx);
          before_start = max (saturating_sub first_line context_lines) 1
      in obind (context_at content newline_offsets (u32_range before_start first_line)) (\<lambda>before.
         let lines = lines[first_idx := (lines ! first_idx)\<lparr>lm_context_before := before\<rparr>];
             after_end = min (last_line + context_lines) total_lines
         in obind (context_at content newline_offsets (u32_range_incl (last_line + 1) after_end)) (\<lambda>after.
            Inr (lines[last_idx := (lines ! last_idx)\<lparr>lm_context_after := after\<rparr>]))))"

fun attach_groups ::
  "bytes \<Rightarrow> nat list \<Rightarrow> u32 \<Rightarrow> u32 \<Rightarrow> nat list list \<Rightarrow> line_match list \<Rightarrow> line_match list result" where
  "attach_groups content nls lc k [] lines = Inr lines"
| "attach_groups content nls lc k (g # gs) lines =
     obind (attach_group content nls lc k g lines) (attach_groups content nls lc k gs)"

definition attach_context :: "bytes \<Rightarrow> line_match list \<Rightarrow> u32 \<Rightarrow> line_match list result" where
  "attach_context content lines context_lines =
     (if content = [] \<or> lines = [] then Inr lines
      else
        let newline_offsets = memchr_iter newline 0 content;
            total_lines = total_lines_of content newline_offsets;
            lines = sort_key lm_line_number lines;
            groups = foldl (push_index context_lines lines) [] [0..<length lines]
        in attach_groups content newline_offsets total_lines context_lines groups lines)"

definition query_matches :: "'r regex_crate \<Rightarrow> query \<Rightarrow> u32 \<Rightarrow> bytes \<Rightarrow> line_match list option result" where
  "query_matches rx query context_lines content =
     obind (eval_query rx query content) (\<lambda>r.
       case r of None \<Rightarrow> Inr None
       | Some lines \<Rightarrow>
           if context_lines = 0 \<or> lines = [] then Inr (Some lines)
           else obind (attach_context content lines context_lines) (\<lambda>ls. Inr (Some ls)))"

section \<open>The boolean meaning of a query\<close>

definition pattern_ranges :: "'r regex_crate \<Rightarrow> match_pattern \<Rightarrow> bytes \<Rightarrow> (nat \<times> nat) list" where
  "pattern_ranges rx pattern content = match_ranges rx (content_verifier_new rx pattern 0) content"

fun query_sat :: "'r regex_crate \<Rightarrow> query \<Rightarrow> bytes \<Rightarrow> bool" where
  "query_sat rx (Q_Literal lit) content \<longleftrightarrow>
     pattern_ranges rx (literal_pattern (lq_case_sensitive lit) (lq_text lit)) content \<noteq> []"
| "query_sat rx (Q_Phrase ph) content \<longleftrightarrow>
     pattern_ranges rx (literal_pattern (pq_case_sensitive ph) (pq_text ph)) content \<noteq> []"
| "query_sat rx (Q_Regex re) content \<longleftrightarrow> pattern_ranges rx (regex_pattern re) content \<noteq> []"
| "query_sat rx (Q_PathFilter p) content \<longleftrightarrow> True"
| "query_sat rx (Q_LanguageFilter l) content \<longleftrightarrow> True"
| "query_sat rx (Q_Not q) content \<longleftrightarrow> \<not> query_sat rx q content"
| "query_sat rx (Q_Or a b) content \<longleftrightarrow> query_sat rx a content \<or> query_sat rx b content"
| "query_sat rx (Q_And qs) content \<longleftrightarrow> (\<forall>q \<in> set qs. query_sat rx q content)"

text \<open>
  Where the matches of the satisfied leaves outside negations start in the decoded text, and the lines of
  that text (counted from zero) on which they do: the lines a satisfied query is to report.
\<close>

definition leaf_starts :: "'r regex_crate \<Rightarrow> match_pattern \<Rightarrow> bytes \<Rightarrow> nat set" where
  "leaf_starts rx pattern content = fst ` set (pattern_ranges rx pattern content)"

fun query_starts :: "'r regex_crate \<Rightarrow> query \<Rightarrow> bytes \<Rightarrow> nat set" where
  "query_starts rx (Q_Literal lit) content =
     leaf_starts rx (literal_pattern (lq_case_sensitive lit) (lq_text lit)) content"
| "query_starts rx (Q_Phrase ph) content =
     leaf_starts rx (literal_pattern (pq_case_sensitive ph) (pq_text ph)) content"
| "query_starts rx (Q_Regex re) content = leaf_starts rx (regex_pattern re) content"
| "query_starts rx (Q_PathFilter p) content = {}"
| "query_starts rx (Q_LanguageFilter l) content = {}"
| "query_starts rx (Q_Not q) content = {}"
| "query_starts rx (Q_Or a b) content =
     (if query_sat rx a content then query_starts rx a content else {})
     \<union> (if query_sat rx b content then query_starts rx b content else {})"
| "query_starts rx (Q_And qs) content = (\<Union>q \<in> set qs. query_starts rx q content)"


text \<open>The code looks the offsets up in the raw bytes.\<close>

definition raw_lines :: "'r regex_crate \<Rightarrow> query \<Rightarrow> bytes \<Rightarrow> nat set" where
  "raw_lines rx q content = line_of content ` query_starts rx q content"


lemma raw_lines_simps:
  "raw_lines rx (Q_Literal lit) content
    = line_of content ` leaf_starts rx (literal_pattern (lq_case_sensitive lit) (lq_text lit)) content"
  "raw_lines rx (Q_Phrase ph) content
    = line_of content ` leaf_starts rx (literal_pattern (pq_case_sensitive ph) (pq_text ph)) content"
  "raw_lines rx (Q_Regex re) content = line_of content ` leaf_starts rx (regex_pattern re) content"
  "raw_lines rx (Q_PathFilter p) content = {}" "raw_lines rx (Q_LanguageFilter l) content = {}"
  "raw_lines rx (Q_Not q) content = {}"
  "raw_lines rx (Q_Or a b) content =
     (if query_sat rx a content then raw_lines rx a content else {})
     \<union> (if query_sat rx b content then raw_lines rx b content else {})"
  "raw_lines rx (Q_And qs) content = (\<Union>q \<in> set qs. raw_lines rx q content)"
  by (auto simp: raw_lines_def)

text \<open>A result list: strictly increasing line numbers, those of the given lines.\<close>

definition lines_are :: "line_match list \<Rightarrow> nat set \<Rightarrow> bool" where
  "lines_are ms L \<longleftrightarrow> sorted_wrt (<) (map line_no ms) \<and> line_no ` set ms = Suc ` L"

lemma sorted_unat: "sorted (map lm_line_number ms) \<Longrightarrow> sorted (map line_no ms)"
  by (induction ms) (auto simp: word_le_nat_alt)

lemma sort_dedup_lines_are:
  "line_no ` set ms = Suc ` L \<Longrightarrow> lines_are (sort_dedup_lines ms) L"
proof -
  assume L: "line_no ` set ms = Suc ` L"
  let ?s = "sort_key lm_line_number ms"
  have "sorted (map lm_line_number ?s)" by simp
  then have "sorted_wrt (<) (map lm_line_number (dedup_by lm_line_number ?s))"
    unfolding map_dedup_by by (rule sorted_remdups_adj_strict)
  then have "sorted_wrt (<) (map line_no (dedup_by lm_line_number ?s))"
    by (simp add: sorted_wrt_map word_less_nat_alt)
  moreover have "lm_line_number ` set (dedup_by lm_line_number ?s) = lm_line_number ` set ms"
    by simp
  then have "line_no ` set (dedup_by lm_line_number ?s) = line_no ` set ms"
    by (metis image_image)
  ultimately show ?thesis
    using L by (simp add: lines_are_def sort_dedup_lines_def)
qed

lemma grouped_lines_are:
  assumes "length content < u32_max"
  shows "lines_are (grouped_matches content hay rs) (line_of content ` fst ` set rs)"
proof -
  have "line_no ` set (grouped_matches content hay rs) = Suc ` set (matched_lines content rs)"
    using arg_cong [OF grouped_line_numbers [OF assms, of hay rs], of set] by simp
  moreover have "set (matched_lines content rs) = line_of content ` fst ` set rs"
    by (auto simp: matched_lines_def line_of_less)
  ultimately show ?thesis
    using grouped_sorted [OF assms] by (simp add: lines_are_def)
qed

lemma lines_are_merge:
  "lines_are a A \<Longrightarrow> lines_are b B \<Longrightarrow> lines_are (merge_line_matches a b) (A \<union> B)"
  unfolding merge_line_matches_def by (rule sort_dedup_lines_are) (auto simp: lines_are_def image_Un)

lemma eval_leaf_sat:
  assumes "length content < u32_max"
  shows "\<exists>r. eval_leaf rx pattern content = Inr r \<and> (r \<noteq> None \<longleftrightarrow> pattern_ranges rx pattern content \<noteq> []) \<and>
    (\<forall>ms. r = Some ms \<longrightarrow> lines_are ms (line_of content ` leaf_starts rx pattern content))"
  using grouped_lines_are [OF assms]
  by (auto simp: leaf_starts_def eval_leaf_def verify_eq_grouped [OF assms] pattern_ranges_def grouped_eq_Nil Let_def)

lemma eval_query_sat_aux:
  shows "length content < u32_max \<Longrightarrow>
      \<exists>r. eval_query rx q content = Inr r \<and> (r \<noteq> None \<longleftrightarrow> query_sat rx q content) \<and>
      (\<forall>ms. r = Some ms \<longrightarrow> lines_are ms (raw_lines rx q content))"
    and "length content < u32_max \<Longrightarrow>
      \<exists>r. eval_children rx qs content merged = Inr r \<and>
      (r \<noteq> None \<longleftrightarrow> (\<forall>q \<in> set qs. query_sat rx q content)) \<and>
      (\<forall>ms. r = Some ms \<longrightarrow>
        line_no ` set ms = line_no ` set merged \<union> Suc ` (\<Union>q \<in> set qs. raw_lines rx q content))"
proof (induction rx q content and rx qs content merged rule: eval_query_eval_children.induct)
  case (1 rx lit content)
  from eval_leaf_sat [OF 1] show ?case by (simp add: raw_lines_simps)
next
  case (2 rx ph content)
  from eval_leaf_sat [OF 2] show ?case by (simp add: raw_lines_simps)
next
  case (3 rx re content)
  from eval_leaf_sat [OF 3] show ?case by (simp add: raw_lines_simps)
next
  case (6 rx q content)
  then obtain r where "eval_query rx q content = Inr r" "r \<noteq> None \<longleftrightarrow> query_sat rx q content"
    by blast
  then show ?case
    by (cases r) (auto simp: lines_are_def raw_lines_simps)
next
  case (7 rx left right content)
  then obtain l r where l: "eval_query rx left content = Inr l" "l \<noteq> None \<longleftrightarrow> query_sat rx left content"
      "\<And>ms. l = Some ms \<Longrightarrow> lines_are ms (raw_lines rx left content)"
    and r: "eval_query rx right content = Inr r" "r \<noteq> None \<longleftrightarrow> query_sat rx right content"
      "\<And>ms. r = Some ms \<Longrightarrow> lines_are ms (raw_lines rx right content)"
    by blast
  then show ?case
    by (cases l; cases r) (auto simp: lines_are_merge raw_lines_simps)
next
  case (8 rx children content)
  then obtain r where r: "eval_children rx children content [] = Inr r"
      "r \<noteq> None \<longleftrightarrow> (\<forall>q \<in> set children. query_sat rx q content)"
      "\<And>ms. r = Some ms \<Longrightarrow> line_no ` set ms = Suc ` (\<Union>q \<in> set children. raw_lines rx q content)"
    by (auto simp del: eval_children.simps)
  then show ?case
    by (cases r) (auto simp: raw_lines_simps intro!: sort_dedup_lines_are)
next
  case (10 rx child children content merged)
  then obtain c where c: "eval_query rx child content = Inr c" "c \<noteq> None \<longleftrightarrow> query_sat rx child content"
      "\<And>ms. c = Some ms \<Longrightarrow> lines_are ms (raw_lines rx child content)"
    by blast
  show ?case
  proof (cases c)
    case None
    with c show ?thesis by auto
  next
    case (Some ms)
    obtain r where "eval_children rx children content (merged @ ms) = Inr r \<and>
      (r \<noteq> None \<longleftrightarrow> (\<forall>q \<in> set children. query_sat rx q content)) \<and>
      (\<forall>ls. r = Some ls \<longrightarrow> line_no ` set ls
        = line_no ` set (merged @ ms) \<union> Suc ` (\<Union>q \<in> set children. raw_lines rx q content))"
      using 10(2) [OF 10(3), of ms] by (rule exE)
    then have r: "eval_children rx children content (merged @ ms) = Inr r"
      "r \<noteq> None \<longleftrightarrow> (\<forall>q \<in> set children. query_sat rx q content)"
      "\<And>ls. r = Some ls \<Longrightarrow> line_no ` set ls
        = line_no ` set (merged @ ms) \<union> Suc ` (\<Union>q \<in> set children. raw_lines rx q content)"
      by simp_all
    have ms: "line_no ` set ms = Suc ` raw_lines rx child content" "query_sat rx child content"
      using c Some by (simp_all add: lines_are_def)
    have lines: "line_no ` set ls = line_no ` set merged
        \<union> Suc ` (\<Union>q \<in> set (child # children). raw_lines rx q content)" if "r = Some ls" for ls
      using r(3) [OF that] by (simp add: image_Un ms Un_assoc)
    have "eval_children rx (child # children) content merged = Inr r"
      using c Some r by simp
    moreover have "r \<noteq> None \<longleftrightarrow> (\<forall>q \<in> set (child # children). query_sat rx q content)"
      using r(2) ms(2) by simp
    moreover have "\<forall>ls. r = Some ls \<longrightarrow> line_no ` set ls = line_no ` set merged
        \<union> Suc ` (\<Union>q \<in> set (child # children). raw_lines rx q content)"
      by (intro allI impI) (rule lines)
    ultimately show ?thesis by (intro exI conjI)
  qed
qed (simp_all add: lines_are_def raw_lines_simps)


definition sample_query :: query where
  "sample_query = Q_Literal \<lparr>lq_text = ''cd'', lq_case_sensitive = True\<rparr>"

lemma sample_query_found:
  "map_sum (\<lambda>e. e) (\<lambda>r. r \<noteq> None) (eval_query sample_regex sample_query sample_text) = Inr True"
  by code_simp


section \<open>The context pass\<close>

lemma index_groups:
  fixes k :: u32
  assumes "n \<le> length lines"
  defines "gs \<equiv> foldl (push_index k lines) [] [0..<n]"
  shows "map (map ((!) lines)) gs = foldl (push_group k) [] (take n lines) \<and> concat gs = [0..<n] \<and> [] \<notin> set gs"
  using assms(1) unfolding gs_def
proof (induction n)
  case 0
  then show ?case by simp
next
  case (Suc n)
  let ?gs = "foldl (push_index k lines) [] [0..<n]"
  have ih: "map (map ((!) lines)) ?gs = foldl (push_group k) [] (take n lines)" "concat ?gs = [0..<n]" "[] \<notin> set ?gs"
    using Suc by simp_all
  have step: "foldl (push_index k lines) [] [0..<Suc n] = push_index k lines ?gs n"
    by simp
  have take: "foldl (push_group k) [] (take (Suc n) lines) = push_group k (map (map ((!) lines)) ?gs) (lines ! n)"
    using Suc.prems by (simp add: take_Suc_conv_app_nth ih(1))
  show ?case
  proof (cases ?gs rule: rev_cases)
    case Nil
    with ih(2) show ?thesis
      unfolding step take by (simp add: push_index_def push_group_def)
  next
    case (snoc hs g)
    then have "g \<noteq> []" using ih(3) by auto
    then have "last (map ((!) lines) g) = lines ! last g" by (simp add: last_map)
    with ih(2,3) \<open>g \<noteq> []\<close> show ?thesis
      unfolding step take snoc by (simp add: push_index_def push_group_def)
  qed
qed

text \<open>The index groups of consecutive lists, and why any partition of a range is one.\<close>

fun idx_groups :: "nat \<Rightarrow> 'a list list \<Rightarrow> nat list list" where
  "idx_groups a [] = []"
| "idx_groups a (g # gs) = [a..<a + length g] # idx_groups (a + length g) gs"

lemma idx_groups_partition: "concat gs = [a..<b] \<Longrightarrow> gs = idx_groups a (map (map f) gs)"
proof (induction gs arbitrary: a)
  case Nil
  then show ?case by simp
next
  case (Cons g gs)
  have "length g + length (concat gs) = b - a"
    using Cons.prems by (metis concat.simps(2) length_append length_upt)
  then have ab: "a + length g \<le> b \<or> g = []"
    by (cases "g = []") (simp, cases "a \<le> b", linarith, simp)
  have g: "g = [a..<a + length g]"
  proof -
    have "g = take (length g) [a..<b]"
      using arg_cong [OF Cons.prems, of "take (length g)"] by simp
    with ab show ?thesis by (auto simp: take_upt)
  qed
  have "concat gs = [a + length g..<b]"
    using arg_cong [OF Cons.prems, of "drop (length g)"] by simp
  from Cons.IH [OF this] g show ?case by simp
qed

lemma context_at_eq:
  "context_at content (memchr_iter newline 0 content) lns = context_lines_at (line_index_new content) content lns"
proof -
  have "line_content_at content (memchr_iter newline 0 content) n = line_content (line_index_new content) content n" for n
    by (auto simp: line_content_at_def line_content_def line_start_offset_def line_index_new_def Let_def
        intro!: arg_cong2 [where f = obind])
  then show ?thesis
    by (simp add: context_at_def context_lines_at_def)
qed

lemma total_lines_eq:
  "content \<noteq> [] \<Longrightarrow> total_lines_of content (memchr_iter newline 0 content)
     = of_nat (line_count (line_index_new content))"
  by (simp add: total_lines_of_def line_count_def line_index_new_def)

text \<open>A block written into its matches: its before-context to the first, its after-context to the last.\<close>

definition decorate :: "context_block \<Rightarrow> line_match list" where
  "decorate b =
     (let ms = (cb_matches b)[0 := (cb_matches b ! 0)\<lparr>lm_context_before := cb_before b\<rparr>];
          n = length ms - 1
      in ms[n := (ms ! n)\<lparr>lm_context_after := cb_after b\<rparr>])"

lemma attach_group_block:
  assumes "build_block (line_index_new content) content k (of_nat (line_count (line_index_new content))) g = Inr b"
    and "g \<noteq> []" and "content \<noteq> []"
  shows "attach_group content (memchr_iter newline 0 content) (total_lines_of content (memchr_iter newline 0 content))
      k [length p..<length p + length g] (p @ g @ r) = Inr (p @ decorate b @ r)"
proof -
  let ?li = "line_index_new content" and ?tl = "of_nat (line_count (line_index_new content)) :: u32"
  let ?f = "lm_line_number (hd g)" and ?l = "lm_line_number (last g)"
  obtain before after where
    before: "context_lines_at ?li content (u32_range (max (saturating_sub ?f k) 1) ?f) = Inr before"
    and after: "context_lines_at ?li content (u32_range_incl (?l + 1) (min (?l + k) ?tl)) = Inr after"
    and b: "b = \<lparr>cb_before = before, cb_matches = g, cb_after = after\<rparr>"
    using assms(1) by (auto simp: build_block_def Let_def obind_eq_Inr)
  have idx: "hd [length p..<length p + length g] = length p"
    "last [length p..<length p + length g] = length p + (length g - 1)"
    using assms(2) by (auto simp: last_conv_nth)
  have first: "(p @ g @ r) ! length p = hd g" and last: "(p @ g @ r) ! (length p + (length g - 1)) = last g"
    using assms(2) by (simp_all add: nth_append hd_conv_nth last_conv_nth)
  have upd: "(p @ ms @ r)[length p + i := x] = p @ ms[i := x] @ r" and nth: "(p @ ms @ r) ! (length p + i) = ms ! i"
    if "i < length ms" for ms i and x :: line_match
    using that by (simp_all add: list_update_append nth_append)
  have pos: "0 < length g" and lt: "length g - 1 < length g" using assms(2) by simp_all
  show ?thesis
    unfolding attach_group_def Let_def idx first last total_lines_eq [OF assms(3)] context_at_eq before after obind_Inr
    using pos lt upd [of 0 g] nth [of 0 g] upd [of "length g - 1" "g[0 := x]" for x]
      nth [of "length g - 1" "g[0 := x]" for x]
    by (simp add: b decorate_def Let_def hd_conv_nth)
qed

lemma attach_groups_blocks:
  assumes "content \<noteq> []"
    and "\<And>g. g \<in> set gs \<Longrightarrow> g \<noteq> [] \<and>
      build_block (line_index_new content) content k (of_nat (line_count (line_index_new content))) g = Inr (blk g)"
  shows "attach_groups content (memchr_iter newline 0 content) (total_lines_of content (memchr_iter newline 0 content))
      k (idx_groups (length p) gs) (p @ concat gs) = Inr (p @ concat (map (decorate \<circ> blk) gs))"
  using assms(2)
proof (induction gs arbitrary: p)
  case Nil
  then show ?case by simp
next
  case (Cons g gs)
  then have g: "g \<noteq> []"
    "build_block (line_index_new content) content k (of_nat (line_count (line_index_new content))) g = Inr (blk g)"
    by simp_all
  have cb: "cb_matches (blk g) = g"
    using g(2) by (auto simp: build_block_def Let_def obind_eq_Inr dest!: sym [of _ "blk g"])
  have len: "length (decorate (blk g)) = length g"
    by (simp add: decorate_def Let_def cb)
  have "attach_groups content (memchr_iter newline 0 content) (total_lines_of content (memchr_iter newline 0 content))
      k (idx_groups (length (p @ decorate (blk g))) gs) ((p @ decorate (blk g)) @ concat gs)
    = Inr ((p @ decorate (blk g)) @ concat (map (decorate \<circ> blk) gs))"
    using Cons.prems by (intro Cons.IH) simp
  then show ?case
    using attach_group_block [OF g(2,1) assms(1), of p "concat gs"] by (simp add: len comp_def)
qed

text \<open>Sorting what is sorted changes nothing, so the matcher's context pass is the verifier's.\<close>

lemma sort_key_sorted: "sorted_wrt (<) (map line_no ms) \<Longrightarrow> sort_key lm_line_number ms = ms"
  by (rule sort_key_id_if_sorted) (simp add: sorted_wrt_map word_less_nat_alt [symmetric] sorted_wrt_mono_rel
      [where P = "\<lambda>a b. lm_line_number a < lm_line_number b"] less_imp_le)

lemma attach_context_blocks:
  assumes "length content + unat k + 1 < u32_max" and "content \<noteq> []" and "ms \<noteq> []"
    and sorted: "sorted_wrt (<) (map line_no ms)"
    and le: "\<And>m. m \<in> set ms \<Longrightarrow> line_no m \<le> length (lines_of content)"
  shows "attach_context content ms k
    = Inr (concat (map (decorate \<circ> block_of content (unat k)) (foldl (push_group k) [] ms)))"
proof -
  let ?gs = "foldl (push_group k) [] ms" and ?is = "foldl (push_index k ms) [] [0..<length ms]"
  have ok: "groups_ok (unat k) ?gs ms"
    by (rule groups_ok_foldl [OF sorted])
  have groups: "map (map ((!) ms)) ?is = ?gs" "concat ?is = [0..<length ms]"
    using index_groups [of "length ms" ms k] by simp_all
  have "?is = idx_groups 0 ?gs"
    using idx_groups_partition [OF groups(2), of "(!) ms"] groups(1) by simp
  moreover have "attach_groups content (memchr_iter newline 0 content)
      (total_lines_of content (memchr_iter newline 0 content)) k (idx_groups (length ([] :: line_match list)) ?gs) ([] @ concat ?gs)
    = Inr ([] @ concat (map (decorate \<circ> block_of content (unat k)) ?gs))"
  proof (rule attach_groups_blocks [OF assms(2)])
    fix g
    assume "g \<in> set ?gs"
    with groups_ok_member [OF ok] have "g \<noteq> []" "set g \<subseteq> set ms" by simp_all
    then show "g \<noteq> [] \<and> build_block (line_index_new content) content k
        (of_nat (line_count (line_index_new content))) g = Inr (block_of content (unat k) g)"
      using le by (intro conjI build_block_new [OF assms(1)]) auto
  qed
  ultimately show ?thesis
    using assms(2,3) groups_ok_concat [OF ok]
    by (simp add: attach_context_def Let_def sort_key_sorted [OF sorted])
qed

text \<open>What a decorated match shows: its context before, itself, its context after.\<close>

definition shown_lines :: "line_match \<Rightarrow> nat list" where
  "shown_lines m = map (\<lambda>c. unat (cl_line_number c)) (lm_context_before m) @ line_no m
     # map (\<lambda>c. unat (cl_line_number c)) (lm_context_after m)"

definition bare :: "line_match \<Rightarrow> line_match" where
  "bare m = m\<lparr>lm_context_before := [], lm_context_after := []\<rparr>"

lemma decorate_bare: "cb_matches b \<noteq> [] \<Longrightarrow> map bare (decorate b) = map bare (cb_matches b)"
proof -
  have upd: "map bare (xs[i := x]) = map bare xs" if "bare x = bare (xs ! i)" for xs i x
    using that by (cases "i < length xs") (simp_all add: map_update list_update_same_conv list_update_beyond)
  show ?thesis
    by (simp add: decorate_def Let_def, subst upd, simp add: bare_def, subst upd, simp_all add: bare_def)
qed

definition plain :: "line_match \<Rightarrow> bool" where
  "plain m \<longleftrightarrow> lm_context_before m = [] \<and> lm_context_after m = []"

lemma shown_plain: "plain m \<Longrightarrow> shown_lines m = [line_no m]"
  by (simp add: shown_lines_def plain_def)

lemma concat_shown_plain: "(\<And>m. m \<in> set ms \<Longrightarrow> plain m) \<Longrightarrow> concat (map shown_lines ms) = map line_no ms"
  by (induction ms) (simp_all add: shown_plain)

lemma shown_decorate:
  assumes "cb_matches b \<noteq> []"
    and "\<And>m. m \<in> set (cb_matches b) \<Longrightarrow> plain m"
  shows "concat (map shown_lines (decorate b)) = block_lines b"
proof (cases "cb_matches b")
  case (Cons m ms)
  show ?thesis
  proof (cases ms rule: rev_cases)
    case Nil
    with Cons assms(2) [of m] show ?thesis
      by (simp add: decorate_def shown_lines_def block_lines_def plain_def)
  next
    case (snoc ns l)
    have "decorate b = m\<lparr>lm_context_before := cb_before b\<rparr> # ns @ [l\<lparr>lm_context_after := cb_after b\<rparr>]"
      by (simp add: decorate_def Cons snoc nth_append)
    moreover have "concat (map shown_lines ns) = map line_no ns"
      using assms(2) by (intro concat_shown_plain) (auto simp: Cons snoc)
    ultimately show ?thesis
      using assms(2) [of m] assms(2) [of l] by (simp add: Cons snoc shown_lines_def block_lines_def plain_def)
  qed
qed (use assms in simp)

text \<open>Lines come out of evaluation without context.\<close>

lemma set_sort_dedup: "set (sort_dedup_lines ms) \<subseteq> set ms"
  unfolding sort_dedup_lines_def using set_dedup_by_subset by fastforce

lemma eval_leaf_plain:
  "length content < u32_max \<Longrightarrow> eval_leaf rx pat content = Inr (Some ms) \<Longrightarrow> m \<in> set ms \<Longrightarrow> plain m"
  by (auto simp: eval_leaf_def verify_eq_grouped Let_def grouped_matches_def plain_match_def plain_def
      split: if_splits)

lemma sort_dedup_plain: "(\<And>m. m \<in> set ms \<Longrightarrow> plain m) \<Longrightarrow> m \<in> set (sort_dedup_lines ms) \<Longrightarrow> plain m"
  using set_sort_dedup by blast

lemma eval_plain_aux:
  shows "length content < u32_max \<Longrightarrow> eval_query rx q content = Inr (Some ms) \<Longrightarrow> m \<in> set ms \<Longrightarrow> plain m"
    and "length content < u32_max \<Longrightarrow> eval_children rx qs content merged = Inr (Some ms) \<Longrightarrow>
      m \<in> set ms \<Longrightarrow> m \<in> set merged \<or> plain m"
proof (induction rx q content and rx qs content merged arbitrary: ms m and ms m
    rule: eval_query_eval_children.induct)
  case (6 rx q content)
  then show ?case by (auto simp: obind_eq_Inr split: option.splits)
next
  case (7 rx left right content)
  then obtain l r where l: "eval_query rx left content = Inr l" and r: "eval_query rx right content = Inr r"
    and ms: "Some ms = (case (l, r) of (None, None) \<Rightarrow> None | (Some lines, None) \<Rightarrow> Some lines
      | (None, Some lines) \<Rightarrow> Some lines | (Some a, Some b) \<Rightarrow> Some (merge_line_matches a b))"
    by (auto simp: obind_eq_Inr)
  have "plain x" if "l = Some a" "x \<in> set a" for a x
    using 7(1) [OF 7(3)] l that by blast
  moreover have "plain x" if "r = Some b" "x \<in> set b" for b x
    using 7(2) [OF 7(3)] r that by blast
  ultimately show ?case
    using ms 7(5) set_sort_dedup
    by (cases l; cases r) (fastforce simp: merge_line_matches_def)+
next
  case (8 rx children content)
  then obtain ls where "eval_children rx children content [] = Inr (Some ls)" and "ms = sort_dedup_lines ls"
    by (auto simp: obind_eq_Inr)
  then show ?case using 8 sort_dedup_plain by fastforce
next
  case (10 rx child children content merged)
  then obtain lines where "eval_query rx child content = Inr (Some lines)"
    and "eval_children rx children content (merged @ lines) = Inr (Some ms)"
    by (auto simp: obind_eq_Inr split: option.splits)
  then show ?case using 10 by fastforce
qed (auto dest: eval_leaf_plain)

lemmas eval_plain = eval_plain_aux(1)

lemma raw_lines_less: "n \<in> raw_lines rx q content \<Longrightarrow> n < length (lines_of content)"
  by (auto simp: raw_lines_def line_of_less)

lemma concat_map_concat: "concat (map f (concat xss)) = concat (map (\<lambda>xs. concat (map f xs)) xss)"
  by (induction xss) simp_all

lemma decorated_groups:
  assumes "groups_ok k gs ms"
  shows "map bare (concat (map (decorate \<circ> block_of content k) gs)) = map bare ms"
    and "(\<And>m. m \<in> set ms \<Longrightarrow> plain m) \<Longrightarrow>
      concat (map shown_lines (concat (map (decorate \<circ> block_of content k) gs)))
      = concat (map (block_lines \<circ> block_of content k) gs)"
proof -
  have cb: "cb_matches (block_of content k g) = g" for g
    by (simp add: block_of_def)
  have g: "g \<noteq> []" "set g \<subseteq> set ms" if "g \<in> set gs" for g
    using groups_ok_member [OF assms that] by simp_all
  have "map (\<lambda>g. map bare (decorate (block_of content k g))) gs = map (map bare) gs"
  proof (rule map_cong [OF refl])
    fix h assume "h \<in> set gs"
    then have "h \<noteq> []" by (rule g(1))
    then show "map bare (decorate (block_of content k h)) = map bare h"
      using decorate_bare [of "block_of content k h"] by (simp add: cb)
  qed
  then have "map bare (concat (map (decorate \<circ> block_of content k) gs)) = map bare (concat gs)"
    by (simp add: map_concat comp_def cong: map_cong)
  then show "map bare (concat (map (decorate \<circ> block_of content k) gs)) = map bare ms"
    by (simp add: groups_ok_concat [OF assms])
  assume plain: "\<And>m. m \<in> set ms \<Longrightarrow> plain m"
  have "concat (map shown_lines (decorate (block_of content k g))) = block_lines (block_of content k g)"
    if "g \<in> set gs" for g
    using g [OF that] plain by (intro shown_decorate) (auto simp: cb)
  then have "map (\<lambda>g. concat (map shown_lines (decorate (block_of content k g)))) gs
      = map (block_lines \<circ> block_of content k) gs"
    by simp
  then show "concat (map shown_lines (concat (map (decorate \<circ> block_of content k) gs)))
      = concat (map (block_lines \<circ> block_of content k) gs)"
    unfolding concat_map_concat by (simp add: comp_def cong: map_cong)
qed

lemma query_matches_shown:
  assumes "length content + unat k + 1 < u32_max"
    and "eval_query rx q content = Inr (Some ms)"
  shows "\<exists>ls. query_matches rx q k content = Inr (Some ls) \<and> map bare ls = map bare ms \<and>
    sorted_wrt (<) (concat (map shown_lines ls))"
proof -
  have small: "length content < u32_max" using assms(1) by simp
  obtain L where L: "lines_are ms L" "L = raw_lines rx q content"
    using eval_query_sat_aux(1) [OF small, of rx q] assms(2) by auto
  then have sorted: "sorted_wrt (<) (map line_no ms)" by (simp add: lines_are_def)
  have plain: "plain m" if "m \<in> set ms" for m
    using eval_plain [OF small assms(2) that] .
  show ?thesis
  proof (cases "k = 0 \<or> ms = [] \<or> content = []")
    case True
    with assms(2) have "query_matches rx q k content = Inr (Some ms)"
      by (auto simp: query_matches_def attach_context_def)
    moreover have "concat (map shown_lines ms) = map line_no ms"
      using plain by (rule concat_shown_plain)
    ultimately show ?thesis
      using sorted by (intro exI [of _ ms]) simp
  next
    case False
    let ?gs = "foldl (push_group k) [] ms"
    have ok: "groups_ok (unat k) ?gs ms" by (rule groups_ok_foldl [OF sorted])
    have le: "line_no m \<le> length (lines_of content)" if "m \<in> set ms" for m
    proof -
      have "line_no m \<in> Suc ` raw_lines rx q content"
        using that L unfolding lines_are_def by blast
      then show ?thesis
        using raw_lines_less by (auto simp: Suc_le_eq)
    qed
    have "query_matches rx q k content
        = Inr (Some (concat (map (decorate \<circ> block_of content (unat k)) ?gs)))"
      using False attach_context_blocks [OF assms(1) _ _ sorted le]
      by (simp add: query_matches_def assms(2))
    moreover have "map bare (concat (map (decorate \<circ> block_of content (unat k)) ?gs)) = map bare ms"
      using decorated_groups(1) [OF ok, of content] plain by blast
    moreover have "sorted_wrt (<) (concat (map shown_lines (concat (map (decorate \<circ> block_of content (unat k)) ?gs))))"
      using decorated_groups(2) [OF ok plain, of content] blocks_of_groups_sorted [OF assms(1) ok sorted le]
      by (simp add: comp_def)
    ultimately show ?thesis by blast
  qed
qed

lemma query_matches_sat:
  assumes "length content + unat k + 1 < u32_max"
  shows "\<exists>r. query_matches rx q k content = Inr r \<and> (r \<noteq> None \<longleftrightarrow> query_sat rx q content)"
proof -
  have "length content < u32_max" using assms by simp
  from eval_query_sat_aux(1) [OF this, of rx q]
  obtain r where r: "eval_query rx q content = Inr r" "r \<noteq> None \<longleftrightarrow> query_sat rx q content" by blast
  show ?thesis
  proof (cases r)
    case None
    with r show ?thesis by (simp add: query_matches_def)
  next
    case (Some ms)
    with r query_matches_shown [OF assms, of rx q ms] show ?thesis by auto
  qed
qed

text \<open>
  C38. Context lines of the matcher: for a satisfied query with context, on a file not too close to
  4 GiB, the matcher does not panic; without their context its lines are exactly the lines of the
  evaluation; and the line numbers shown, each match with its context before and after it, are
  strictly increasing over the whole result, so that no line is shown twice.
\<close>

theorem query_matches_context:
  assumes "length content + unat k + 1 < u32_max"
    and "eval_query rx q content = Inr (Some ms)"
  shows "\<exists>ls. query_matches rx q k content = Inr (Some ls) \<and> map bare ls = map bare ms \<and>
    sorted_wrt (<) (concat (map shown_lines ls))"
  using assms by (rule query_matches_shown)

theorem query_matches_context_witness:
  "\<exists>ms ls. query_matches sample_regex sample_query 1 sample_text = Inr (Some ls) \<and> map bare ls = map bare ms \<and>
    sorted_wrt (<) (concat (map shown_lines ls))"
proof -
  obtain ms where "eval_query sample_regex sample_query sample_text = Inr (Some ms)"
    using sample_query_found
    by (cases "eval_query sample_regex sample_query sample_text") auto
  moreover have "length sample_text + unat (1 :: u32) + 1 < u32_max"
    by (simp add: sample_text_valid)
  ultimately show ?thesis
    using query_matches_context [of sample_text 1 sample_regex sample_query] by blast
qed

end
