(* ===== verification/Query_Trigrams.thy ===== *)
theory Query_Trigrams
  imports Query_Match Trigram_Extract
begin

text \<open>
  Trigram extraction from queries (\<open>ferret-core/src/query_trigrams.rs\<close>): which trigrams a file must
  contain to be worth verifying. The parser of regular expressions and its literal extractor (the
  \<open>regex-syntax\<close> crate) are parameters. The lemmas show when the extracted condition is necessary for
  the query, and the two places where it is not.
\<close>

section \<open>The condition\<close>

datatype trigram_query =
  TQ_All "trigram list"
| TQ_Any "trigram list list"
| TQ_None

definition tq_is_none :: "trigram_query \<Rightarrow> bool" where
  "tq_is_none tq = (case tq of TQ_None \<Rightarrow> True | _ \<Rightarrow> False)"

fun tq_trigram_count :: "trigram_query \<Rightarrow> nat" where
  "tq_trigram_count (TQ_All s) = length s"
| "tq_trigram_count (TQ_Any branches) = sum_list (map length branches)"
| "tq_trigram_count TQ_None = 0"

text \<open>\<open>HashSet::extend\<close> on sets kept as lists without repetitions.\<close>

definition set_extend :: "'a list \<Rightarrow> 'a list \<Rightarrow> 'a list" where
  "set_extend s t = s @ filter (\<lambda>x. x \<notin> set s) (remdups t)"

lemma set_set_extend [simp]: "set (set_extend s t) = set s \<union> set t"
  by (auto simp: set_extend_def)

lemma distinct_set_extend [simp]: "distinct s \<Longrightarrow> distinct (set_extend s t)"
  by (auto simp: set_extend_def)

section \<open>The regex-syntax crate\<close>

text \<open>
  A parsed expression, its branches when it is an alternation at the top, and the literals every
  match starts or ends with one of, when the extractor finds such a finite sequence.
\<close>

record 'h regex_syntax =
  rs_parse :: "text_utf8 \<Rightarrow> 'h option"
  rs_alternation :: "'h \<Rightarrow> 'h list option"
  rs_prefix_literals :: "'h \<Rightarrow> bytes list option"
  rs_suffix_literals :: "'h \<Rightarrow> bytes list option"

section \<open>Extraction\<close>

definition extract_literal_trigrams :: "text_utf8 \<Rightarrow> trigram_query" where
  "extract_literal_trigrams lit =
     (if length lit < 3 then TQ_None
      else
        let trigrams = extract_unique_trigrams_folded lit
        in if trigrams = [] then TQ_None else TQ_All trigrams)"

fun extend_literals :: "trigram list \<Rightarrow> bytes list \<Rightarrow> trigram list" where
  "extend_literals all_trigrams [] = all_trigrams"
| "extend_literals all_trigrams (lit # lits) =
     extend_literals
       (if length lit \<ge> 3 then set_extend all_trigrams (extract_unique_trigrams_folded lit) else all_trigrams)
       lits"

definition extract_trigrams_from_hir :: "'h regex_syntax \<Rightarrow> 'h \<Rightarrow> trigram list" where
  "extract_trigrams_from_hir rs hir =
     (let add = (\<lambda>sq ts. case sq of Some literals \<Rightarrow> extend_literals ts literals | None \<Rightarrow> ts)
      in add (rs_suffix_literals rs hir) (add (rs_prefix_literals rs hir) []))"

definition any_of :: "trigram list list \<Rightarrow> trigram_query" where
  "any_of branches = (case branches of [] \<Rightarrow> TQ_None | [b] \<Rightarrow> TQ_All b | _ \<Rightarrow> TQ_Any branches)"

definition extract_regex_trigrams :: "'h regex_syntax \<Rightarrow> text_utf8 \<Rightarrow> trigram_query" where
  "extract_regex_trigrams rs pattern =
     (case rs_parse rs pattern of
        None \<Rightarrow> TQ_None
      | Some hir \<Rightarrow>
          (case rs_alternation rs hir of
             Some branches \<Rightarrow>
               if \<exists>b \<in> set branches. extract_trigrams_from_hir rs b = [] then TQ_None
               else any_of (map (extract_trigrams_from_hir rs) branches)
           | None \<Rightarrow>
               let trigrams = extract_trigrams_from_hir rs hir
               in if trigrams = [] then TQ_None else TQ_All trigrams))"

text \<open>
  The product of two branch lists, row by row; the loop stops with what it has when it reaches 64
  branches.
\<close>

definition branch_product :: "trigram list list \<Rightarrow> trigram list list \<Rightarrow> trigram list list" where
  "branch_product a_branches b_branches =
     concat (map (\<lambda>a. map (\<lambda>b. set_extend a b) b_branches) a_branches)"

fun merge_and :: "trigram_query \<Rightarrow> trigram_query \<Rightarrow> trigram_query" where
  "merge_and TQ_None other = other"
| "merge_and other TQ_None = other"
| "merge_and (TQ_All s1) (TQ_All s2) = TQ_All (set_extend s1 s2)"
| "merge_and (TQ_All all) (TQ_Any branches) = TQ_Any (map (\<lambda>b. set_extend b all) branches)"
| "merge_and (TQ_Any branches) (TQ_All all) = TQ_Any (map (\<lambda>b. set_extend b all) branches)"
| "merge_and (TQ_Any a_branches) (TQ_Any b_branches) =
     (let result = branch_product a_branches b_branches
      in if length result \<ge> 64 then TQ_Any (take 64 result) else any_of result)"

fun or_branches :: "trigram_query \<Rightarrow> trigram list list option" where
  "or_branches TQ_None = None"
| "or_branches (TQ_All s) = Some [s]"
| "or_branches (TQ_Any inner) = Some inner"

definition merge_or :: "trigram_query \<Rightarrow> trigram_query \<Rightarrow> trigram_query" where
  "merge_or left right =
     (case (or_branches left, or_branches right) of
        (Some l, Some r) \<Rightarrow> any_of (l @ r)
      | _ \<Rightarrow> TQ_None)"

fun extract_query_trigrams :: "'h regex_syntax \<Rightarrow> query \<Rightarrow> trigram_query" where
  "extract_query_trigrams rs (Q_Literal lq) = extract_literal_trigrams (lq_text lq)"
| "extract_query_trigrams rs (Q_Phrase pq) = extract_literal_trigrams (pq_text pq)"
| "extract_query_trigrams rs (Q_Regex rq) = extract_regex_trigrams rs (rq_pattern rq)"
| "extract_query_trigrams rs (Q_PathFilter p) = TQ_None"
| "extract_query_trigrams rs (Q_LanguageFilter l) = TQ_None"
| "extract_query_trigrams rs (Q_Not q) = TQ_None"
| "extract_query_trigrams rs (Q_And children) =
     foldl merge_and TQ_None (map (extract_query_trigrams rs) children)"
| "extract_query_trigrams rs (Q_Or left right) =
     merge_or (extract_query_trigrams rs left) (extract_query_trigrams rs right)"

section \<open>When the condition is necessary\<close>

fun tq_matches :: "trigram_query \<Rightarrow> trigram set \<Rightarrow> bool" where
  "tq_matches (TQ_All s) T \<longleftrightarrow> set s \<subseteq> T"
| "tq_matches (TQ_Any branches) T \<longleftrightarrow> (\<exists>b \<in> set branches. set b \<subseteq> T)"
| "tq_matches TQ_None T \<longleftrightarrow> True"

text \<open>How many branches a condition has; a conjunction multiplies them.\<close>

fun tq_width :: "trigram_query \<Rightarrow> nat" where
  "tq_width (TQ_Any branches) = length branches"
| "tq_width _ = 1"

fun query_width :: "'h regex_syntax \<Rightarrow> query \<Rightarrow> nat" where
  "query_width rs (Q_Or a b) = query_width rs a + query_width rs b"
| "query_width rs (Q_And qs) = prod_list (map (query_width rs) qs)"
| "query_width rs (Q_Regex rq) = max 1 (tq_width (extract_regex_trigrams rs (rq_pattern rq)))"
| "query_width rs q = 1"

lemma any_of_matches: "tq_matches (any_of bs) T \<longleftrightarrow> bs = [] \<or> (\<exists>b \<in> set bs. set b \<subseteq> T)"
  by (auto simp: any_of_def split: list.splits)

lemma any_of_width: "tq_width (any_of bs) = max 1 (length bs)"
  by (auto simp: any_of_def split: list.splits)

lemma length_branch_product: "length (branch_product a b) = length a * length b"
  by (simp add: branch_product_def length_concat comp_def sum_list_triv)

lemma merge_and_matches:
  assumes "tq_matches a T" and "tq_matches b T" and "tq_width a * tq_width b \<le> 64"
  shows "tq_matches (merge_and a b) T"
proof (cases "(a, b)" rule: merge_and.cases)
  case (6 as bs)
  then have ab: "a = TQ_Any as" "b = TQ_Any bs" by simp_all
  obtain x y where x: "x \<in> set as" "set x \<subseteq> T" and y: "y \<in> set bs" "set y \<subseteq> T"
    using assms(1,2) by (auto simp: ab)
  have len: "length (branch_product as bs) \<le> 64"
    using assms(3) by (simp add: ab length_branch_product)
  have "set_extend x y \<in> set (branch_product as bs)"
    using x(1) y(1) by (auto simp: branch_product_def)
  moreover have "set (set_extend x y) \<subseteq> T"
    using x(2) y(2) by simp
  ultimately have hit: "\<exists>b \<in> set (branch_product as bs). set b \<subseteq> T" by blast
  show ?thesis
  proof (cases "length (branch_product as bs) \<ge> 64")
    case True
    with len have "take 64 (branch_product as bs) = branch_product as bs" by simp
    with True hit show ?thesis by (simp add: ab)
  next
    case False
    with hit show ?thesis by (simp add: ab any_of_matches)
  qed
qed (use assms in auto)

lemma merge_and_width: "tq_width (merge_and a b) \<le> max 1 (tq_width a) * max 1 (tq_width b)"
  by (induction a b rule: merge_and.induct)
    (auto simp: Let_def any_of_width length_branch_product max_def Suc_le_eq)

lemma query_width_pos: "1 \<le> query_width rs q"
proof (induction rs q rule: query_width.induct)
  case (2 rs qs)
  have "1 \<le> prod_list (map (query_width rs) qs')" if "set qs' \<subseteq> set qs" for qs'
    using that by (induction qs') (use 2 in \<open>auto simp: Suc_le_eq\<close>)
  then show ?case by simp
qed auto

text \<open>
  What the code relies on in the two crates. A match of an escaped literal under \<open>(?i)\<close>, in
  ASCII, is the literal up to case; a match of an expression starts with one of its prefix literals and
  ends with one of its suffix literals, and a match of an alternation is one of a branch.
\<close>

definition ascii_case_law :: "'r regex_crate \<Rightarrow> bool" where
  "ascii_case_law rx \<longleftrightarrow>
     (\<forall>lit hay re. is_ascii_text lit \<longrightarrow> is_ascii_text hay \<longrightarrow>
        re_build rx (''(?i)'' @ re_escape rx lit) = Some re \<longrightarrow> re_find_iter rx re hay \<noteq> [] \<longrightarrow>
        sublist (fold_text lit) (fold_text hay))"

definition literals_law :: "'h regex_syntax \<Rightarrow> 'h \<Rightarrow> bytes \<Rightarrow> bool" where
  "literals_law rs h m \<longleftrightarrow>
     (\<forall>ls. rs_prefix_literals rs h = Some ls \<longrightarrow> (\<exists>l \<in> set ls. prefix l m)) \<and>
     (\<forall>ls. rs_suffix_literals rs h = Some ls \<longrightarrow> (\<exists>l \<in> set ls. suffix l m))"

definition regex_law :: "'r regex_crate \<Rightarrow> 'h regex_syntax \<Rightarrow> bool" where
  "regex_law rx rs \<longleftrightarrow>
     (\<forall>pat h re hay a b. rs_parse rs pat = Some h \<longrightarrow> re_build rx pat = Some re \<longrightarrow>
        (a, b) \<in> set (re_find_iter rx re hay) \<longrightarrow>
        (case rs_alternation rs h of
           None \<Rightarrow> literals_law rs h (slice a b hay)
         | Some bs \<Rightarrow> \<exists>h' \<in> set bs. literals_law rs h' (slice a b hay)))"

text \<open>
  The code requires the trigrams of all literals of a sequence, so it is right only when they agree up
  to case.
\<close>

definition same_literals :: "bytes list option \<Rightarrow> bool" where
  "same_literals sq \<longleftrightarrow> (\<forall>ls. sq = Some ls \<longrightarrow> (\<forall>l \<in> set ls. \<forall>l' \<in> set ls. fold_text l = fold_text l'))"

definition one_literal :: "'h regex_syntax \<Rightarrow> 'h \<Rightarrow> bool" where
  "one_literal rs h \<longleftrightarrow> same_literals (rs_prefix_literals rs h) \<and> same_literals (rs_suffix_literals rs h)"

definition one_literal_pattern :: "'h regex_syntax \<Rightarrow> text_utf8 \<Rightarrow> bool" where
  "one_literal_pattern rs pat \<longleftrightarrow>
     (case rs_parse rs pat of
        None \<Rightarrow> True
      | Some h \<Rightarrow> (case rs_alternation rs h of
          None \<Rightarrow> one_literal rs h | Some bs \<Rightarrow> \<forall>b \<in> set bs. one_literal rs b))"

definition literal_ok_in :: "bytes \<Rightarrow> bool \<Rightarrow> text_utf8 \<Rightarrow> bool" where
  "literal_ok_in content case_sensitive lit \<longleftrightarrow> case_sensitive \<or> is_ascii_text lit \<and> is_ascii_text content"

fun leaves_ok :: "'h regex_syntax \<Rightarrow> bytes \<Rightarrow> query \<Rightarrow> bool" where
  "leaves_ok rs content (Q_Literal lq) \<longleftrightarrow> literal_ok_in content (lq_case_sensitive lq) (lq_text lq)"
| "leaves_ok rs content (Q_Phrase pq) \<longleftrightarrow> literal_ok_in content (pq_case_sensitive pq) (pq_text pq)"
| "leaves_ok rs content (Q_Regex rq) \<longleftrightarrow> rq_case_sensitive rq \<and> one_literal_pattern rs (rq_pattern rq)"
| "leaves_ok rs content (Q_PathFilter p) \<longleftrightarrow> True"
| "leaves_ok rs content (Q_LanguageFilter l) \<longleftrightarrow> True"
| "leaves_ok rs content (Q_Not q) \<longleftrightarrow> True"
| "leaves_ok rs content (Q_Or a b) \<longleftrightarrow> leaves_ok rs content a \<and> leaves_ok rs content b"
| "leaves_ok rs content (Q_And qs) \<longleftrightarrow> (\<forall>q \<in> set qs. leaves_ok rs content q)"

lemma literal_trigrams_matches:
  "sublist (fold_text lit) (fold_text content) \<Longrightarrow>
     tq_matches (extract_literal_trigrams lit) (set (extract_trigrams_folded content))"
  using trigrams_necessary [of lit content]
  by (auto simp: extract_literal_trigrams_def Let_def simp del: set_extract_unique)

lemma literal_width: "tq_width (extract_literal_trigrams lit) = 1"
  by (simp add: extract_literal_trigrams_def Let_def)

lemma literal_sat_sublist:
  assumes "utf8_valid content" and "ascii_case_law rx" and "literal_ok_in content cs lit"
    and "pattern_ranges rx (literal_pattern cs lit) content \<noteq> []"
  shows "sublist (fold_text lit) (fold_text content)"
proof (cases cs)
  case True
  then have "occurrences lit content \<noteq> []"
    using assms(4) by (auto simp: pattern_ranges_def match_ranges_def content_verifier_new_def literal_pattern_def
        from_utf8_lossy_valid [OF assms(1)] split: if_splits)
  then obtain p where "prefix lit (drop p content)"
    by (auto simp: occurrences_def filter_empty_conv)
  then have "sublist lit content"
    by (metis append_take_drop_id prefixE sublist_appendI)
  then show ?thesis by (rule sublist_fold_text)
next
  case False
  then obtain re where "re_build rx (''(?i)'' @ re_escape rx lit) = Some re" and "re_find_iter rx re content \<noteq> []"
    using assms(4) by (auto simp: pattern_ranges_def match_ranges_def content_verifier_new_def literal_pattern_def
        from_utf8_lossy_valid [OF assms(1)] split: if_splits option.splits)
  with False assms(2,3) show ?thesis
    unfolding ascii_case_law_def literal_ok_in_def by blast
qed

lemma set_extend_literals:
  "set (extend_literals ts ls)
    = set ts \<union> (\<Union>l \<in> {l \<in> set ls. 3 \<le> length l}. set (extract_trigrams_folded l))"
  by (induction ls arbitrary: ts) auto

lemma extend_same_literals:
  assumes "same_literals (Some ls)" and "l \<in> set ls" and "sublist l content"
    and "set ts \<subseteq> set (extract_trigrams_folded content)"
  shows "set (extend_literals ts ls) \<subseteq> set (extract_trigrams_folded content)"
proof -
  have "set (extract_trigrams_folded l') \<subseteq> set (extract_trigrams_folded content)" if "l' \<in> set ls" for l'
  proof -
    have "fold_text l' = fold_text l"
      using assms(1,2) that unfolding same_literals_def by blast
    then have "extract_trigrams_folded l' = extract_trigrams_folded l"
      unfolding extract_trigrams_folded_eq by simp
    then show ?thesis
      using trigrams_folded_sublist [OF sublist_fold_text [OF assms(3)]] by simp
  qed
  with assms(4) show ?thesis
    unfolding set_extend_literals by blast
qed

lemma hir_trigrams_necessary:
  assumes "one_literal rs h" and "literals_law rs h m" and "sublist m content"
  shows "set (extract_trigrams_from_hir rs h) \<subseteq> set (extract_trigrams_folded content)"
proof -
  have pre: "set (case rs_prefix_literals rs h of None \<Rightarrow> [] | Some ls \<Rightarrow> extend_literals [] ls)
      \<subseteq> set (extract_trigrams_folded content)"
  proof (cases "rs_prefix_literals rs h")
    case (Some ls)
    then obtain l where "l \<in> set ls" "prefix l m" using assms(2) unfolding literals_law_def by blast
    then have "l \<in> set ls" "sublist l content"
      using assms(3) by (auto dest: prefix_imp_sublist sublist_order.order_trans)
    with Some assms(1) show ?thesis
      by (simp add: one_literal_def extend_same_literals)
  qed simp
  show ?thesis
  proof (cases "rs_suffix_literals rs h")
    case None
    with pre show ?thesis by (simp add: extract_trigrams_from_hir_def)
  next
    case (Some ls)
    then obtain l where "l \<in> set ls" "suffix l m" using assms(2) unfolding literals_law_def by blast
    then have "l \<in> set ls" "sublist l content"
      using assms(3) by (auto dest: suffix_imp_sublist sublist_order.order_trans)
    with pre Some assms(1) show ?thesis
      by (simp add: extract_trigrams_from_hir_def one_literal_def extend_same_literals)
  qed
qed

lemma sublist_slice: "sublist (slice a b xs) xs"
  unfolding slice_def by (meson sublist_drop sublist_order.order_trans sublist_take)

lemma regex_trigrams_necessary:
  assumes "utf8_valid content" and "regex_law rx rs" and "one_literal_pattern rs pat"
    and "pattern_ranges rx (MP_Regex pat) content \<noteq> []"
  shows "tq_matches (extract_regex_trigrams rs pat) (set (extract_trigrams_folded content))"
proof (cases "rs_parse rs pat")
  case None
  then show ?thesis by (simp add: extract_regex_trigrams_def)
next
  case (Some h)
  obtain re where re: "re_build rx pat = Some re" and "re_find_iter rx re content \<noteq> []"
    using assms(4) by (auto simp: pattern_ranges_def match_ranges_def content_verifier_new_def
        from_utf8_lossy_valid [OF assms(1)] split: if_splits option.splits)
  then obtain a b where ab: "(a, b) \<in> set (re_find_iter rx re content)"
    by (cases "re_find_iter rx re content") auto
  note law = assms(2) [unfolded regex_law_def, rule_format, OF Some re ab]
  note sub = sublist_slice [of a b content]
  show ?thesis
  proof (cases "rs_alternation rs h")
    case None
    then have "set (extract_trigrams_from_hir rs h) \<subseteq> set (extract_trigrams_folded content)"
      using law assms(3) Some by (intro hir_trigrams_necessary [OF _ _ sub]) (simp_all add: one_literal_pattern_def)
    with None Some show ?thesis
      by (simp add: extract_regex_trigrams_def Let_def)
  next
    case alt: (Some bs)
    then obtain h' where h': "h' \<in> set bs" "literals_law rs h' (slice a b content)"
      using law by auto
    then have "set (extract_trigrams_from_hir rs h') \<subseteq> set (extract_trigrams_folded content)"
      using assms(3) Some alt by (intro hir_trigrams_necessary [OF _ _ sub]) (simp_all add: one_literal_pattern_def)
    with Some alt h'(1) show ?thesis
      by (auto simp: extract_regex_trigrams_def any_of_matches)
  qed
qed

lemma foldl_merge_and:
  assumes "\<forall>q \<in> set qs. 1 \<le> w q \<and> max 1 (tq_width (f q)) \<le> w q"
    and "max 1 (tq_width acc) \<le> k" and "k * prod_list (map w qs) \<le> 64"
  shows "max 1 (tq_width (foldl merge_and acc (map f qs))) \<le> k * prod_list (map w qs)"
    and "tq_matches acc T \<Longrightarrow> (\<And>q. q \<in> set qs \<Longrightarrow> tq_matches (f q) T) \<Longrightarrow>
      tq_matches (foldl merge_and acc (map f qs)) T"
  using assms
proof (induction qs arbitrary: acc k)
  case Nil
  { case 1 then show ?case by simp next case 2 then show ?case by simp }
next
  case (Cons q qs)
  have step: "max 1 (tq_width (merge_and acc (f q))) \<le> k * w q" "max 1 (tq_width acc) * max 1 (tq_width (f q)) \<le> 64"
      "k * w q * prod_list (map w qs) \<le> 64" "\<forall>p \<in> set qs. 1 \<le> w p \<and> max 1 (tq_width (f p)) \<le> w p"
    if prems: "\<forall>p \<in> set (q # qs). 1 \<le> w p \<and> max 1 (tq_width (f p)) \<le> w p"
      "max 1 (tq_width acc) \<le> k" "k * prod_list (map w (q # qs)) \<le> 64" for acc k
  proof -
    let ?w = "max 1 (tq_width acc) * max 1 (tq_width (f q))"
    show rest: "\<forall>p \<in> set qs. 1 \<le> w p \<and> max 1 (tq_width (f p)) \<le> w p"
      using prems(1) by simp
    then have one: "1 \<le> prod_list (map w qs)"
      by (induction qs) (auto simp: Suc_le_eq)
    have "max 1 (tq_width (f q)) \<le> w q" using prems(1) by simp
    then have le: "?w \<le> k * w q"
      using prems(2) by (rule mult_le_mono [rotated])
    show kw: "k * w q * prod_list (map w qs) \<le> 64"
      using prems(3) by (simp add: mult.assoc)
    have "k * w q \<le> k * w q * prod_list (map w qs)"
      using one by simp
    with kw le show "?w \<le> 64" by linarith
    have "1 * 1 \<le> ?w" by (intro mult_le_mono) simp_all
    then have "1 \<le> ?w" by simp
    then show "max 1 (tq_width (merge_and acc (f q))) \<le> k * w q"
      using merge_and_width [of acc "f q"] le by linarith
  qed
  {
    case (1 acc k)
    note steps = step [OF 1]
    show ?case
      using Cons.IH(1) [OF steps(4,1,3)] by (simp add: mult.assoc)
  next
    case (2 acc k)
    note steps = step [OF 2(3,4,5)]
    have "tq_width acc * tq_width (f q) \<le> max 1 (tq_width acc) * max 1 (tq_width (f q))"
      by (intro mult_le_mono) simp_all
    with steps(2) have "tq_width acc * tq_width (f q) \<le> 64" by linarith
    then have "tq_matches (merge_and acc (f q)) T"
      using 2(1,2) by (intro merge_and_matches) simp_all
    with 2(2) show ?case
      using Cons.IH(2) [OF _ _ steps(4,1,3)] by simp
  }
qed

lemma or_branches_matches:
  "or_branches tq = Some bs \<Longrightarrow> tq_matches tq T \<longleftrightarrow> (\<exists>b \<in> set bs. set b \<subseteq> T)"
  by (cases tq) auto

lemma or_branches_length: "or_branches tq = Some bs \<Longrightarrow> length bs \<le> max 1 (tq_width tq)"
  by (cases tq) auto

lemma merge_or_matches: "tq_matches a T \<or> tq_matches b T \<Longrightarrow> tq_matches (merge_or a b) T"
  by (auto simp: merge_or_def any_of_matches or_branches_matches split: option.splits)

lemma merge_or_width: "max 1 (tq_width (merge_or a b)) \<le> max 1 (tq_width a) + max 1 (tq_width b)"
  using or_branches_length [of a] or_branches_length [of b]
  by (fastforce simp: merge_or_def any_of_width split: option.splits)

lemma prod_list_member_le:
  fixes w :: "'a \<Rightarrow> nat"
  assumes "\<And>q. q \<in> set qs \<Longrightarrow> 1 \<le> w q" and "q \<in> set qs"
  shows "w q \<le> prod_list (map w qs)"
  using assms
proof (induction qs)
  case Nil
  then show ?case by simp
next
  case (Cons p qs)
  have rest: "1 \<le> prod_list (map w qs)"
    using Cons.prems(1) by (induction qs) (auto simp: Suc_le_eq)
  have p: "1 \<le> w p" using Cons.prems(1) by simp
  show ?case
  proof (cases "q = p")
    case True
    with rest show ?thesis by simp
  next
    case False
    with Cons have "w q \<le> prod_list (map w qs)" by simp
    with p show ?thesis by (simp add: order.trans)
  qed
qed

lemma query_trigrams_necessary_aux:
  assumes "utf8_valid content" and "ascii_case_law rx" and "regex_law rx rs"
  shows "query_width rs q \<le> 64 \<Longrightarrow> leaves_ok rs content q \<Longrightarrow>
      (query_sat rx q content \<longrightarrow> tq_matches (extract_query_trigrams rs q) (set (extract_trigrams_folded content)))
      \<and> max 1 (tq_width (extract_query_trigrams rs q)) \<le> query_width rs q"
proof (induction q)
  case (Q_Literal lq)
  then show ?case
    using literal_sat_sublist [OF assms(1,2)] literal_trigrams_matches by (auto simp: literal_width)
next
  case (Q_Phrase pq)
  then show ?case
    using literal_sat_sublist [OF assms(1,2)] literal_trigrams_matches by (auto simp: literal_width)
next
  case (Q_Regex rq)
  then show ?case
    using regex_trigrams_necessary [OF assms(1,3), of "rq_pattern rq"] by (simp add: regex_pattern_def)
next
  case (Q_Or a b)
  have "query_width rs a \<le> 64" "query_width rs b \<le> 64"
    using Q_Or.prems(1) by simp_all
  with Q_Or show ?case
    using merge_or_matches merge_or_width [of "extract_query_trigrams rs a" "extract_query_trigrams rs b"]
    by (fastforce intro: order.trans)
next
  case (Q_And qs)
  have pos: "1 \<le> query_width rs q" for q by (rule query_width_pos)
  have width: "query_width rs q \<le> 64" if "q \<in> set qs" for q
    using prod_list_member_le [of qs "query_width rs" q] pos that Q_And.prems(1) by simp
  have all: "(query_sat rx q content \<longrightarrow>
        tq_matches (extract_query_trigrams rs q) (set (extract_trigrams_folded content)))
      \<and> max 1 (tq_width (extract_query_trigrams rs q)) \<le> query_width rs q" if "q \<in> set qs" for q
    using Q_And.IH [OF that width [OF that]] Q_And.prems(2) that by simp
  have widths: "\<forall>q \<in> set qs. 1 \<le> query_width rs q \<and>
      max 1 (tq_width (extract_query_trigrams rs q)) \<le> query_width rs q"
    using all pos by simp
  note fold = foldl_merge_and [of qs "query_width rs" "extract_query_trigrams rs" TQ_None 1, OF widths]
  show ?case
    using fold(1) fold(2) [of "set (extract_trigrams_folded content)"] all Q_And.prems(1) by auto
qed simp_all

text \<open>
  C9. The trigrams of a query are a necessary condition: a valid UTF-8 file that satisfies the query
  meets the extracted condition, for every query whose conjunctions produce at most 64 branches,
  whose case-insensitive literals are ASCII (in an ASCII file) and whose expressions have literals that
  agree up to case, under the documented contracts of the two regular-expression crates.
\<close>

theorem query_trigrams_necessary:
  assumes "utf8_valid content" and "ascii_case_law rx" and "regex_law rx rs"
    and "query_width rs q \<le> 64" and "leaves_ok rs content q" and "query_sat rx q content"
  shows "tq_matches (extract_query_trigrams rs q) (set (extract_trigrams_folded content))"
  using query_trigrams_necessary_aux [OF assms(1-3)] assms(4-6) by blast

text \<open>
  An engine of literal expressions for the witnesses: an expression is the text it matches, up to
  case when it starts with \<open>(?i)\<close>; its parsed form is that text.
\<close>

definition literal_engine :: "(bool \<times> text_utf8) regex_crate" where
  "literal_engine =
     \<lparr>re_build = (\<lambda>p. Some (if prefix ''(?i)'' p then (True, drop 4 p) else (False, p))),
      re_escape = (\<lambda>s. s),
      re_find_iter = (\<lambda>(fold, lit) hay.
        map (\<lambda>p. (p, p + length lit))
          (if fold then occurrences (fold_text lit) (fold_text hay) else occurrences lit hay))\<rparr>"

definition literal_syntax :: "text_utf8 regex_syntax" where
  "literal_syntax =
     \<lparr>rs_parse = (\<lambda>p. if prefix ''(?i)'' p then None else Some p), rs_alternation = (\<lambda>_. None),
      rs_prefix_literals = (\<lambda>h. Some [h]), rs_suffix_literals = (\<lambda>h. Some [h])\<rparr>"

lemma occurrences_sublist: "occurrences lit hay \<noteq> [] \<Longrightarrow> sublist lit hay"
proof -
  assume "occurrences lit hay \<noteq> []"
  then obtain p where "prefix lit (drop p hay)"
    by (auto simp: occurrences_def filter_empty_conv)
  then show ?thesis by (metis append_take_drop_id prefixE sublist_appendI)
qed

lemma literal_engine_ascii: "ascii_case_law literal_engine"
proof -
  have "sublist (fold_text lit) (fold_text hay)"
    if "re_build literal_engine (''(?i)'' @ re_escape literal_engine lit) = Some re"
      "re_find_iter literal_engine re hay \<noteq> []" for lit hay re
  proof -
    have "re = (True, lit)" using that(1) by (simp add: literal_engine_def)
    with that(2) show ?thesis
      by (intro occurrences_sublist) (simp add: literal_engine_def)
  qed
  then show ?thesis by (simp add: ascii_case_law_def)
qed

lemma literal_engine_regex: "regex_law literal_engine literal_syntax"
proof -
  have "literals_law literal_syntax h (slice a b hay)"
    if h: "rs_parse literal_syntax pat = Some h" and re: "re_build literal_engine pat = Some re"
      and ab: "(a, b) \<in> set (re_find_iter literal_engine re hay)" for pat h re hay a b
  proof -
    have "h = pat" "re = (False, pat)"
      using h re by (auto simp: literal_syntax_def literal_engine_def split: if_splits)
    with ab have "prefix pat (drop a hay)" "b = a + length pat"
      by (auto simp: literal_engine_def occurrences_def)
    then have "slice a b hay = pat"
      by (auto simp: slice_def prefix_def)
    with \<open>h = pat\<close> show ?thesis
      by (simp add: literals_law_def literal_syntax_def)
  qed
  then show ?thesis
    by (simp add: regex_law_def literal_syntax_def)
qed

definition sample_and :: query where
  "sample_and =
     Q_And [Q_Literal \<lparr>lq_text = ''CDe'', lq_case_sensitive = False\<rparr>,
            Q_Regex \<lparr>rq_pattern = ''cd'', rq_case_sensitive = True\<rparr>]"

theorem query_trigrams_necessary_witness:
  "tq_matches (extract_query_trigrams literal_syntax sample_and) (set (extract_trigrams_folded sample_text))"
proof -
  have "query_width literal_syntax sample_and \<le> 64"
    by (simp add: sample_and_def extract_regex_trigrams_def literal_syntax_def Let_def)
  moreover have "is_ascii_text sample_text" "is_ascii_text ''CDe''" by code_simp+
  then have "leaves_ok literal_syntax sample_text sample_and"
    by (simp add: sample_and_def literal_ok_in_def one_literal_pattern_def one_literal_def same_literals_def
        literal_syntax_def)
  moreover have "query_sat literal_engine sample_and sample_text"
    by code_simp
  ultimately show ?thesis
    by (rule query_trigrams_necessary [OF sample_text_valid(1) literal_engine_ascii literal_engine_regex])
qed

section \<open>Where the condition is not necessary\<close>

text \<open>
  An alternation below the top, such as \<open>(foo|bar)baz\<close>, has the prefix and suffix literals
  \<open>foobaz\<close> and \<open>barbaz\<close>, one of which every match contains; the extraction requires the trigrams of
  both, which no file with just one of them has.
\<close>

lemma nested_alternation_lost:
  assumes "rs_parse rs pat = Some h" and "rs_alternation rs h = None"
    and "rs_prefix_literals rs h = Some [''foobaz'', ''barbaz'']"
    and "rs_suffix_literals rs h = Some [''foobaz'', ''barbaz'']"
  shows "literals_law rs h ''foobaz''"
    and "\<not> tq_matches (extract_regex_trigrams rs pat) (set (extract_trigrams_folded ''foobaz''))"
proof -
  show "literals_law rs h ''foobaz''"
    using assms(3,4) by (simp add: literals_law_def)
  have bar: "Trigram (CHR ''b'') (CHR ''a'') (CHR ''r'') \<in> set (extract_trigrams_from_hir rs h)"
    using assms(3,4)
    by (simp add: extract_trigrams_from_hir_def set_extend_literals)
      (simp add: extract_trigrams_folded_def from_bytes_def ascii_fold_byte_eq)
  moreover have "Trigram (CHR ''b'') (CHR ''a'') (CHR ''r'') \<notin> set (extract_trigrams_folded ''foobaz'')"
    by (simp add: extract_trigrams_folded_def from_bytes_def ascii_fold_byte_eq)
  ultimately show "\<not> tq_matches (extract_regex_trigrams rs pat) (set (extract_trigrams_folded ''foobaz''))"
    using assms(1,2) by (auto simp: extract_regex_trigrams_def Let_def)
qed

text \<open>
  Two disjunctions of nine and eight branches make 72 combinations, of which the conjunction keeps
  the first 64: a file that meets both conditions by their last branches is not a candidate.
\<close>

definition branch_trigrams :: "u8 \<Rightarrow> string \<Rightarrow> trigram list list" where
  "branch_trigrams c ds = map (\<lambda>d. [Trigram c c d]) ds"

lemma merge_and_drops_branches:
  fixes a b defines "a \<equiv> TQ_Any (branch_trigrams (CHR ''a'') ''123456789'')"
    and "b \<equiv> TQ_Any (branch_trigrams (CHR ''b'') ''12345678'')"
    and "T \<equiv> {Trigram (CHR ''a'') (CHR ''a'') (CHR ''9''), Trigram (CHR ''b'') (CHR ''b'') (CHR ''8'')}"
  shows "tq_matches a T \<and> tq_matches b T \<and> \<not> tq_matches (merge_and a b) T"
  unfolding a_def b_def T_def by code_simp

end
