(* ===== verification/Parallel_Budget.thy ===== *)
theory Parallel_Budget
  imports Core_Types
begin

text \<open>
  The parallel verification of candidates under a shared budget (the \<open>filter_map\<close> closures of
  \<open>ferret-core/src/multi_search.rs\<close>): each candidate is a task that first loads the atomic budget and
  gives up at zero, then verifies its file, and at a match decrements the budget with
  \<open>fetch_update\<close>, discarding the match when the budget has meanwhile reached zero. The loads and
  updates of different tasks interleave in any order; the step relation has one step per atomic
  operation. The lemmas show what holds in every schedule: the budget is never exceeded and
  never wasted, an unlimited search finds every match in order, and every run ends.
\<close>

section \<open>The step relation\<close>

datatype 'a task = Pending | Working | Done "'a option"

record 'a par_state =
  ps_budget :: nat
  ps_tasks :: "'a task list"

inductive par_step :: "(nat \<Rightarrow> 'a option) \<Rightarrow> 'a par_state \<Rightarrow> 'a par_state \<Rightarrow> bool"
  for verify :: "nat \<Rightarrow> 'a option"
where
  give_up: "i < length ts \<Longrightarrow> ts ! i = Pending \<Longrightarrow>
     par_step verify \<lparr>ps_budget = 0, ps_tasks = ts\<rparr> \<lparr>ps_budget = 0, ps_tasks = ts[i := Done None]\<rparr>"
| start: "i < length ts \<Longrightarrow> ts ! i = Pending \<Longrightarrow> 0 < b \<Longrightarrow>
     par_step verify \<lparr>ps_budget = b, ps_tasks = ts\<rparr> \<lparr>ps_budget = b, ps_tasks = ts[i := Working]\<rparr>"
| reject: "i < length ts \<Longrightarrow> ts ! i = Working \<Longrightarrow> verify i = None \<Longrightarrow>
     par_step verify \<lparr>ps_budget = b, ps_tasks = ts\<rparr> \<lparr>ps_budget = b, ps_tasks = ts[i := Done None]\<rparr>"
| accept: "i < length ts \<Longrightarrow> ts ! i = Working \<Longrightarrow> verify i = Some m \<Longrightarrow> 0 < b \<Longrightarrow>
     par_step verify \<lparr>ps_budget = b, ps_tasks = ts\<rparr>
       \<lparr>ps_budget = b - 1, ps_tasks = ts[i := Done (Some m)]\<rparr>"
| discard: "i < length ts \<Longrightarrow> ts ! i = Working \<Longrightarrow> verify i = Some m \<Longrightarrow>
     par_step verify \<lparr>ps_budget = 0, ps_tasks = ts\<rparr> \<lparr>ps_budget = 0, ps_tasks = ts[i := Done None]\<rparr>"

inductive_cases par_stepE: "par_step verify s s'"

definition par_init :: "nat \<Rightarrow> nat \<Rightarrow> 'a par_state" where
  "par_init budget n = \<lparr>ps_budget = budget, ps_tasks = replicate n Pending\<rparr>"

definition par_run :: "(nat \<Rightarrow> 'a option) \<Rightarrow> 'a par_state \<Rightarrow> 'a par_state \<Rightarrow> bool" where
  "par_run verify = (par_step verify)\<^sup>*\<^sup>*"

fun task_result :: "'a task \<Rightarrow> 'a option" where
  "task_result (Done r) = r"
| "task_result t = None"

fun task_done :: "'a task \<Rightarrow> bool" where
  "task_done (Done r) = True"
| "task_done t = False"

text \<open>Collecting keeps the order of the candidates.\<close>

definition par_results :: "'a par_state \<Rightarrow> 'a list" where
  "par_results s = List.map_filter task_result (ps_tasks s)"

definition all_done :: "'a par_state \<Rightarrow> bool" where
  "all_done s \<longleftrightarrow> list_all task_done (ps_tasks s)"

text \<open>The schedule that finishes each candidate before it starts the following one.\<close>

fun budgeted :: "('c \<Rightarrow> 'a option result) \<Rightarrow> nat \<Rightarrow> 'c list \<Rightarrow> 'a list result" where
  "budgeted verify budget [] = Inr []"
| "budgeted verify budget (c # cs) =
     (if budget = 0 then budgeted verify budget cs
      else obind (verify c) (\<lambda>r. case r of
             None \<Rightarrow> budgeted verify budget cs
           | Some m \<Rightarrow> obind (budgeted verify (budget - 1) cs) (\<lambda>ms. Inr (m # ms))))"

lemma budgeted_zero [simp]: "budgeted verify 0 cs = Inr []"
  by (induction cs) simp_all

lemma budgeted_Inr:
  "(\<And>c. c \<in> set cs \<Longrightarrow> verify c = Inr (g c)) \<Longrightarrow>
     budgeted verify budget cs = Inr (take budget (List.map_filter g cs))"
proof (induction cs arbitrary: budget)
  case Nil
  then show ?case by (simp add: List.map_filter_def)
next
  case (Cons c cs)
  then have "budgeted verify b cs = Inr (take b (List.map_filter g cs))" for b by simp
  then show ?case
    using Cons.prems [of c]
    by (cases budget) (auto simp: map_filter_simps split: option.split)
qed

section \<open>Running a schedule\<close>

text \<open>
  An executable run: a schedule lists the indices of the tasks in the order in which the threads perform
  their next atomic operation; what it leaves unfinished is finished in order. A panic of a
  closure becomes the panic of the whole \<open>collect\<close>.
\<close>

definition task_step :: "(nat \<Rightarrow> 'a option result) \<Rightarrow> nat \<Rightarrow> 'a par_state \<Rightarrow> 'a par_state result" where
  "task_step verify i s =
     (if i < length (ps_tasks s) then
        (case ps_tasks s ! i of
           Pending \<Rightarrow>
             Inr (s\<lparr>ps_tasks := (ps_tasks s)[i := if ps_budget s = 0 then Done None else Working]\<rparr>)
         | Working \<Rightarrow>
             obind (verify i) (\<lambda>r. case r of
                 None \<Rightarrow> Inr (s\<lparr>ps_tasks := (ps_tasks s)[i := Done None]\<rparr>)
               | Some m \<Rightarrow>
                   (if ps_budget s = 0 then Inr (s\<lparr>ps_tasks := (ps_tasks s)[i := Done None]\<rparr>)
                    else Inr (s\<lparr>ps_budget := ps_budget s - 1, ps_tasks := (ps_tasks s)[i := Done (Some m)]\<rparr>)))
         | Done r \<Rightarrow> Inr s)
      else Inr s)"

fun run_schedule ::
  "(nat \<Rightarrow> 'a option result) \<Rightarrow> nat list \<Rightarrow> 'a par_state \<Rightarrow> 'a par_state result" where
  "run_schedule verify [] s = Inr s"
| "run_schedule verify (i # schedule) s = obind (task_step verify i s) (run_schedule verify schedule)"

definition par_filter_map ::
  "nat list \<Rightarrow> ('c \<Rightarrow> 'a option result) \<Rightarrow> nat \<Rightarrow> 'c list \<Rightarrow> 'a list result" where
  "par_filter_map schedule verify budget cs =
     (let n = length cs
      in obind (run_schedule (\<lambda>i. verify (cs ! i)) (schedule @ concat (map (\<lambda>i. [i, i]) [0..<n]))
                 (par_init budget n))
           (\<lambda>s. Inr (par_results s)))"

section \<open>Every schedule\<close>

text \<open>What holds in every state a run of \<open>n\<close> candidates under a budget \<open>b\<close> can reach.\<close>

definition par_inv :: "(nat \<Rightarrow> 'a option) \<Rightarrow> nat \<Rightarrow> nat \<Rightarrow> 'a par_state \<Rightarrow> bool" where
  "par_inv verify b n s \<longleftrightarrow>
     length (ps_tasks s) = n \<and> ps_budget s + length (par_results s) = b \<and>
     (\<forall>i < n. (\<forall>m. ps_tasks s ! i = Done (Some m) \<longrightarrow> verify i = Some m) \<and>
        (ps_tasks s ! i = Done None \<longrightarrow> verify i = None \<or> ps_budget s = 0))"

lemma map_filter_append: "List.map_filter f (xs @ ys) = List.map_filter f xs @ List.map_filter f ys"
  by (simp add: List.map_filter_def)

lemma map_filter_map: "List.map_filter f (map g xs) = List.map_filter (\<lambda>x. f (g x)) xs"
  by (induction xs) (simp_all add: map_filter_simps split: option.split)

lemma length_results_update:
  assumes "i < length ts" and "task_result (ts ! i) = None"
  shows "length (List.map_filter task_result (ts[i := t]))
    = length (List.map_filter task_result ts) + (if task_result t = None then 0 else 1)"
proof -
  have "length (List.map_filter task_result ts)
      = length (List.map_filter task_result (take i ts @ ts ! i # drop (Suc i) ts))"
    using id_take_nth_drop [OF assms(1)] by simp
  also have "\<dots> = length (List.map_filter task_result (take i ts))
      + length (List.map_filter task_result (drop (Suc i) ts))"
    using assms(2) by (simp add: map_filter_append map_filter_simps)
  finally have "length (List.map_filter task_result ts) = length (List.map_filter task_result (take i ts))
      + length (List.map_filter task_result (drop (Suc i) ts))" .
  moreover have "length (List.map_filter task_result (ts[i := t]))
      = length (List.map_filter task_result (take i ts)) + length (List.map_filter task_result (drop (Suc i) ts))
        + (if task_result t = None then 0 else 1)"
    using assms(1) by (simp add: upd_conv_take_nth_drop map_filter_append map_filter_simps split: option.splits)
  ultimately show ?thesis by simp
qed

lemma par_inv_step:
  assumes "par_inv verify b n s" and "par_step verify s s'"
  shows "par_inv verify b n s'"
  using assms(2,1)
  by cases (auto simp: par_inv_def par_results_def length_results_update nth_list_update)

lemma par_inv_init: "par_inv verify b n (par_init b n)"
proof -
  have "List.map_filter task_result (replicate n Pending) = []"
    by (induction n) (simp_all add: map_filter_simps)
  then show ?thesis by (simp add: par_inv_def par_init_def par_results_def)
qed

lemma par_inv_run: "par_run verify (par_init b n) s \<Longrightarrow> par_inv verify b n s"
  unfolding par_run_def
  by (induction rule: rtranclp_induct) (auto intro: par_inv_init par_inv_step)

text \<open>The matches of the candidates, in order.\<close>

definition par_matches :: "(nat \<Rightarrow> 'a option) \<Rightarrow> nat \<Rightarrow> 'a list" where
  "par_matches verify n = List.map_filter verify [0..<n]"

lemma map_filter_nth: "List.map_filter f xs = List.map_filter (\<lambda>i. f (xs ! i)) [0..<length xs]"
  using map_filter_map [of f "(!) xs" "[0..<length xs]"] by (simp add: map_nth)

lemma subseq_map_filter:
  "(\<And>x. x \<in> set xs \<Longrightarrow> f x = None \<or> f x = g x) \<Longrightarrow> subseq (List.map_filter f xs) (List.map_filter g xs)"
proof (induction xs)
  case Nil
  then show ?case by (simp add: map_filter_simps)
next
  case (Cons x xs)
  then have "subseq (List.map_filter f xs) (List.map_filter g xs)" and "f x = None \<or> f x = g x"
    by simp_all
  then show ?case
    by (auto simp: map_filter_simps split: option.split)
qed

lemma par_inv_final:
  assumes inv: "par_inv verify b n s" and finished: "all_done s"
  shows "subseq (par_results s) (par_matches verify n)"
    and "length (par_results s) = min b (length (par_matches verify n))"
proof -
  have len: "length (ps_tasks s) = n" using inv by (simp add: par_inv_def)
  have task: "\<exists>r. ps_tasks s ! i = Done r" if "i < n" for i
    using finished that len by (metis all_done_def list_all_length task_done.elims(2))
  have results: "par_results s = List.map_filter (\<lambda>i. task_result (ps_tasks s ! i)) [0..<n]"
    unfolding par_results_def by (subst map_filter_nth) (simp add: len)
  have each: "task_result (ps_tasks s ! i) = None \<or> task_result (ps_tasks s ! i) = verify i" if "i < n" for i
    using inv that task [OF that] by (cases "task_result (ps_tasks s ! i)") (auto simp: par_inv_def)
  show sub: "subseq (par_results s) (par_matches verify n)"
    unfolding results par_matches_def by (rule subseq_map_filter) (simp add: each)
  show "length (par_results s) = min b (length (par_matches verify n))"
  proof (cases "ps_budget s = 0")
    case True
    with inv have "length (par_results s) = b" by (simp add: par_inv_def)
    with list_emb_length [OF sub] show ?thesis by simp
  next
    case False
    have "task_result (ps_tasks s ! i) = verify i" if "i < n" for i
      using inv that task [OF that] False
      by (cases "task_result (ps_tasks s ! i)") (auto simp: par_inv_def)
    then have "par_results s = par_matches verify n"
      unfolding results par_matches_def List.map_filter_def by (intro map_cong filter_cong) simp_all
    with inv show ?thesis by (simp add: par_inv_def)
  qed
qed

section \<open>Every run ends\<close>

fun task_weight :: "'a task \<Rightarrow> nat" where
  "task_weight Pending = 2"
| "task_weight Working = 1"
| "task_weight (Done r) = 0"

definition par_weight :: "'a par_state \<Rightarrow> nat" where
  "par_weight s = sum_list (map task_weight (ps_tasks s))"

lemma weight_update:
  assumes "i < length ts" and "task_weight t < task_weight (ts ! i)"
  shows "sum_list (map task_weight (ts[i := t])) < sum_list (map task_weight ts)"
proof -
  have "sum_list (map task_weight ts)
      = sum_list (map task_weight (take i ts @ ts ! i # drop (Suc i) ts))"
    using id_take_nth_drop [OF assms(1)] by simp
  with assms show ?thesis by (simp add: upd_conv_take_nth_drop)
qed

lemma par_step_weight: "par_step verify s s' \<Longrightarrow> par_weight s' < par_weight s"
  by (cases rule: par_step.cases) (auto simp: par_weight_def intro!: weight_update)

lemma par_step_possible:
  assumes "\<not> all_done s"
  shows "\<exists>s'. par_step verify s s'"
proof -
  obtain b ts where s: "s = \<lparr>ps_budget = b, ps_tasks = ts\<rparr>" by (cases s) auto
  obtain i where i: "i < length ts" "\<not> task_done (ts ! i)"
    using assms by (auto simp: all_done_def list_all_length s)
  show ?thesis
  proof (cases "ts ! i")
    case Pending
    with i show ?thesis
      unfolding s by (cases b) (blast intro: par_step.give_up, blast intro: par_step.start)
  next
    case Working
    with i show ?thesis
      unfolding s by (cases "verify i"; cases b) (blast intro: par_step.reject par_step.accept par_step.discard)+
  qed (use i in simp)
qed

section \<open>The sequential schedule is one of them\<close>

lemma par_step_at:
  assumes "par_step verify \<lparr>ps_budget = b, ps_tasks = ts @ t # rest\<rparr> s"
    and "par_run verify s s'"
  shows "par_run verify \<lparr>ps_budget = b, ps_tasks = ts @ t # rest\<rparr> s'"
  using assms unfolding par_run_def by (rule converse_rtranclp_into_rtranclp)

lemma seq_give_up:
  "par_run verify \<lparr>ps_budget = 0, ps_tasks = ts @ Done None # rest\<rparr> s' \<Longrightarrow>
     par_run verify \<lparr>ps_budget = 0, ps_tasks = ts @ Pending # rest\<rparr> s'"
  using par_step.give_up [of "length ts" "ts @ Pending # rest"] by (auto intro: par_step_at)

lemma seq_reject:
  assumes "par_run verify \<lparr>ps_budget = b, ps_tasks = ts @ Done None # rest\<rparr> s'"
    and "verify (length ts) = None" and "0 < b"
  shows "par_run verify \<lparr>ps_budget = b, ps_tasks = ts @ Pending # rest\<rparr> s'"
proof -
  have "par_run verify \<lparr>ps_budget = b, ps_tasks = ts @ Working # rest\<rparr> s'"
    using par_step.reject [of "length ts" "ts @ Working # rest"] assms(1,2) by (auto intro: par_step_at)
  with par_step.start [of "length ts" "ts @ Pending # rest" b verify] assms(3) show ?thesis
    by (auto intro: par_step_at)
qed

lemma seq_accept:
  assumes "par_run verify \<lparr>ps_budget = b - 1, ps_tasks = ts @ Done (Some m) # rest\<rparr> s'"
    and "verify (length ts) = Some m" and "0 < b"
  shows "par_run verify \<lparr>ps_budget = b, ps_tasks = ts @ Pending # rest\<rparr> s'"
proof -
  have "par_run verify \<lparr>ps_budget = b, ps_tasks = ts @ Working # rest\<rparr> s'"
    using par_step.accept [of "length ts" "ts @ Working # rest" verify m b] assms
    by (auto intro: par_step_at)
  with par_step.start [of "length ts" "ts @ Pending # rest" b verify] assms(3) show ?thesis
    by (auto intro: par_step_at)
qed

lemma seq_run_from:
  assumes "list_all task_done ts"
  shows "\<exists>s' ms. par_run verify \<lparr>ps_budget = b, ps_tasks = ts @ replicate k Pending\<rparr> s' \<and> all_done s' \<and>
    budgeted (\<lambda>i. Inr (verify i)) b [length ts..<length ts + k] = Inr ms \<and>
    par_results s' = List.map_filter task_result ts @ ms"
  using assms
proof (induction k arbitrary: ts b)
  case 0
  then show ?case
    by (intro exI conjI) (auto simp: par_run_def all_done_def par_results_def)
next
  case (Suc k)
  have tail: "\<exists>s' ms. par_run verify \<lparr>ps_budget = c, ps_tasks = ts @ Done r # replicate k Pending\<rparr> s' \<and>
      all_done s' \<and> budgeted (\<lambda>i. Inr (verify i)) c [Suc (length ts)..<Suc (length ts + k)] = Inr ms \<and>
      par_results s' = List.map_filter task_result ts @ (case r of None \<Rightarrow> ms | Some m \<Rightarrow> m # ms)" for c r
    using Suc.IH [of "ts @ [Done r]" c] Suc.prems
    by (cases r) (auto simp: map_filter_append map_filter_simps)
  have upt: "[length ts..<length ts + Suc k] = length ts # [Suc (length ts)..<Suc (length ts + k)]"
    by (simp add: upt_rec)
  have rep: "replicate (Suc k) Pending = Pending # replicate k Pending" by simp
  show ?case
  proof (cases "b = 0")
    case True
    obtain s' ms where s': "par_run verify \<lparr>ps_budget = 0, ps_tasks = ts @ Done None # replicate k Pending\<rparr> s'"
        "all_done s'" "par_results s' = List.map_filter task_result ts"
      using tail [of 0 None] by auto
    with seq_give_up [OF s'(1)] True show ?thesis
      unfolding rep by (intro exI [of _ s'] exI [of _ "[]"]) simp
  next
    case False
    show ?thesis
    proof (cases "verify (length ts)")
      case None
      obtain s' ms where s': "par_run verify \<lparr>ps_budget = b, ps_tasks = ts @ Done None # replicate k Pending\<rparr> s'"
          "all_done s'" "budgeted (\<lambda>i. Inr (verify i)) b [Suc (length ts)..<Suc (length ts + k)] = Inr ms"
          "par_results s' = List.map_filter task_result ts @ ms"
        using tail [of b None] by auto
      with seq_reject [OF s'(1) None] None False show ?thesis
        unfolding rep upt by (intro exI [of _ s'] exI [of _ ms]) simp
    next
      case (Some m)
      obtain s' ms where s': "par_run verify \<lparr>ps_budget = b - 1, ps_tasks = ts @ Done (Some m) # replicate k Pending\<rparr> s'"
          "all_done s'" "budgeted (\<lambda>i. Inr (verify i)) (b - 1) [Suc (length ts)..<Suc (length ts + k)] = Inr ms"
          "par_results s' = List.map_filter task_result ts @ m # ms"
        using tail [of "b - 1" "Some m"] by auto
      with seq_accept [OF s'(1) Some] Some False show ?thesis
        unfolding rep upt by (intro exI [of _ s'] exI [of _ "m # ms"]) simp
    qed
  qed
qed

lemma seq_run:
  "\<exists>s. par_run verify (par_init b n) s \<and> all_done s \<and>
     budgeted (\<lambda>i. Inr (verify i)) b [0..<n] = Inr (par_results s)"
  using seq_run_from [of "[]" verify b n] by (auto simp: par_init_def map_filter_simps)

section \<open>Schedules and runs\<close>

lemma task_step_run:
  assumes "\<And>i. i < length (ps_tasks s) \<Longrightarrow> verify i = Inr (g i)"
  shows "\<exists>s'. task_step verify i s = Inr s' \<and> (s' = s \<or> par_step g s s') \<and>
    length (ps_tasks s') = length (ps_tasks s)"
proof -
  obtain b ts where s: "s = \<lparr>ps_budget = b, ps_tasks = ts\<rparr>" by (cases s) auto
  show ?thesis
  proof (cases "i < length ts")
    case False
    then show ?thesis by (simp add: task_step_def s)
  next
    case True
    then have v: "verify i = Inr (g i)" using assms by (simp add: s)
    show ?thesis
    proof (cases "ts ! i")
      case Pending
      with True show ?thesis
        by (cases "b = 0") (auto simp: task_step_def s intro: par_step.give_up par_step.start)
    next
      case Working
      with True v show ?thesis
        using par_step.accept [of i ts g "the (g i)" b]
        by (cases "g i"; cases "b = 0")
          (auto simp: task_step_def s intro: par_step.reject par_step.discard)
    qed (simp add: task_step_def s)
  qed
qed

lemma run_schedule_run:
  assumes "\<And>i. i < length (ps_tasks s) \<Longrightarrow> verify i = Inr (g i)"
  shows "\<exists>s'. run_schedule verify schedule s = Inr s' \<and> par_run g s s'"
  using assms
proof (induction schedule arbitrary: s)
  case Nil
  then show ?case by (simp add: par_run_def)
next
  case (Cons i schedule)
  obtain s1 where s1: "task_step verify i s = Inr s1" "s1 = s \<or> par_step g s s1"
      "length (ps_tasks s1) = length (ps_tasks s)"
    using task_step_run [of s verify g i] Cons.prems by blast
  obtain s' where "run_schedule verify schedule s1 = Inr s'" "par_run g s1 s'"
    using Cons.IH [of s1] Cons.prems s1(3) by auto
  with s1 show ?case
    by (auto simp: par_run_def intro: converse_rtranclp_into_rtranclp)
qed

text \<open>Every operation of a task brings it nearer to its end.\<close>

lemma task_step_weight:
  assumes "task_step verify i s = Inr s'" and "j < length (ps_tasks s)"
  shows "length (ps_tasks s') = length (ps_tasks s) \<and>
    task_weight (ps_tasks s' ! j) \<le> task_weight (ps_tasks s ! j) - (if i = j then 1 else 0)"
  using assms
  by (cases "ps_tasks s ! i"; cases "verify i")
    (auto simp: task_step_def nth_list_update split: if_splits option.splits)

lemma run_schedule_weight:
  "run_schedule verify schedule s = Inr s' \<Longrightarrow> j < length (ps_tasks s) \<Longrightarrow>
     length (ps_tasks s') = length (ps_tasks s) \<and>
     task_weight (ps_tasks s' ! j) \<le> task_weight (ps_tasks s ! j) - count_list schedule j"
proof (induction schedule arbitrary: s)
  case Nil
  then show ?case by simp
next
  case (Cons i schedule)
  then obtain s1 where s1: "task_step verify i s = Inr s1" "run_schedule verify schedule s1 = Inr s'"
    by (cases "task_step verify i s") auto
  from task_step_weight [OF s1(1) Cons.prems(2)] Cons.IH [OF s1(2)] Cons.prems(2) show ?case
    by auto
qed

lemma count_twice: "count_list (concat (map (\<lambda>i. [i, i]) xs)) j = 2 * count_list xs j"
  by (induction xs) simp_all

lemma schedule_ends:
  fixes s :: "'a par_state"
  assumes "run_schedule verify (schedule @ concat (map (\<lambda>i. [i, i]) [0..<n])) (par_init budget n) = Inr s"
  shows "all_done s"
proof -
  let ?start = "par_init budget n :: 'a par_state"
  have len: "length (ps_tasks ?start) = n" by (simp add: par_init_def)
  have "task_done (ps_tasks s ! j) \<and> length (ps_tasks s) = n" if "j < n" for j
  proof -
    have "count_list [0..<n] j = 1"
      using that by (induction n) (auto simp: less_Suc_eq count_list_0_iff)
    then have "count_list (schedule @ concat (map (\<lambda>i. [i, i]) [0..<n])) j \<ge> 2"
      by (simp add: count_twice)
    moreover have "task_weight (ps_tasks ?start ! j) = 2"
      using that by (simp add: par_init_def)
    ultimately have "task_weight (ps_tasks s ! j) = 0" and "length (ps_tasks s) = n"
      using run_schedule_weight [OF assms, of j] that by (simp_all add: len)
    then show ?thesis by (cases "ps_tasks s ! j") auto
  qed
  moreover have "n = 0 \<Longrightarrow> ps_tasks s = []"
    using assms by (induction schedule) (auto simp: par_init_def task_step_def)
  ultimately show ?thesis
    by (cases "n = 0") (auto simp: all_done_def list_all_length)
qed

text \<open>So a parallel search returns matches in order, exactly as many as the budget admits.\<close>

lemma par_filter_map_spec:
  assumes "\<And>c. c \<in> set cs \<Longrightarrow> verify c = Inr (g c)"
  shows "\<exists>ms. par_filter_map schedule verify budget cs = Inr ms \<and> subseq ms (List.map_filter g cs) \<and>
    length ms = min budget (length (List.map_filter g cs))"
proof -
  let ?n = "length cs" and ?g = "\<lambda>i. g (cs ! i)"
  let ?sched = "schedule @ concat (map (\<lambda>i. [i, i]) [0..<?n])"
  obtain s where s: "run_schedule (\<lambda>i. verify (cs ! i)) ?sched (par_init budget ?n) = Inr s"
      "par_run ?g (par_init budget ?n) s"
    using run_schedule_run [of "par_init budget ?n" "\<lambda>i. verify (cs ! i)" ?g ?sched] assms
    by (auto simp: par_init_def)
  have "par_matches ?g ?n = List.map_filter g cs"
    by (simp add: par_matches_def map_filter_nth [of g cs])
  with par_inv_final [OF par_inv_run [OF s(2)] schedule_ends [OF s(1)]] s(1) show ?thesis
    by (simp add: par_filter_map_def Let_def)
qed

text \<open>Without a limit the schedule does not matter.\<close>

lemma par_filter_map_all:
  assumes "\<And>c. c \<in> set cs \<Longrightarrow> verify c = Inr (g c)" and "length cs \<le> budget"
  shows "par_filter_map schedule verify budget cs = Inr (List.map_filter g cs)"
proof -
  have "length (List.map_filter g cs) \<le> budget"
    using order.trans [OF length_filter_le assms(2)] by (simp add: List.map_filter_def)
  moreover obtain ms where "par_filter_map schedule verify budget cs = Inr ms"
      "subseq ms (List.map_filter g cs)" "length ms = min budget (length (List.map_filter g cs))"
    using par_filter_map_spec [of cs verify g, OF assms(1)] by blast
  ultimately show ?thesis by (simp add: min_absorb2 subseq_same_length)
qed

lemma run_schedule_append:
  "run_schedule verify (xs @ ys) s = obind (run_schedule verify xs s) (run_schedule verify ys)"
proof (induction xs arbitrary: s)
  case (Cons i xs)
  then show ?case by (cases "task_step verify i s") simp_all
qed simp

text \<open>Conversely every finished run of the step relation is the run of a schedule.\<close>

lemma run_has_schedule:
  assumes "par_run g (par_init budget n) s"
  shows "\<exists>schedule. run_schedule (\<lambda>i. Inr (g i)) schedule (par_init budget n) = Inr s"
  using assms unfolding par_run_def
proof (induction rule: rtranclp_induct)
  case base
  have "run_schedule (\<lambda>i. Inr (g i)) [] (par_init budget n) = Inr (par_init budget n)" by simp
  then show ?case by blast
next
  case (step s s')
  then obtain schedule where "run_schedule (\<lambda>i. Inr (g i)) schedule (par_init budget n) = Inr s" by blast
  moreover have "\<exists>i. task_step (\<lambda>i. Inr (g i)) i s = Inr s'"
    using step.hyps(2)
  proof cases
    case (give_up i ts)
    then show ?thesis by (intro exI [of _ i]) (simp add: task_step_def)
  next
    case (start i ts b)
    then show ?thesis by (intro exI [of _ i]) (simp add: task_step_def)
  next
    case (reject i ts b)
    then show ?thesis by (intro exI [of _ i]) (simp add: task_step_def)
  next
    case (accept i ts m b)
    then show ?thesis by (intro exI [of _ i]) (simp add: task_step_def)
  next
    case (discard i ts m)
    then show ?thesis by (intro exI [of _ i]) (simp add: task_step_def)
  qed
  ultimately obtain i where "run_schedule (\<lambda>i. Inr (g i)) schedule (par_init budget n) = Inr s"
      "task_step (\<lambda>i. Inr (g i)) i s = Inr s'" by blast
  then have "run_schedule (\<lambda>i. Inr (g i)) (schedule @ [i]) (par_init budget n) = Inr s'"
    by (simp add: run_schedule_append)
  then show ?case by blast
qed

lemma schedule_of_done: "all_done s \<Longrightarrow> run_schedule verify schedule s = Inr s"
proof (induction schedule)
  case (Cons i schedule)
  then have "task_step verify i s = Inr s"
    by (cases "ps_tasks s ! i") (auto simp: task_step_def all_done_def list_all_length split: task.splits)
  with Cons show ?case by simp
qed simp

lemma every_run_scheduled:
  assumes "par_run (\<lambda>i. g (cs ! i)) (par_init budget (length cs)) s" and "all_done s"
  shows "\<exists>schedule. par_filter_map schedule (\<lambda>c. Inr (g c)) budget cs = Inr (par_results s)"
proof -
  obtain schedule where "run_schedule (\<lambda>i. Inr (g (cs ! i))) schedule (par_init budget (length cs)) = Inr s"
    using run_has_schedule [OF assms(1)] by blast
  then have "par_filter_map schedule (\<lambda>c. Inr (g c)) budget cs = Inr (par_results s)"
    by (simp add: par_filter_map_def Let_def run_schedule_append schedule_of_done [OF assms(2)])
  then show ?thesis by blast
qed

text \<open>With a limit, which matches survive depends on the schedule.\<close>

lemma schedule_dependent:
  "par_filter_map [] (\<lambda>c. Inr (Some c)) 1 [a, b] = Inr [a]"
  "par_filter_map [1, 1] (\<lambda>c. Inr (Some c)) 1 [a, b] = Inr [b]"
  by (simp_all add: par_filter_map_def par_init_def task_step_def par_results_def upt_rec
      map_filter_simps numeral_2_eq_2)

text \<open>
  C22. The shared budget is exact in every schedule: however the atomic loads and decrements of the
  candidates interleave, a finished run returns matches of the candidates in their order, no more than
  the budget, and fewer only when there are no more matches; so a run whose budget covers the matches
  returns all of them.
\<close>

theorem budget_exact:
  assumes "par_run verify (par_init budget n) s" and "all_done s"
  shows "subseq (par_results s) (par_matches verify n) \<and>
    length (par_results s) = min budget (length (par_matches verify n)) \<and>
    (length (par_matches verify n) \<le> budget \<longrightarrow> par_results s = par_matches verify n)"
  using par_inv_final [OF par_inv_run [OF assms(1)] assms(2)]
  by (auto simp: subseq_same_length min_def)

theorem budget_exact_witness:
  "\<exists>s. par_run (\<lambda>i. if i = 1 then None else Some i) (par_init 2 4) s \<and> length (par_results s) = 2"
proof -
  let ?v = "\<lambda>i. if i = 1 then None else Some i"
  obtain s where s: "par_run ?v (par_init 2 4) s" "all_done s"
    using seq_run by blast
  have "par_matches ?v 4 = [0, 2, 3]"
    by (simp add: par_matches_def List.map_filter_def upt_rec)
  with budget_exact [OF s] s show ?thesis by auto
qed

text \<open>
  C33. Verification always ends: no schedule of the candidates runs forever, every unfinished
  state has a further step, and one of the runs is the sequential schedule.
\<close>

theorem verification_ends:
  "wfp (\<lambda>s' s. par_step verify s s') \<and> (\<not> all_done s \<longrightarrow> (\<exists>s'. par_step verify s s')) \<and>
   (\<exists>s'. par_run verify (par_init budget n) s' \<and> all_done s' \<and>
      budgeted (\<lambda>i. Inr (verify i)) budget [0..<n] = Inr (par_results s'))"
proof -
  have "wfp (\<lambda>s' s. par_step verify s s')"
    by (rule wfp_if_convertible_to_nat [of _ par_weight]) (rule par_step_weight)
  with par_step_possible [of s verify] seq_run [of verify budget n] show ?thesis by blast
qed

theorem verification_ends_witness:
  "\<exists>s'. par_step (\<lambda>i. Some i) (par_init 1 2) s'"
proof -
  have "\<not> all_done (par_init 1 2)"
    by (simp add: all_done_def par_init_def numeral_2_eq_2)
  with verification_ends [of "\<lambda>i. Some i" "par_init 1 2"] show ?thesis by blast
qed

end
