(* ===== verification/Segment_Search.thy ===== *)
theory Segment_Search
  imports Segment Query_Match Query_Trigrams Parallel_Budget "HOL-Library.List_Lexorder"
begin

text \<open>
  The search of one segment (\<open>ferret-core/src/multi_search.rs\<close>): by a literal text with context,
  by a match pattern, and by a parsed query with its metadata filters. Candidates come from the trigram
  index, are ordered by file size, and are verified sequentially below 64 candidates and in parallel
  under a shared budget from there on, by whatever schedule the thread pool takes: the schedule of
  each segment is a parameter.
\<close>

section \<open>Scoring\<close>

text \<open>
  The inputs of a score (\<open>ferret-core/src/ranking.rs\<close>); the score itself is floating-point
  arithmetic and a parameter.
\<close>

datatype match_type = MT_Exact | MT_Prefix | MT_Substring | MT_Regex

record scoring_input =
  si_path :: text_utf8
  si_query :: text_utf8
  si_match_type :: match_type
  si_match_count :: nat
  si_line_count :: u32
  si_mtime_epoch_secs :: u64
  si_now_epoch_secs :: u64

text \<open>
  What a search takes from outside: the two regex crates, zstd, varints, the score, the clock, and the
  schedule by which the thread pool verifies the candidates of a segment.
\<close>

record ('r, 'h, 's) search_env =
  se_regex :: "'r regex_crate"
  se_syntax :: "'h regex_syntax"
  se_zstd :: zstd
  se_decompress :: "bytes \<Rightarrow> nat \<Rightarrow> bytes option"
  se_read_varint :: varint_reader
  se_score :: "scoring_input \<Rightarrow> 's"
  se_now :: u64
  se_schedule :: "segment_id \<Rightarrow> nat list"

text \<open>\<open>Result::ok\<close>: an error becomes \<open>None\<close>, a panic stays one.\<close>

definition result_ok :: "'a result \<Rightarrow> 'a option result" where
  "result_ok r = (case r of Inr x \<Rightarrow> Inr (Some x) | Inl (Err e) \<Rightarrow> Inr None | Inl Panic \<Rightarrow> panic)"

lemma result_ok_Inr [simp]: "result_ok (Inr x) = Inr (Some x)"
  by (simp add: result_ok_def)

definition unwrap_budget :: "nat option \<Rightarrow> nat" where
  "unwrap_budget max_results = (case max_results of Some n \<Rightarrow> n | None \<Rightarrow> 2 ^ 64 - 1)"

definition PAR_THRESHOLD :: nat where "PAR_THRESHOLD = 64"

section \<open>Highlights of the matched lines\<close>

definition highlight_context :: "file_highlight \<Rightarrow> context_line \<Rightarrow> context_line result" where
  "highlight_context fh c =
     obind (tokens_for_line fh (unat (cl_line_number c - 1))) (\<lambda>ts. Inr (c\<lparr>cl_highlight_tokens := ts\<rparr>))"

definition highlight_line :: "file_highlight \<Rightarrow> line_match \<Rightarrow> line_match result" where
  "highlight_line fh lm =
     obind (tokens_for_line fh (unat (lm_line_number lm - 1))) (\<lambda>ts.
     obind (collect_results (highlight_context fh) (lm_context_before lm)) (\<lambda>before.
     obind (collect_results (highlight_context fh) (lm_context_after lm)) (\<lambda>after.
     Inr (lm\<lparr>lm_highlight_tokens := ts, lm_context_before := before, lm_context_after := after\<rparr>))))"

definition populate_highlights ::
  "(bytes \<Rightarrow> nat \<Rightarrow> bytes option) \<Rightarrow> segment \<Rightarrow> file_metadata \<Rightarrow> line_match list \<Rightarrow> line_match list result" where
  "populate_highlights decompress s m line_matches =
     (if fm_highlight_len m > 0 then
        (case sg_highlights s of
           None \<Rightarrow> Inr line_matches
         | Some data \<Rightarrow>
             obind (result_ok (hr_read_file decompress data (fm_highlight_offset m) (fm_highlight_len m)))
               (\<lambda>r. case r of
                  None \<Rightarrow> Inr line_matches
                | Some fh \<Rightarrow> collect_results (highlight_line fh) line_matches))
      else Inr line_matches)"

section \<open>Verification of a literal text\<close>

text \<open>All occurrences in a line, overlapping ones included.\<close>

function find_ranges :: "bytes \<Rightarrow> bytes \<Rightarrow> nat \<Rightarrow> (nat \<times> nat) list" where
  "find_ranges folded_query folded_line search_start =
     (if search_start + length folded_query \<le> length folded_line then
        (case find_sub (drop search_start folded_line) folded_query of
           Some pos \<Rightarrow>
             let abs_start = search_start + pos;
                 abs_end = abs_start + length folded_query
             in (abs_start, abs_end) # find_ranges folded_query folded_line (abs_start + 1)
         | None \<Rightarrow> [])
      else [])"
  by pat_completeness auto
termination
  by (relation "measure (\<lambda>(q, l, s). Suc (length l) - s)") (auto dest!: find_sub_Some)

declare find_ranges.simps [simp del]

definition plain_context :: "bytes list \<Rightarrow> nat \<Rightarrow> context_line" where
  "plain_context all_lines i =
     \<lparr>cl_line_number = of_nat (i + 1), cl_content = all_lines ! i, cl_highlight_tokens = []\<rparr>"

definition match_indices :: "bytes \<Rightarrow> bytes list \<Rightarrow> (nat \<times> (nat \<times> nat) list) list" where
  "match_indices folded_query all_lines =
     filter (\<lambda>(i, ranges). ranges \<noteq> [])
       (map (\<lambda>i. (i, find_ranges folded_query (map ascii_fold_byte (all_lines ! i)) 0))
         (filter (\<lambda>i. \<not> (all_lines ! i = [] \<and> i > 0 \<and> i = length all_lines - 1)) [0..<length all_lines]))"

definition context_line_match :: "bytes list \<Rightarrow> nat \<Rightarrow> nat \<times> (nat \<times> nat) list \<Rightarrow> line_match" where
  "context_line_match all_lines context_lines = (\<lambda>(line_idx, ranges).
     let context_before =
           (if context_lines > 0
            then map (plain_context all_lines) [line_idx - context_lines..<line_idx] else []);
         stop = min ((line_idx + 1 + context_lines) mod 2 ^ 64) (length all_lines);
         effective_end =
           (if stop > 0 \<and> last all_lines = [] \<and> stop = length all_lines then stop - 1 else stop);
         context_after =
           (if context_lines > 0
            then map (plain_context all_lines) [line_idx + 1..<effective_end] else [])
     in \<lparr>lm_line_number = of_nat (line_idx + 1), lm_content = all_lines ! line_idx, lm_ranges = ranges,
         lm_context_before = context_before, lm_context_after = context_after,
         lm_highlight_tokens = []\<rparr>)"

definition verify_content_matches :: "bytes \<Rightarrow> text_utf8 \<Rightarrow> nat \<Rightarrow> line_match list" where
  "verify_content_matches content query context_lines =
     (if query = [] \<or> content = [] then []
      else
        let folded_query = map ascii_fold_byte query;
            all_lines = split_on newline (from_utf8_lossy content)
        in map (context_line_match all_lines context_lines) (match_indices folded_query all_lines))"

section \<open>Candidates by size\<close>

definition size_or_max :: "segment \<Rightarrow> file_id \<Rightarrow> u32 result" where
  "size_or_max s f =
     obind (result_ok (sg_get_size_bytes s f)) (\<lambda>r.
       Inr (case r of Some (Some n) \<Rightarrow> n | _ \<Rightarrow> of_nat u32_max))"

definition sort_candidates_by_size :: "segment \<Rightarrow> file_id list \<Rightarrow> file_id list result" where
  "sort_candidates_by_size s candidates =
     (if length candidates \<le> 1 then Inr candidates
      else obind (collect_results (size_or_max s) candidates) (\<lambda>sizes.
        let indices = sort_key (\<lambda>i. sizes ! i) [0..<length candidates]
        in Inr (map (\<lambda>i. candidates ! i) indices)))"

section \<open>The results for a file\<close>

definition total_match_ranges :: "line_match list \<Rightarrow> nat" where
  "total_match_ranges lms = sum_list (map (\<lambda>lm. length (lm_ranges lm)) lms)"

definition file_match_of ::
  "('r, 'h, 's) search_env \<Rightarrow> text_utf8 \<Rightarrow> match_type \<Rightarrow> nat \<Rightarrow> file_id \<Rightarrow> file_metadata \<Rightarrow> line_match list
     \<Rightarrow> 's file_match" where
  "file_match_of env query mt count f m lms =
     \<lparr>mf_file_id = f, mf_path = fm_path m, mf_language = fm_language m, mf_lines = lms,
      mf_score = se_score env
        \<lparr>si_path = fm_path m, si_query = query, si_match_type = mt, si_match_count = count,
         si_line_count = fm_line_count m, si_mtime_epoch_secs = fm_mtime_epoch_secs m,
         si_now_epoch_secs = se_now env\<rparr>\<rparr>"

text \<open>The shared tail of the literal search, once the content of a candidate is read.\<close>

definition context_file_match ::
  "('r, 'h, 's) search_env \<Rightarrow> segment \<Rightarrow> text_utf8 \<Rightarrow> nat \<Rightarrow> file_id \<Rightarrow> file_metadata \<Rightarrow> bytes
     \<Rightarrow> 's file_match option result" where
  "context_file_match env s query context_lines f m content =
     (let line_matches = verify_content_matches content query context_lines
      in if line_matches = [] then Inr None
         else obind (populate_highlights (se_decompress env) s m line_matches) (\<lambda>lms.
           Inr (Some (file_match_of env query MT_Substring (total_match_ranges lms) f m lms))))"

section \<open>Search by a literal text\<close>

fun context_seq_loop ::
  "('r, 'h, 's) search_env \<Rightarrow> segment \<Rightarrow> text_utf8 \<Rightarrow> tombstone_set \<Rightarrow> nat \<Rightarrow> nat option
     \<Rightarrow> 's file_match list \<Rightarrow> file_id list \<Rightarrow> 's file_match list result" where
  "context_seq_loop env s query tombs k max_results file_matches [] = Inr file_matches"
| "context_seq_loop env s query tombs k max_results file_matches (f # fs) =
     (if ts_contains tombs f then context_seq_loop env s query tombs k max_results file_matches fs
      else obind (get_metadata s f) (\<lambda>meta. case meta of
          None \<Rightarrow> context_seq_loop env s query tombs k max_results file_matches fs
        | Some m \<Rightarrow>
            obind (sg_read_content (se_zstd env) s m) (\<lambda>content.
            obind (context_file_match env s query k f m content) (\<lambda>r. case r of
                None \<Rightarrow> context_seq_loop env s query tombs k max_results file_matches fs
              | Some fm \<Rightarrow>
                  let file_matches = file_matches @ [fm]
                  in if (case max_results of Some n \<Rightarrow> length file_matches \<ge> n | None \<Rightarrow> False)
                     then Inr file_matches
                     else context_seq_loop env s query tombs k max_results file_matches fs))))"

definition context_candidate ::
  "('r, 'h, 's) search_env \<Rightarrow> segment \<Rightarrow> text_utf8 \<Rightarrow> tombstone_set \<Rightarrow> nat \<Rightarrow> file_id
     \<Rightarrow> 's file_match option result" where
  "context_candidate env s query tombs k f =
     (if ts_contains tombs f then Inr None
      else obind (result_ok (get_metadata s f)) (\<lambda>meta. case meta of
          Some (Some m) \<Rightarrow>
            obind (result_ok (sg_read_content (se_zstd env) s m)) (\<lambda>r. case r of
                None \<Rightarrow> Inr None
              | Some content \<Rightarrow> context_file_match env s query k f m content)
        | _ \<Rightarrow> Inr None))"

definition search_single_segment_with_context ::
  "('r, 'h, 's) search_env \<Rightarrow> segment \<Rightarrow> text_utf8 \<Rightarrow> tombstone_set \<Rightarrow> nat \<Rightarrow> nat option
     \<Rightarrow> 's file_match list result" where
  "search_single_segment_with_context env s query tombs k max_results =
     obind (find_candidates (lookup_file_ids (se_read_varint env) (sg_trigram_reader s)) query) (\<lambda>candidates.
     obind (sort_candidates_by_size s candidates) (\<lambda>candidates.
       if length candidates < PAR_THRESHOLD
       then context_seq_loop env s query tombs k max_results [] candidates
       else par_filter_map (se_schedule env (sg_id s)) (context_candidate env s query tombs k)
              (unwrap_budget max_results) candidates))"

section \<open>Search by a pattern\<close>

text \<open>The scan is over bytes: the metacharacters are ASCII, and other characters are copied whole.\<close>

fun regex_literal_prefix :: "text_utf8 \<Rightarrow> text_utf8" where
  "regex_literal_prefix [] = []"
| "regex_literal_prefix (ch # chars) =
     (if ch \<in> set ''.*+?[](){}|^$'' then []
      else if ch = CHR 0x5C then
        (case chars of
           [] \<Rightarrow> []
         | c # rest \<Rightarrow> if c \<in> set ''dDwWsSbB'' then [] else c # regex_literal_prefix rest)
      else ch # regex_literal_prefix chars)"

text \<open>A block's context goes to its first and its last match.\<close>

definition flatten_block :: "context_block \<Rightarrow> line_match list" where
  "flatten_block b =
     (let n = length (cb_matches b)
      in map (\<lambda>i. (cb_matches b ! i)
           \<lparr>lm_context_before := (if i = 0 then cb_before b else []),
            lm_context_after := (if i = n - 1 then cb_after b else [])\<rparr>) [0..<n])"

fun pattern_query :: "match_pattern \<Rightarrow> text_utf8" where
  "pattern_query (MP_Literal s) = s"
| "pattern_query (MP_LiteralCaseInsensitive s) = s"
| "pattern_query (MP_Regex s) = s"

definition pattern_match_type :: "match_pattern \<Rightarrow> match_type" where
  "pattern_match_type pattern = (case pattern of MP_Regex _ \<Rightarrow> MT_Regex | _ \<Rightarrow> MT_Substring)"

definition pattern_line_matches ::
  "'r regex_crate \<Rightarrow> 'r content_verifier \<Rightarrow> nat \<Rightarrow> bytes \<Rightarrow> line_match list result" where
  "pattern_line_matches rx verifier context_lines content =
     (if context_lines > 0
      then obind (verify_with_context rx verifier content) (\<lambda>blocks. Inr (concat (map flatten_block blocks)))
      else verify rx verifier content)"

definition pattern_file_match ::
  "('r, 'h, 's) search_env \<Rightarrow> segment \<Rightarrow> match_pattern \<Rightarrow> 'r content_verifier \<Rightarrow> nat \<Rightarrow> file_id
     \<Rightarrow> file_metadata \<Rightarrow> bytes \<Rightarrow> 's file_match option result" where
  "pattern_file_match env s pattern verifier context_lines f m content =
     obind (pattern_line_matches (se_regex env) verifier context_lines content) (\<lambda>line_matches.
       if line_matches = [] then Inr None
       else obind (populate_highlights (se_decompress env) s m line_matches) (\<lambda>lms.
         Inr (Some (file_match_of env (pattern_query pattern) (pattern_match_type pattern)
           (total_match_ranges lms) f m lms))))"

definition verify_candidate_with_pattern ::
  "('r, 'h, 's) search_env \<Rightarrow> segment \<Rightarrow> match_pattern \<Rightarrow> 'r content_verifier \<Rightarrow> nat \<Rightarrow> file_id
     \<Rightarrow> 's file_match option result" where
  "verify_candidate_with_pattern env s pattern verifier context_lines f =
     obind (result_ok (get_metadata s f)) (\<lambda>meta. case meta of
         Some (Some m) \<Rightarrow>
           obind (result_ok (sg_read_content (se_zstd env) s m)) (\<lambda>r. case r of
               None \<Rightarrow> Inr None
             | Some content \<Rightarrow> pattern_file_match env s pattern verifier context_lines f m content)
       | _ \<Rightarrow> Inr None)"

definition pattern_candidate ::
  "('r, 'h, 's) search_env \<Rightarrow> segment \<Rightarrow> match_pattern \<Rightarrow> 'r content_verifier \<Rightarrow> tombstone_set \<Rightarrow> nat
     \<Rightarrow> file_id \<Rightarrow> 's file_match option result" where
  "pattern_candidate env s pattern verifier tombs context_lines f =
     (if ts_contains tombs f then Inr None
      else verify_candidate_with_pattern env s pattern verifier context_lines f)"

fun pattern_seq_loop ::
  "('r, 'h, 's) search_env \<Rightarrow> segment \<Rightarrow> match_pattern \<Rightarrow> 'r content_verifier \<Rightarrow> tombstone_set \<Rightarrow> nat
     \<Rightarrow> nat option \<Rightarrow> 's file_match list \<Rightarrow> file_id list \<Rightarrow> 's file_match list result" where
  "pattern_seq_loop env s pattern v tombs k max_results file_matches [] = Inr file_matches"
| "pattern_seq_loop env s pattern v tombs k max_results file_matches (f # fs) =
     (if ts_contains tombs f
      then pattern_seq_loop env s pattern v tombs k max_results file_matches fs
      else obind (verify_candidate_with_pattern env s pattern v k f) (\<lambda>r. case r of
          None \<Rightarrow> pattern_seq_loop env s pattern v tombs k max_results file_matches fs
        | Some fm \<Rightarrow>
            let file_matches = file_matches @ [fm]
            in if (case max_results of Some n \<Rightarrow> length file_matches \<ge> n | None \<Rightarrow> False)
               then Inr file_matches
               else pattern_seq_loop env s pattern v tombs k max_results file_matches fs))"

text \<open>The text whose trigrams select the candidates of a pattern.\<close>

fun pattern_trigram_query :: "match_pattern \<Rightarrow> text_utf8" where
  "pattern_trigram_query (MP_Literal s) = s"
| "pattern_trigram_query (MP_LiteralCaseInsensitive s) = s"
| "pattern_trigram_query (MP_Regex s) = regex_literal_prefix s"

fun is_regex_pattern :: "match_pattern \<Rightarrow> bool" where
  "is_regex_pattern (MP_Regex s) = True"
| "is_regex_pattern p = False"

definition search_single_segment_with_pattern ::
  "('r, 'h, 's) search_env \<Rightarrow> segment \<Rightarrow> match_pattern \<Rightarrow> tombstone_set \<Rightarrow> nat \<Rightarrow> nat option
     \<Rightarrow> 's file_match list result" where
  "search_single_segment_with_pattern env s pattern tombs k max_results =
     (let trigram_text = pattern_trigram_query pattern
      in if length trigram_text < 3 \<and> \<not> is_regex_pattern pattern then Inr []
         else
           obind (if length trigram_text \<ge> 3
                  then find_candidates (lookup_file_ids (se_read_varint env) (sg_trigram_reader s)) trigram_text
                  else all_file_ids s) (\<lambda>candidates.
           obind (sort_candidates_by_size s candidates) (\<lambda>candidates.
             let verifier = content_verifier_new (se_regex env) pattern (of_nat k)
             in if length candidates < PAR_THRESHOLD
                then pattern_seq_loop env s pattern verifier tombs k max_results [] candidates
                else par_filter_map (se_schedule env (sg_id s)) (pattern_candidate env s pattern verifier tombs k)
                       (unwrap_budget max_results) candidates)))"

section \<open>Search by a parsed query\<close>

fun collect_pre_filters ::
  "query \<Rightarrow> language list \<times> text_utf8 list \<Rightarrow> language list \<times> text_utf8 list" where
  "collect_pre_filters (Q_LanguageFilter l) (ls, ps) = (ls @ [l], ps)"
| "collect_pre_filters (Q_PathFilter p) (ls, ps) = (ls, ps @ [p])"
| "collect_pre_filters (Q_And qs) acc = foldl (\<lambda>acc q. collect_pre_filters q acc) acc qs"
| "collect_pre_filters (Q_Or a b) acc = collect_pre_filters b (collect_pre_filters a acc)"
| "collect_pre_filters (Q_Not q) acc = collect_pre_filters q acc"
| "collect_pre_filters (Q_Literal l) acc = acc"
| "collect_pre_filters (Q_Phrase p) acc = acc"
| "collect_pre_filters (Q_Regex r) acc = acc"

definition extract_pre_filters :: "query \<Rightarrow> language list \<times> text_utf8 list" where
  "extract_pre_filters q =
     (let (languages, path_prefixes) = collect_pre_filters q ([], []);
          seen_langs = foldl (\<lambda>seen l. if l \<in> set seen then seen else seen @ [l]) [] languages
      in (seen_langs, remdups_adj (sort path_prefixes)))"

definition passes_pre_filters :: "file_metadata \<Rightarrow> language list \<Rightarrow> text_utf8 list \<Rightarrow> bool" where
  "passes_pre_filters m languages path_prefixes =
     (if languages \<noteq> [] \<and> fm_language m \<notin> set languages then False
      else if path_prefixes \<noteq> [] \<and> \<not> list_ex (\<lambda>p. prefix p (fm_path m)) path_prefixes then False
      else True)"

definition segment_smallest_first ::
  "varint_reader \<Rightarrow> segment \<Rightarrow> trigram list \<Rightarrow> file_id list result" where
  "segment_smallest_first rd s trigrams =
     intersect_trigrams_smallest_first (lookup_file_ids rd (sg_trigram_reader s))
       (estimate_posting_list_size (sg_trigram_reader s)) (all_file_ids s) trigrams"

definition lookup_trigram_candidates ::
  "varint_reader \<Rightarrow> segment \<Rightarrow> trigram_query \<Rightarrow> file_id list result" where
  "lookup_trigram_candidates rd s tq =
     (case tq of
        TQ_All trigrams \<Rightarrow>
          (if trigrams = [] then all_file_ids s else segment_smallest_first rd s trigrams)
      | TQ_Any branches \<Rightarrow>
          obind (collect_results (segment_smallest_first rd s) branches)
            (\<lambda>lists. Inr (remdups_adj (sort (concat lists))))
      | TQ_None \<Rightarrow> all_file_ids s)"

definition query_file_match ::
  "('r, 'h, 's) search_env \<Rightarrow> segment \<Rightarrow> query \<Rightarrow> nat \<Rightarrow> file_id \<Rightarrow> file_metadata \<Rightarrow> bytes
     \<Rightarrow> 's file_match option result" where
  "query_file_match env s query k f m content =
     obind (query_matches (se_regex env) query (of_nat k) content) (\<lambda>r. case r of
         None \<Rightarrow> Inr None
       | Some line_matches \<Rightarrow>
           obind (populate_highlights (se_decompress env) s m line_matches) (\<lambda>lms.
             Inr (Some (file_match_of env [] MT_Substring (max (total_match_ranges lms) 1) f m lms))))"

definition query_candidate ::
  "('r, 'h, 's) search_env \<Rightarrow> segment \<Rightarrow> query \<Rightarrow> language list \<Rightarrow> text_utf8 list \<Rightarrow> tombstone_set
     \<Rightarrow> nat \<Rightarrow> file_id \<Rightarrow> 's file_match option result" where
  "query_candidate env s query languages path_prefixes tombs k f =
     (if ts_contains tombs f then Inr None
      else obind (result_ok (get_metadata s f)) (\<lambda>meta. case meta of
          Some (Some m) \<Rightarrow>
            (if \<not> passes_pre_filters m languages path_prefixes then Inr None
             else obind (result_ok (sg_read_content (se_zstd env) s m)) (\<lambda>r. case r of
                 None \<Rightarrow> Inr None
               | Some content \<Rightarrow> query_file_match env s query k f m content))
        | _ \<Rightarrow> Inr None))"

definition search_single_segment_with_query ::
  "('r, 'h, 's) search_env \<Rightarrow> segment \<Rightarrow> query \<Rightarrow> trigram_query \<Rightarrow> language list \<Rightarrow> text_utf8 list
     \<Rightarrow> tombstone_set \<Rightarrow> nat \<Rightarrow> nat option \<Rightarrow> 's file_match list result" where
  "search_single_segment_with_query env s query tq languages path_prefixes tombs k max_results =
     obind (lookup_trigram_candidates (se_read_varint env) s tq) (\<lambda>candidates.
     obind (sort_candidates_by_size s candidates) (\<lambda>candidates.
       let verify_candidate = query_candidate env s query languages path_prefixes tombs k;
           budget = unwrap_budget max_results
       in if length candidates < PAR_THRESHOLD then budgeted verify_candidate budget candidates
          else par_filter_map (se_schedule env (sg_id s)) verify_candidate budget candidates))"

end
