(* ===== verification/Search_Exact.thy ===== *)
theory Search_Exact
  imports Segment_Search
begin

text \<open>
  Which files the search of one segment returns: for a parsed query exactly the live files that pass
  its metadata filters and satisfy it, for a literal text the lines that contain it. The lemmas
  are proved once for every segment over a list of files (the locale \<open>file_segment\<close>) and instantiated
  at segments the builder writes.
\<close>

section \<open>Lines with a literal text\<close>

lemma find_ranges_filter:
  assumes "q \<noteq> []"
  shows "find_ranges q l start
    = map (\<lambda>p. (p, p + length q)) (filter (\<lambda>p. prefix q (drop p l)) [start..<length l])"
  using assms
proof (induction q l start rule: find_ranges.induct)
  case (1 q l start)
  let ?P = "\<lambda>p. prefix q (drop p l)"
  show ?case
  proof (cases "start + length q \<le> length l")
    case False
    then have "filter ?P [start..<length l] = []"
      using prefix_length_le by (fastforce simp: filter_empty_conv)
    with False show ?thesis by (simp add: find_ranges.simps)
  next
    case True
    show ?thesis
    proof (cases "find_sub (drop start l) q")
      case None
      have "\<not> ?P p" if "start \<le> p" "p < length l" for p
        using None that find_sub_None [of "drop start l" q]
        by (auto dest!: spec [of _ "p - start"])
      then have "filter ?P [start..<length l] = []"
        by (auto simp: filter_empty_conv)
      with True None show ?thesis by (simp add: find_ranges.simps)
    next
      case (Some pos)
      note first = find_sub_Some [OF Some]
      have here: "?P (start + pos)"
        using first by (simp add: add.commute)
      have before: "\<not> ?P p" if "start \<le> p" "p < start + pos" for p
        using first that by (auto dest!: spec [of _ "p - start"])
      have "start + pos < length l"
        using prefix_length_le [OF here] 1(2) by (cases q) auto
      then have "filter ?P [start..<length l] = (start + pos) # filter ?P [start + pos + 1..<length l]"
        using here before by (intro filter_upt_first) auto
      with 1(1) [OF True Some refl refl] 1(2) True Some show ?thesis
        by (simp add: find_ranges.simps [of q l start] Let_def)
    qed
  qed
qed

lemma find_ranges_occurrences:
  "q \<noteq> [] \<Longrightarrow> find_ranges q l 0 = map (\<lambda>p. (p, p + length q)) (occurrences q l)"
  by (simp add: find_ranges_filter occurrences_def)

lemma occurrences_eq_Nil: "q \<noteq> [] \<Longrightarrow> occurrences q l = [] \<longleftrightarrow> \<not> sublist q l"
proof
  assume q: "q \<noteq> []" and none: "occurrences q l = []"
  have "\<not> prefix q (drop p l)" if "p \<le> length l" for p
    using that q none by (cases "p = length l") (auto simp: occurrences_def filter_empty_conv)
  then show "\<not> sublist q l"
    using find_sub_None find_sub_None_sublist by blast
qed (auto dest: occurrences_sublist)

lemma match_indices_spec:
  assumes "query \<noteq> []"
  shows "match_indices (fold_text query) ls
    = map (\<lambda>i. (i, map (\<lambda>p. (p, p + length query)) (occurrences (fold_text query) (fold_text (ls ! i)))))
        (filter (\<lambda>i. sublist (fold_text query) (fold_text (ls ! i))) [0..<length ls])"
proof -
  let ?q = "fold_text query" and ?skip = "\<lambda>i. ls ! i = [] \<and> i > 0 \<and> i = length ls - 1"
  have q: "?q \<noteq> []" using assms by simp
  have skip: "\<not> sublist ?q (fold_text (ls ! i))" if "ls ! i = []" for i
    using that assms by simp
  have "(\<lambda>(i, ranges). ranges \<noteq> []) (i, find_ranges ?q (fold_text (ls ! i)) 0)
      \<longleftrightarrow> sublist ?q (fold_text (ls ! i))" for i
    by (simp add: find_ranges_occurrences [OF q] occurrences_eq_Nil [OF q])
  then have "match_indices ?q ls = map (\<lambda>i. (i, find_ranges ?q (fold_text (ls ! i)) 0))
      (filter (\<lambda>i. sublist ?q (fold_text (ls ! i))) (filter (\<lambda>i. \<not> ?skip i) [0..<length ls]))"
    by (simp add: match_indices_def filter_map comp_def)
  also have "filter (\<lambda>i. sublist ?q (fold_text (ls ! i))) (filter (\<lambda>i. \<not> ?skip i) [0..<length ls])
      = filter (\<lambda>i. sublist ?q (fold_text (ls ! i))) [0..<length ls]"
    using skip by (auto simp: filter_filter intro: filter_cong)
  finally show ?thesis
    by (simp add: find_ranges_occurrences [OF q])
qed

lemma line_match_fields:
  "lm_line_number (context_line_match ls k (i, rs)) = of_nat (i + 1)"
  "lm_content (context_line_match ls k (i, rs)) = ls ! i"
  "lm_ranges (context_line_match ls k (i, rs)) = rs"
  by (simp_all add: context_line_match_def Let_def)

lemma line_match_context:
  "length (lm_context_before (context_line_match ls k x)) \<le> k"
  "length (lm_context_after (context_line_match ls k x)) \<le> k"
proof -
  obtain i rs where x: "x = (i, rs)" by fastforce
  show "length (lm_context_before (context_line_match ls k x)) \<le> k"
    by (simp add: x context_line_match_def Let_def, linarith)
  have "Suc (i + k) mod 18446744073709551616 \<le> Suc (i + k)"
    by (rule mod_less_eq_dividend)
  then show "length (lm_context_after (context_line_match ls k x)) \<le> k"
    by (auto simp: x context_line_match_def Let_def min_def)
qed

text \<open>
  C36. Verification of a literal text reports, in order, exactly the lines of the (lossily decoded)
  file whose ASCII-folded text contains the folded query, each once, with its number and
  text and with the range of every occurrence in it, overlapping ones included; the lines shown as
  context are the ones before and after it, at most \<open>context_lines\<close> of them.
\<close>

theorem verify_content_lines:
  assumes "query \<noteq> []"
  shows "map (\<lambda>m. (lm_line_number m, lm_content m, lm_ranges m)) (verify_content_matches content query k)
    = map (\<lambda>i. (of_nat (i + 1), split_on newline (from_utf8_lossy content) ! i,
          map (\<lambda>p. (p, p + length query)) (occurrences (map ascii_fold_byte query)
            (map ascii_fold_byte (split_on newline (from_utf8_lossy content) ! i)))))
        (filter (\<lambda>i. sublist (map ascii_fold_byte query)
            (map ascii_fold_byte (split_on newline (from_utf8_lossy content) ! i)))
          [0..<length (split_on newline (from_utf8_lossy content))]) \<and>
    (\<forall>m \<in> set (verify_content_matches content query k).
       length (lm_context_before m) \<le> k \<and> length (lm_context_after m) \<le> k)"
proof (cases "content = []")
  case True
  then show ?thesis
    using assms by (simp add: verify_content_matches_def from_utf8_lossy.simps)
next
  case False
  let ?ls = "split_on newline (from_utf8_lossy content)"
  have eq: "verify_content_matches content query k
      = map (context_line_match ?ls k) (match_indices (map ascii_fold_byte query) ?ls)"
    using False assms by (simp add: verify_content_matches_def Let_def)
  show ?thesis
    unfolding eq match_indices_spec [OF assms] map_map
    by (simp add: comp_def line_match_fields line_match_context)
qed

theorem verify_content_lines_witness:
  "map lm_line_number (verify_content_matches sample_text ''D'' 1) = [2]"
proof -
  let ?ls = "split_on newline sample_text"
  have hits: "filter (\<lambda>i. sublist (map ascii_fold_byte ''D'') (map ascii_fold_byte (?ls ! i))) [0..<length ?ls] = [1]"
    by code_simp
  note lines = conjunct1 [OF verify_content_lines, of "''D''" sample_text 1,
      unfolded from_utf8_lossy_valid [OF sample_text_valid(1)] hits]
  show ?thesis
    using arg_cong [OF lines, of "map fst"] by (simp add: comp_def)
qed

section \<open>Candidates by size\<close>

lemma map_insort_key: "map f (insort_key (\<lambda>x. g (f x)) x xs) = insort_key g (f x) (map f xs)"
  by (induction xs) simp_all

lemma sort_key_map: "sort_key g (map f xs) = map f (sort_key (\<lambda>x. g (f x)) xs)"
proof (induction xs)
  case Nil
  then show ?case by simp
next
  case (Cons x xs)
  then show ?case
    using map_insort_key [of f g x "sort_key (\<lambda>x. g (f x)) xs"] by simp
qed

text \<open>Sorting depends only on how the keys compare.\<close>

lemma insort_key_eq:
  "(\<And>y. y \<in> set xs \<Longrightarrow> (f x \<le> f y) = (g x \<le> g y)) \<Longrightarrow> insort_key f x xs = insort_key g x xs"
  by (induction xs) auto

lemma sort_key_eq:
  "(\<And>x y. x \<in> set xs \<Longrightarrow> y \<in> set xs \<Longrightarrow> (f x \<le> f y) = (g x \<le> g y)) \<Longrightarrow> sort_key f xs = sort_key g xs"
proof (induction xs)
  case Nil
  then show ?case by simp
next
  case (Cons x xs)
  then have "sort_key f xs = sort_key g xs" by simp
  moreover have "insort_key f x (sort_key g xs) = insort_key g x (sort_key g xs)"
    using Cons.prems by (intro insort_key_eq) auto
  ultimately show ?case by simp
qed

lemma sort_candidates:
  assumes "\<And>c. c \<in> set cs \<Longrightarrow> size_or_max s c = Inr (sz c)"
  shows "sort_candidates_by_size s cs = Inr (sort_key sz cs)"
proof (cases "length cs \<le> 1")
  case True
  then have "cs = [] \<or> (\<exists>c. cs = [c])"
    by (cases cs) (simp_all add: length_Suc_conv)
  with True show ?thesis by (auto simp: sort_candidates_by_size_def)
next
  case False
  have "sort_key sz cs = sort_key sz (map ((!) cs) [0..<length cs])" by (simp add: map_nth)
  also have "\<dots> = map ((!) cs) (sort_key (\<lambda>i. sz (cs ! i)) [0..<length cs])"
    by (rule sort_key_map)
  also have "sort_key (\<lambda>i. sz (cs ! i)) [0..<length cs] = sort_key (\<lambda>i. map sz cs ! i) [0..<length cs]"
    by (rule sort_key_eq) simp
  finally show ?thesis
    using False collect_results_map [of cs "size_or_max s" sz, OF assms] by (simp add: sort_candidates_by_size_def Let_def)
qed

section \<open>Candidates of a segment\<close>

definition ids_where :: "nat \<Rightarrow> (nat \<Rightarrow> bool) \<Rightarrow> file_id list" where
  "ids_where n P = map of_nat (filter P [0..<n])"

lemma set_ids_where: "c \<in> set (ids_where n P) \<longleftrightarrow> (\<exists>i < n. P i \<and> c = of_nat i)"
  by (auto simp: ids_where_def)

lemma ids_where_True: "ids_where n (\<lambda>i. True) = map of_nat [0..<n]"
  by (simp add: ids_where_def)

lemma ids_where_cong: "(\<And>i. i < n \<Longrightarrow> P i = Q i) \<Longrightarrow> ids_where n P = ids_where n Q"
  unfolding ids_where_def by (intro arg_cong [where f = "map of_nat"] filter_cong) simp_all

lemma sorted_ids_where: "n \<le> u32_max \<Longrightarrow> sorted_wrt (<) (ids_where n P)"
proof -
  assume n: "n \<le> u32_max"
  have "sorted_wrt (\<lambda>i j. (of_nat i :: u32) < of_nat j) [0..<n]"
    unfolding sorted_wrt_iff_nth_less using n by (auto simp: word_less_nat_alt)
  then show ?thesis
    by (simp add: ids_where_def sorted_wrt_map sorted_wrt_filter)
qed

abbreviation trigrams_at :: "(file_metadata \<times> bytes) list \<Rightarrow> nat \<Rightarrow> trigram set" where
  "trigrams_at files i \<equiv> set (extract_trigrams_folded (snd (files ! i)))"

context file_segment
begin

lemma size_at: "i < length files \<Longrightarrow> size_or_max s (of_nat i) = Inr (fm_size_bytes (fst (files ! i)))"
  by (simp add: size_or_max_def size)

lemma unat_id: "i < length files \<Longrightarrow> unat (of_nat i :: file_id) = i"
  using length_files by simp

lemma enum_spec:
  "candidate_spec (enum_contents (map snd files)) ts
    = ids_where (length files) (\<lambda>i. set ts \<subseteq> trigrams_at files i)"
  unfolding candidate_spec_def enum_contents_def ids_where_def filter_map map_map length_map
  by (intro arg_cong2 [where f = map] filter_cong) (auto simp: list_all_iff)

lemma all_ids_where: "all_file_ids s = Inr (ids_where (length files) (\<lambda>i. True))"
  by (simp add: all_ids ids_where_True)

lemma smallest_first:
  "segment_smallest_first rd s ts = Inr (ids_where (length files) (\<lambda>i. set ts \<subseteq> trigrams_at files i))"
proof (cases "ts = []")
  case True
  then show ?thesis
    by (simp add: segment_smallest_first_def intersect_trigrams_smallest_first_def all_ids_where)
next
  case False
  obtain ids where ids: "segment_smallest_first rd s ts = Inr ids" "sorted_wrt (<) ids"
      "set ids = (\<Inter>t \<in> set ts. set (posting_spec (enum_contents (map snd files)) t))"
    using posting_index.smallest_first_spec [OF index False] unfolding segment_smallest_first_def by blast
  have "sorted_wrt (<) (map fst (enum_contents (map snd files)))"
    using length_files by (intro sorted_enum) simp
  from candidate_spec_unique [OF this False ids(2,3)] ids(1) show ?thesis
    by (simp add: enum_spec)
qed

lemma query_candidates:
  "lookup_trigram_candidates rd s tq = Inr (ids_where (length files) (\<lambda>i. tq_matches tq (trigrams_at files i)))"
proof (cases tq)
  case (TQ_All ts)
  then show ?thesis
    by (simp add: lookup_trigram_candidates_def smallest_first all_ids_where)
next
  case (TQ_Any branches)
  let ?n = "length files"
  let ?lists = "map (\<lambda>ts. ids_where ?n (\<lambda>i. set ts \<subseteq> trigrams_at files i)) branches"
  let ?ids = "remdups_adj (sort (concat ?lists))"
  have "sorted_wrt (<) ?ids"
    by (intro sorted_remdups_adj_strict) simp
  moreover have "sorted_wrt (<) (ids_where ?n (\<lambda>i. tq_matches tq (trigrams_at files i)))"
    by (intro sorted_ids_where length_files)
  moreover have "set ?ids = set (ids_where ?n (\<lambda>i. tq_matches tq (trigrams_at files i)))"
    by (rule set_eqI) (simp add: set_ids_where TQ_Any, blast)
  ultimately have "?ids = ids_where ?n (\<lambda>i. tq_matches tq (trigrams_at files i))"
    by (rule strict_sorted_unique)
  moreover have "collect_results (segment_smallest_first rd s) branches = Inr ?lists"
    by (rule collect_results_map) (rule smallest_first)
  ultimately show ?thesis
    by (simp add: lookup_trigram_candidates_def TQ_Any)
next
  case TQ_None
  then show ?thesis
    by (simp add: lookup_trigram_candidates_def all_ids_where)
qed

lemma candidates_by_size:
  "sort_candidates_by_size s (ids_where (length files) P)
    = Inr (sort_key (\<lambda>f. fm_size_bytes (fst (files ! unat f))) (ids_where (length files) P))"
  by (rule sort_candidates) (auto simp: set_ids_where size_at unat_id)

lemma literal_candidates:
  assumes "3 \<le> length query"
  shows "find_candidates (lookup_file_ids rd (sg_trigram_reader s)) query
    = Inr (ids_where (length files) (\<lambda>i. set (extract_unique_trigrams_folded query) \<subseteq> trigrams_at files i))"
proof -
  let ?ts = "extract_unique_trigrams_folded query"
  obtain ids where ids: "find_candidates (lookup_file_ids rd (sg_trigram_reader s)) query = Inr ids"
      "sorted_wrt (<) ids" "set ids = (\<Inter>t \<in> set ?ts. set (posting_spec (enum_contents (map snd files)) t))"
    using posting_index.find_candidates_spec [OF index assms] by blast
  have ts: "?ts \<noteq> []"
    using assms by (simp add: extract_unique_folded_eq_Nil)
  have "sorted_wrt (<) (map fst (enum_contents (map snd files)))"
    using length_files by (intro sorted_enum) simp
  from candidate_spec_unique [OF this ts ids(2,3)] ids(1) show ?thesis
    by (simp add: enum_spec)
qed

end

section \<open>The search by a query\<close>

text \<open>A segment whose highlights can be read, when it has any.\<close>

locale searchable_segment = file_segment +
  fixes decompress :: "bytes \<Rightarrow> nat \<Rightarrow> bytes option"
  assumes highlights: "i < length files \<Longrightarrow>
    \<exists>lms'. populate_highlights decompress s (fst (files ! i)) lms = Inr lms'"

text \<open>The files a query selects.\<close>

definition query_selects ::
  "'r regex_crate \<Rightarrow> query \<Rightarrow> language list \<Rightarrow> text_utf8 list \<Rightarrow> tombstone_set
     \<Rightarrow> (file_metadata \<times> bytes) list \<Rightarrow> nat \<Rightarrow> bool" where
  "query_selects rx q languages path_prefixes tombs files i \<longleftrightarrow>
     \<not> ts_contains tombs (of_nat i) \<and> passes_pre_filters (fst (files ! i)) languages path_prefixes \<and>
     query_sat rx q (snd (files ! i))"

text \<open>A list of matches names given files, with their paths and languages.\<close>

definition names_files :: "(file_metadata \<times> bytes) list \<Rightarrow> 's file_match list \<Rightarrow> file_id list \<Rightarrow> bool" where
  "names_files files ms ids \<longleftrightarrow>
     map mf_file_id ms = ids \<and>
     (\<forall>m \<in> set ms. mf_path m = fm_path (fst (files ! unat (mf_file_id m))) \<and>
        mf_language m = fm_language (fst (files ! unat (mf_file_id m))))"

lemma map_filter_ids:
  assumes "\<And>c r. c \<in> set cs \<Longrightarrow> g c = Some r \<Longrightarrow> h r = c"
  shows "map h (List.map_filter g cs) = filter (\<lambda>c. g c \<noteq> None) cs"
  using assms by (induction cs) (auto simp: map_filter_simps split: option.split)

text \<open>The files a list of matches names, when a verification admits the candidates of a predicate.\<close>

definition admits ::
  "(file_metadata \<times> bytes) list \<Rightarrow> (file_id \<Rightarrow> 's file_match option result) \<Rightarrow> (file_id \<Rightarrow> bool)
     \<Rightarrow> file_id \<Rightarrow> bool" where
  "admits files f P c \<longleftrightarrow> (\<exists>r. f c = Inr r \<and> (r \<noteq> None \<longleftrightarrow> P c) \<and>
     (\<forall>m. r = Some m \<longrightarrow> mf_file_id m = c \<and> mf_path m = fm_path (fst (files ! unat c)) \<and>
        mf_language m = fm_language (fst (files ! unat c))))"

lemma admitted_names:
  assumes "\<And>c. c \<in> set cs \<Longrightarrow> admits files f P c"
  obtains g where "\<And>c. c \<in> set cs \<Longrightarrow> f c = Inr (g c)"
    and "map mf_file_id (List.map_filter g cs) = filter P cs"
    and "\<And>ms. set ms \<subseteq> set (List.map_filter g cs) \<Longrightarrow> names_files files ms (map mf_file_id ms)"
proof -
  define g where "g c = projr (f c)" for c
  have f: "f c = Inr (g c)" "g c \<noteq> None \<longleftrightarrow> P c"
      "g c = Some m \<Longrightarrow> mf_file_id m = c \<and> mf_path m = fm_path (fst (files ! unat c)) \<and>
        mf_language m = fm_language (fst (files ! unat c))"
    if "c \<in> set cs" for c m
    using assms [OF that] by (auto simp: g_def admits_def)
  have "map mf_file_id (List.map_filter g cs) = filter (\<lambda>c. g c \<noteq> None) cs"
    by (rule map_filter_ids) (simp add: f)
  also have "\<dots> = filter P cs"
    using f(2) by (rule filter_cong [OF refl])
  finally have ids: "map mf_file_id (List.map_filter g cs) = filter P cs" .
  have fields: "mf_path m = fm_path (fst (files ! unat (mf_file_id m))) \<and>
      mf_language m = fm_language (fst (files ! unat (mf_file_id m)))"
    if "m \<in> set (List.map_filter g cs)" for m
  proof -
    from that obtain c where "c \<in> set cs" "g c = Some m"
      by (auto simp: List.map_filter_def)
    from f(3) [OF this] show ?thesis by simp
  qed
  show thesis
    by (rule that [OF f(1) ids]) (use fields in \<open>auto simp: names_files_def\<close>)
qed

text \<open>
  Sequentially the first admitted candidates are returned, in parallel some of them, in the order of
  the candidates and as many as the budget allows.
\<close>

definition within_budget :: "nat \<Rightarrow> 'a list \<Rightarrow> 'a list \<Rightarrow> bool" where
  "within_budget budget xs ys \<longleftrightarrow> subseq xs ys \<and> length xs = min budget (length ys)"

lemma within_budget_take [simp]: "within_budget budget (take budget ys) ys"
  using sublist_imp_subseq [OF sublist_take] by (simp add: within_budget_def min.commute)

lemma within_budget_all: "within_budget budget xs ys \<Longrightarrow> length ys \<le> budget \<Longrightarrow> xs = ys"
  by (simp add: within_budget_def subseq_same_length min_absorb2)

lemma budgeted_names:
  assumes "\<And>c. c \<in> set cs \<Longrightarrow> admits files f P c"
  shows "\<exists>ms. budgeted f budget cs = Inr ms \<and> names_files files ms (take budget (filter P cs))"
proof -
  obtain g where g: "\<And>c. c \<in> set cs \<Longrightarrow> f c = Inr (g c)"
      "map mf_file_id (List.map_filter g cs) = filter P cs"
      "\<And>ms. set ms \<subseteq> set (List.map_filter g cs) \<Longrightarrow> names_files files ms (map mf_file_id ms)"
    using admitted_names [of cs files f P] assms by blast
  have "names_files files (take budget (List.map_filter g cs)) (take budget (filter P cs))"
    using g(3) [OF set_take_subset, of budget] by (simp add: take_map [symmetric] g(2))
  with budgeted_Inr [of cs f g, OF g(1)] show ?thesis by blast
qed

lemma parallel_names:
  assumes "\<And>c. c \<in> set cs \<Longrightarrow> admits files f P c"
  shows "\<exists>ms ids. par_filter_map schedule f budget cs = Inr ms \<and> names_files files ms ids \<and>
    within_budget budget ids (filter P cs)"
proof -
  obtain g where g: "\<And>c. c \<in> set cs \<Longrightarrow> f c = Inr (g c)"
      "map mf_file_id (List.map_filter g cs) = filter P cs"
      "\<And>ms. set ms \<subseteq> set (List.map_filter g cs) \<Longrightarrow> names_files files ms (map mf_file_id ms)"
    using admitted_names [of cs files f P] assms by blast
  obtain ms where ms: "par_filter_map schedule f budget cs = Inr ms" "subseq ms (List.map_filter g cs)"
      "length ms = min budget (length (List.map_filter g cs))"
    using par_filter_map_spec [of cs f g, OF g(1)] by blast
  have "names_files files ms (map mf_file_id ms)"
    by (rule g(3)) (use ms(2) in \<open>auto dest: list_emb_set\<close>)
  moreover have "within_budget budget (map mf_file_id ms) (filter P cs)"
    using subseq_map [OF ms(2), of mf_file_id] ms(3) g(2)
    by (simp add: within_budget_def) (metis length_map)
  ultimately show ?thesis using ms(1) by blast
qed

context searchable_segment
begin

lemma query_candidate_at:
  assumes i: "i < length files" and size: "length (snd (files ! i)) + unat (of_nat k :: u32) + 1 < u32_max"
    and env: "se_zstd env = z" "se_decompress env = decompress"
  shows "admits files (query_candidate env s q languages path_prefixes tombs k)
    (\<lambda>c. query_selects (se_regex env) q languages path_prefixes tombs files (unat c)) (of_nat i)"
proof -
  obtain r where r: "query_matches (se_regex env) q (of_nat k) (snd (files ! i)) = Inr r"
      "r \<noteq> None \<longleftrightarrow> query_sat (se_regex env) q (snd (files ! i))"
    using query_matches_sat [OF size] by blast
  show ?thesis
  proof (cases r)
    case None
    with r i show ?thesis
      by (auto simp: admits_def unat_id query_candidate_def query_selects_def query_file_match_def
          metadata content env)
  next
    case (Some lms)
    obtain lms' where "populate_highlights decompress s (fst (files ! i)) lms = Inr lms'"
      using highlights [OF i] by blast
    with Some r i show ?thesis
      by (auto simp: admits_def unat_id query_candidate_def query_selects_def query_file_match_def
          metadata content env file_match_of_def)
  qed
qed

lemma query_search_ids:
  fixes q :: query and tq :: trigram_query and tombs :: tombstone_set
    and languages :: "language list" and path_prefixes :: "text_utf8 list"
  assumes size: "\<And>i. i < length files \<Longrightarrow> length (snd (files ! i)) + unat (of_nat k :: u32) + 1 < u32_max"
    and env: "se_zstd env = z" "se_decompress env = decompress" "se_read_varint env = rd"
  defines "found \<equiv> sort_key (\<lambda>f. fm_size_bytes (fst (files ! unat f)))
    (ids_where (length files) (\<lambda>i. tq_matches tq (trigrams_at files i) \<and>
       query_selects (se_regex env) q languages path_prefixes tombs files i))"
  shows "\<exists>ms ids. search_single_segment_with_query env s q tq languages path_prefixes tombs k max_results = Inr ms \<and>
    names_files files ms ids \<and> within_budget (unwrap_budget max_results) ids found \<and>
    (length (ids_where (length files) (\<lambda>i. tq_matches tq (trigrams_at files i))) < PAR_THRESHOLD \<longrightarrow>
       ids = take (unwrap_budget max_results) found)"
proof -
  let ?sz = "\<lambda>f. fm_size_bytes (fst (files ! unat f))" and ?n = "length files"
  let ?M = "\<lambda>i. tq_matches tq (trigrams_at files i)" and ?b = "unwrap_budget max_results"
    and ?S = "\<lambda>i. query_selects (se_regex env) q languages path_prefixes tombs files i"
  let ?cs = "sort_key ?sz (ids_where ?n ?M)"
    and ?f = "query_candidate env s q languages path_prefixes tombs k"
  have admits: "admits files ?f (\<lambda>c. ?S (unat c)) c" if "c \<in> set ?cs" for c
  proof -
    from that obtain i where "i < ?n" "c = of_nat i" by (auto simp: set_ids_where)
    with query_candidate_at [OF this(1) size [OF this(1)] env(1,2)] show ?thesis by simp
  qed
  have "filter (\<lambda>c. ?S (unat c)) ?cs = sort_key ?sz (filter (\<lambda>c. ?S (unat c)) (ids_where ?n ?M))"
    by (rule filter_sort)
  also have "filter (\<lambda>c. ?S (unat c)) (ids_where ?n ?M) = ids_where ?n (\<lambda>i. ?M i \<and> ?S i)"
    unfolding ids_where_def filter_map filter_filter
    by (intro arg_cong [where f = "map of_nat"] filter_cong) (auto simp: unat_id)
  finally have found: "filter (\<lambda>c. ?S (unat c)) ?cs = found" by (simp add: found_def)
  show ?thesis
  proof (cases "length (ids_where ?n ?M) < PAR_THRESHOLD")
    case True
    then have "search_single_segment_with_query env s q tq languages path_prefixes tombs k max_results
        = budgeted ?f ?b ?cs"
      by (simp add: search_single_segment_with_query_def Let_def env query_candidates candidates_by_size)
    moreover obtain ms where "budgeted ?f ?b ?cs = Inr ms" "names_files files ms (take ?b found)"
      using budgeted_names [of ?cs, OF admits, where budget = ?b] unfolding found by blast
    ultimately show ?thesis using within_budget_take by metis
  next
    case False
    then have "search_single_segment_with_query env s q tq languages path_prefixes tombs k max_results
        = par_filter_map (se_schedule env (sg_id s)) ?f ?b ?cs"
      by (simp add: search_single_segment_with_query_def Let_def env query_candidates candidates_by_size)
    with False parallel_names [of ?cs, OF admits, where budget = ?b] show ?thesis
      unfolding found by metis
  qed
qed

end

section \<open>Segments the builder writes\<close>

lemma populate_none: "fm_highlight_len m = 0 \<Longrightarrow> populate_highlights d s m lms = Inr lms"
  by (simp add: populate_highlights_def)

lemma searchable_plain:
  assumes "file_segment z rd s files" and "\<forall>i < length files. fm_highlight_len (fst (files ! i)) = 0"
  shows "searchable_segment z rd s files d"
  using assms by (simp add: searchable_segment_def searchable_segment_axioms_def populate_none)

interpretation searched: searchable_segment store_zstd leb_read sample_segment sample_files "\<lambda>block n. Some block"
  using sample_metas by (blast intro: searchable_plain)

lemma names_paths:
  assumes "names_files fs ms (map of_nat js)" and "\<forall>j \<in> set js. j \<le> u32_max"
  shows "map mf_file_id ms = map of_nat js" and "map mf_path ms = map (\<lambda>j. fm_path (fst (fs ! j))) js"
proof -
  show ids: "map mf_file_id ms = map of_nat js"
    using assms(1) by (simp add: names_files_def)
  have "map mf_path ms = map (\<lambda>f. fm_path (fst (fs ! unat f))) (map mf_file_id ms)"
    using assms(1) unfolding map_map names_files_def by (intro map_cong) simp_all
  also have "\<dots> = map (\<lambda>j. fm_path (fst (fs ! j))) js"
    unfolding ids using assms(2) by simp
  finally show "map mf_path ms = map (\<lambda>j. fm_path (fst (fs ! j))) js" .
qed

text \<open>The files a query is for, smallest first, and the number of files its trigrams leave.\<close>

definition files_satisfying ::
  "'r regex_crate \<Rightarrow> query \<Rightarrow> language list \<Rightarrow> text_utf8 list \<Rightarrow> tombstone_set \<Rightarrow> input_file list \<Rightarrow> nat list" where
  "files_satisfying rx q languages path_prefixes tombs files =
     sort_key (\<lambda>j. length (in_content (files ! j)))
      (filter (\<lambda>j. \<not> ts_contains tombs (of_nat j) \<and>
          (languages = [] \<or> language_from_path (in_path (files ! j)) \<in> set languages) \<and>
          (path_prefixes = [] \<or> (\<exists>p \<in> set path_prefixes. prefix p (in_path (files ! j)))) \<and>
          query_sat rx q (in_content (files ! j))) [0..<length files])"

definition candidate_count :: "trigram_query \<Rightarrow> input_file list \<Rightarrow> nat" where
  "candidate_count tq files =
     length (filter (\<lambda>f. tq_matches tq (set (extract_trigrams_folded (in_content f)))) files)"

lemma candidate_count_ids:
  assumes "length fs = length files" and "\<And>i. i < length files \<Longrightarrow> snd (fs ! i) = in_content (files ! i)"
  shows "length (ids_where (length fs) (\<lambda>i. tq_matches tq (trigrams_at fs i))) = candidate_count tq files"
proof -
  have "filter (\<lambda>i. tq_matches tq (trigrams_at fs i)) [0..<length files]
      = filter (\<lambda>i. tq_matches tq (set (extract_trigrams_folded (in_content (files ! i))))) [0..<length files]"
    by (rule filter_cong [OF refl]) (simp add: assms(2))
  moreover have "candidate_count tq (map ((!) files) [0..<length files]) = length
      (filter (\<lambda>i. tq_matches tq (set (extract_trigrams_folded (in_content (files ! i))))) [0..<length files])"
    by (simp add: candidate_count_def filter_map comp_def)
  ultimately show ?thesis
    by (simp add: ids_where_def assms(1) map_nth)
qed

lemma within_budget_map:
  assumes "within_budget b xs (map f ys)"
  obtains zs where "xs = map f zs" and "within_budget b zs ys"
proof -
  from assms obtain N where "xs = nths (map f ys) N"
    by (auto simp: within_budget_def subseq_conv_nths)
  then have "xs = map f (nths ys N)" by (simp add: nths_map)
  moreover have "within_budget b (nths ys N) ys"
    using assms calculation by (auto simp: within_budget_def subseq_conv_nths)
  ultimately show thesis by (rule that)
qed

text \<open>
  C1. The search of a segment by a query is exact. On a segment built from files, the search with the
  trigrams and filters extracted from the query returns only files that are not tombstoned, pass the
  extracted language and path filters and satisfy the query, smallest first, each once; it returns
  all of them when the limit allows, else exactly as many as the limit, whatever the schedule by which the
  thread pool verifies the candidates; and when the trigrams select fewer than 64 files, which are then
  verified sequentially, it returns the smallest ones. So the trigram index loses nothing and
  verification admits nothing else. The conditions: the files are valid UTF-8 and have no stored
  highlights, the context is at most \<open>2 ^ 31\<close> lines, the regex crates keep their documented laws, the
  conjunctions of the query produce at most 64 branches (\<open>query_width\<close>), and every leaf suits every
  file (\<open>leaves_ok\<close>): a literal or phrase is case-sensitive, or it and all files are ASCII; an
  expression is case-sensitive and its extracted literals agree up to case. The excluded
  shapes can lose files, as \<open>nested_alternation_lost\<close> and \<open>merge_and_drops_branches\<close> show.
\<close>

theorem query_search_exact:
  assumes "env_ok benv rd" and "inputs_ok files" and "segment_build benv files = Inr sf"
    and "length (sf_content sf) < 2 ^ 64" and "be_highlights benv = (\<lambda>d l. None)"
    and "segment_open rd sf segment_id = Inr seg"
    and "se_zstd env = be_zstd benv" and "se_read_varint env = rd"
    and "ascii_case_law (se_regex env)" and "regex_law (se_regex env) (se_syntax env)"
    and "query_width (se_syntax env) q \<le> 64"
    and "\<forall>f \<in> set files. utf8_valid (in_content f) \<and> leaves_ok (se_syntax env) (in_content f) q"
    and "extract_pre_filters q = (languages, path_prefixes)" and "k \<le> 2 ^ 31"
  shows "\<exists>ms js. search_single_segment_with_query env seg q (extract_query_trigrams (se_syntax env) q)
      languages path_prefixes tombs k max_results = Inr ms \<and>
    map mf_file_id ms = map of_nat js \<and> map mf_path ms = map (\<lambda>j. in_path (files ! j)) js \<and>
    (let found = files_satisfying (se_regex env) q languages path_prefixes tombs files
     in subseq js found \<and> length js = min (unwrap_budget max_results) (length found) \<and>
        (length found \<le> unwrap_budget max_results \<longrightarrow> js = found) \<and>
        (candidate_count (extract_query_trigrams (se_syntax env) q) files < PAR_THRESHOLD \<longrightarrow>
           js = take (unwrap_budget max_results) found))"
proof -
  obtain seg' metas where opened: "segment_open rd sf segment_id = Inr seg'"
    and fs: "file_segment (be_zstd benv) rd seg' (zip metas (map in_content files))"
    and len: "length metas = length files"
    and metas: "\<forall>i < length files. fm_path (metas ! i) = in_path (files ! i) \<and>
      fm_language (metas ! i) = language_from_path (in_path (files ! i)) \<and>
      fm_size_bytes (metas ! i) = of_nat (length (in_content (files ! i))) \<and>
      fm_highlight_len (metas ! i) = 0"
    using segment_build_holds [OF assms(1-4), of segment_id] assms(5) by auto
  have seg: "seg' = seg" using opened assms(6) by simp
  let ?fs = "zip metas (map in_content files)" and ?n = "length files"
  have n: "length ?fs = ?n" using len by simp
  have ss: "searchable_segment (be_zstd benv) rd seg ?fs (se_decompress env)"
    using fs metas len unfolding seg by (intro searchable_plain) auto
  let ?rx = "se_regex env" and ?rs = "se_syntax env" and ?b = "unwrap_budget max_results"
  let ?sz = "\<lambda>f. fm_size_bytes (fst (?fs ! unat (f :: file_id)))"
  let ?S = "\<lambda>j. \<not> ts_contains tombs (of_nat j) \<and>
    (languages = [] \<or> language_from_path (in_path (files ! j)) \<in> set languages) \<and>
    (path_prefixes = [] \<or> (\<exists>p \<in> set path_prefixes. prefix p (in_path (files ! j)))) \<and>
    query_sat ?rx q (in_content (files ! j))"
  let ?js = "files_satisfying ?rx q languages path_prefixes tombs files" and ?tq = "extract_query_trigrams ?rs q"
  have n_le: "?n \<le> u32_max" and small: "\<And>j. j < ?n \<Longrightarrow> length (in_content (files ! j)) \<le> 10485760"
    using assms(2) by (auto simp: inputs_ok_def list_all_length MAX_DECOMPRESSED_SIZE_def)
  have "unat (of_nat k :: u32) \<le> 2 ^ 31"
    using assms(14) mod_less_eq_dividend [of k "2 ^ 32"] by (simp add: unat_of_nat)
  then have size: "length (snd (?fs ! i)) + unat (of_nat k :: u32) + 1 < u32_max" if "i < length ?fs" for i
    using that small [of i] len by simp
  let ?ids = "sort_key ?sz (ids_where (length ?fs) (\<lambda>i. tq_matches ?tq (trigrams_at ?fs i) \<and>
             query_selects ?rx q languages path_prefixes tombs ?fs i))"
  obtain ms ids where run: "search_single_segment_with_query env seg q ?tq
        languages path_prefixes tombs k max_results = Inr ms"
    and named: "names_files ?fs ms ids" and within: "within_budget ?b ids ?ids"
    and few: "length (ids_where (length ?fs) (\<lambda>i. tq_matches ?tq (trigrams_at ?fs i))) < PAR_THRESHOLD \<longrightarrow>
      ids = take ?b ?ids"
    using searchable_segment.query_search_ids [OF ss size assms(7) refl assms(8)] by blast
  have "tq_matches ?tq (trigrams_at ?fs j)" if "j < ?n" "?S j" for j
    using query_trigrams_necessary_aux [OF _ assms(9,10,11), of "in_content (files ! j)"] assms(12) that len
    by (simp add: nth_mem)
  moreover have "query_selects ?rx q languages path_prefixes tombs ?fs j \<longleftrightarrow> ?S j" if "j < ?n" for j
    using that len metas by (simp add: query_selects_def passes_pre_filters_def list_ex_iff)
  ultimately have "ids_where (length ?fs) (\<lambda>i. tq_matches ?tq (trigrams_at ?fs i) \<and>
      query_selects ?rx q languages path_prefixes tombs ?fs i) = ids_where ?n ?S"
    unfolding n by (intro ids_where_cong) blast
  moreover have "sort_key (\<lambda>j. ?sz (of_nat j)) (filter ?S [0..<?n]) = ?js"
    unfolding files_satisfying_def
  proof (rule sort_key_eq)
    have key: "unat (?sz (of_nat j)) = length (in_content (files ! j))" if "j \<in> set (filter ?S [0..<?n])" for j
      using that metas len n_le order.trans [OF small [of j], of u32_max] by simp
    show "(?sz (of_nat x) \<le> ?sz (of_nat y)) = (length (in_content (files ! x)) \<le> length (in_content (files ! y)))"
      if "x \<in> set (filter ?S [0..<?n])" "y \<in> set (filter ?S [0..<?n])" for x y
      unfolding word_le_nat_alt key [OF that(1)] key [OF that(2)] ..
  qed
  then have "sort_key ?sz (ids_where ?n ?S) = map of_nat ?js"
    by (simp add: ids_where_def sort_key_map)
  ultimately have ids_eq: "?ids = map of_nat ?js" by simp
  have count: "length (ids_where (length ?fs) (\<lambda>i. tq_matches ?tq (trigrams_at ?fs i))) = candidate_count ?tq files"
    using len by (intro candidate_count_ids) simp_all
  obtain js where js: "ids = map of_nat js" "within_budget ?b js ?js"
      "candidate_count ?tq files < PAR_THRESHOLD \<longrightarrow> js = take ?b ?js"
  proof (cases "candidate_count ?tq files < PAR_THRESHOLD")
    case True
    with few show ?thesis
      unfolding count ids_eq by (intro that [of "take ?b ?js"]) (simp_all add: take_map)
  next
    case False
    from within [unfolded ids_eq] obtain zs where "ids = map of_nat zs" "within_budget ?b zs ?js"
      by (rule within_budget_map)
    with False show ?thesis by (intro that [of zs]) simp_all
  qed
  have names: "names_files ?fs ms (map of_nat js)" using named js(1) by simp
  have "set js \<subseteq> set ?js" using js(2) by (auto simp: within_budget_def dest: list_emb_set)
  then have below: "j < ?n" if "j \<in> set js" for j
    using that by (auto simp: files_satisfying_def)
  have "\<forall>j \<in> set js. j \<le> u32_max"
    using less_imp_le [OF less_le_trans [OF below n_le]] by blast
  note ids = names_paths [OF names this]
  have path_at: "fm_path (fst (?fs ! j)) = in_path (files ! j)" if "j < ?n" for j
    using that metas len by simp
  have paths: "map (\<lambda>j. fm_path (fst (?fs ! j))) js = map (\<lambda>j. in_path (files ! j)) js"
    by (intro map_cong [OF refl] path_at below)
  show ?thesis
    unfolding Let_def
  proof (intro exI [of _ ms] exI [of _ js] conjI run ids(1) trans [OF ids(2) paths] js(3))
    show "subseq js ?js" and "length js = min ?b (length ?js)"
      using js(2) by (simp_all add: within_budget_def)
    show "length ?js \<le> ?b \<longrightarrow> js = ?js" using within_budget_all [OF js(2)] by blast
  qed
qed

definition sample_search_env :: "(bool \<times> text_utf8, text_utf8, nat) search_env" where
  "sample_search_env =
     \<lparr>se_regex = literal_engine, se_syntax = literal_syntax, se_zstd = store_zstd,
      se_decompress = (\<lambda>block n. Some block), se_read_varint = leb_read, se_score = (\<lambda>i. si_match_count i),
      se_now = 0, se_schedule = (\<lambda>i. [])\<rparr>"

theorem query_search_exact_witness:
  "\<exists>ms. search_single_segment_with_query sample_search_env sample_segment
      (Q_Literal \<lparr>lq_text = ''xab'', lq_case_sensitive = True\<rparr>)
      (extract_query_trigrams literal_syntax (Q_Literal \<lparr>lq_text = ''xab'', lq_case_sensitive = True\<rparr>))
      [] [] ts_new 1 None = Inr ms \<and> map mf_path ms = [''b.py'']"
proof -
  let ?q = "Q_Literal \<lparr>lq_text = ''xab'', lq_case_sensitive = True\<rparr>"
  have sat: "\<not> query_sat literal_engine ?q ''Abcd''" "query_sat literal_engine ?q ''xabc''"
    by code_simp+
  have valid: "utf8_valid ''Abcd''" "utf8_valid ''xabc''"
    by (rule utf8_valid_ascii, code_simp)+
  have size: "length (sf_content sample_built) < 2 ^ 64"
    by (simp add: sample_content_length)
  obtain seg where "segment_open leb_read sample_built 3 = Inr seg"
    using segment_build_holds [OF sample_env_ok sample_inputs_ok sample_segment_build size, of 3] by blast
  then have opened: "segment_open leb_read sample_built 3 = Inr sample_segment"
    by (simp add: sample_segment_def)
  have hl: "be_highlights sample_env = (\<lambda>d l. None)" by (simp add: sample_env_def)
  have env: "se_zstd sample_search_env = be_zstd sample_env" "se_read_varint sample_search_env = leb_read"
      "ascii_case_law (se_regex sample_search_env)"
      "regex_law (se_regex sample_search_env) (se_syntax sample_search_env)"
      "query_width (se_syntax sample_search_env) ?q \<le> 64" "(1 :: nat) \<le> 2 ^ 31"
    by (simp_all add: sample_search_env_def sample_env_def literal_engine_ascii literal_engine_regex)
  have leaves: "\<forall>f \<in> set sample_inputs. utf8_valid (in_content f) \<and> leaves_ok (se_syntax sample_search_env) (in_content f) ?q"
    by (simp add: sample_inputs_def valid literal_ok_in_def)
  have pre: "extract_pre_filters ?q = ([], [])"
    by (simp add: extract_pre_filters_def)
  have none: "\<not> ts_contains ts_new f" for f
    by (simp add: contains_bits)
  have js: "filter (\<lambda>j. query_sat literal_engine ?q (in_content (sample_inputs ! j))) [0..<length sample_inputs] = [1]"
    using sat by (simp add: sample_inputs_def upt_rec del: query_sat.simps)
  from query_search_exact [OF sample_env_ok sample_inputs_ok sample_segment_build size hl opened env(1-5) leaves pre env(6),
      of ts_new None]
  show ?thesis
    using js by (auto simp: files_satisfying_def Let_def sample_search_env_def none unwrap_budget_def sample_inputs_def simp del: query_sat.simps)
qed

end
