(* ===== verification/Index_State.thy ===== *)
theory Index_State
  imports Segment
begin

text \<open>
  The published list of segments (\<open>ferret-core/src/index_state.rs\<close>): a snapshot is the value of the
  list when it is taken; publishing replaces the list. The lock and the reference counts are left out.
\<close>

type_synonym segment_list = "segment list"

record index_state =
  is_current :: segment_list

definition index_state_new :: index_state where
  "index_state_new = \<lparr>is_current = []\<rparr>"

definition is_snapshot :: "index_state \<Rightarrow> segment_list" where
  "is_snapshot st = is_current st"

definition is_publish :: "segment_list \<Rightarrow> index_state \<Rightarrow> index_state" where
  "is_publish new_segments st = st\<lparr>is_current := new_segments\<rparr>"

end
