(* ===== verification/Multi_Search.thy ===== *)
theory Multi_Search
  imports Segment_Search Index_State "HOL-Library.AList" "HOL-Library.Multiset"
begin

text \<open>
  The search over a snapshot of segments (\<open>ferret-core/src/multi_search.rs\<close>,
  \<open>ferret-core/src/index_state.rs\<close>): the results of the segments are merged by path, the newest
  segment winning, sorted by score and truncated; the streaming variants send results newest segment
  first. The segments are searched in snapshot order, one of the schedules of the parallel code;
  within a segment the schedule is a parameter, which without a limit does not change the matches
  (\<open>par_filter_map_all\<close>). The lemmas show that both variants return the newest version of every matched path.
\<close>

section \<open>Order of the results\<close>

text \<open>Paths compare by components: \<open>Path::cmp\<close> with the derived order of \<open>Component\<close>.\<close>

fun component_rank :: "component \<Rightarrow> nat" where
  "component_rank RootDir = 0"
| "component_rank CurDir = 1"
| "component_rank ParentDir = 2"
| "component_rank (Normal n) = 3"

fun component_text :: "component \<Rightarrow> bytes" where
  "component_text (Normal n) = n"
| "component_text c = []"

instantiation component :: linorder
begin

definition less_eq_component :: "component \<Rightarrow> component \<Rightarrow> bool" where
  "less_eq_component a b \<longleftrightarrow> component_rank a < component_rank b \<or>
     component_rank a = component_rank b \<and> component_text a \<le> component_text b"

definition less_component :: "component \<Rightarrow> component \<Rightarrow> bool" where
  "less_component a b \<longleftrightarrow> component_rank a < component_rank b \<or>
     component_rank a = component_rank b \<and> component_text a < component_text b"

instance
proof
  fix a b c :: component
  show "a < b \<longleftrightarrow> a \<le> b \<and> \<not> b \<le> a"
    by (auto simp: less_eq_component_def less_component_def)
  show "a \<le> a"
    by (simp add: less_eq_component_def)
  show "a \<le> b \<Longrightarrow> b \<le> c \<Longrightarrow> a \<le> c"
    by (auto simp: less_eq_component_def)
  show "a \<le> b \<Longrightarrow> b \<le> a \<Longrightarrow> a = b"
    by (cases a; cases b) (auto simp: less_eq_component_def)
  show "a \<le> b \<or> b \<le> a"
    by (auto simp: less_eq_component_def)
qed

end

abbreviation path_key :: "'s file_match \<Rightarrow> component list" where
  "path_key fm \<equiv> components (mf_path fm)"

text \<open>Scores descending, then paths; a stable insertion sort by this order.\<close>

definition result_before :: "'s::linorder file_match \<Rightarrow> 's file_match \<Rightarrow> bool" where
  "result_before a b \<longleftrightarrow>
     mf_score b < mf_score a \<or> mf_score a = mf_score b \<and> path_key a \<le> path_key b"

fun insert_by :: "('a \<Rightarrow> 'a \<Rightarrow> bool) \<Rightarrow> 'a \<Rightarrow> 'a list \<Rightarrow> 'a list" where
  "insert_by R x [] = [x]"
| "insert_by R x (y # ys) = (if R x y then x # y # ys else y # insert_by R x ys)"

definition sort_by :: "('a \<Rightarrow> 'a \<Rightarrow> bool) \<Rightarrow> 'a list \<Rightarrow> 'a list" where
  "sort_by R xs = foldr (insert_by R) xs []"

section \<open>Merging\<close>

text \<open>The map from paths to the newest match, as an association list.\<close>

definition merge_entry ::
  "(component list \<times> segment_id \<times> 's file_match) list \<Rightarrow> segment_id \<times> 's file_match
     \<Rightarrow> (component list \<times> segment_id \<times> 's file_match) list" where
  "merge_entry merged = (\<lambda>(seg_id, fm).
     case map_of merged (path_key fm) of
       Some (existing_seg_id, _) \<Rightarrow>
         if existing_seg_id \<ge> seg_id then merged else AList.update (path_key fm) (seg_id, fm) merged
     | None \<Rightarrow> AList.update (path_key fm) (seg_id, fm) merged)"

definition merge_results ::
  "(segment_id \<times> 's file_match) list \<Rightarrow> (component list \<times> segment_id \<times> 's file_match) list" where
  "merge_results tagged = foldl merge_entry [] tagged"

definition empty_result :: "nat \<Rightarrow> 's search_result" where
  "empty_result elapsed =
     \<lparr>sr_total_match_count = 0, sr_total_file_count = 0, sr_files = [], sr_duration = elapsed\<rparr>"

definition finish_results ::
  "nat option \<Rightarrow> nat \<Rightarrow> (component list \<times> segment_id \<times> 's::linorder file_match) list \<Rightarrow> 's search_result" where
  "finish_results max_results elapsed merged =
     (let files = sort_by result_before (map (\<lambda>(_, _, fm). fm) merged);
          files = (case max_results of Some n \<Rightarrow> take n files | None \<Rightarrow> files)
      in \<lparr>sr_total_match_count = sum_list (map (\<lambda>f. length (mf_lines f)) files),
          sr_total_file_count = length files, sr_files = files, sr_duration = elapsed\<rparr>)"

section \<open>All segments\<close>

text \<open>An error of a segment is a value that the merge returns; a panic ends the search.\<close>

definition attempt :: "'a result \<Rightarrow> 'a result result" where
  "attempt r = (case r of Inl Panic \<Rightarrow> panic | _ \<Rightarrow> Inr r)"

definition take_budget :: "nat option \<Rightarrow> nat \<Rightarrow> 'a list \<Rightarrow> 'a list \<times> nat" where
  "take_budget max_results budget xs =
     (if max_results = None then (xs, budget) else (take budget xs, budget - length xs))"

type_synonym 's segment_search = "segment \<Rightarrow> tombstone_set \<Rightarrow> nat option \<Rightarrow> 's file_match list result"

fun segment_results ::
  "'s segment_search \<Rightarrow> nat option \<Rightarrow> nat \<Rightarrow> segment_list
     \<Rightarrow> (segment_id \<times> 's file_match) list result list result" where
  "segment_results search max_results budget [] = Inr []"
| "segment_results search max_results budget (s # snapshot) =
     (if budget = 0
      then obind (segment_results search max_results budget snapshot) (\<lambda>rs. Inr (Inr [] # rs))
      else
        obind (attempt (obind (load_tombstones s) (\<lambda>(tombs, _).
                 search s tombs (map_option (\<lambda>_. budget) max_results)))) (\<lambda>r.
          case r of
            Inl e \<Rightarrow> obind (segment_results search max_results budget snapshot) (\<lambda>rs. Inr (Inl e # rs))
          | Inr file_matches \<Rightarrow>
              let (kept, budget') = take_budget max_results budget file_matches
              in obind (segment_results search max_results budget' snapshot) (\<lambda>rs.
                   Inr (Inr (map (Pair (sg_id s)) kept) # rs))))"

definition search_segments_by ::
  "'s::linorder segment_search \<Rightarrow> nat option \<Rightarrow> nat \<Rightarrow> segment_list \<Rightarrow> 's search_result result" where
  "search_segments_by search max_results elapsed snapshot =
     (if snapshot = [] then Inr (empty_result elapsed)
      else
        obind (segment_results search max_results (unwrap_budget max_results) snapshot) (\<lambda>per_segment.
        obind (collect_results (\<lambda>r. r) per_segment) (\<lambda>tagged.
          Inr (finish_results max_results elapsed (merge_results (concat tagged))))))"

definition search_segments_with_options ::
  "('r, 'h, 's::linorder) search_env \<Rightarrow> nat \<Rightarrow> segment_list \<Rightarrow> text_utf8 \<Rightarrow> search_options
     \<Rightarrow> 's search_result result" where
  "search_segments_with_options env elapsed snapshot query options =
     (if snapshot = [] \<or> length query < 3 then Inr (empty_result elapsed)
      else search_segments_by
        (\<lambda>s tombs m. search_single_segment_with_context env s query tombs (so_context_lines options) m)
        (so_max_results options) elapsed snapshot)"

definition default_options :: search_options where
  "default_options = \<lparr>so_context_lines = 0, so_max_results = None\<rparr>"

definition search_segments ::
  "('r, 'h, 's::linorder) search_env \<Rightarrow> nat \<Rightarrow> segment_list \<Rightarrow> text_utf8 \<Rightarrow> 's search_result result" where
  "search_segments env elapsed snapshot query =
     search_segments_with_options env elapsed snapshot query default_options"

definition search_segments_with_pattern_and_options ::
  "('r, 'h, 's::linorder) search_env \<Rightarrow> nat \<Rightarrow> segment_list \<Rightarrow> match_pattern \<Rightarrow> search_options
     \<Rightarrow> 's search_result result" where
  "search_segments_with_pattern_and_options env elapsed snapshot pattern options =
     search_segments_by
       (\<lambda>s tombs m. search_single_segment_with_pattern env s pattern tombs (so_context_lines options) m)
       (so_max_results options) elapsed snapshot"

definition search_segments_with_pattern ::
  "('r, 'h, 's::linorder) search_env \<Rightarrow> nat \<Rightarrow> segment_list \<Rightarrow> match_pattern \<Rightarrow> 's search_result result" where
  "search_segments_with_pattern env elapsed snapshot pattern =
     search_segments_with_pattern_and_options env elapsed snapshot pattern default_options"

definition query_segment_search ::
  "('r, 'h, 's) search_env \<Rightarrow> query \<Rightarrow> nat \<Rightarrow> 's segment_search" where
  "query_segment_search env query context_lines =
     (let tq = extract_query_trigrams (se_syntax env) query;
          (languages, path_prefixes) = extract_pre_filters query
      in (\<lambda>s tombs m.
           search_single_segment_with_query env s query tq languages path_prefixes tombs context_lines m))"

definition search_segments_with_query ::
  "('r, 'h, 's::linorder) search_env \<Rightarrow> nat \<Rightarrow> segment_list \<Rightarrow> query \<Rightarrow> search_options
     \<Rightarrow> 's search_result result" where
  "search_segments_with_query env elapsed snapshot query options =
     search_segments_by (query_segment_search env query (so_context_lines options))
       (so_max_results options) elapsed snapshot"

section \<open>Streaming\<close>

text \<open>
  The receiver takes a number of messages and is then dropped, or is never dropped (\<open>None\<close>). The
  state of a stream is the paths already handled and the matches sent.
\<close>

record 's stream_state =
  st_paths :: "component list list"
  st_sent :: "'s file_match list"

definition receiver_takes :: "nat option \<Rightarrow> nat \<Rightarrow> bool" where
  "receiver_takes accepts n = (case accepts of Some a \<Rightarrow> n < a | None \<Rightarrow> True)"

fun stream_files ::
  "nat option \<Rightarrow> nat option \<Rightarrow> 's stream_state \<Rightarrow> 's file_match list \<Rightarrow> bool \<times> 's stream_state" where
  "stream_files accepts max_results st [] = (False, st)"
| "stream_files accepts max_results st (fm # fms) =
     (if path_key fm \<in> set (st_paths st) then stream_files accepts max_results st fms
      else
        let st = st\<lparr>st_paths := path_key fm # st_paths st\<rparr>
        in if \<not> receiver_takes accepts (length (st_sent st)) then (True, st)
           else
             let st = st\<lparr>st_sent := st_sent st @ [fm]\<rparr>
             in if (case max_results of Some m \<Rightarrow> length (st_sent st) \<ge> m | None \<Rightarrow> False) then (True, st)
                else stream_files accepts max_results st fms)"

fun stream_segments ::
  "'s segment_search \<Rightarrow> nat option \<Rightarrow> nat option \<Rightarrow> 's stream_state \<Rightarrow> segment list
     \<Rightarrow> 's stream_state \<times> unit result" where
  "stream_segments search accepts max_results st [] = (st, Inr ())"
| "stream_segments search accepts max_results st (s # segs) =
     (case obind (load_tombstones s) (\<lambda>(tombs, _). search s tombs None) of
        Inl e \<Rightarrow> (st, Inl e)
      | Inr file_matches \<Rightarrow>
          let (stopped, st) = stream_files accepts max_results st file_matches
          in if stopped then (st, Inr ()) else stream_segments search accepts max_results st segs)"

definition stream_by ::
  "'s segment_search \<Rightarrow> nat option \<Rightarrow> nat option \<Rightarrow> segment_list \<Rightarrow> 's file_match list \<times> unit result" where
  "stream_by search accepts max_results snapshot =
     (if snapshot = [] then ([], Inr ())
      else
        let (st, r) = stream_segments search accepts max_results \<lparr>st_paths = [], st_sent = []\<rparr> (rev snapshot)
        in (st_sent st, r))"

definition search_segments_streaming ::
  "('r, 'h, 's) search_env \<Rightarrow> nat option \<Rightarrow> segment_list \<Rightarrow> match_pattern \<Rightarrow> search_options
     \<Rightarrow> 's file_match list \<times> unit result" where
  "search_segments_streaming env accepts snapshot pattern options =
     stream_by (\<lambda>s tombs m. search_single_segment_with_pattern env s pattern tombs (so_context_lines options) m)
       accepts (so_max_results options) snapshot"

definition search_segments_with_query_streaming ::
  "('r, 'h, 's) search_env \<Rightarrow> nat option \<Rightarrow> segment_list \<Rightarrow> query \<Rightarrow> search_options
     \<Rightarrow> 's file_match list \<times> unit result" where
  "search_segments_with_query_streaming env accepts snapshot query options =
     stream_by (query_segment_search env query (so_context_lines options)) accepts (so_max_results options) snapshot"

section \<open>Sorting\<close>

lemma set_insert_by [simp]: "set (insert_by R x xs) = insert x (set xs)"
  by (induction xs) auto

lemma mset_sort_by [simp]: "mset (sort_by R xs) = mset xs"
proof -
  have "mset (insert_by R x ys) = add_mset x (mset ys)" for x ys
    by (induction ys) simp_all
  then show ?thesis by (induction xs) (simp_all add: sort_by_def)
qed

lemma set_sort_by [simp]: "set (sort_by R xs) = set xs"
  by (metis mset_sort_by set_mset_mset)

lemma sorted_sort_by:
  assumes "\<And>x y. R x y \<or> R y x" and "\<And>x y z. R x y \<Longrightarrow> R y z \<Longrightarrow> R x z"
  shows "sorted_wrt R (sort_by R xs)"
proof -
  have "sorted_wrt R (insert_by R x ys)" if "sorted_wrt R ys" for x ys
    using that
  proof (induction ys)
    case Nil
    then show ?case by simp
  next
    case (Cons y ys)
    show ?case
    proof (cases "R x y")
      case True
      with Cons.prems show ?thesis by (auto intro: assms(2))
    next
      case False
      then have "R y x" using assms(1) by blast
      with Cons False show ?thesis by auto
    qed
  qed
  then show ?thesis by (induction xs) (simp_all add: sort_by_def)
qed

lemma result_before_total: "result_before a b \<or> result_before b a"
  by (auto simp: result_before_def)

lemma result_before_trans: "result_before a b \<Longrightarrow> result_before b c \<Longrightarrow> result_before a c"
  by (auto simp: result_before_def)

section \<open>What merging keeps\<close>

text \<open>The winner for a path: the first of the matches with the largest segment ID.\<close>

definition winner_step ::
  "component list \<Rightarrow> (segment_id \<times> 's file_match) option \<Rightarrow> segment_id \<times> 's file_match
     \<Rightarrow> (segment_id \<times> 's file_match) option" where
  "winner_step key best x =
     (if path_key (snd x) = key
      then (case best of Some y \<Rightarrow> if fst y \<ge> fst x then best else Some x | None \<Rightarrow> Some x)
      else best)"

definition winner ::
  "component list \<Rightarrow> (segment_id \<times> 's file_match) list \<Rightarrow> (segment_id \<times> 's file_match) option" where
  "winner key tagged = foldl (winner_step key) None tagged"

lemma map_of_merge_entry: "map_of (merge_entry merged x) key = winner_step key (map_of merged key) x"
  by (cases x) (auto simp: merge_entry_def winner_step_def update_conv' split: option.splits)

lemma map_of_merge_results: "map_of (merge_results tagged) key = winner key tagged"
  unfolding merge_results_def winner_def
  by (induction tagged rule: rev_induct) (simp_all add: map_of_merge_entry)

lemma distinct_merge_results: "distinct (map fst (merge_results tagged))"
  unfolding merge_results_def
  by (induction tagged rule: rev_induct)
    (auto simp: merge_entry_def distinct_update split: prod.splits option.splits)

lemma winner_None: "winner key tagged = None \<longleftrightarrow> (\<forall>y \<in> set tagged. path_key (snd y) \<noteq> key)"
  unfolding winner_def
  by (induction tagged rule: rev_induct) (auto simp: winner_step_def split: option.splits)

lemma winner_Some:
  "winner key tagged = Some x \<Longrightarrow>
     x \<in> set tagged \<and> path_key (snd x) = key \<and> (\<forall>y \<in> set tagged. path_key (snd y) = key \<longrightarrow> fst y \<le> fst x)"
proof (induction tagged arbitrary: x rule: rev_induct)
  case Nil
  then show ?case by (simp add: winner_def)
next
  case (snoc z tagged)
  show ?case
  proof (cases "winner key tagged")
    case None
    with snoc.prems show ?thesis
      using winner_None [of key tagged]
      by (auto simp: winner_def winner_step_def split: if_splits)
  next
    case (Some y)
    have "(if path_key (snd z) = key \<and> \<not> fst y \<ge> fst z then z else y) = x"
      using snoc.prems Some by (auto simp: winner_def winner_step_def split: if_splits)
    with snoc.IH [OF Some] show ?thesis
      by (auto split: if_splits dest: order.trans less_imp_le)
  qed
qed

definition merged_files :: "(segment_id \<times> 's file_match) list \<Rightarrow> 's file_match list" where
  "merged_files tagged = map (\<lambda>(_, _, fm). fm) (merge_results tagged)"

lemma mem_merge_results:
  "(key, x) \<in> set (merge_results tagged) \<longleftrightarrow> winner key tagged = Some x"
  by (simp add: map_of_merge_results [symmetric] distinct_merge_results)

lemma set_merged_files:
  "fm \<in> set (merged_files tagged) \<longleftrightarrow> (\<exists>i. winner (path_key fm) tagged = Some (i, fm))"
proof
  assume "fm \<in> set (merged_files tagged)"
  then obtain key i where "(key, i, fm) \<in> set (merge_results tagged)"
    by (auto simp: merged_files_def)
  then have "winner key tagged = Some (i, fm)" by (simp add: mem_merge_results)
  with winner_Some [OF this] show "\<exists>i. winner (path_key fm) tagged = Some (i, fm)" by auto
next
  assume "\<exists>i. winner (path_key fm) tagged = Some (i, fm)"
  then show "fm \<in> set (merged_files tagged)"
    by (force simp: merged_files_def mem_merge_results [symmetric])
qed

lemma keys_merged_files: "map path_key (merged_files tagged) = map fst (merge_results tagged)"
proof -
  have "path_key fm = key" if "(key, i, fm) \<in> set (merge_results tagged)" for key i fm
    using winner_Some that by (fastforce simp: mem_merge_results)
  then show ?thesis
    by (auto simp: merged_files_def)
qed

lemma distinct_merged_files: "distinct (map path_key (merged_files tagged))"
  unfolding keys_merged_files by (rule distinct_merge_results)

section \<open>The results of all segments\<close>

text \<open>The matches of a segment when there is no limit.\<close>

definition segment_hits :: "'s segment_search \<Rightarrow> segment \<Rightarrow> 's file_match list result" where
  "segment_hits search s = obind (load_tombstones s) (\<lambda>(tombs, _). search s tombs None)"

lemma segment_results_unlimited:
  assumes "0 < budget" and "\<forall>s \<in> set snapshot. segment_hits search s = Inr (H s)"
  shows "segment_results search None budget snapshot
    = Inr (map (\<lambda>s. Inr (map (Pair (sg_id s)) (H s))) snapshot)"
  using assms(2)
proof (induction snapshot)
  case Nil
  then show ?case by simp
next
  case (Cons s snapshot)
  then have "obind (load_tombstones s) (\<lambda>(tombs, _). search s tombs None) = Inr (H s)"
    by (simp add: segment_hits_def)
  with Cons assms(1) show ?case
    by (simp add: attempt_def take_budget_def)
qed

definition tagged_hits ::
  "(segment \<Rightarrow> 's file_match list) \<Rightarrow> segment_list \<Rightarrow> (segment_id \<times> 's file_match) list" where
  "tagged_hits H snapshot = concat (map (\<lambda>s. map (Pair (sg_id s)) (H s)) snapshot)"

lemma mem_tagged_hits: "(i, fm) \<in> set (tagged_hits H snapshot) \<longleftrightarrow> (\<exists>s \<in> set snapshot. i = sg_id s \<and> fm \<in> set (H s))"
  by (auto simp: tagged_hits_def)

lemma collect_Inr: "collect_results (\<lambda>r. r) (map (\<lambda>x. Inr (f x)) xs) = Inr (map f xs)"
  by (induction xs) simp_all

lemma search_by_unlimited:
  assumes "\<forall>s \<in> set snapshot. segment_hits search s = Inr (H s)"
  shows "search_segments_by search None elapsed snapshot
    = Inr (finish_results None elapsed (merge_results (tagged_hits H snapshot)))"
proof (cases "snapshot = []")
  case True
  then show ?thesis
    by (simp add: search_segments_by_def empty_result_def finish_results_def tagged_hits_def merge_results_def
        sort_by_def)
next
  case False
  then show ?thesis
    using segment_results_unlimited [OF _ assms, of "unwrap_budget None"]
    by (simp add: search_segments_by_def unwrap_budget_def collect_Inr tagged_hits_def)
qed

lemma finish_files:
  "sr_files (finish_results None elapsed (merge_results tagged)) = sort_by result_before (merged_files tagged)"
  by (simp add: finish_results_def merged_files_def Let_def)

text \<open>The newest version of every path: no other match of its path is in a segment of a larger ID.\<close>

definition newest_hit :: "(segment \<Rightarrow> 's file_match list) \<Rightarrow> segment_list \<Rightarrow> 's file_match \<Rightarrow> bool" where
  "newest_hit H snapshot fm \<longleftrightarrow>
     (\<exists>s \<in> set snapshot. fm \<in> set (H s) \<and>
        (\<forall>s' \<in> set snapshot. \<forall>g \<in> set (H s'). path_key g = path_key fm \<longrightarrow> sg_id s' \<le> sg_id s))"

lemma merged_newest: "fm \<in> set (merged_files (tagged_hits H snapshot)) \<Longrightarrow> newest_hit H snapshot fm"
proof -
  assume "fm \<in> set (merged_files (tagged_hits H snapshot))"
  then obtain i where "winner (path_key fm) (tagged_hits H snapshot) = Some (i, fm)"
    by (auto simp: set_merged_files)
  note w = winner_Some [OF this]
  then obtain s where s: "s \<in> set snapshot" "i = sg_id s" "fm \<in> set (H s)"
    by (auto simp: mem_tagged_hits)
  have "sg_id s' \<le> sg_id s" if "s' \<in> set snapshot" "g \<in> set (H s')" "path_key g = path_key fm" for s' g
  proof -
    have "(sg_id s', g) \<in> set (tagged_hits H snapshot)"
      using that by (auto simp: mem_tagged_hits)
    with w that(3) s(2) show ?thesis by fastforce
  qed
  with s show "newest_hit H snapshot fm"
    unfolding newest_hit_def by blast
qed

lemma merged_complete:
  assumes "s \<in> set snapshot" and "g \<in> set (H s)"
  shows "\<exists>fm \<in> set (merged_files (tagged_hits H snapshot)). path_key fm = path_key g"
proof -
  have "(sg_id s, g) \<in> set (tagged_hits H snapshot)"
    using assms by (auto simp: mem_tagged_hits)
  then have "winner (path_key g) (tagged_hits H snapshot) \<noteq> None"
    using winner_None [of "path_key g" "tagged_hits H snapshot"] by fastforce
  then obtain i fm where w: "winner (path_key g) (tagged_hits H snapshot) = Some (i, fm)" by auto
  moreover from winner_Some [OF w] have "path_key fm = path_key g" by simp
  ultimately show ?thesis
    by (metis set_merged_files)
qed

text \<open>With distinct segment IDs and no path twice in a segment, the newest hits are exactly the merged files.\<close>

lemma merged_iff_newest:
  assumes ids: "distinct (map sg_id snapshot)" and paths: "\<forall>s \<in> set snapshot. distinct (map path_key (H s))"
  shows "fm \<in> set (merged_files (tagged_hits H snapshot)) \<longleftrightarrow> newest_hit H snapshot fm"
proof
  assume new: "newest_hit H snapshot fm"
  then obtain s where s: "s \<in> set snapshot" "fm \<in> set (H s)"
      and max: "\<And>s' g. s' \<in> set snapshot \<Longrightarrow> g \<in> set (H s') \<Longrightarrow> path_key g = path_key fm \<Longrightarrow> sg_id s' \<le> sg_id s"
    unfolding newest_hit_def by blast
  obtain fm' where fm': "fm' \<in> set (merged_files (tagged_hits H snapshot))" "path_key fm' = path_key fm"
    using merged_complete [of s snapshot fm H, OF s] by blast
  from merged_newest [OF fm'(1)] obtain s' where s': "s' \<in> set snapshot" "fm' \<in> set (H s')" "sg_id s \<le> sg_id s'"
    using s fm'(2) unfolding newest_hit_def by force
  with max [OF s'(1,2) fm'(2)] have "sg_id s' = sg_id s" by simp
  with ids s(1) s'(1) have "s' = s" by (metis distinct_map inj_onD)
  with paths s s'(2) fm'(2) have "fm' = fm" by (metis distinct_map inj_onD)
  with fm'(1) show "fm \<in> set (merged_files (tagged_hits H snapshot))" by simp
qed (rule merged_newest)

section \<open>Streaming sends the newest versions\<close>

fun dedup_paths :: "component list set \<Rightarrow> 's file_match list \<Rightarrow> 's file_match list" where
  "dedup_paths seen [] = []"
| "dedup_paths seen (fm # fms) =
     (if path_key fm \<in> seen then dedup_paths seen fms
      else fm # dedup_paths (insert (path_key fm) seen) fms)"

lemma dedup_paths_append:
  "dedup_paths seen (xs @ ys) = dedup_paths seen xs @ dedup_paths (seen \<union> path_key ` set xs) ys"
  by (induction xs arbitrary: seen) (auto simp: insert_absorb)

lemma dedup_paths_distinct:
  "distinct (map path_key xs) \<Longrightarrow> dedup_paths seen xs = filter (\<lambda>fm. path_key fm \<notin> seen) xs"
proof (induction xs arbitrary: seen)
  case (Cons x xs)
  then have "filter (\<lambda>fm. path_key fm \<notin> insert (path_key x) seen) xs = filter (\<lambda>fm. path_key fm \<notin> seen) xs"
    by (intro filter_cong) (auto, metis image_eqI)
  with Cons show ?case by simp
qed simp

lemma keys_dedup_paths:
  "distinct (map path_key (dedup_paths seen xs)) \<and> path_key ` set (dedup_paths seen xs) \<inter> seen = {}"
proof (induction xs arbitrary: seen)
  case (Cons x xs)
  from Cons [of seen] Cons [of "insert (path_key x) seen"] show ?case by auto
qed simp

lemma length_dedup_paths: "length (dedup_paths seen xs) \<le> length xs"
  by (induction xs arbitrary: seen) (auto intro: le_SucI)

lemma mem_dedup_segments:
  assumes "\<forall>s \<in> set segs. distinct (map path_key (H s))"
  shows "fm \<in> set (dedup_paths seen (concat (map H segs))) \<longleftrightarrow> path_key fm \<notin> seen \<and>
    (\<exists>pre s post. segs = pre @ s # post \<and> fm \<in> set (H s) \<and>
       (\<forall>s' \<in> set pre. path_key fm \<notin> path_key ` set (H s')))"
  using assms
proof (induction segs arbitrary: seen)
  case Nil
  then show ?case by simp
next
  case (Cons s segs)
  let ?R = "\<lambda>segs. \<exists>pre s post. segs = pre @ s # post \<and> fm \<in> set (H s) \<and>
    (\<forall>s' \<in> set pre. path_key fm \<notin> path_key ` set (H s'))"
  have split: "?R (s # segs) \<longleftrightarrow> fm \<in> set (H s) \<or> path_key fm \<notin> path_key ` set (H s) \<and> ?R segs"
  proof
    assume "?R (s # segs)"
    then obtain pre s0 post where *: "s # segs = pre @ s0 # post" "fm \<in> set (H s0)"
        "\<forall>s' \<in> set pre. path_key fm \<notin> path_key ` set (H s')" by blast
    then show "fm \<in> set (H s) \<or> path_key fm \<notin> path_key ` set (H s) \<and> ?R segs"
    proof (cases pre)
      case Nil
      with * show ?thesis by simp
    next
      case (Cons a rest)
      with * have "segs = rest @ s0 # post" "path_key fm \<notin> path_key ` set (H s)"
          "\<forall>s' \<in> set rest. path_key fm \<notin> path_key ` set (H s')"
        by simp_all
      with *(2) show ?thesis by blast
    qed
  next
    assume "fm \<in> set (H s) \<or> path_key fm \<notin> path_key ` set (H s) \<and> ?R segs"
    then show "?R (s # segs)"
    proof
      assume "fm \<in> set (H s)"
      then show ?thesis
        by (intro exI [where x = "[]"] exI [where x = s] exI [where x = segs]) simp
    next
      assume "path_key fm \<notin> path_key ` set (H s) \<and> ?R segs"
      then obtain pre s0 post where "segs = pre @ s0 # post" "fm \<in> set (H s0)"
          "\<forall>s' \<in> set (s # pre). path_key fm \<notin> path_key ` set (H s')" by auto
      then show ?thesis
        by (intro exI [where x = "s # pre"] exI [where x = s0] exI [where x = post]) simp
    qed
  qed
  have "fm \<in> set (dedup_paths seen (H s @ concat (map H segs))) \<longleftrightarrow>
      path_key fm \<notin> seen \<and> (fm \<in> set (H s) \<or> path_key fm \<notin> path_key ` set (H s) \<and> ?R segs)"
    using Cons by (auto simp: dedup_paths_append dedup_paths_distinct)
  with split show ?case by simp
qed

lemma mem_dedup_newest:
  assumes ids: "sorted_wrt (<) (map sg_id snapshot)"
    and paths: "\<forall>s \<in> set snapshot. distinct (map path_key (H s))"
  shows "fm \<in> set (dedup_paths {} (concat (map H (rev snapshot)))) \<longleftrightarrow> newest_hit H snapshot fm"
proof -
  have order: "sg_id s < sg_id s'" if "rev snapshot = pre @ s # post" "s' \<in> set pre" for pre s post s'
  proof -
    from that(1) have "snapshot = rev post @ s # rev pre"
      by (metis append.assoc append_Cons append_Nil rev.simps(2) rev_append rev_rev_ident)
    with ids that(2) show ?thesis by (auto simp: sorted_wrt_append)
  qed
  have newer: "s' \<in> set pre" if "rev snapshot = pre @ s # post" "s' \<in> set snapshot" "sg_id s < sg_id s'" for pre s post s'
  proof -
    from that(1) have snap: "snapshot = rev post @ s # rev pre"
      by (metis append.assoc append_Cons append_Nil rev.simps(2) rev_append rev_rev_ident)
    with that(2) consider "s' \<in> set post" | "s' = s" | "s' \<in> set pre" by auto
    then show ?thesis
      using ids that(3) snap by cases (auto simp: sorted_wrt_append dest: less_trans)
  qed
  have "fm \<in> set (dedup_paths {} (concat (map H (rev snapshot)))) \<longleftrightarrow>
      (\<exists>pre s post. rev snapshot = pre @ s # post \<and> fm \<in> set (H s) \<and>
         (\<forall>s' \<in> set pre. path_key fm \<notin> path_key ` set (H s')))"
    using mem_dedup_segments [of "rev snapshot" H fm "{}"] paths by simp
  also have "\<dots> \<longleftrightarrow> newest_hit H snapshot fm"
  proof
    assume "\<exists>pre s post. rev snapshot = pre @ s # post \<and> fm \<in> set (H s) \<and>
       (\<forall>s' \<in> set pre. path_key fm \<notin> path_key ` set (H s'))"
    then obtain pre s post where s: "rev snapshot = pre @ s # post" "fm \<in> set (H s)"
        "\<forall>s' \<in> set pre. path_key fm \<notin> path_key ` set (H s')" by blast
    have "sg_id s' \<le> sg_id s" if "s' \<in> set snapshot" "g \<in> set (H s')" "path_key g = path_key fm" for s' g
      using newer [OF s(1) that(1)] s(3) that(2,3) by (metis image_eqI not_le)
    moreover have "s \<in> set snapshot"
      using arg_cong [OF s(1), of set] by auto
    ultimately show "newest_hit H snapshot fm"
      using s(2) unfolding newest_hit_def by blast
  next
    assume "newest_hit H snapshot fm"
    then obtain s where s: "s \<in> set snapshot" "fm \<in> set (H s)"
        "\<And>s' g. s' \<in> set snapshot \<Longrightarrow> g \<in> set (H s') \<Longrightarrow> path_key g = path_key fm \<Longrightarrow> sg_id s' \<le> sg_id s"
      unfolding newest_hit_def by blast
    obtain pre post where split: "rev snapshot = pre @ s # post"
      using s(1) split_list [of s "rev snapshot"] by auto
    have "path_key fm \<notin> path_key ` set (H s')" if "s' \<in> set pre" for s'
    proof
      assume "path_key fm \<in> path_key ` set (H s')"
      then obtain g where g: "g \<in> set (H s')" "path_key g = path_key fm" by auto
      have "s' \<in> set snapshot" using arg_cong [OF split, of set] that by auto
      from s(3) [OF this g] order [OF split that] show False by simp
    qed
    with split s(2) show "\<exists>pre s post. rev snapshot = pre @ s # post \<and> fm \<in> set (H s) \<and>
       (\<forall>s' \<in> set pre. path_key fm \<notin> path_key ` set (H s'))" by blast
  qed
  finally show ?thesis .
qed

text \<open>How many of \<open>n\<close> matches a stream sends: a limit of zero is only noticed after the first match.\<close>

definition stream_bound :: "nat option \<Rightarrow> nat option \<Rightarrow> nat \<Rightarrow> nat" where
  "stream_bound accepts max_results n =
     min (case accepts of Some a \<Rightarrow> a | None \<Rightarrow> n) (case max_results of Some m \<Rightarrow> max 1 m | None \<Rightarrow> n)"

text \<open>The two limits as numbers, for streams of at most \<open>N\<close> matches.\<close>

definition bounds_are :: "nat option \<Rightarrow> nat option \<Rightarrow> nat \<Rightarrow> nat \<Rightarrow> nat \<Rightarrow> bool" where
  "bounds_are accepts max_results N A M \<longleftrightarrow> 1 \<le> M \<and>
     (\<forall>n \<le> N. receiver_takes accepts n = (n < A)) \<and>
     (\<forall>n \<le> N. 1 \<le> n \<longrightarrow> (case max_results of Some m \<Rightarrow> n \<ge> m | None \<Rightarrow> False) = (n \<ge> M))"

lemma bounds_are_bounds:
  "bounds_are accepts max_results N (case accepts of Some a \<Rightarrow> a | None \<Rightarrow> N + 1)
     (case max_results of Some m \<Rightarrow> max 1 m | None \<Rightarrow> N + 1)"
  by (auto simp: bounds_are_def receiver_takes_def split: option.splits)

lemma stream_files_spec:
  assumes "bounds_are accepts max_results N A M"
    and "length (st_sent st) + length fms \<le> N" and "length (st_sent st) \<le> A" and "length (st_sent st) < M"
  shows "\<exists>stopped st'. stream_files accepts max_results st fms = (stopped, st') \<and>
    st_sent st' = st_sent st @ take (min A M - length (st_sent st)) (dedup_paths (set (st_paths st)) fms) \<and>
    (stopped \<longrightarrow> length (st_sent st') = min A M) \<and>
    (\<not> stopped \<longrightarrow> st_sent st' = st_sent st @ dedup_paths (set (st_paths st)) fms \<and>
       length (st_sent st') \<le> A \<and> length (st_sent st') < M \<and>
       set (st_paths st') = set (st_paths st) \<union> path_key ` set fms)"
  using assms(2-4)
proof (induction fms arbitrary: st)
  case Nil
  then show ?case by (auto intro: exI [of _ False])
next
  case (Cons fm fms)
  let ?l = "length (st_sent st)" and ?st = "st\<lparr>st_paths := path_key fm # st_paths st\<rparr>"
  let ?st1 = "?st\<lparr>st_sent := st_sent st @ [fm]\<rparr>"
  have recv: "receiver_takes accepts ?l = (?l < A)"
    and "(case max_results of Some m \<Rightarrow> m \<le> Suc ?l | None \<Rightarrow> False) = (M \<le> Suc ?l)"
    using assms(1) Cons.prems(1) by (simp_all add: bounds_are_def)
  then have lim: "(case max_results of Some m \<Rightarrow> m \<le> length (st_sent ?st1) | None \<Rightarrow> False) = (M \<le> Suc ?l)"
    by (simp cong: option.case_cong)
  consider (seen) "path_key fm \<in> set (st_paths st)"
    | (dropped) "path_key fm \<notin> set (st_paths st)" "\<not> ?l < A"
    | (limit) "path_key fm \<notin> set (st_paths st)" "?l < A" "M \<le> Suc ?l"
    | (more) "path_key fm \<notin> set (st_paths st)" "?l < A" "\<not> M \<le> Suc ?l"
    by blast
  then show ?case
  proof cases
    case seen
    with Cons.IH [of st] Cons.prems show ?thesis by (auto simp: insert_absorb)
  next
    case dropped
    then have "min A M - ?l = 0" "?l = min A M" using Cons.prems by simp_all
    with dropped recv show ?thesis by (auto intro: exI [of _ True])
  next
    case limit
    then have "min A M - ?l = 1" "Suc ?l = min A M" using Cons.prems by simp_all
    with limit recv lim show ?thesis by (intro exI [of _ True] exI [of _ ?st1]) (simp add: Let_def)
  next
    case more
    have "length (st_sent ?st1) + length fms \<le> N" "length (st_sent ?st1) \<le> A" "length (st_sent ?st1) < M"
      using Cons.prems more by simp_all
    from Cons.IH [OF this]
    obtain stopped st' where run: "stream_files accepts max_results ?st1 fms = (stopped, st')"
      and sent: "st_sent st' = st_sent ?st1
        @ take (min A M - length (st_sent ?st1)) (dedup_paths (set (st_paths ?st1)) fms)"
      and stop: "stopped \<longrightarrow> length (st_sent st') = min A M"
      and go: "\<not> stopped \<longrightarrow> st_sent st' = st_sent ?st1 @ dedup_paths (set (st_paths ?st1)) fms \<and>
        length (st_sent st') \<le> A \<and> length (st_sent st') < M \<and>
        set (st_paths st') = set (st_paths ?st1) \<union> path_key ` set fms"
      by blast
    have "min A M - ?l = Suc (min A M - Suc ?l)" using more by simp
    then have sent': "st_sent st' = st_sent st
        @ take (min A M - ?l) (dedup_paths (set (st_paths st)) (fm # fms))"
      using sent more by simp
    have go': "\<not> stopped \<longrightarrow> st_sent st' = st_sent st @ dedup_paths (set (st_paths st)) (fm # fms) \<and>
        length (st_sent st') \<le> A \<and> length (st_sent st') < M \<and>
        set (st_paths st') = set (st_paths st) \<union> path_key ` set (fm # fms)"
    proof
      assume "\<not> stopped"
      with go have "st_sent st' = st_sent ?st1 @ dedup_paths (set (st_paths ?st1)) fms"
        "length (st_sent st') \<le> A" "length (st_sent st') < M"
        "set (st_paths st') = set (st_paths ?st1) \<union> path_key ` set fms" by blast+
      then show "st_sent st' = st_sent st @ dedup_paths (set (st_paths st)) (fm # fms) \<and>
        length (st_sent st') \<le> A \<and> length (st_sent st') < M \<and>
        set (st_paths st') = set (st_paths st) \<union> path_key ` set (fm # fms)"
        using more(1) by (intro conjI) simp_all
    qed
    have "stream_files accepts max_results st (fm # fms) = (stopped, st')"
      using more recv lim run by (simp add: Let_def)
    with sent' stop go' show ?thesis by blast
  qed
qed

lemma stream_segments_spec:
  assumes "bounds_are accepts max_results N A M" and "\<forall>s \<in> set segs. segment_hits search s = Inr (H s)"
    and "length (st_sent st) + length (concat (map H segs)) \<le> N"
    and "length (st_sent st) \<le> A" and "length (st_sent st) < M"
  shows "\<exists>st'. stream_segments search accepts max_results st segs = (st', Inr ()) \<and>
    st_sent st' = st_sent st
      @ take (min A M - length (st_sent st)) (dedup_paths (set (st_paths st)) (concat (map H segs)))"
  using assms(2-5)
proof (induction segs arbitrary: st)
  case Nil
  then show ?case by simp
next
  case (Cons s segs)
  let ?D = "dedup_paths (set (st_paths st)) (H s)" and ?l = "length (st_sent st)"
  have hit: "obind (load_tombstones s) (\<lambda>(tombs, _). search s tombs None) = Inr (H s)"
    using Cons.prems(1) by (simp add: segment_hits_def)
  have "?l + length (H s) \<le> N" using Cons.prems(2) by simp
  from stream_files_spec [OF assms(1) this Cons.prems(3,4)]
  obtain stopped st1 where files: "stream_files accepts max_results st (H s) = (stopped, st1)"
    and sent: "st_sent st1 = st_sent st @ take (min A M - ?l) ?D"
    and stop: "stopped \<longrightarrow> length (st_sent st1) = min A M"
    and go: "\<not> stopped \<longrightarrow> st_sent st1 = st_sent st @ ?D \<and> length (st_sent st1) \<le> A \<and>
      length (st_sent st1) < M \<and> set (st_paths st1) = set (st_paths st) \<union> path_key ` set (H s)"
    by blast
  show ?case
  proof (cases stopped)
    case True
    then have "length (take (min A M - ?l) ?D) = min A M - ?l"
      using stop sent by simp
    then have "min A M - ?l \<le> length ?D" by simp
    with True files sent show ?thesis
      by (simp add: hit dedup_paths_append)
  next
    case False
    then have "length (st_sent st @ ?D) \<le> A" "length (st_sent st @ ?D) < M"
      using go by auto
    then have all: "length ?D \<le> min A M - ?l" by simp
    have "length ?D \<le> length (H s)" by (rule length_dedup_paths)
    then obtain st' where "stream_segments search accepts max_results st1 segs = (st', Inr ())"
        "st_sent st' = st_sent st1 @ take (min A M - length (st_sent st1))
          (dedup_paths (set (st_paths st1)) (concat (map H segs)))"
      using Cons.IH [of st1] Cons.prems(1,2) go False by auto
    with go False files all show ?thesis
      by (simp add: hit dedup_paths_append)
  qed
qed

lemma stream_by_spec:
  assumes "\<forall>s \<in> set snapshot. segment_hits search s = Inr (H s)"
  defines "D \<equiv> dedup_paths {} (concat (map H (rev snapshot)))"
  shows "stream_by search accepts max_results snapshot
    = (take (stream_bound accepts max_results (length D)) D, Inr ())"
proof (cases "snapshot = []")
  case True
  then show ?thesis by (simp add: stream_by_def D_def)
next
  case False
  let ?N = "length (concat (map H (rev snapshot)))" and ?st = "\<lparr>st_paths = [], st_sent = []\<rparr>"
  let ?A = "case accepts of Some a \<Rightarrow> a | None \<Rightarrow> ?N + 1" and ?M = "case max_results of Some m \<Rightarrow> max 1 m | None \<Rightarrow> ?N + 1"
  have start: "length (st_sent ?st) + ?N \<le> ?N" "length (st_sent ?st) \<le> ?A" "length (st_sent ?st) < ?M"
    by (simp_all add: max_def split: option.split)
  have "\<forall>s \<in> set (rev snapshot). segment_hits search s = Inr (H s)" using assms(1) by simp
  from stream_segments_spec [OF bounds_are_bounds this start]
  obtain st' where st': "stream_segments search accepts max_results ?st (rev snapshot) = (st', Inr ())"
      "st_sent st' = take (min ?A ?M) D"
    by (auto simp: D_def)
  have "length D \<le> ?N" unfolding D_def by (rule length_dedup_paths)
  then have "take (min ?A ?M) D = take (stream_bound accepts max_results (length D)) D"
    by (auto simp: stream_bound_def min_def split: option.split)
  with st' False show ?thesis by (simp add: stream_by_def)
qed

section \<open>Properties\<close>

text \<open>
  C5. The merged result is the newest version of every matched path. With no limit, and segments of
  distinct IDs that name no path twice, the files of the result are exactly the matches whose path
  no segment of a larger ID matches; each path occurs once, scores do not increase and equal
  scores are in path order, and the totals count the files and their lines.
\<close>

theorem merged_result_newest:
  assumes "\<forall>s \<in> set snapshot. segment_hits search s = Inr (H s)"
    and "distinct (map sg_id snapshot)" and "\<forall>s \<in> set snapshot. distinct (map path_key (H s))"
  shows "\<exists>r. search_segments_by search None elapsed snapshot = Inr r \<and>
    (\<forall>fm. fm \<in> set (sr_files r) \<longleftrightarrow> newest_hit H snapshot fm) \<and>
    distinct (map path_key (sr_files r)) \<and> sorted_wrt result_before (sr_files r) \<and>
    sr_total_file_count r = length (sr_files r) \<and>
    sr_total_match_count r = sum_list (map (\<lambda>f. length (mf_lines f)) (sr_files r))"
proof -
  let ?r = "finish_results None elapsed (merge_results (tagged_hits H snapshot))"
  have "distinct (map path_key (sr_files ?r))"
    using mset_eq_imp_distinct_iff [of "map path_key (sr_files ?r)" "map path_key (merged_files (tagged_hits H snapshot))"]
      distinct_merged_files [of "tagged_hits H snapshot"] by (simp add: finish_files)
  moreover have "fm \<in> set (sr_files ?r) \<longleftrightarrow> newest_hit H snapshot fm" for fm
    using merged_iff_newest [OF assms(2,3)] by (simp add: finish_files)
  moreover have "sorted_wrt result_before (sr_files ?r)"
    unfolding finish_files by (intro sorted_sort_by result_before_total) (rule result_before_trans)
  ultimately show ?thesis
    using search_by_unlimited [OF assms(1), of elapsed] by (simp add: finish_results_def Let_def)
qed

lemma singleton_list: "set xs = {x} \<Longrightarrow> distinct xs \<Longrightarrow> xs = [x]"
proof -
  assume set: "set xs = {x}" and "distinct xs"
  from distinct_card [OF this(2)] set have "length xs = Suc 0" by simp
  then obtain y where "xs = [y]" by (auto simp: length_Suc_conv)
  with set show "xs = [x]" by simp
qed

definition cached_sample :: "segment_id \<Rightarrow> segment" where
  "cached_sample i = sample_segment\<lparr>sg_id := i, sg_cached_tombstones := Some ts_new\<rparr>"

definition one_match :: "segment \<Rightarrow> nat file_match" where
  "one_match s =
     \<lparr>mf_file_id = 0, mf_path = ''src/a.rs'', mf_language = Lang_Rust, mf_lines = [], mf_score = unat (sg_id s)\<rparr>"

lemma cached_sample_hits:
  "segment_hits (\<lambda>s tombs m. Inr [one_match s]) (cached_sample i) = Inr [one_match (cached_sample i)]"
  by (simp add: segment_hits_def cached_sample_def load_tombstones_def)

theorem merged_result_newest_witness:
  "\<exists>r. search_segments_by (\<lambda>s tombs m. Inr [one_match s]) None 0 [cached_sample 3, cached_sample 5] = Inr r \<and>
     sr_files r = [one_match (cached_sample 5)]"
proof -
  let ?snap = "[cached_sample 3, cached_sample 5]" and ?H = "\<lambda>s. [one_match s]"
  have "\<forall>s \<in> set ?snap. segment_hits (\<lambda>s tombs m. Inr [one_match s]) s = Inr (?H s)"
    by (simp add: cached_sample_hits)
  moreover have "distinct (map sg_id ?snap)" and "\<forall>s \<in> set ?snap. distinct (map path_key (?H s))"
    by (simp_all add: cached_sample_def)
  ultimately obtain r where r: "search_segments_by (\<lambda>s tombs m. Inr [one_match s]) None 0 ?snap = Inr r"
      "\<And>fm. fm \<in> set (sr_files r) \<longleftrightarrow> newest_hit ?H ?snap fm" "distinct (map path_key (sr_files r))"
    using merged_result_newest [of ?snap "\<lambda>s tombs m. Inr [one_match s]" ?H 0] by blast
  have new: "newest_hit ?H ?snap fm \<longleftrightarrow> fm = one_match (cached_sample 5)" for fm
    by (auto simp: newest_hit_def one_match_def cached_sample_def)
  have "set (sr_files r) = {one_match (cached_sample 5)}"
    by (rule set_eqI) (simp only: r(2) new singleton_iff)
  moreover have "distinct (sr_files r)" using r(3) by (simp add: distinct_map)
  ultimately have "sr_files r = [one_match (cached_sample 5)]"
    by (rule singleton_list)
  with r(1) show ?thesis by blast
qed

text \<open>
  C12. Streaming sends what the batch search returns. With segments in increasing order of their IDs
  and no limits, the streamed matches are the files of the merged result, each path once; a
  result limit or a receiver that is dropped cuts the same stream short, after as many matches as the
  limit (at least one) or the receiver allows, and the search still ends without an error.
\<close>

theorem streaming_equals_batch:
  assumes "\<forall>s \<in> set snapshot. segment_hits search s = Inr (H s)"
    and "sorted_wrt (<) (map sg_id snapshot)" and "\<forall>s \<in> set snapshot. distinct (map path_key (H s))"
  shows "\<exists>r ms. search_segments_by search None elapsed snapshot = Inr r \<and>
    set ms = set (sr_files r) \<and> distinct (map path_key ms) \<and>
    stream_by search None None snapshot = (ms, Inr ()) \<and>
    (\<forall>accepts max_results. stream_by search accepts max_results snapshot
       = (take (stream_bound accepts max_results (length ms)) ms, Inr ()))"
proof -
  let ?ms = "dedup_paths {} (concat (map H (rev snapshot)))"
  have ids: "distinct (map sg_id snapshot)"
    using assms(2) by (simp add: strict_sorted_iff)
  have "set ?ms = set (sr_files (finish_results None elapsed (merge_results (tagged_hits H snapshot))))"
    using mem_dedup_newest [OF assms(2,3)] merged_iff_newest [OF ids assms(3)] by (auto simp: finish_files)
  moreover have "stream_by search None None snapshot = (?ms, Inr ())"
    using stream_by_spec [OF assms(1), of None None] by (simp add: stream_bound_def)
  ultimately show ?thesis
    using search_by_unlimited [OF assms(1), of elapsed] stream_by_spec [OF assms(1)]
      keys_dedup_paths [of "{}" "concat (map H (rev snapshot))"] by blast
qed

theorem streaming_equals_batch_witness:
  "stream_by (\<lambda>s tombs m. Inr [one_match s]) None None [cached_sample 3, cached_sample 5]
     = ([one_match (cached_sample 5)], Inr ())"
proof -
  let ?snap = "[cached_sample 3, cached_sample 5]" and ?H = "\<lambda>s. [one_match s]"
  have hits: "\<forall>s \<in> set ?snap. segment_hits (\<lambda>s tombs m. Inr [one_match s]) s = Inr (?H s)"
    by (simp add: cached_sample_hits)
  moreover have "sorted_wrt (<) (map sg_id ?snap)" and "\<forall>s \<in> set ?snap. distinct (map path_key (?H s))"
    by (simp_all add: cached_sample_def)
  ultimately obtain ms where "stream_by (\<lambda>s tombs m. Inr [one_match s]) None None ?snap = (ms, Inr ())"
    using streaming_equals_batch [of ?snap "\<lambda>s tombs m. Inr [one_match s]" ?H 0] by blast
  moreover have "dedup_paths {} (concat (map ?H (rev ?snap))) = [one_match (cached_sample 5)]"
    by (simp add: one_match_def)
  ultimately show ?thesis
    using stream_by_spec [OF hits, of None None] by (simp add: stream_bound_def)
qed

section \<open>Where the variants differ\<close>

text \<open>With a limit of zero the batch search returns nothing and the stream still sends one match.\<close>

lemma zero_limit:
  fixes search :: "'a::linorder segment_search"
  shows "map_sum (\<lambda>e. e) sr_files (search_segments_by search (Some 0) elapsed (s # snapshot)) = Inr []"
  and "length (fst (stream_by (\<lambda>s tombs m. Inr [one_match s]) None (Some 0) [cached_sample 3])) = 1"
proof -
  have "segment_results search (Some 0) 0 snapshot = Inr (map (\<lambda>s. Inr []) snapshot)" for snapshot
    by (induction snapshot) simp_all
  then show "map_sum (\<lambda>e. e) sr_files (search_segments_by search (Some 0) elapsed (s # snapshot)) = Inr []"
    by (simp add: search_segments_by_def unwrap_budget_def finish_results_def
        collect_Inr [where f = "\<lambda>s. [] :: (segment_id \<times> 'a file_match) list"])
  have "stream_by (\<lambda>s tombs m. Inr [one_match s]) None (Some 0) [cached_sample 3]
      = ([one_match (cached_sample 3)], Inr ())"
    using stream_by_spec [of "[cached_sample 3]" "\<lambda>s tombs m. Inr [one_match s]" "\<lambda>s. [one_match s]" None "Some 0"]
    by (simp add: cached_sample_hits stream_bound_def)
  then show "length (fst (stream_by (\<lambda>s tombs m. Inr [one_match s]) None (Some 0) [cached_sample 3])) = 1"
    by simp
qed

text \<open>A negated filter is collected like a plain one, and evaluates to nothing: such a query has no results.\<close>

lemma negated_filter_empty:
  fixes q lit p defines "q \<equiv> Q_And [Q_Literal lit, Q_Not (Q_PathFilter p)]"
  shows "extract_pre_filters q = ([], [p])" and "\<not> query_sat rx q content"
  by (simp_all add: q_def extract_pre_filters_def)

text \<open>The literal prefix of an alternation is its first branch, so files with only another are no candidates.\<close>

lemma regex_prefix_alternation:
  "regex_literal_prefix ''bcd|xab'' = ''bcd''" "regex_literal_prefix ''bcde?'' = ''bcde''"
  "snd (sample_files ! 1) = ''xabc''"
  by (simp_all add: sample_files_def sample_inputs_def upt_rec)

end
