(* ===== verification/File_Filter.thy ===== *)
theory File_Filter
  imports Paths Utf8
begin

text \<open>
  Which files are indexed (\<open>ferret-core/src/binary.rs\<close>): by extension, size, and the absence of
  zero bytes at the start of the content.
\<close>

definition BINARY_CHECK_LENGTH :: nat where "BINARY_CHECK_LENGTH = 8192"
definition DEFAULT_MAX_FILE_SIZE :: nat where "DEFAULT_MAX_FILE_SIZE = 1048576"

definition BINARY_EXTENSIONS :: "text_utf8 list" where
  "BINARY_EXTENSIONS =
     [''png'', ''jpg'', ''jpeg'', ''gif'', ''bmp'', ''ico'',
      ''wasm'', ''o'', ''obj'', ''a'', ''lib'', ''so'', ''dylib'', ''dll'', ''exe'', ''bin'', ''class'',
      ''jar'', ''zip'', ''gz'', ''tar'', ''7z'', ''rar'', ''zst'',
      ''pdf'', ''doc'', ''docx'', ''xls'', ''xlsx'', ''ppt'', ''pptx'',
      ''mp3'', ''mp4'', ''wav'', ''avi'', ''mov'',
      ''ttf'', ''otf'', ''woff'', ''woff2'', ''eot'',
      ''pyc'', ''pyo'',
      ''DS_Store'']"

definition is_binary_content :: "bytes \<Rightarrow> bool" where
  "is_binary_content content =
     (let check_len = min (length content) BINARY_CHECK_LENGTH
      in CHR 0x00 \<in> set (take check_len content))"

definition eq_ignore_ascii_case :: "bytes \<Rightarrow> bytes \<Rightarrow> bool" where
  "eq_ignore_ascii_case a b \<longleftrightarrow> map to_ascii_lowercase a = map to_ascii_lowercase b"

definition is_binary_extension :: "text_utf8 \<Rightarrow> bool" where
  "is_binary_extension ext = list_ex (\<lambda>e. eq_ignore_ascii_case e ext) BINARY_EXTENSIONS"

text \<open>An extension that is not UTF-8 (\<open>to_str\<close> of it is \<open>None\<close>) is not a binary one.\<close>

definition is_binary_path :: "bytes \<Rightarrow> bool" where
  "is_binary_path p =
     (case extension p of Some e \<Rightarrow> utf8_valid e \<and> is_binary_extension e | None \<Rightarrow> False)"

definition should_index_file :: "bytes \<Rightarrow> bytes \<Rightarrow> nat \<Rightarrow> bool" where
  "should_index_file p content max_size =
     (if is_binary_path p then False
      else if length content > max_size then False
      else if is_binary_content content then False
      else True)"

lemma should_index_file_size: "should_index_file p content n \<Longrightarrow> length content \<le> n"
  by (simp add: should_index_file_def split: if_splits)

lemma should_index_file_text:
  "should_index_file p content n \<Longrightarrow> i < length content \<Longrightarrow> i < BINARY_CHECK_LENGTH \<Longrightarrow> content ! i \<noteq> CHR 0x00"
  by (auto simp: should_index_file_def is_binary_content_def Let_def in_set_conv_nth split: if_splits)

end
