(* ===== verification/Segment_Manager.thy ===== *)
theory Segment_Manager
  imports Index_State File_Filter Line_Index "HOL-Library.AList"
begin

text \<open>
  The segment manager (\<open>ferret-core/src/segment_manager.rs\<close>): loading the segments of a directory,
  indexing files, applying changes with tombstones, and compaction, over the directory of the segments,
  the ID counter and the published snapshot. An operation returns its result with the new state, also
  when it fails. A segment of the published list is the shared object, so its cached tombstones change
  in the list. The working tree and the failures of the file system are parameters. Writers hold
  the writer lock, so operations do not interleave; progress events have no effect on the state.
\<close>

section \<open>The directory of segments\<close>

type_synonym dir_files = "(text_utf8 \<times> bytes) list"

datatype dir_entry = Dir dir_files | Plain_file

type_synonym dir_listing = "(text_utf8 \<times> dir_entry) list"

text \<open>Whether the file system lets a segment be built, its tombstones be written, and its directory removed.\<close>

record manager_env =
  me_build :: build_env
  me_read_varint :: varint_reader
  me_build_io :: "segment_id \<Rightarrow> bool"
  me_tombstone_io :: "segment_id \<Rightarrow> bool"
  me_remove_io :: "segment_id \<Rightarrow> bool"

record manager =
  mg_dirs :: dir_listing
  mg_next_id :: u32
  mg_state :: index_state
  mg_is_compacting :: bool

definition dir_of_files :: "segment_files \<Rightarrow> dir_files" where
  "dir_of_files sf =
     [(''trigrams.bin'', sf_trigrams sf), (''meta.bin'', sf_meta sf), (''paths.bin'', sf_paths sf),
      (''content.zst'', sf_content sf)]
     @ (case sf_highlights sf of Some h \<Rightarrow> [(''highlights.zst'', h)] | None \<Rightarrow> [])
     @ (case sf_tombstones sf of Some t \<Rightarrow> [(''tombstones.bin'', t)] | None \<Rightarrow> [])"

definition dir_file :: "dir_files \<Rightarrow> text_utf8 \<Rightarrow> bytes result" where
  "dir_file d name = of_option (Err Io) (map_of d name)"

definition open_segment_dir :: "varint_reader \<Rightarrow> text_utf8 \<Rightarrow> dir_files \<Rightarrow> segment_id \<Rightarrow> segment result" where
  "open_segment_dir rd name d segment_id =
     obind (dir_file d ''trigrams.bin'') (\<lambda>trigrams.
     obind (open_index rd trigrams) (\<lambda>_.
     obind (dir_file d ''content.zst'') (\<lambda>content.
     obind (dir_file d ''meta.bin'') (\<lambda>meta.
     obind (dir_file d ''paths.bin'') (\<lambda>paths.
     obind (segment_open rd
         \<lparr>sf_trigrams = trigrams, sf_meta = meta, sf_paths = paths, sf_content = content,
          sf_highlights = map_of d ''highlights.zst'', sf_tombstones = map_of d ''tombstones.bin''\<rparr> segment_id)
       (\<lambda>s. Inr (s\<lparr>sg_dir_name := name\<rparr>)))))))"

section \<open>Loading\<close>

text \<open>The sum \<open>id + 1\<close> wraps at the last ID, as in a release build; with overflow checks it panics.\<close>

fun load_dirs ::
  "varint_reader \<Rightarrow> dir_listing \<Rightarrow> u32 \<Rightarrow> segment list \<Rightarrow> (u32 \<times> segment list) result" where
  "load_dirs rd [] max_id segments = Inr (max_id, segments)"
| "load_dirs rd ((name, entry) # entries) max_id segments =
     (case (parse_u32 (drop 4 (from_utf8_lossy name)), entry) of
        (Some i, Dir d) \<Rightarrow>
          obind (open_segment_dir rd name d i) (\<lambda>segment.
            load_dirs rd entries (if i \<ge> max_id then i + 1 else max_id) (segments @ [segment]))
      | _ \<Rightarrow> load_dirs rd entries max_id segments)"

definition is_segment_entry :: "text_utf8 \<times> dir_entry \<Rightarrow> bool" where
  "is_segment_entry = (\<lambda>(name, entry).
     prefix ''seg_'' (from_utf8_lossy name) \<and> (case entry of Dir _ \<Rightarrow> True | Plain_file \<Rightarrow> False))"

definition manager_new :: "varint_reader \<Rightarrow> dir_listing \<Rightarrow> manager result" where
  "manager_new rd dirs =
     obind (load_dirs rd (sort_key fst (filter is_segment_entry dirs)) 0 []) (\<lambda>(max_id, segments).
       Inr \<lparr>mg_dirs = dirs, mg_next_id = max_id,
            mg_state = (if segments \<noteq> [] then is_publish segments index_state_new else index_state_new),
            mg_is_compacting = False\<rparr>)"

definition mg_snapshot :: "manager \<Rightarrow> segment_list" where
  "mg_snapshot m = is_snapshot (mg_state m)"

definition next_segment_id :: "u32 \<Rightarrow> segment_id result \<times> u32" where
  "next_segment_id next =
     (if unat next = u32_max then (corrupt ''segment ID counter overflow (u32::MAX)'', next)
      else (Inr next, next + 1))"

definition add_segment :: "segment \<Rightarrow> manager \<Rightarrow> manager" where
  "add_segment segment m = m\<lparr>mg_state := is_publish (mg_snapshot m @ [segment]) (mg_state m)\<rparr>"

section \<open>Building segments in batches\<close>

fun split_loop :: "('f \<Rightarrow> nat) \<Rightarrow> nat \<Rightarrow> 'f list \<Rightarrow> nat \<Rightarrow> 'f list \<Rightarrow> 'f list list" where
  "split_loop content_len max_bytes batch batch_bytes [] = (if batch \<noteq> [] then [batch] else [])"
| "split_loop content_len max_bytes batch batch_bytes (f # fs) =
     (let batch = batch @ [f]; batch_bytes = batch_bytes + content_len f
      in if max_bytes > 0 \<and> batch_bytes > max_bytes
         then batch # split_loop content_len max_bytes [] 0 fs
         else split_loop content_len max_bytes batch batch_bytes fs)"

definition split_batches :: "('f \<Rightarrow> nat) \<Rightarrow> nat \<Rightarrow> 'f list \<Rightarrow> 'f list list" where
  "split_batches content_len max_bytes fs = split_loop content_len max_bytes [] 0 fs"

fun allocate_ids :: "'b list \<Rightarrow> u32 \<Rightarrow> (segment_id \<times> 'b) list result \<times> u32" where
  "allocate_ids [] next = (Inr [], next)"
| "allocate_ids (b # bs) next =
     (case next_segment_id next of
        (Inl e, next) \<Rightarrow> (Inl e, next)
      | (Inr i, next) \<Rightarrow>
          (case allocate_ids bs next of
             (Inl e, next) \<Rightarrow> (Inl e, next)
           | (Inr ids, next) \<Rightarrow> (Inr ((i, b) # ids), next)))"

text \<open>
  The writer renames its temporary directory to the name of the segment, which must not exist or be an
  empty directory, and opens the segment; after an error the temporary directory is gone.
\<close>

definition build_segment ::
  "manager_env \<Rightarrow> segment_id \<Rightarrow> segment_files result \<Rightarrow> dir_listing \<Rightarrow> segment result \<times> dir_listing" where
  "build_segment env i built dirs =
     (case built of
        Inl e \<Rightarrow> (Inl e, dirs)
      | Inr sf \<Rightarrow>
          let name = seg_name i
          in if me_build_io env i \<and> (map_of dirs name = None \<or> map_of dirs name = Some (Dir []))
             then (open_segment_dir (me_read_varint env) name (dir_of_files sf) i,
                   AList.update name (Dir (dir_of_files sf)) dirs)
             else (Inl (Err Io), dirs))"

text \<open>All batches are built, also after an error of one; a panic ends the operation.\<close>

fun build_batches ::
  "manager_env \<Rightarrow> ('f list \<Rightarrow> segment_files result) \<Rightarrow> (segment_id \<times> 'f list) list \<Rightarrow> dir_listing
     \<Rightarrow> segment result list result \<times> dir_listing" where
  "build_batches env build [] dirs = (Inr [], dirs)"
| "build_batches env build ((i, files) # batches) dirs =
     (case build_segment env i (build files) dirs of
        (Inl Panic, dirs) \<Rightarrow> (panic, dirs)
      | (r, dirs) \<Rightarrow>
          (case build_batches env build batches dirs of
             (Inl e, dirs) \<Rightarrow> (Inl e, dirs)
           | (Inr rs, dirs) \<Rightarrow> (Inr (r # rs), dirs)))"

definition build_all ::
  "manager_env \<Rightarrow> ('f list \<Rightarrow> segment_files result) \<Rightarrow> 'f list list \<Rightarrow> manager \<Rightarrow> segment list result \<times> manager"
where
  "build_all env build batches m =
     (case allocate_ids batches (mg_next_id m) of
        (Inl e, next) \<Rightarrow> (Inl e, m\<lparr>mg_next_id := next\<rparr>)
      | (Inr id_batches, next) \<Rightarrow>
          (case build_batches env build id_batches (mg_dirs m) of
             (Inl e, dirs) \<Rightarrow> (Inl e, m\<lparr>mg_next_id := next, mg_dirs := dirs\<rparr>)
           | (Inr results, dirs) \<Rightarrow>
               (collect_results (\<lambda>r. r) results, m\<lparr>mg_next_id := next, mg_dirs := dirs\<rparr>)))"

definition index_files_with_budget ::
  "manager_env \<Rightarrow> input_file list \<Rightarrow> nat \<Rightarrow> manager \<Rightarrow> unit result \<times> manager" where
  "index_files_with_budget env files max_segment_bytes m =
     (let batches = split_batches (\<lambda>f. length (in_content f)) max_segment_bytes files
      in if batches = [] then (Inr (), m)
         else
           (case build_all env (segment_build (me_build env)) batches m of
              (Inl e, m) \<Rightarrow> (Inl e, m)
            | (Inr new_segments, m) \<Rightarrow>
                (Inr (), m\<lparr>mg_state := is_publish (mg_snapshot m @ new_segments) (mg_state m)\<rparr>)))"

definition DEFAULT_COMPACTION_BUDGET :: nat where
  "DEFAULT_COMPACTION_BUDGET = 256 * 1024 * 1024"

definition index_files :: "manager_env \<Rightarrow> input_file list \<Rightarrow> manager \<Rightarrow> unit result \<times> manager" where
  "index_files env files m = index_files_with_budget env files DEFAULT_COMPACTION_BUDGET m"

text \<open>The variant that reports progress runs the same phases; its callback does not touch the manager.\<close>

definition index_files_with_progress :: "manager_env \<Rightarrow> input_file list \<Rightarrow> manager \<Rightarrow> unit result \<times> manager" where
  "index_files_with_progress env files m =
     (let batches = split_batches (\<lambda>f. length (in_content f)) DEFAULT_COMPACTION_BUDGET files
      in if batches = [] then (Inr (), m)
         else
           (case build_all env (segment_build (me_build env)) batches m of
              (Inl e, m) \<Rightarrow> (Inl e, m)
            | (Inr new_segments, m) \<Rightarrow>
                (Inr (), m\<lparr>mg_state := is_publish (mg_snapshot m @ new_segments) (mg_state m)\<rparr>)))"

section \<open>Finding files in the segments\<close>

text \<open>\<open>load_tombstones().unwrap_or_default()\<close>, and the segment after the load.\<close>

definition tombstones_or_default :: "segment \<Rightarrow> tombstone_set" where
  "tombstones_or_default s = (case load_tombstones s of Inr (ts, _) \<Rightarrow> ts | Inl _ \<Rightarrow> ts_new)"

definition load_cached :: "segment \<Rightarrow> segment" where
  "load_cached s = (case load_tombstones s of Inr (_, s) \<Rightarrow> s | Inl _ \<Rightarrow> s)"

text \<open>The live entries of a segment with one of the paths; entries that cannot be read are skipped.\<close>

definition matching_entries :: "segment \<Rightarrow> text_utf8 list \<Rightarrow> file_metadata list result" where
  "matching_entries s paths =
     obind (collect_results (\<lambda>r. case r of
         Inl Panic \<Rightarrow> panic
       | Inl (Err _) \<Rightarrow> Inr []
       | Inr entry \<Rightarrow>
           Inr (if fm_path entry \<in> set paths \<and> \<not> ts_contains (tombstones_or_default s) (fm_file_id entry)
                then [entry] else [])) (iter_all (sg_metadata_reader s)))
       (\<lambda>es. Inr (concat es))"

definition batch_find_files_in_segments ::
  "segment list \<Rightarrow> text_utf8 list \<Rightarrow> (text_utf8 \<times> (nat \<times> file_id) list) list result" where
  "batch_find_files_in_segments segments paths =
     obind (collect_results (\<lambda>s. matching_entries s paths) segments) (\<lambda>found.
       Inr (foldl (\<lambda>result (i, es). foldl (\<lambda>result e. push_entry (fm_path e) (i, fm_file_id e) result) result es)
         [] (enumerate 0 found)))"

definition batch_find_file_hashes ::
  "segment list \<Rightarrow> text_utf8 list \<Rightarrow> (text_utf8 \<rightharpoonup> bytes) result" where
  "batch_find_file_hashes segments paths =
     obind (collect_results (\<lambda>s. matching_entries s paths) segments) (\<lambda>found.
       Inr (foldl (\<lambda>result e. result(fm_path e \<mapsto> fm_content_hash e)) Map.empty (concat found)))"

section \<open>Applying changes\<close>

record tree_file =
  tf_content :: "bytes option"
  tf_mtime :: "u64 option"

text \<open>The working tree: the regular file at a full path, when there is one.\<close>

type_synonym work_tree = "bytes \<Rightarrow> tree_file option"

definition path_join :: "bytes \<Rightarrow> bytes \<Rightarrow> bytes" where
  "path_join dir p =
     (if is_absolute p then p
      else if dir = [] \<or> last dir = CHR ''/'' then dir @ p
      else dir @ CHR ''/'' # p)"

definition changed_paths :: "(change_kind \<Rightarrow> bool) \<Rightarrow> change_event list \<Rightarrow> text_utf8 list" where
  "changed_paths wanted changes = remdups (map (\<lambda>c. from_utf8_lossy (ce_path c)) (filter (\<lambda>c. wanted (ce_kind c)) changes))"

definition read_change ::
  "manager_env \<Rightarrow> work_tree \<Rightarrow> bytes \<Rightarrow> text_utf8 list \<Rightarrow> (text_utf8 \<rightharpoonup> bytes) \<Rightarrow> change_event \<Rightarrow> input_file option"
where
  "read_change env tree repo_dir tombstone_paths existing_hashes change =
     (if ParentDir \<in> set (components (ce_path change)) \<or> is_absolute (ce_path change) then None
      else
        let path_str = from_utf8_lossy (ce_path change);
            full_path = path_join repo_dir (ce_path change)
        in case tree full_path of
             None \<Rightarrow> None
           | Some tf \<Rightarrow>
               (case tf_content tf of
                  None \<Rightarrow> None
                | Some content \<Rightarrow>
                    if \<not> should_index_file full_path content 1048576 then None
                    else if path_str \<notin> set tombstone_paths
                         \<and> existing_hashes path_str = Some (take 16 (be_hash (me_build env) content)) then None
                    else Some \<lparr>in_path = path_str, in_content = content,
                               in_mtime = (case tf_mtime tf of Some t \<Rightarrow> t | None \<Rightarrow> 0)\<rparr>))"

definition tombstone_updates :: "(nat \<times> file_id) list \<Rightarrow> (nat \<times> tombstone_set) list" where
  "tombstone_updates locations =
     foldl (\<lambda>updates (i, f).
       AList.update i (ts_insert f (case map_of updates i of Some ts \<Rightarrow> ts | None \<Rightarrow> ts_new)) updates)
       [] locations"

definition write_tombstone_file ::
  "manager_env \<Rightarrow> segment \<Rightarrow> tombstone_set \<Rightarrow> dir_listing \<Rightarrow> dir_listing result" where
  "write_tombstone_file env s ts dirs =
     (case map_of dirs (sg_dir_name s) of
        Some (Dir d) \<Rightarrow>
          if me_tombstone_io env (sg_id s)
          then Inr (AList.update (sg_dir_name s) (Dir (AList.update ''tombstones.bin'' (ts_write_to ts) d)) dirs)
          else Inl (Err Io)
      | _ \<Rightarrow> Inl (Err Io))"

fun write_tombstones ::
  "manager_env \<Rightarrow> (nat \<times> tombstone_set) list \<Rightarrow> segment list \<Rightarrow> dir_listing
     \<Rightarrow> unit result \<times> segment list \<times> dir_listing" where
  "write_tombstones env [] segments dirs = (Inr (), segments, dirs)"
| "write_tombstones env ((i, new_tombstones) # updates) segments dirs =
     (let segment = segments ! i
      in case load_tombstones segment of
           Inl e \<Rightarrow> (Inl e, segments, dirs)
         | Inr (existing, _) \<Rightarrow>
             let existing = ts_merge existing new_tombstones
             in case write_tombstone_file env segment existing dirs of
                  Inl e \<Rightarrow> (Inl e, segments, dirs)
                | Inr dirs \<Rightarrow>
                    write_tombstones env updates (segments[i := set_cached_tombstones existing segment]) dirs)"

text \<open>The part before the new list is published: the segments of the current list share their caches.\<close>

definition apply_unpublished ::
  "manager_env \<Rightarrow> work_tree \<Rightarrow> bytes \<Rightarrow> change_event list \<Rightarrow> nat \<Rightarrow> manager \<Rightarrow> segment list result \<times> manager" where
  "apply_unpublished env tree repo_dir changes max_segment_bytes m =
     (let current = mg_snapshot m; tombstone_paths = changed_paths needs_tombstone changes
      in case batch_find_files_in_segments current tombstone_paths of
           Inl e \<Rightarrow> (Inl e, m)
         | Inr locations \<Rightarrow>
      let updates = tombstone_updates (concat (map snd locations));
          current = map load_cached current;
          m = m\<lparr>mg_state := is_publish current (mg_state m)\<rparr>
      in case batch_find_file_hashes current (changed_paths needs_new_entry changes) of
           Inl e \<Rightarrow> (Inl e, m)
         | Inr existing_hashes \<Rightarrow>
      let new_files = List.map_filter (read_change env tree repo_dir tombstone_paths existing_hashes)
            (filter (\<lambda>c. needs_new_entry (ce_kind c)) changes)
      in case (if new_files = [] then (Inr [], m)
               else build_all env (segment_build (me_build env))
                 (split_batches (\<lambda>f. length (in_content f)) max_segment_bytes new_files) m) of
           (Inl e, m) \<Rightarrow> (Inl e, m)
         | (Inr built, m) \<Rightarrow>
      case write_tombstones env updates current (mg_dirs m) of
           (r, current, dirs) \<Rightarrow>
             (obind r (\<lambda>_. Inr built), m\<lparr>mg_dirs := dirs, mg_state := is_publish current (mg_state m)\<rparr>))"

definition apply_changes_with_budget ::
  "manager_env \<Rightarrow> work_tree \<Rightarrow> bytes \<Rightarrow> change_event list \<Rightarrow> nat \<Rightarrow> manager \<Rightarrow> unit result \<times> manager" where
  "apply_changes_with_budget env tree repo_dir changes max_segment_bytes m =
     (if changes = [] then (Inr (), m)
      else
        case apply_unpublished env tree repo_dir changes max_segment_bytes m of
          (Inl e, m) \<Rightarrow> (Inl e, m)
        | (Inr built, m) \<Rightarrow> (Inr (), m\<lparr>mg_state := is_publish (mg_snapshot m @ built) (mg_state m)\<rparr>))"

definition apply_changes ::
  "manager_env \<Rightarrow> work_tree \<Rightarrow> bytes \<Rightarrow> change_event list \<Rightarrow> manager \<Rightarrow> unit result \<times> manager" where
  "apply_changes env tree repo_dir changes m =
     apply_changes_with_budget env tree repo_dir changes DEFAULT_COMPACTION_BUDGET m"

text \<open>The variant with progress events repeats the steps with the default budget.\<close>

definition apply_changes_with_progress ::
  "manager_env \<Rightarrow> work_tree \<Rightarrow> bytes \<Rightarrow> change_event list \<Rightarrow> manager \<Rightarrow> unit result \<times> manager" where
  "apply_changes_with_progress env tree repo_dir changes m =
     (if changes = [] then (Inr (), m)
      else
        case apply_unpublished env tree repo_dir changes DEFAULT_COMPACTION_BUDGET m of
          (Inl e, m) \<Rightarrow> (Inl e, m)
        | (Inr built, m) \<Rightarrow> (Inr (), m\<lparr>mg_state := is_publish (mg_snapshot m @ built) (mg_state m)\<rparr>))"

section \<open>Compaction\<close>

text \<open>
  The ratios are single-precision floats; \<open>ratio_above n k\<close> stands for \<open>n as f32 / k as f32 > 0.30\<close>.
\<close>

definition DEFAULT_MAX_SEGMENTS :: nat where "DEFAULT_MAX_SEGMENTS = 10"

fun compact_scan ::
  "(u64 \<Rightarrow> u64 \<Rightarrow> bool) \<Rightarrow> segment list \<Rightarrow> u64 \<Rightarrow> u64 \<Rightarrow> bool \<times> u64 \<times> u64" where
  "compact_scan ratio_above [] total_entries total_tombstoned = (False, total_entries, total_tombstoned)"
| "compact_scan ratio_above (s # snap) total_entries total_tombstoned =
     (if sg_entry_count s = 0 then compact_scan ratio_above snap total_entries total_tombstoned
      else
        case load_tombstones s of
          Inl _ \<Rightarrow> compact_scan ratio_above snap total_entries total_tombstoned
        | Inr (tombs, _) \<Rightarrow>
            let total_entries = total_entries + ucast (sg_entry_count s);
                total_tombstoned = total_tombstoned + ucast (ts_len tombs)
            in if ratio_above (ucast (ts_len tombs)) (ucast (sg_entry_count s))
               then (True, total_entries, total_tombstoned)
               else compact_scan ratio_above snap total_entries total_tombstoned)"

definition should_compact :: "(u64 \<Rightarrow> u64 \<Rightarrow> bool) \<Rightarrow> manager \<Rightarrow> bool" where
  "should_compact ratio_above m =
     (let snap = mg_snapshot m; (excessive, total_entries, total_tombstoned) = compact_scan ratio_above snap 0 0
      in if excessive then True
         else length snap > DEFAULT_MAX_SEGMENTS \<and> total_entries > 0 \<and> ratio_above total_tombstoned total_entries)"

definition live_entries :: "segment list \<Rightarrow> (segment \<times> file_metadata) list result" where
  "live_entries segments =
     obind (collect_results (\<lambda>s.
       obind (load_tombstones s) (\<lambda>(tombs, _).
       obind (collect_results (\<lambda>r. r) (iter_all (sg_metadata_reader s))) (\<lambda>entries.
         Inr (map (Pair s) (filter (\<lambda>e. \<not> ts_contains tombs (fm_file_id e)) entries))))) segments)
       (\<lambda>live. Inr (concat live))"

definition compact_entry :: "zstd \<Rightarrow> segment \<times> file_metadata \<Rightarrow> compact_input_file result" where
  "compact_entry z = (\<lambda>(s, entry).
     obind (sg_read_content z s entry) (\<lambda>raw_content.
     obind (cr_read_raw_compressed (sg_content s) (fm_content_offset entry) (fm_content_len entry)) (\<lambda>compressed.
       Inr \<lparr>cf_path = fm_path entry, cf_raw_content = raw_content, cf_compressed = compressed,
            cf_content_hash = fm_content_hash entry, cf_language = fm_language entry,
            cf_size_bytes = fm_size_bytes entry, cf_line_count = fm_line_count entry,
            cf_mtime = fm_mtime_epoch_secs entry\<rparr>)))"

definition remove_dirs :: "manager_env \<Rightarrow> segment list \<Rightarrow> dir_listing \<Rightarrow> dir_listing" where
  "remove_dirs env old dirs =
     filter (\<lambda>(name, _). \<not> list_ex (\<lambda>s. sg_dir_name s = name \<and> me_remove_io env (sg_id s)) old) dirs"

definition compact_locked :: "manager_env \<Rightarrow> nat \<Rightarrow> manager \<Rightarrow> unit result \<times> manager" where
  "compact_locked env max_segment_bytes m =
     (let current = mg_snapshot m
      in if current = [] then (Inr (), m)
         else
           case (if length current = 1
                 then obind (load_tombstones (hd current)) (\<lambda>(ts, _). Inr (ts_is_empty ts)) else Inr False) of
             Inl e \<Rightarrow> (Inl e, m)
           | Inr True \<Rightarrow> (Inr (), m\<lparr>mg_state := is_publish (map load_cached current) (mg_state m)\<rparr>)
           | Inr False \<Rightarrow>
               (case live_entries current of
                  Inl e \<Rightarrow> (Inl e, m)
                | Inr live \<Rightarrow>
                    let current = map load_cached current;
                        m = m\<lparr>mg_state := is_publish current (mg_state m)\<rparr>
                    in case collect_results (compact_entry (be_zstd (me_build env))) live of
                         Inl e \<Rightarrow> (Inl e, m)
                       | Inr compact_files \<Rightarrow>
                           (case build_all env (segment_build_from_compact (me_build env))
                               (split_batches (\<lambda>f. unat (cf_size_bytes f)) max_segment_bytes compact_files) m of
                              (Inl e, m) \<Rightarrow> (Inl e, m)
                            | (Inr new_segments, m) \<Rightarrow>
                                (Inr (), m\<lparr>mg_state := is_publish new_segments (mg_state m),
                                           mg_dirs := remove_dirs env current (mg_dirs m)\<rparr>))))"

definition compact_with_progress :: "manager_env \<Rightarrow> nat \<Rightarrow> manager \<Rightarrow> unit result \<times> manager" where
  "compact_with_progress env max_segment_bytes m =
     (case compact_locked env max_segment_bytes (m\<lparr>mg_is_compacting := True\<rparr>) of
        (r, m) \<Rightarrow> (r, m\<lparr>mg_is_compacting := False\<rparr>))"

definition compact_with_budget :: "manager_env \<Rightarrow> nat \<Rightarrow> manager \<Rightarrow> unit result \<times> manager" where
  "compact_with_budget env max_segment_bytes m = compact_with_progress env max_segment_bytes m"

definition compact :: "manager_env \<Rightarrow> manager \<Rightarrow> unit result \<times> manager" where
  "compact env m = compact_with_budget env 0 m"

end
