(* ===== verification/Index_Lifecycle.thy ===== *)
theory Index_Lifecycle
  imports Segment_Manager
begin

text \<open>
  What the operations of the segment manager do to the index: \<open>index_view\<close> is the list of live
  files, newest last. Indexing appends files and compaction changes nothing, and both keep the invariant of
  the manager: every published segment holds its files, has tombstones that can be read and written, and can
  be opened again from its directory.
\<close>

section \<open>The live files of a segment\<close>

text \<open>The abstraction: the files a reader of the segment finds, with their content.\<close>

definition live_file :: "zstd \<Rightarrow> segment \<Rightarrow> file_metadata result \<Rightarrow> input_file option" where
  "live_file z s r =
     (case r of
        Inl _ \<Rightarrow> None
      | Inr entry \<Rightarrow>
          if ts_contains (tombstones_or_default s) (fm_file_id entry) then None
          else (case sg_read_content z s entry of
                  Inl _ \<Rightarrow> None
                | Inr content \<Rightarrow>
                    Some \<lparr>in_path = fm_path entry, in_content = content, in_mtime = fm_mtime_epoch_secs entry\<rparr>))"

definition live_files :: "zstd \<Rightarrow> segment \<Rightarrow> input_file list" where
  "live_files z s = List.map_filter (live_file z s) (iter_all (sg_metadata_reader s))"

definition index_view :: "manager_env \<Rightarrow> manager \<Rightarrow> input_file list" where
  "index_view env m = concat (map (live_files (be_zstd (me_build env))) (mg_snapshot m))"

definition dead :: "segment \<Rightarrow> nat \<Rightarrow> bool" where
  "dead s i = ts_contains (tombstones_or_default s) (of_nat i)"

text \<open>The bound keeps the bitmap of deleted files within the range of its header.\<close>

definition fits :: "input_file list \<Rightarrow> bool" where
  "fits files \<longleftrightarrow> inputs_ok files \<and> length files \<le> 4294967232"

definition tombs_ok :: "segment \<Rightarrow> bool" where
  "tombs_ok s \<longleftrightarrow> (\<exists>ts s'. load_tombstones s = Inr (ts, s') \<and> ts_reachable ts \<and> length (ts_words ts) \<le> 67108863)"

definition holds_files :: "manager_env \<Rightarrow> segment \<Rightarrow> input_file list \<Rightarrow> bool" where
  "holds_files env s files \<longleftrightarrow>
     fits files \<and> tombs_ok s \<and>
     (\<exists>ps metas. segment_over (me_build env) (me_read_varint env) s files ps metas)"

lemma map_filter_upt:
  assumes "\<And>i. i < length xs \<Longrightarrow> f (xs ! i) = (if P i then Some (g i) else None)"
  shows "List.map_filter f xs = map g (filter P [0..<length xs])"
  using assms
proof (induction xs rule: rev_induct)
  case Nil
  then show ?case by (simp add: List.map_filter_def)
next
  case (snoc x xs)
  have "List.map_filter f xs = map g (filter P [0..<length xs])"
    using snoc.prems by (intro snoc.IH) (metis append_eq_append_conv_if butlast_snoc length_append_singleton
      less_SucI nth_butlast)
  with snoc.prems [of "length xs"] show ?case
    by (simp add: List.map_filter_def)
qed

lemma segment_over_file:
  assumes over: "segment_over benv rd s files ps metas" and "inputs_ok files" and i: "i < length files"
  shows "iter_all (sg_metadata_reader s) ! i = Inr (metas ! i)" "fm_file_id (metas ! i) = of_nat i"
    "fm_path (metas ! i) = in_path (files ! i)" "fm_mtime_epoch_secs (metas ! i) = in_mtime (files ! i)"
    "sg_read_content (be_zstd benv) s (metas ! i) = Inr (in_content (files ! i))"
proof -
  have fs: "file_segment (be_zstd benv) rd s (zip metas (map in_content files))" and len: "length metas = length files"
    and iter: "iter_all (sg_metadata_reader s) = map Inr metas"
    using over by (simp_all add: segment_over_def)
  from iter len i show "iter_all (sg_metadata_reader s) ! i = Inr (metas ! i)" by simp
  show "fm_file_id (metas ! i) = of_nat i"
    "sg_read_content (be_zstd benv) s (metas ! i) = Inr (in_content (files ! i))"
    using file_segment.file_id [OF fs, of i] file_segment.content [OF fs, of i] len i by simp_all
  show "fm_path (metas ! i) = in_path (files ! i)" "fm_mtime_epoch_secs (metas ! i) = in_mtime (files ! i)"
    using segment_over_metas [OF over assms(2) i] by simp_all
qed

lemma length_iter_over: "segment_over benv rd s files ps metas \<Longrightarrow> length (iter_all (sg_metadata_reader s)) = length files"
  by (simp add: segment_over_def)

lemma live_files_over:
  assumes over: "segment_over benv rd s files ps metas" and inputs: "inputs_ok files"
  shows "live_files (be_zstd benv) s = map (nth files) (filter (\<lambda>i. \<not> dead s i) [0..<length files])"
proof -
  have "live_file (be_zstd benv) s (iter_all (sg_metadata_reader s) ! i) = (if \<not> dead s i then Some (files ! i) else None)"
    if "i < length files" for i
    using segment_over_file [OF over inputs that] by (simp add: live_file_def dead_def)
  then have "List.map_filter (live_file (be_zstd benv) s) (iter_all (sg_metadata_reader s))
      = map (nth files) (filter (\<lambda>i. \<not> dead s i) [0..<length (iter_all (sg_metadata_reader s))])"
    by (intro map_filter_upt) (simp add: length_iter_over [OF over])
  then show ?thesis
    by (simp add: live_files_def length_iter_over [OF over])
qed

lemma holds_live_files:
  "holds_files env s files \<Longrightarrow>
     live_files (be_zstd (me_build env)) s = map (nth files) (filter (\<lambda>i. \<not> dead s i) [0..<length files])"
  using live_files_over by (auto simp: holds_files_def fits_def)

section \<open>Segments that differ in their tombstones only\<close>

definition same_core :: "segment \<Rightarrow> segment \<Rightarrow> bool" where
  "same_core s t \<longleftrightarrow>
     s\<lparr>sg_disk_tombstones := sg_disk_tombstones t, sg_cached_tombstones := sg_cached_tombstones t\<rparr> = t"

lemma same_core_eq: "same_core s t \<Longrightarrow>
  sg_id t = sg_id s \<and> sg_dir_name t = sg_dir_name s \<and> sg_content t = sg_content s \<and>
  sg_metadata_reader t = sg_metadata_reader s \<and> sg_trigram_reader t = sg_trigram_reader s \<and>
  sg_entry_count t = sg_entry_count s"
  by (cases s; cases t) (simp add: same_core_def sg_metadata_reader_def)

lemma same_core_refl [simp]: "same_core s s"
  by (simp add: same_core_def)

lemma same_core_trans: "same_core s t \<Longrightarrow> same_core t u \<Longrightarrow> same_core s u"
  by (cases s; cases t; cases u) (simp add: same_core_def)

lemma same_core_sym: "same_core s t \<Longrightarrow> same_core t s"
  by (cases s; cases t) (simp add: same_core_def)

lemma same_core_over:
  assumes "same_core s t"
  shows "segment_over benv rd t files ps metas = segment_over benv rd s files ps metas"
proof -
  note eq = same_core_eq [OF assms]
  have "file_segment z rd t fs = file_segment z rd s fs" for z fs
    using eq by (simp add: file_segment_def get_metadata_def sg_get_size_bytes_def sg_read_content_def)
  with eq show ?thesis by (simp add: segment_over_def)
qed

lemma same_core_cached: "same_core s (set_cached_tombstones ts s)"
  by (simp add: same_core_def set_cached_tombstones_def)

lemma load_tombstones_cases:
  assumes "load_tombstones s = Inr (ts, s')"
  shows "s' = set_cached_tombstones ts s" "tombstones_or_default s = ts" "load_cached s = s'"
  using assms by (auto simp: load_tombstones_def tombstones_or_default_def load_cached_def set_cached_tombstones_def
      obind_eq_Inr split: option.splits)

lemma load_set_cached [simp]: "load_tombstones (set_cached_tombstones ts s) = Inr (ts, set_cached_tombstones ts s)"
  by (simp add: load_tombstones_def set_cached_tombstones_def)

lemma tombstones_set_cached [simp]: "tombstones_or_default (set_cached_tombstones ts s) = ts"
  by (simp add: tombstones_or_default_def)

lemma load_cached_facts:
  "same_core s (load_cached s)" "tombstones_or_default (load_cached s) = tombstones_or_default s"
  "tombs_ok (load_cached s) = tombs_ok s"
proof -
  have "same_core s (load_cached s) \<and> tombstones_or_default (load_cached s) = tombstones_or_default s \<and>
    tombs_ok (load_cached s) = tombs_ok s"
  proof (cases "load_tombstones s")
    case (Inl e)
    then show ?thesis by (simp add: load_cached_def)
  next
    case (Inr p)
    obtain ts s' where "p = (ts, s')" by fastforce
    with Inr have load: "load_tombstones s = Inr (ts, s')" by simp
    note facts = load_tombstones_cases [OF load]
    have "tombs_ok s = tombs_ok (set_cached_tombstones ts s)"
      by (simp add: tombs_ok_def load)
    with facts show ?thesis
      by (simp add: same_core_cached)
  qed
  then show "same_core s (load_cached s)" "tombstones_or_default (load_cached s) = tombstones_or_default s"
    "tombs_ok (load_cached s) = tombs_ok s" by simp_all
qed

lemma live_files_cong:
  assumes "same_core s t" and tombs: "tombstones_or_default t = tombstones_or_default s"
  shows "live_files z t = live_files z s"
proof -
  have reader: "sg_metadata_reader t = sg_metadata_reader s" and "sg_content t = sg_content s"
    using same_core_eq [OF assms(1)] by simp_all
  then have content: "sg_read_content z t = sg_read_content z s"
    by (simp add: sg_read_content_def fun_eq_iff)
  show ?thesis
    unfolding live_files_def live_file_def reader content tombs by (rule refl)
qed

lemma holds_files_cong:
  "same_core s t \<Longrightarrow> tombs_ok t \<Longrightarrow> holds_files env s files \<Longrightarrow> holds_files env t files"
  by (simp add: holds_files_def same_core_over)

lemma holds_load_cached: "holds_files env s files \<Longrightarrow> holds_files env (load_cached s) files"
  using load_cached_facts [of s] holds_files_cong by (auto simp: holds_files_def same_core_over)

lemma live_load_cached [simp]: "live_files z (load_cached s) = live_files z s"
  using load_cached_facts [of s] by (intro live_files_cong)

section \<open>Building segments\<close>

lemma seg_name_inject [simp]: "seg_name i = seg_name j \<longleftrightarrow> i = j"
  by (auto simp: seg_name_def display_padded_inject intro: unsigned_word_eqI)

lemma map_of_update [simp]: "map_of (AList.update k v dirs) n = (if n = k then Some v else map_of dirs n)"
  by (simp add: update_conv')

text \<open>A segment as the writer leaves it: in its directory, opened from it.\<close>

definition built ::
  "manager_env \<Rightarrow> ('f list \<Rightarrow> segment_files result) \<Rightarrow> dir_listing \<Rightarrow> 'f list \<Rightarrow> segment \<Rightarrow> bool" where
  "built env build dirs b s \<longleftrightarrow>
     sg_dir_name s = seg_name (sg_id s) \<and>
     (\<exists>sf. build b = Inr sf \<and> map_of dirs (sg_dir_name s) = Some (Dir (dir_of_files sf)) \<and>
        open_segment_dir (me_read_varint env) (sg_dir_name s) (dir_of_files sf) (sg_id s) = Inr s)"

lemma open_segment_dir_names: "open_segment_dir rd name d i = Inr s \<Longrightarrow> sg_id s = i \<and> sg_dir_name s = name"
  by (auto simp: open_segment_dir_def segment_open_def obind_eq_Inr)

lemma build_segment_frame:
  assumes "build_segment env i r dirs = (r', dirs')"
  shows "n \<noteq> seg_name i \<Longrightarrow> map_of dirs' n = map_of dirs n"
    and "distinct (map fst dirs) \<Longrightarrow> distinct (map fst dirs')"
  using assms
  by (auto simp: build_segment_def Let_def distinct_update split: sum.splits if_splits)

lemma build_segment_built:
  assumes "build_segment env i (build b) dirs = (Inr s, dirs')"
  shows "built env build dirs' b s \<and> sg_id s = i \<and> fst ` set dirs' = insert (seg_name i) (fst ` set dirs)"
proof -
  let ?rd = "me_read_varint env"
  obtain sf where sf: "build b = Inr sf" "open_segment_dir ?rd (seg_name i) (dir_of_files sf) i = Inr s"
    and dirs': "dirs' = AList.update (seg_name i) (Dir (dir_of_files sf)) dirs"
    using assms by (auto simp: build_segment_def Let_def split: sum.splits if_splits)
  have "sg_id s = i \<and> sg_dir_name s = seg_name i"
    using open_segment_dir_names [OF sf(2)] .
  with sf show ?thesis
    unfolding dirs' by (simp add: built_def dom_update)
qed

lemma built_frame: "built env build dirs b s \<Longrightarrow> map_of dirs' (sg_dir_name s) = map_of dirs (sg_dir_name s) \<Longrightarrow>
    built env build dirs' b s"
  unfolding built_def by metis

lemma build_batches_frame:
  assumes "build_batches env build ibs dirs = (r, dirs')"
  shows "n \<notin> seg_name ` fst ` set ibs \<Longrightarrow> map_of dirs' n = map_of dirs n"
    and "distinct (map fst dirs) \<Longrightarrow> distinct (map fst dirs')"
proof -
  have "(n \<notin> seg_name ` fst ` set ibs \<longrightarrow> map_of dirs' n = map_of dirs n) \<and>
    (distinct (map fst dirs) \<longrightarrow> distinct (map fst dirs'))"
    using assms
  proof (induction ibs arbitrary: dirs r dirs')
    case Nil
    then show ?case by simp
  next
    case (Cons ib ibs)
    obtain i b r1 dirs1 where ib: "ib = (i, b)" and r1: "build_segment env i (build b) dirs = (r1, dirs1)"
      by (cases ib; cases "build_segment env (fst ib) (build (snd ib)) dirs") auto
    note frame = build_segment_frame [OF r1]
    show ?case
    proof (cases "r1 = panic")
      case True
      with Cons.prems r1 frame show ?thesis by (auto simp: ib)
    next
      case False
      obtain r2 dirs2 where r2: "build_batches env build ibs dirs1 = (r2, dirs2)" by fastforce
      have "dirs' = dirs2"
        using Cons.prems r1 r2 False by (auto simp: ib split: sum.splits failure.splits)
      with Cons.IH [of dirs1 r2 dirs2] r2 frame show ?thesis by (auto simp: ib)
    qed
  qed
  then show "n \<notin> seg_name ` fst ` set ibs \<Longrightarrow> map_of dirs' n = map_of dirs n"
    and "distinct (map fst dirs) \<Longrightarrow> distinct (map fst dirs')" by blast+
qed

lemma build_batches_built:
  assumes "build_batches env build ibs dirs = (Inr rs, dirs')" and "collect_results (\<lambda>r. r) rs = Inr segs"
    and "distinct (map fst ibs)"
  shows "map sg_id segs = map fst ibs" "list_all2 (built env build dirs') (map snd ibs) segs"
    "fst ` set dirs' = fst ` set dirs \<union> seg_name ` fst ` set ibs"
proof -
  have "map sg_id segs = map fst ibs \<and> list_all2 (built env build dirs') (map snd ibs) segs \<and>
    fst ` set dirs' = fst ` set dirs \<union> seg_name ` fst ` set ibs"
    using assms
  proof (induction ibs arbitrary: dirs rs segs)
    case Nil
    then show ?case by simp
  next
    case (Cons ib ibs)
    obtain i b r1 dirs1 where ib: "ib = (i, b)" and r1: "build_segment env i (build b) dirs = (r1, dirs1)"
      by (cases ib; cases "build_segment env (fst ib) (build (snd ib)) dirs") auto
    obtain r2 dirs2 where r2: "build_batches env build ibs dirs1 = (r2, dirs2)" by fastforce
    from Cons.prems(1) r1 r2 obtain rs2 where rs: "rs = r1 # rs2" "r2 = Inr rs2" "dirs2 = dirs'"
      by (auto simp: ib split: sum.splits failure.splits)
    with Cons.prems(2) obtain s segs2 where s: "r1 = Inr s" "collect_results (\<lambda>r. r) rs2 = Inr segs2" "segs = s # segs2"
      by (auto simp: obind_eq_Inr)
    have b: "built env build dirs1 b s" "sg_id s = i" "fst ` set dirs1 = insert (seg_name i) (fst ` set dirs)"
      using build_segment_built [of env i build b dirs s dirs1] r1 s(1) by auto
    have fresh: "i \<notin> fst ` set ibs" and "distinct (map fst ibs)" using Cons.prems(3) by (simp_all add: ib)
    note IH = Cons.IH [OF r2 [unfolded rs(2,3)] s(2) this(2)]
    have "seg_name i \<notin> seg_name ` fst ` set ibs" using fresh by (simp add: image_iff)
    from build_batches_frame(1) [OF r2 this]
    have "map_of dirs' (seg_name i) = map_of dirs1 (seg_name i)"
      unfolding rs(3) .
    moreover have "sg_dir_name s = seg_name i"
      using b(1,2) unfolding built_def by simp
    ultimately have "built env build dirs' b s" using built_frame [OF b(1)] by simp
    with IH show ?case
      unfolding s(3) ib by (simp add: b(2,3))
  qed
  then show "map sg_id segs = map fst ibs" "list_all2 (built env build dirs') (map snd ibs) segs"
    "fst ` set dirs' = fst ` set dirs \<union> seg_name ` fst ` set ibs" by blast+
qed

lemma allocate_ids_spec:
  "allocate_ids bs n = (r, n') \<Longrightarrow> n \<le> n' \<and>
     (\<forall>ibs. r = Inr ibs \<longrightarrow> map snd ibs = bs \<and> sorted_wrt (<) (map fst ibs) \<and>
        (\<forall>i \<in> fst ` set ibs. n \<le> i \<and> i < n'))"
proof (induction bs arbitrary: n r n')
  case Nil
  then show ?case by auto
next
  case (Cons b bs)
  show ?case
  proof (cases "unat n = u32_max")
    case True
    with Cons.prems show ?thesis by (auto simp: next_segment_id_def)
  next
    case False
    then have "unat n + 1 \<le> u32_max"
      using unat_u32_le [of n] by linarith
    then have "unat (n + 1) = unat n + 1"
      by (simp add: unat_word_ariths)
    then have less: "n < n + 1" by (simp add: word_less_nat_alt)
    obtain r2 n2 where r2: "allocate_ids bs (n + 1) = (r2, n2)" by fastforce
    from Cons.prems False r2 have n': "n' = n2" and r: "r = (case r2 of Inl e \<Rightarrow> Inl e | Inr ids \<Rightarrow> Inr ((n, b) # ids))"
      by (auto simp: next_segment_id_def split: sum.splits)
    have IH: "n + 1 \<le> n'"
        "\<And>ibs. r2 = Inr ibs \<Longrightarrow> map snd ibs = bs \<and> sorted_wrt (<) (map fst ibs) \<and> (\<forall>i \<in> fst ` set ibs. n + 1 \<le> i \<and> i < n')"
      using Cons.IH [OF r2] n' by blast+
    from less IH(1) have "n < n'" by (rule less_le_trans)
    have "n \<le> i \<and> n < i" if "n + 1 \<le> i" for i
      using less_le_trans [OF less that] by simp
    with IH \<open>n < n'\<close> r show ?thesis
      by (auto split: sum.splits)
  qed
qed

lemma build_all_spec:
  assumes "build_all env build batches m = (r, m')"
  shows "mg_state m' = mg_state m \<and> mg_next_id m \<le> mg_next_id m'"
    "(\<And>i. mg_next_id m \<le> i \<Longrightarrow> n \<noteq> seg_name i) \<Longrightarrow> map_of (mg_dirs m') n = map_of (mg_dirs m) n"
    "distinct (map fst (mg_dirs m)) \<Longrightarrow> distinct (map fst (mg_dirs m'))"
    "r = Inr segs \<Longrightarrow> list_all2 (built env build (mg_dirs m')) batches segs"
    "r = Inr segs \<Longrightarrow> sorted_wrt (<) (map sg_id segs)"
    "r = Inr segs \<Longrightarrow> s \<in> set segs \<Longrightarrow> mg_next_id m \<le> sg_id s \<and> sg_id s < mg_next_id m'"
    "r = Inr segs \<Longrightarrow> fst ` set (mg_dirs m') = fst ` set (mg_dirs m) \<union> sg_dir_name ` set segs"
    "r = Inr segs \<Longrightarrow> k \<notin> sg_dir_name ` set segs \<Longrightarrow> map_of (mg_dirs m') k = map_of (mg_dirs m) k"
proof -
  obtain r1 nxt where r1: "allocate_ids batches (mg_next_id m) = (r1, nxt)" by fastforce
  note ids = allocate_ids_spec [OF r1]
  show "mg_state m' = mg_state m \<and> mg_next_id m \<le> mg_next_id m'"
    using assms r1 ids by (auto simp: build_all_def split: sum.splits prod.splits)
  have frame: "((\<forall>i. mg_next_id m \<le> i \<longrightarrow> n \<noteq> seg_name i) \<longrightarrow> map_of (mg_dirs m') n = map_of (mg_dirs m) n) \<and>
    (distinct (map fst (mg_dirs m)) \<longrightarrow> distinct (map fst (mg_dirs m')))"
  proof (cases r1)
    case (Inl e)
    with assms r1 show ?thesis by (auto simp: build_all_def)
  next
    case (Inr ibs)
    obtain r2 dirs where r2: "build_batches env build ibs (mg_dirs m) = (r2, dirs)" by fastforce
    have "mg_dirs m' = dirs"
      using assms r1 Inr r2 by (auto simp: build_all_def split: sum.splits)
    moreover have "n \<notin> seg_name ` fst ` set ibs" if "\<forall>i. mg_next_id m \<le> i \<longrightarrow> n \<noteq> seg_name i"
      using ids Inr that by (auto simp: image_iff)
    ultimately show ?thesis
      using build_batches_frame [OF r2] by auto
  qed
  then show "(\<And>i. mg_next_id m \<le> i \<Longrightarrow> n \<noteq> seg_name i) \<Longrightarrow> map_of (mg_dirs m') n = map_of (mg_dirs m) n"
    "distinct (map fst (mg_dirs m)) \<Longrightarrow> distinct (map fst (mg_dirs m'))" by blast+
  have "list_all2 (built env build (mg_dirs m')) batches segs \<and> sorted_wrt (<) (map sg_id segs) \<and>
    (\<forall>s \<in> set segs. mg_next_id m \<le> sg_id s \<and> sg_id s < mg_next_id m') \<and>
    fst ` set (mg_dirs m') = fst ` set (mg_dirs m) \<union> sg_dir_name ` set segs \<and>
    (k \<notin> sg_dir_name ` set segs \<longrightarrow> map_of (mg_dirs m') k = map_of (mg_dirs m) k)" if ok: "r = Inr segs"
  proof -
    obtain ibs rs dirs where ibs: "r1 = Inr ibs" and r2: "build_batches env build ibs (mg_dirs m) = (Inr rs, dirs)"
      and rs: "collect_results (\<lambda>r. r) rs = Inr segs" and m': "m' = m\<lparr>mg_next_id := nxt, mg_dirs := dirs\<rparr>"
      using assms r1 ok by (auto simp: build_all_def split: sum.splits prod.splits)
    from ids ibs have i: "map snd ibs = batches" "sorted_wrt (<) (map fst ibs)"
        "\<And>i. i \<in> fst ` set ibs \<Longrightarrow> mg_next_id m \<le> i \<and> i < nxt"
      by blast+
    have "distinct (map fst ibs)"
      using i(2) by (simp add: strict_sorted_iff)
    note b = build_batches_built [OF r2 rs this]
    have ids_segs: "sg_id ` set segs = fst ` set ibs"
      using arg_cong [OF b(1), of set] by simp
    have "sg_dir_name s = seg_name (sg_id s)" if "s \<in> set segs" for s
      using b(2) that by (auto simp: list_all2_conv_all_nth in_set_conv_nth built_def)
    then have "sg_dir_name ` set segs = seg_name ` sg_id ` set segs"
      by (simp add: image_image cong: image_cong)
    moreover have "mg_next_id m \<le> sg_id s \<and> sg_id s < nxt" if "s \<in> set segs" for s
      using i(3) [of "sg_id s"] that ids_segs by blast
    moreover have "map_of dirs k = map_of (mg_dirs m) k" if "k \<notin> sg_dir_name ` set segs"
      using build_batches_frame(1) [OF r2, of k] that \<open>sg_dir_name ` set segs = seg_name ` sg_id ` set segs\<close>
      by (simp add: ids_segs)
    ultimately show ?thesis
      using b i ids_segs by (simp add: m')
  qed
  then show "r = Inr segs \<Longrightarrow> list_all2 (built env build (mg_dirs m')) batches segs"
    "r = Inr segs \<Longrightarrow> sorted_wrt (<) (map sg_id segs)"
    "r = Inr segs \<Longrightarrow> s \<in> set segs \<Longrightarrow> mg_next_id m \<le> sg_id s \<and> sg_id s < mg_next_id m'"
    "r = Inr segs \<Longrightarrow> fst ` set (mg_dirs m') = fst ` set (mg_dirs m) \<union> sg_dir_name ` set segs"
    "r = Inr segs \<Longrightarrow> k \<notin> sg_dir_name ` set segs \<Longrightarrow> map_of (mg_dirs m') k = map_of (mg_dirs m) k" by blast+
qed

lemma open_dir_of_files:
  assumes "open_segment_dir rd name (dir_of_files sf) i = Inr s"
  shows "\<exists>s0. segment_open rd sf i = Inr s0 \<and> s = s0\<lparr>sg_dir_name := name\<rparr>"
proof -
  have "map_of (dir_of_files sf) ''highlights.zst'' = sf_highlights sf"
    "map_of (dir_of_files sf) ''tombstones.bin'' = sf_tombstones sf"
    "dir_file (dir_of_files sf) ''trigrams.bin'' = Inr (sf_trigrams sf)"
    "dir_file (dir_of_files sf) ''meta.bin'' = Inr (sf_meta sf)"
    "dir_file (dir_of_files sf) ''paths.bin'' = Inr (sf_paths sf)"
    "dir_file (dir_of_files sf) ''content.zst'' = Inr (sf_content sf)"
    by (auto simp: dir_of_files_def dir_file_def split: option.splits)
  with assms show ?thesis
    by (cases sf) (auto simp: open_segment_dir_def obind_eq_Inr)
qed

lemma ts_new_ok: "tombs_ok s" "tombstones_or_default s = ts_new"
  if "sg_disk_tombstones s = Some []" "sg_cached_tombstones s = None"
proof -
  have "load_tombstones s = Inr (ts_new, set_cached_tombstones ts_new s)"
    using that by (simp add: load_tombstones_def load_tombstones_from_disk_def set_cached_tombstones_def)
  then show "tombs_ok s" "tombstones_or_default s = ts_new"
    by (auto simp: tombs_ok_def tombstones_or_default_def reach_new) (simp add: ts_new_def)
qed

lemma not_dead_new: "tombstones_or_default s = ts_new \<Longrightarrow> \<not> dead s i"
  by (simp add: dead_def tomb.contains_empty)

lemma built_holds:
  assumes "env_ok (me_build env) (me_read_varint env)" and "fits b"
    and "built env (segment_build (me_build env)) dirs b s"
  shows "holds_files env s b" "tombstones_or_default s = ts_new"
    "live_files (be_zstd (me_build env)) s = b"
proof -
  obtain sf where sf: "segment_build (me_build env) b = Inr sf"
    and dir: "sg_dir_name s = seg_name (sg_id s)"
    and opened: "open_segment_dir (me_read_varint env) (sg_dir_name s) (dir_of_files sf) (sg_id s) = Inr s"
    using assms(3) by (auto simp: built_def)
  from open_dir_of_files [OF opened] obtain s0 where s0: "segment_open (me_read_varint env) sf (sg_id s) = Inr s0"
    "s = s0\<lparr>sg_dir_name := sg_dir_name s\<rparr>" by blast
  obtain seg ps metas where seg: "segment_open (me_read_varint env) sf (sg_id s) = Inr seg"
    "segment_over (me_build env) (me_read_varint env) seg b ps metas" "sg_dir_name seg = seg_name (sg_id s)"
    "sg_disk_tombstones seg = Some []" "sg_cached_tombstones seg = None"
    using segment_build_over [OF assms(1) _ sf segment_build_small [OF sf], of "sg_id s"] assms(2)
    by (auto simp: fits_def)
  have "s = seg"
    using s0 seg(1,3) dir by (cases seg) auto
  with seg assms(2) ts_new_ok show "holds_files env s b" "tombstones_or_default s = ts_new"
    by (auto simp: holds_files_def)
  with holds_live_files [of env s b] not_dead_new [of s]
  show "live_files (be_zstd (me_build env)) s = b"
    by (simp add: map_nth)
qed

section \<open>The invariant of the manager\<close>

text \<open>The directory of a segment, opened again, is the segment with the same tombstones.\<close>

definition placed :: "manager_env \<Rightarrow> dir_listing \<Rightarrow> segment \<Rightarrow> bool" where
  "placed env dirs s \<longleftrightarrow>
     (\<exists>d s0. map_of dirs (sg_dir_name s) = Some (Dir d) \<and> map_of d ''tombstones.bin'' \<noteq> None \<and>
        open_segment_dir (me_read_varint env) (sg_dir_name s) d (sg_id s) = Inr s0 \<and>
        same_core s s0 \<and> tombs_ok s0 \<and> tombstones_or_default s0 = tombstones_or_default s)"

definition segment_ok :: "manager_env \<Rightarrow> manager \<Rightarrow> segment \<Rightarrow> bool" where
  "segment_ok env m s \<longleftrightarrow>
     (\<exists>files. holds_files env s files) \<and> sg_dir_name s = seg_name (sg_id s) \<and>
     sg_id s < mg_next_id m \<and> placed env (mg_dirs m) s"

definition manager_ok :: "manager_env \<Rightarrow> manager \<Rightarrow> bool" where
  "manager_ok env m \<longleftrightarrow>
     (\<forall>s \<in> set (mg_snapshot m). segment_ok env m s) \<and>
     sorted_wrt (<) (map sg_id (mg_snapshot m)) \<and> distinct (map fst (mg_dirs m))"

text \<open>The directory holds the published segments and no other.\<close>

definition exact_dirs :: "manager \<Rightarrow> bool" where
  "exact_dirs m \<longleftrightarrow> fst ` set (filter is_segment_entry (mg_dirs m)) = sg_dir_name ` set (mg_snapshot m)"

abbreviation good_env :: "manager_env \<Rightarrow> bool" where
  "good_env env \<equiv> env_ok (me_build env) (me_read_varint env)"

lemma snapshot_publish [simp]: "mg_snapshot (m\<lparr>mg_state := is_publish segs st\<rparr>) = segs"
  by (simp add: mg_snapshot_def is_snapshot_def is_publish_def)

lemma snapshot_update [simp]:
  "mg_snapshot (m\<lparr>mg_dirs := dirs\<rparr>) = mg_snapshot m" "mg_snapshot (m\<lparr>mg_next_id := n\<rparr>) = mg_snapshot m"
  "mg_snapshot (m\<lparr>mg_is_compacting := c\<rparr>) = mg_snapshot m"
  by (simp_all add: mg_snapshot_def)

lemma manager_okD:
  assumes "manager_ok env m"
  shows "s \<in> set (mg_snapshot m) \<Longrightarrow> segment_ok env m s"
    "sorted_wrt (<) (map sg_id (mg_snapshot m))" "distinct (map fst (mg_dirs m))"
  using assms by (auto simp: manager_ok_def)

lemma segment_ok_frame:
  "segment_ok env m s \<Longrightarrow> mg_next_id m \<le> mg_next_id m' \<Longrightarrow>
     map_of (mg_dirs m') (sg_dir_name s) = map_of (mg_dirs m) (sg_dir_name s) \<Longrightarrow> segment_ok env m' s"
  by (auto simp: segment_ok_def placed_def)

lemma segment_ok_publish [simp]:
  "segment_ok env (m\<lparr>mg_state := st\<rparr>) s = segment_ok env m s"
  "segment_ok env (m\<lparr>mg_is_compacting := c\<rparr>) s = segment_ok env m s"
  by (simp_all add: segment_ok_def)

lemma built_segment_ok:
  assumes "good_env env" and "fits b" and built: "built env (segment_build (me_build env)) (mg_dirs m) b s"
    and "sg_id s < mg_next_id m"
  shows "segment_ok env m s"
proof -
  note holds = built_holds [OF assms(1-3)]
  have tombs: "tombs_ok s" using holds(1) by (simp add: holds_files_def)
  obtain sf where sf: "segment_build (me_build env) b = Inr sf" "map_of (mg_dirs m) (sg_dir_name s) = Some (Dir (dir_of_files sf))"
      "open_segment_dir (me_read_varint env) (sg_dir_name s) (dir_of_files sf) (sg_id s) = Inr s"
    using built by (auto simp: built_def)
  have "sf_tombstones sf = Some []"
    using sf(1) by (auto simp: segment_build_def write_segment_def Let_def obind_eq_Inr)
  then have "map_of (dir_of_files sf) ''tombstones.bin'' \<noteq> None" by (simp add: dir_of_files_def split: option.splits)
  with sf(2,3) tombs have "placed env (mg_dirs m) s"
    unfolding placed_def by (intro exI [of _ "dir_of_files sf"] exI [of _ s]) simp
  with holds(1) built assms(4) show ?thesis
    by (auto simp: segment_ok_def built_def)
qed

lemma fits_member:
  assumes "fits (concat bs)" and "b \<in> set bs"
  shows "fits b"
proof -
  obtain us vs where bs: "bs = us @ b # vs" using assms(2) by (auto simp: in_set_conv_decomp)
  show ?thesis using assms(1) unfolding bs by (auto simp: fits_def inputs_ok_def)
qed

text \<open>New segments, before and after they are published.\<close>

lemma build_all_ok:
  assumes env: "good_env env" and ok: "manager_ok env m" and res: "build_all env build batches m = (r, m')"
  shows "manager_ok env m'" "mg_snapshot m' = mg_snapshot m"
proof -
  note spec = build_all_spec [OF res]
  show snap: "mg_snapshot m' = mg_snapshot m"
    using spec(1) by (simp add: mg_snapshot_def)
  have "segment_ok env m' s" if s: "s \<in> set (mg_snapshot m)" for s
  proof (rule segment_ok_frame)
    show sok: "segment_ok env m s" using manager_okD(1) [OF ok s] .
    then have "sg_dir_name s \<noteq> seg_name i" if "mg_next_id m \<le> i" for i
      using that by (auto simp: segment_ok_def)
    then show "map_of (mg_dirs m') (sg_dir_name s) = map_of (mg_dirs m) (sg_dir_name s)"
      using spec(2) by blast
    show "mg_next_id m \<le> mg_next_id m'" using spec(1) by simp
  qed
  then show "manager_ok env m'"
    using manager_okD [OF ok] spec(3) by (simp add: manager_ok_def snap)
qed

lemma build_all_published:
  assumes env: "good_env env" and ok: "manager_ok env m"
    and res: "build_all env build batches m = (Inr segs, m')"
    and conv: "\<And>b s. b \<in> set batches \<Longrightarrow> built env build (mg_dirs m') b s \<Longrightarrow>
      built env (segment_build (me_build env)) (mg_dirs m') (conv b) s"
    and fits: "fits (concat (map conv batches))"
  shows "manager_ok env (m'\<lparr>mg_state := is_publish segs st\<rparr>)"
    "manager_ok env (m'\<lparr>mg_state := is_publish (mg_snapshot m @ segs) st\<rparr>)"
    "map (live_files (be_zstd (me_build env))) segs = map conv batches"
    "s \<in> set segs \<Longrightarrow> tombstones_or_default s = ts_new"
proof -
  note spec = build_all_spec [OF res]
  have len: "length segs = length batches" and
    each: "\<And>i. i < length segs \<Longrightarrow> built env (segment_build (me_build env)) (mg_dirs m') (conv (batches ! i)) (segs ! i)"
    using spec(4) conv by (auto simp: list_all2_conv_all_nth)
  have fit: "fits (conv (batches ! i))" if "i < length segs" for i
    using fits_member [OF fits] that len by simp
  have new: "segment_ok env m' s" if "s \<in> set segs" for s
    using that each fit spec(6) built_segment_ok [OF env] by (metis in_set_conv_nth)
  note old = build_all_ok [OF env ok res]
  show "manager_ok env (m'\<lparr>mg_state := is_publish segs st\<rparr>)"
    using manager_okD [OF old(1)] new spec(5) by (simp add: manager_ok_def)
  have "sg_id s < sg_id t" if "s \<in> set (mg_snapshot m)" "t \<in> set segs" for s t
    using manager_okD(1) [OF ok that(1)] spec(6) [OF refl that(2)] by (auto simp: segment_ok_def)
  then show "manager_ok env (m'\<lparr>mg_state := is_publish (mg_snapshot m @ segs) st\<rparr>)"
    using manager_okD [OF old(1)] new spec(5) old(2) by (auto simp: manager_ok_def sorted_wrt_append)
  show "map (live_files (be_zstd (me_build env))) segs = map conv batches"
    using built_holds(3) [OF env fit each] len by (intro nth_equalityI) simp_all
  show "s \<in> set segs \<Longrightarrow> tombstones_or_default s = ts_new"
    using built_holds(2) [OF env fit each] by (auto simp: in_set_conv_nth)
qed

section \<open>Batches\<close>

lemma concat_split_loop: "concat (split_loop len n batch k fs) = batch @ fs"
  by (induction fs arbitrary: batch k) (simp_all add: Let_def)

lemma concat_split [simp]: "concat (split_batches len n fs) = fs"
  by (simp add: split_batches_def concat_split_loop)

lemma split_loop_bounds:
  "k = sum_list (map len batch) \<Longrightarrow> (0 < n \<longrightarrow> k \<le> n) \<Longrightarrow> b \<in> set (split_loop len n batch k fs) \<Longrightarrow>
     b \<noteq> [] \<and> (0 < n \<longrightarrow> sum_list (map len (butlast b)) \<le> n)"
proof (induction fs arbitrary: batch k)
  case Nil
  then have "b = batch" "b \<noteq> []" by (auto split: if_splits)
  moreover have "sum_list (map len batch) = sum_list (map len (butlast batch)) + len (last batch)"
    using \<open>b = batch\<close> \<open>b \<noteq> []\<close> by (cases batch rule: rev_cases) simp_all
  ultimately show ?case using Nil.prems by auto
next
  case (Cons f fs)
  show ?case
  proof (cases "n > 0 \<and> k + len f > n")
    case True
    with Cons.prems consider "b = batch @ [f]" | "b \<in> set (split_loop len n [] 0 fs)" by (auto simp: Let_def)
    then show ?thesis
      using Cons.IH [of 0 "[]"] Cons.prems by cases simp_all
  next
    case False
    with Cons.prems(3) have mem: "b \<in> set (split_loop len n (batch @ [f]) (k + len f) fs)" by (auto simp: Let_def)
    have "k + len f = sum_list (map len (batch @ [f]))" using Cons.prems(1) by simp
    from Cons.IH [OF this _ mem] False show ?thesis by auto
  qed
qed

lemma split_unlimited: "split_batches len 0 fs = (if fs = [] then [] else [fs])"
proof -
  have "split_loop len 0 batch k fs = (if batch @ fs = [] then [] else [batch @ fs])" for batch k
    by (induction fs arbitrary: batch k) (simp_all add: Let_def)
  then show ?thesis by (simp add: split_batches_def)
qed

section \<open>Indexing files\<close>

lemma segment_entry_keys:
  assumes "distinct (map fst dirs)"
  shows "n \<in> fst ` set (filter is_segment_entry dirs) \<longleftrightarrow> (\<exists>e. map_of dirs n = Some e \<and> is_segment_entry (n, e))"
  using assms by (force simp: map_of_eq_Some_iff)

lemma list_all_graphic_seg_name: "list_all (\<lambda>b. byte_val b < 128) (seg_name i)"
  using display_padded_facts(1) [of 4 "unat i"]
  by (auto simp: seg_name_def list_all_iff is_digit_def)

lemma lossy_seg_name [simp]: "from_utf8_lossy (seg_name i) = seg_name i"
  using list_all_graphic_seg_name [of i]
  by (intro from_utf8_lossy_valid utf8_valid_ascii) (simp add: is_ascii_text_def)

lemma is_segment_entry_seg [simp]: "is_segment_entry (seg_name i, Dir d)"
  by (simp add: is_segment_entry_def) (simp add: seg_name_def)

lemma build_all_exact:
  assumes env: "good_env env" and ok: "manager_ok env m" and exact: "exact_dirs m"
    and res: "build_all env build batches m = (Inr segs, m')"
  shows "exact_dirs (m'\<lparr>mg_state := is_publish (mg_snapshot m @ segs) st\<rparr>)"
proof -
  note spec = build_all_spec [OF res]
  have dist: "distinct (map fst (mg_dirs m))" "distinct (map fst (mg_dirs m'))"
    using manager_okD(3) [OF ok] spec(3) by simp_all
  have new: "\<exists>i d. n = seg_name i \<and> map_of (mg_dirs m') n = Some (Dir d)" if "n \<in> sg_dir_name ` set segs" for n
    using that spec(4) [OF refl] by (fastforce simp: list_all2_conv_all_nth in_set_conv_nth built_def)
  have "n \<in> fst ` set (filter is_segment_entry (mg_dirs m')) \<longleftrightarrow>
      n \<in> fst ` set (filter is_segment_entry (mg_dirs m)) \<or> n \<in> sg_dir_name ` set segs" for n
  proof (cases "n \<in> sg_dir_name ` set segs")
    case True
    with new [OF True] show ?thesis
      unfolding segment_entry_keys [OF dist(1)] segment_entry_keys [OF dist(2)] by auto
  next
    case False
    then show ?thesis
      unfolding segment_entry_keys [OF dist(1)] segment_entry_keys [OF dist(2)]
      using spec(8) [OF refl False] by simp
  qed
  then have "fst ` set (filter is_segment_entry (mg_dirs m'))
      = fst ` set (filter is_segment_entry (mg_dirs m)) \<union> sg_dir_name ` set segs"
    by (intro set_eqI) simp
  then show ?thesis
    using exact by (simp only: exact_dirs_def snapshot_publish set_append image_Un)
      (simp add: mg_snapshot_def)
qed

lemma index_files_spec:
  assumes "good_env env" and "manager_ok env m" and "fits files"
    and "index_files_with_budget env files max_segment_bytes m = (r, m')"
  shows "manager_ok env m' \<and>
    (r = Inr () \<longrightarrow> index_view env m' = index_view env m @ files \<and> (exact_dirs m \<longrightarrow> exact_dirs m')) \<and>
    (r \<noteq> Inr () \<longrightarrow> index_view env m' = index_view env m)"
proof -
  let ?bs = "split_batches (\<lambda>f. length (in_content f)) max_segment_bytes files"
  show ?thesis
  proof (cases "?bs = []")
    case True
    then have "files = []" using concat_split [of "\<lambda>f. length (in_content f)" max_segment_bytes files] by simp
    with True assms show ?thesis by (simp add: index_files_with_budget_def)
  next
    case False
    obtain r1 m1 where res: "build_all env (segment_build (me_build env)) ?bs m = (r1, m1)" by fastforce
    show ?thesis
    proof (cases r1)
      case (Inl e)
      with False res assms build_all_ok [OF assms(1,2) res] show ?thesis
        by (auto simp: index_files_with_budget_def index_view_def)
    next
      case (Inr segs)
      note res' = res [unfolded Inr]
      note pub = build_all_published [where conv = "\<lambda>b. b", OF assms(1,2) res']
      have m': "r = Inr ()" "m' = m1\<lparr>mg_state := is_publish (mg_snapshot m1 @ segs) (mg_state m1)\<rparr>"
        using False res' assms(4) by (simp_all add: index_files_with_budget_def)
      have snap: "mg_snapshot m1 = mg_snapshot m"
        using build_all_ok [OF assms(1,2) res] by simp
      have "map (live_files (be_zstd (me_build env))) segs = ?bs"
        using pub(3) assms(3) by simp
      then have "index_view env m' = index_view env m @ files"
        by (simp add: index_view_def m'(2) snap)
      moreover have "manager_ok env m'" using pub(2) [where st = "mg_state m1"] assms(3) by (simp add: m'(2) snap)
      moreover have "exact_dirs m'" if "exact_dirs m"
        using build_all_exact [where st = "mg_state m1", OF assms(1,2) that res'] by (simp add: m'(2) snap)
      ultimately show ?thesis using m'(1) by simp
    qed
  qed
qed

section \<open>Compaction\<close>

definition uncompact :: "compact_input_file \<Rightarrow> input_file" where
  "uncompact c = \<lparr>in_path = cf_path c, in_content = cf_raw_content c, in_mtime = cf_mtime c\<rparr>"

lemma uncompact_input [simp]: "uncompact (compact_input (f, p)) = f"
  by (simp add: uncompact_def compact_input_def)

definition processed :: "build_env \<Rightarrow> (input_file \<times> processed_file) list \<Rightarrow> bool" where
  "processed benv pairs = list_all (\<lambda>(f, p). process_file benv f = Inr p) pairs"

lemma compact_entry_over:
  assumes over: "segment_over benv rd s files ps metas" and inputs: "inputs_ok files" and i: "i < length files"
  shows "compact_entry (be_zstd benv) (s, metas ! i) = Inr (compact_input (files ! i, ps ! i))"
    "process_file benv (files ! i) = Inr (ps ! i)"
proof -
  have e: "entry_for (sg_content s) i (files ! i) (ps ! i) (metas ! i)"
    using over i by (simp add: segment_over_def)
  then have "content_range (sg_content s) (fm_content_offset (metas ! i)) (fm_content_len (metas ! i)) = Inr (pf_compressed (ps ! i))"
    by (intro content_range_block) (simp add: entry_for_def)
  then have "cr_read_raw_compressed (sg_content s) (fm_content_offset (metas ! i)) (fm_content_len (metas ! i))
      = Inr (pf_compressed (ps ! i))"
    by (simp add: cr_read_raw_compressed_def)
  with e segment_over_file(5) [OF over inputs i]
  show "compact_entry (be_zstd benv) (s, metas ! i) = Inr (compact_input (files ! i, ps ! i))"
    by (simp add: compact_entry_def compact_input_def entry_for_def)
  show "process_file benv (files ! i) = Inr (ps ! i)"
    using over i collect_results_Inr_nth [of "process_file benv" files ps] by (simp add: segment_over_def)
qed

lemma collect_results_append:
  "collect_results f (xs @ ys) = obind (collect_results f xs) (\<lambda>us. obind (collect_results f ys) (\<lambda>vs. Inr (us @ vs)))"
proof (induction xs)
  case Nil
  then show ?case by (cases "collect_results f ys") simp_all
next
  case (Cons x xs)
  then show ?case by (cases "f x"; cases "collect_results f xs"; cases "collect_results f ys") simp_all
qed

lemma collect_map_Inr [simp]: "collect_results (\<lambda>r. r) (map Inr xs) = Inr xs"
  by (induction xs) simp_all

lemma live_segment:
  assumes "holds_files env s files"
  shows "\<exists>es pairs. obind (load_tombstones s) (\<lambda>(tombs, _).
        obind (collect_results (\<lambda>r. r) (iter_all (sg_metadata_reader s))) (\<lambda>entries.
          Inr (map (Pair s) (filter (\<lambda>e. \<not> ts_contains tombs (fm_file_id e)) entries)))) = Inr (map (Pair s) es) \<and>
    collect_results (compact_entry (be_zstd (me_build env))) (map (Pair s) es) = Inr (map compact_input pairs) \<and>
    map fst pairs = live_files (be_zstd (me_build env)) s \<and> processed (me_build env) pairs"
proof -
  obtain ps metas where over: "segment_over (me_build env) (me_read_varint env) s files ps metas"
    and inputs: "inputs_ok files" and "tombs_ok s"
    using assms by (auto simp: holds_files_def fits_def)
  then obtain ts s' where load: "load_tombstones s = Inr (ts, s')" by (auto simp: tombs_ok_def)
  have len: "length metas = length files" and iter: "iter_all (sg_metadata_reader s) = map Inr metas"
    using over by (simp_all add: segment_over_def)
  let ?ix = "filter (\<lambda>i. \<not> dead s i) [0..<length files]"
  let ?es = "map (nth metas) ?ix" and ?pairs = "map (\<lambda>i. (files ! i, ps ! i)) ?ix"
  have "filter (\<lambda>e. \<not> ts_contains ts (fm_file_id e)) metas
      = map (nth metas) (filter ((\<lambda>e. \<not> ts_contains ts (fm_file_id e)) \<circ> nth metas) [0..<length metas])"
    by (metis filter_map map_nth)
  also have "filter ((\<lambda>e. \<not> ts_contains ts (fm_file_id e)) \<circ> nth metas) [0..<length metas] = ?ix"
    using segment_over_file(2) [OF over inputs] load_tombstones_cases(2) [OF load]
    by (intro filter_cong) (simp_all add: len dead_def)
  finally have es: "filter (\<lambda>e. \<not> ts_contains ts (fm_file_id e)) metas = ?es" .
  have "collect_results (compact_entry (be_zstd (me_build env))) (map (Pair s) ?es)
      = Inr (map compact_input ?pairs)"
  proof -
    have "collect_results (\<lambda>i. compact_entry (be_zstd (me_build env)) (s, metas ! i)) ?ix
        = Inr (map (\<lambda>i. compact_input (files ! i, ps ! i)) ?ix)"
      using compact_entry_over(1) [OF over inputs] by (intro collect_results_map) simp
    then show ?thesis by (simp add: collect_results_comp comp_def)
  qed
  moreover have "map fst ?pairs = live_files (be_zstd (me_build env)) s"
    unfolding live_files_over [OF over inputs] by simp
  moreover have "processed (me_build env) ?pairs"
    using compact_entry_over(2) [OF over inputs] by (simp add: processed_def list_all_iff)
  ultimately show ?thesis
    using load iter es by (intro exI [of _ ?es] exI [of _ ?pairs]) simp
qed

lemma live_entries_spec:
  assumes "\<And>s. s \<in> set segs \<Longrightarrow> \<exists>files. holds_files env s files"
  shows "\<exists>live pairs. live_entries segs = Inr live \<and>
    collect_results (compact_entry (be_zstd (me_build env))) live = Inr (map compact_input pairs) \<and>
    map fst pairs = concat (map (live_files (be_zstd (me_build env))) segs) \<and> processed (me_build env) pairs"
  using assms
proof (induction segs)
  case Nil
  show ?case by (rule exI [of _ "[]"], rule exI [of _ "[]"]) (simp add: live_entries_def processed_def)
next
  case (Cons s segs)
  obtain files where "holds_files env s files" using Cons.prems by auto
  from live_segment [OF this] obtain es pairs where
    seg: "obind (load_tombstones s) (\<lambda>(tombs, _).
        obind (collect_results (\<lambda>r. r) (iter_all (sg_metadata_reader s))) (\<lambda>entries.
          Inr (map (Pair s) (filter (\<lambda>e. \<not> ts_contains tombs (fm_file_id e)) entries)))) = Inr (map (Pair s) es)"
      "collect_results (compact_entry (be_zstd (me_build env))) (map (Pair s) es) = Inr (map compact_input pairs)"
      "map fst pairs = live_files (be_zstd (me_build env)) s" "processed (me_build env) pairs"
    by blast
  obtain live pairs2 where rest: "live_entries segs = Inr live"
      "collect_results (compact_entry (be_zstd (me_build env))) live = Inr (map compact_input pairs2)"
      "map fst pairs2 = concat (map (live_files (be_zstd (me_build env))) segs)" "processed (me_build env) pairs2"
    using Cons by auto
  have "live_entries (s # segs) = Inr (map (Pair s) es @ live)"
    using seg(1) rest(1) by (auto simp: live_entries_def obind_eq_Inr)
  with seg rest show ?case
    by (intro exI [of _ "map (Pair s) es @ live"] exI [of _ "pairs @ pairs2"])
      (simp add: collect_results_append processed_def)
qed

lemma split_loop_map: "split_loop len n (map g batch) k (map g fs) = map (map g) (split_loop (\<lambda>x. len (g x)) n batch k fs)"
proof (induction fs arbitrary: batch k)
  case Nil
  then show ?case by simp
next
  case (Cons f fs)
  from Cons [of "batch @ [f]"] Cons [of "[]"] show ?case by (simp add: Let_def)
qed

lemma split_batches_map: "split_batches len n (map g fs) = map (map g) (split_batches (\<lambda>x. len (g x)) n fs)"
  using split_loop_map [of len n g "[]" 0 fs] by (simp add: split_batches_def)

lemma built_compact:
  assumes "processed (me_build env) pairs"
    and "built env (segment_build_from_compact (me_build env)) dirs (map compact_input pairs) s"
  shows "built env (segment_build (me_build env)) dirs (map fst pairs) s"
proof -
  have "collect_results (process_file (me_build env)) (map fst pairs) = Inr (map snd pairs)"
    using assms(1) by (induction pairs) (auto simp: processed_def)
  from compact_build_eq [OF this] have eq: "segment_build_from_compact (me_build env) (map compact_input pairs)
      = segment_build (me_build env) (map fst pairs)"
    by (simp add: zip_map_fst_snd)
  from assms(2) show ?thesis
    unfolding built_def eq .
qed

lemma segment_ok_tombs:
  assumes "segment_ok env m s" and "same_core s t" and "tombs_ok t"
    and "placed env (mg_dirs m) t"
  shows "segment_ok env m t"
  using assms same_core_eq [OF assms(2)] holds_files_cong [OF assms(2,3)] by (auto simp: segment_ok_def)

lemma segment_ok_load:
  assumes ok: "segment_ok env m s"
  shows "segment_ok env m (load_cached s)"
proof (rule segment_ok_tombs [OF ok])
  note core = load_cached_facts(1) [of s]
  show "same_core s (load_cached s)" by (rule core)
  show "tombs_ok (load_cached s)"
    using ok by (auto simp: segment_ok_def holds_files_def load_cached_facts)
  from ok show "placed env (mg_dirs m) (load_cached s)"
    using same_core_trans [OF same_core_sym [OF core]] same_core_eq [OF core] load_cached_facts(2) [of s]
    unfolding segment_ok_def placed_def by metis
qed

text \<open>Loading the tombstones into the caches changes neither the invariant nor the view.\<close>

lemma manager_cached:
  assumes "manager_ok env m"
  defines "m' \<equiv> m\<lparr>mg_state := is_publish (map load_cached (mg_snapshot m)) (mg_state m)\<rparr>"
  shows "manager_ok env m'" "index_view env m' = index_view env m" "exact_dirs m' = exact_dirs m"
proof -
  have names: "map sg_id (map load_cached segs) = map sg_id segs"
      "sg_dir_name ` set (map load_cached segs) = sg_dir_name ` set segs" for segs
    using same_core_eq [OF load_cached_facts(1)] by (simp_all add: image_image)
  show "manager_ok env m'"
    unfolding manager_ok_def m'_def snapshot_publish names(1)
    using manager_okD [OF assms(1)] segment_ok_load by auto
  show "index_view env m' = index_view env m"
    by (simp add: index_view_def m'_def comp_def)
  show "exact_dirs m' = exact_dirs m"
    unfolding exact_dirs_def m'_def snapshot_publish names(2) by simp
qed

lemma map_of_filter_key: "map_of (filter (\<lambda>(n, _). P n) xs) k = (if P k then map_of xs k else None)"
  by (induction xs) auto

lemma distinct_filter_keys: "distinct (map fst xs) \<Longrightarrow> distinct (map fst (filter P xs))"
  by (rule distinct_map_filter)

text \<open>Removing the directories of older segments leaves the new ones alone.\<close>

lemma remove_dirs_ok:
  assumes ok: "manager_ok env m" and old: "\<And>s t. s \<in> set old \<Longrightarrow> t \<in> set (mg_snapshot m) \<Longrightarrow> sg_dir_name s \<noteq> sg_dir_name t"
  shows "manager_ok env (m\<lparr>mg_dirs := remove_dirs env old (mg_dirs m)\<rparr>)"
proof -
  have "map_of (remove_dirs env old (mg_dirs m)) (sg_dir_name t) = map_of (mg_dirs m) (sg_dir_name t)"
    if "t \<in> set (mg_snapshot m)" for t
    using old [OF _ that] by (auto simp: remove_dirs_def map_of_filter_key list_ex_iff)
  then have "segment_ok env (m\<lparr>mg_dirs := remove_dirs env old (mg_dirs m)\<rparr>) t" if "t \<in> set (mg_snapshot m)" for t
    using segment_ok_frame [OF manager_okD(1) [OF ok that]] that by simp
  moreover have "distinct (map fst (remove_dirs env old (mg_dirs m)))"
    using manager_okD(3) [OF ok] unfolding remove_dirs_def by (rule distinct_filter_keys)
  ultimately show ?thesis
    using manager_okD(2) [OF ok] by (simp add: manager_ok_def)
qed

lemma remove_dirs_exact:
  assumes ok: "manager_ok env m" and exact: "exact_dirs m" and snap: "mg_snapshot m = old @ new"
    and removed: "\<forall>s \<in> set old. me_remove_io env (sg_id s)"
  shows "exact_dirs (m\<lparr>mg_state := is_publish new st, mg_dirs := remove_dirs env old (mg_dirs m)\<rparr>)"
proof -
  have disjoint: "sg_dir_name s \<noteq> sg_dir_name t" if "s \<in> set old" "t \<in> set new" for s t
  proof -
    have "sg_id s < sg_id t" using manager_okD(2) [OF ok] that by (auto simp: snap sorted_wrt_append)
    moreover have "sg_dir_name s = seg_name (sg_id s)" "sg_dir_name t = seg_name (sg_id t)"
      using manager_okD(1) [OF ok] that by (auto simp: snap segment_ok_def)
    ultimately show ?thesis by simp
  qed
  have "remove_dirs env old (mg_dirs m) = filter (\<lambda>(n, _). n \<notin> sg_dir_name ` set old) (mg_dirs m)"
    using removed by (auto simp: remove_dirs_def list_ex_iff intro!: filter_cong)
  then have "fst ` set (filter is_segment_entry (remove_dirs env old (mg_dirs m)))
      = fst ` set (filter is_segment_entry (mg_dirs m)) - sg_dir_name ` set old"
    by (auto simp: image_iff)
  also have "\<dots> = sg_dir_name ` set new"
    using exact disjoint unfolding exact_dirs_def snap set_append image_Un by (auto simp del: set_filter) metis
  finally show ?thesis
    by (simp add: exact_dirs_def mg_snapshot_def is_snapshot_def is_publish_def)
qed

text \<open>The building phase of a compaction, from the collected files to the published list.\<close>

lemma compact_build:
  assumes env: "good_env env" and ok: "manager_ok env m" and fits: "fits (index_view env m)"
    and pairs: "map fst pairs = index_view env m" "processed (me_build env) pairs"
    and res: "build_all env (segment_build_from_compact (me_build env))
      (split_batches (\<lambda>f. unat (cf_size_bytes f)) n (map compact_input pairs)) m = (Inr segs, m1)"
  defines "m' \<equiv> m1\<lparr>mg_state := is_publish segs (mg_state m1), mg_dirs := remove_dirs env (mg_snapshot m) (mg_dirs m1)\<rparr>"
  shows "manager_ok env m'" "index_view env m' = index_view env m"
    "s \<in> set (mg_snapshot m') \<Longrightarrow> tombstones_or_default s = ts_new"
    "n = 0 \<Longrightarrow> length (mg_snapshot m') \<le> 1"
    "exact_dirs m \<Longrightarrow> (\<And>i. me_remove_io env i) \<Longrightarrow> exact_dirs m'"
proof -
  let ?pbs = "split_batches (\<lambda>x. unat (cf_size_bytes (compact_input x))) n pairs"
  let ?bs = "map (map compact_input) ?pbs"
  note res = res [unfolded split_batches_map]
  have batch: "processed (me_build env) pb" if "pb \<in> set ?pbs" for pb
  proof -
    have "set pb \<subseteq> set (concat ?pbs)" using that unfolding set_concat by blast
    with pairs(2) show ?thesis unfolding concat_split processed_def list_all_iff by blast
  qed
  have unc: "map uncompact (map compact_input pb) = map fst pb" for pb
    by (auto simp: comp_def)
  have conv: "built env (segment_build (me_build env)) (mg_dirs m1) (map uncompact b) s"
    if b: "b \<in> set ?bs" and s: "built env (segment_build_from_compact (me_build env)) (mg_dirs m1) b s" for b s
  proof -
    obtain pb where pb: "pb \<in> set ?pbs" "b = map compact_input pb" using b by auto
    show ?thesis
      unfolding pb(2) unc by (rule built_compact [OF batch [OF pb(1)] s [unfolded pb(2)]])
  qed
  have whole: "concat (map (map uncompact) ?bs) = index_view env m"
  proof -
    have "concat (map (map uncompact) ?bs) = map fst (concat ?pbs)"
      unfolding map_concat map_map by (intro arg_cong [where f = concat] map_cong) (simp_all only: comp_def unc)
    then show ?thesis using pairs(1) by simp
  qed
  note pub = build_all_published [where conv = "map uncompact", OF env ok res conv, unfolded whole, OF _ _ fits]
  have snap: "mg_snapshot m1 = mg_snapshot m"
    using build_all_ok [OF env ok res] by simp
  let ?m2 = "m1\<lparr>mg_state := is_publish segs (mg_state m1)\<rparr>"
  have m': "m' = ?m2\<lparr>mg_dirs := remove_dirs env (mg_snapshot m) (mg_dirs ?m2)\<rparr>"
    by (simp add: m'_def)
  have ok2: "manager_ok env ?m2" using pub(1) by blast
  have "sg_dir_name s \<noteq> sg_dir_name t" if "s \<in> set (mg_snapshot m)" "t \<in> set segs" for s t
  proof -
    have "sg_id s < sg_id t"
      using manager_okD(1) [OF ok that(1)] build_all_spec(6) [OF res refl that(2)] by (auto simp: segment_ok_def)
    moreover have "sg_dir_name s = seg_name (sg_id s)" "sg_dir_name t = seg_name (sg_id t)"
      using manager_okD(1) [OF ok that(1)] manager_okD(1) [OF ok2, of t] that(2) by (auto simp: segment_ok_def)
    ultimately show ?thesis by simp
  qed
  then show "manager_ok env m'"
    unfolding m' using remove_dirs_ok [OF ok2] by simp
  have view: "map (live_files (be_zstd (me_build env))) segs = map (map uncompact) ?bs"
    using pub(3) by blast
  then have "concat (map (live_files (be_zstd (me_build env))) segs) = index_view env m"
    using whole by simp
  then show "index_view env m' = index_view env m"
    by (simp add: m'_def index_view_def)
  show "s \<in> set (mg_snapshot m') \<Longrightarrow> tombstones_or_default s = ts_new"
    using pub(4) by (simp add: m'_def)
  have "length segs = length ?bs"
    using arg_cong [OF view, of length] by simp
  then show "n = 0 \<Longrightarrow> length (mg_snapshot m') \<le> 1"
    by (simp add: m'_def split_unlimited)
  show "exact_dirs m'" if "exact_dirs m" "\<And>i. me_remove_io env i"
  proof -
    let ?m3 = "m1\<lparr>mg_state := is_publish (mg_snapshot m @ segs) (mg_state m1)\<rparr>"
    have "manager_ok env ?m3" using pub(2) by blast
    moreover have "exact_dirs ?m3" using build_all_exact [OF env ok that(1) res] .
    ultimately have "exact_dirs (?m3\<lparr>mg_state := is_publish segs (mg_state m1),
        mg_dirs := remove_dirs env (mg_snapshot m) (mg_dirs ?m3)\<rparr>)"
      using remove_dirs_exact [of env ?m3 "mg_snapshot m" segs "mg_state m1"] that(2) by simp
    then show ?thesis by (simp add: m'_def)
  qed
qed

lemma compact_locked_view:
  assumes env: "good_env env" and ok: "manager_ok env m" and fits: "fits (index_view env m)"
    and res: "compact_locked env n m = (r, m')"
  shows "manager_ok env m' \<and> index_view env m' = index_view env m \<and>
    (r = Inr () \<longrightarrow> (\<forall>s \<in> set (mg_snapshot m'). ts_is_empty (tombstones_or_default s)) \<and>
       (n = 0 \<longrightarrow> length (mg_snapshot m') \<le> 1) \<and>
       (exact_dirs m \<and> (\<forall>i. me_remove_io env i) \<longrightarrow> exact_dirs m'))"
proof (cases "mg_snapshot m = []")
  case True
  with res ok show ?thesis by (simp add: compact_locked_def)
next
  case False
  let ?cur = "mg_snapshot m"
  let ?m1 = "m\<lparr>mg_state := is_publish (map load_cached ?cur) (mg_state m)\<rparr>"
  note cached = manager_cached [OF ok]
  let ?check = "if length ?cur = 1 then obind (load_tombstones (hd ?cur)) (\<lambda>(ts, _). Inr (ts_is_empty ts)) else Inr False"
  consider (err) e where "?check = Inl e" | (skip) "?check = Inr True" | (go) "?check = Inr False"
    by (cases ?check) auto
  then show ?thesis
  proof cases
    case (err e)
    with False res ok show ?thesis by (auto simp: compact_locked_def Let_def)
  next
    case skip
    from False res skip have m': "r = Inr ()" "m' = ?m1" by (auto simp: compact_locked_def Let_def)
    from skip obtain s where s: "?cur = [s]" and empty: "ts_is_empty (tombstones_or_default s)"
      using load_tombstones_cases(2) by (cases ?cur) (auto simp: obind_eq_Inr split: if_splits)
    have "\<forall>s \<in> set (mg_snapshot m'). ts_is_empty (tombstones_or_default s)"
      by (simp add: m' s empty load_cached_facts)
    with cached show ?thesis by (simp add: m' s)
  next
    case go
    have "\<exists>files. holds_files env s files" if "s \<in> set ?cur" for s
      using manager_okD(1) [OF ok that] by (simp add: segment_ok_def)
    then have "\<exists>live pairs. live_entries ?cur = Inr live \<and>
        collect_results (compact_entry (be_zstd (me_build env))) live = Inr (map compact_input pairs) \<and>
        map fst pairs = index_view env m \<and> processed (me_build env) pairs"
      unfolding index_view_def by (rule live_entries_spec)
    then obtain live pairs where
      live: "live_entries ?cur = Inr live" "collect_results (compact_entry (be_zstd (me_build env))) live = Inr (map compact_input pairs)"
      and pairs: "map fst pairs = index_view env m" "processed (me_build env) pairs"
      by blast
    obtain r1 m2 where res1: "build_all env (segment_build_from_compact (me_build env))
        (split_batches (\<lambda>f. unat (cf_size_bytes f)) n (map compact_input pairs)) ?m1 = (r1, m2)" by fastforce
    have run: "(r, m') = (case r1 of Inl e \<Rightarrow> (Inl e, m2)
      | Inr segs \<Rightarrow> (Inr (), m2\<lparr>mg_state := is_publish segs (mg_state m2), mg_dirs := remove_dirs env (map load_cached ?cur) (mg_dirs m2)\<rparr>))"
      using res False go live res1 by (auto simp: compact_locked_def Let_def split: sum.splits)
    show ?thesis
    proof (cases r1)
      case (Inl e)
      have "manager_ok env m2" "mg_snapshot m2 = mg_snapshot ?m1"
        using build_all_ok [OF env cached(1) res1] .
      with Inl run cached show ?thesis by (simp add: index_view_def)
    next
      case (Inr segs)
      have p1: "map fst pairs = index_view env ?m1" and f1: "fits (index_view env ?m1)"
        using pairs(1) fits cached(2) by simp_all
      note build = compact_build [OF env cached(1) f1 p1 pairs(2) res1 [unfolded Inr]]
      have m': "r = Inr ()" "m' = m2\<lparr>mg_state := is_publish segs (mg_state m2), mg_dirs := remove_dirs env (mg_snapshot ?m1) (mg_dirs m2)\<rparr>"
        using run Inr by simp_all
      have "ts_is_empty ts_new" by (simp add: ts_is_empty_def ts_new_def)
      with build cached(2,3) show ?thesis
        unfolding m' by auto
    qed
  qed
qed

lemma compact_spec:
  assumes "good_env env" and "manager_ok env m" and "fits (index_view env m)"
    and "compact_with_budget env max_segment_bytes m = (r, m')"
  shows "manager_ok env m' \<and> index_view env m' = index_view env m \<and>
    (r = Inr () \<longrightarrow> (\<forall>s \<in> set (mg_snapshot m'). ts_is_empty (tombstones_or_default s)) \<and>
       (max_segment_bytes = 0 \<longrightarrow> length (mg_snapshot m') \<le> 1) \<and>
       (exact_dirs m \<and> (\<forall>i. me_remove_io env i) \<longrightarrow> exact_dirs m'))"
proof -
  obtain m1 where res: "compact_locked env max_segment_bytes (m\<lparr>mg_is_compacting := True\<rparr>) = (r, m1)"
    and m': "m' = m1\<lparr>mg_is_compacting := False\<rparr>"
    using assms(4) by (auto simp: compact_with_budget_def compact_with_progress_def split: prod.splits)
  have flag: "manager_ok env (m\<lparr>mg_is_compacting := c\<rparr>) = manager_ok env m"
      "index_view env (m\<lparr>mg_is_compacting := c\<rparr>) = index_view env m"
      "exact_dirs (m\<lparr>mg_is_compacting := c\<rparr>) = exact_dirs m" for m c
    by (simp_all add: manager_ok_def index_view_def exact_dirs_def)
  show ?thesis
    using compact_locked_view [OF assms(1) _ _ res] assms(2,3) unfolding m' flag snapshot_update by blast
qed

end
