(* ===== verification/Apply_Tombstones.thy ===== *)
theory Apply_Tombstones
  imports Index_Lifecycle
begin

text \<open>
  The tombstone half of applying changes (\<open>apply_changes\<close> of
  \<open>ferret-core/src/segment_manager.rs\<close>): the live files at the changed paths are found in all segments,
  collected into one update per segment, and merged into the files and the caches of the segments. A
  failing write leaves the updates that were processed.
\<close>

section \<open>Finding the files of a path\<close>

lemma collect_results_concat:
  assumes "\<And>x. x \<in> set xs \<Longrightarrow> f x = Inr (if P x then [g x] else [])"
  shows "obind (collect_results f xs) (\<lambda>es. Inr (concat es)) = Inr (map g (filter P xs))"
proof -
  have "collect_results f xs = Inr (map (\<lambda>x. if P x then [g x] else []) xs)"
    by (rule collect_results_map) (rule assms)
  moreover have "concat (map (\<lambda>x. if P x then [g x] else []) xs) = map g (filter P xs)"
    by (induction xs) simp_all
  ultimately show ?thesis by simp
qed

lemma matching_entries_over:
  assumes over: "segment_over benv rd s files ps metas" and inputs: "inputs_ok files"
  shows "matching_entries s paths
    = Inr (map (nth metas) (filter (\<lambda>i. \<not> dead s i \<and> in_path (files ! i) \<in> set paths) [0..<length files]))"
proof -
  have iter: "iter_all (sg_metadata_reader s) = map (\<lambda>i. Inr (metas ! i)) [0..<length files]"
    using over by (intro nth_equalityI) (simp_all add: segment_over_def)
  note facts = segment_over_file [OF over inputs]
  show ?thesis
    unfolding matching_entries_def iter collect_results_comp
    by (rule collect_results_concat) (simp add: facts dead_def)
qed

lemma matching_hash:
  assumes over: "segment_over benv rd s files ps metas" and i: "i < length files"
  shows "fm_content_hash (metas ! i) = take 16 (be_hash benv (in_content (files ! i)))"
proof -
  have "entry_for (sg_content s) i (files ! i) (ps ! i) (metas ! i)"
    and "process_file benv (files ! i) = Inr (ps ! i)"
    using over i collect_results_Inr_nth [of "process_file benv" files ps] by (simp_all add: segment_over_def)
  with process_file_facts(1) [OF this(2)] show ?thesis by (simp add: entry_for_def)
qed

lemma set_push_entry: "set (concat (map snd (push_entry k v m))) = insert v (set (concat (map snd m)))"
  by (induction k v m rule: push_entry.induct) auto

lemma set_find_files:
  "set (concat (map snd (foldl (\<lambda>result (i, es). foldl (\<lambda>result e. push_entry (fm_path e) (i, fm_file_id e) result) result es) m xs)))
    = set (concat (map snd m)) \<union> {(i, fm_file_id e) | i es e. (i, es) \<in> set xs \<and> e \<in> set es}"
proof (induction xs arbitrary: m)
  case Nil
  then show ?case by simp
next
  case (Cons x xs)
  obtain i es where x: "x = (i, es)" by fastforce
  have "set (concat (map snd (foldl (\<lambda>result e. push_entry (fm_path e) (i, fm_file_id e) result) m es)))
      = set (concat (map snd m)) \<union> (\<lambda>e. (i, fm_file_id e)) ` set es" for m
    by (induction es arbitrary: m) (simp_all only: foldl.simps set_push_entry, auto)
  then show ?case
    using Cons.IH by (simp only: foldl.simps x prod.case) auto
qed

text \<open>The live files with one of the paths, by segment and file ID.\<close>

lemma find_files_spec:
  assumes "\<And>s. s \<in> set segs \<Longrightarrow> holds_files env s (F s)"
  shows "\<exists>locations. batch_find_files_in_segments segs paths = Inr locations \<and>
    (\<forall>i f. (i, f) \<in> set (concat (map snd locations)) \<longleftrightarrow>
      i < length segs \<and> (\<exists>j < length (F (segs ! i)). f = of_nat j \<and> \<not> dead (segs ! i) j \<and> in_path (F (segs ! i) ! j) \<in> set paths))"
proof -
  define Q where "Q s es \<longleftrightarrow> matching_entries s paths = Inr es \<and>
      fm_file_id ` set es = of_nat ` {j. j < length (F s) \<and> \<not> dead s j \<and> in_path (F s ! j) \<in> set paths}" for s es
  have "\<exists>es. Q s es"
    if s: "s \<in> set segs" for s
  proof -
    obtain ps metas where over: "segment_over (me_build env) (me_read_varint env) s (F s) ps metas" and inputs: "inputs_ok (F s)"
      using assms [OF s] by (auto simp: holds_files_def fits_def)
    let ?ix = "filter (\<lambda>i. \<not> dead s i \<and> in_path (F s ! i) \<in> set paths) [0..<length (F s)]"
    have "map fm_file_id (map (nth metas) ?ix) = map of_nat ?ix"
      using segment_over_file(2) [OF over inputs] by simp
    from arg_cong [OF this, of set]
    have "fm_file_id ` set (map (nth metas) ?ix) = of_nat ` set ?ix"
      unfolding set_map .
    moreover have "set ?ix = {j. j < length (F s) \<and> \<not> dead s j \<and> in_path (F s ! j) \<in> set paths}"
      by auto
    ultimately show ?thesis
      using matching_entries_over [OF over inputs, of paths] by (intro exI [of _ "map (nth metas) ?ix"]) (simp add: Q_def)
  qed
  then obtain E where "\<And>s. s \<in> set segs \<Longrightarrow> Q s (E s)" by metis
  then have E: "\<And>s. s \<in> set segs \<Longrightarrow> matching_entries s paths = Inr (E s)"
      "\<And>s. s \<in> set segs \<Longrightarrow> fm_file_id ` set (E s) = of_nat ` {j. j < length (F s) \<and> \<not> dead s j \<and> in_path (F s ! j) \<in> set paths}"
    unfolding Q_def by simp_all
  have found: "collect_results (\<lambda>s. matching_entries s paths) segs = Inr (map E segs)"
    by (rule collect_results_map) (rule E(1))
  let ?loc = "foldl (\<lambda>result (i, es). foldl (\<lambda>result e. push_entry (fm_path e) (i, fm_file_id e) result) result es)
      [] (enumerate 0 (map E segs))"
  have "(i, f) \<in> set (concat (map snd ?loc)) \<longleftrightarrow>
      i < length segs \<and> (\<exists>j < length (F (segs ! i)). f = of_nat j \<and> \<not> dead (segs ! i) j \<and> in_path (F (segs ! i) ! j) \<in> set paths)"
    for i f
  proof -
    have "(i, f) \<in> set (concat (map snd ?loc)) \<longleftrightarrow> i < length segs \<and> f \<in> fm_file_id ` set (E (segs ! i))"
      unfolding set_find_files by (auto simp: in_set_enumerate_eq)
    also have "\<dots> \<longleftrightarrow> i < length segs \<and>
        f \<in> of_nat ` {j. j < length (F (segs ! i)) \<and> \<not> dead (segs ! i) j \<and> in_path (F (segs ! i) ! j) \<in> set paths}"
      by (cases "i < length segs") (simp_all only: E(2) [OF nth_mem] simp_thms)
    finally show ?thesis by auto
  qed
  then show ?thesis
    unfolding batch_find_files_in_segments_def found obind_Inr by blast
qed

section \<open>Tombstone updates\<close>

lemma length_ts_insert:
  assumes "unat f < 4294967232" and "length (ts_words ts) \<le> 67108863"
  shows "length (ts_words (ts_insert f ts)) \<le> 67108863"
proof (rule insert_words [of f ts])
  have "unat f < 67108863 * 64" using assms(1) by simp
  then have idx: "Suc (unat f div 64) \<le> 67108863"
    by (simp add: less_mult_imp_div_less Suc_le_eq)
  fix words
  assume "length words = max (length (ts_words ts)) (Suc (unat f div 64))"
    and "ts_insert f ts =
       (if words ! (unat f div 64) AND push_bit (unat f mod 64) 1 = 0
        then \<lparr>ts_words = words[unat f div 64 := words ! (unat f div 64) OR push_bit (unat f mod 64) 1],
              ts_count = ts_count ts + 1\<rparr>
        else \<lparr>ts_words = words, ts_count = ts_count ts\<rparr>)"
  with idx assms(2) show ?thesis by simp
qed

lemma length_ts_merge:
  "length (ts_words (ts_merge ts other)) = max (length (ts_words ts)) (length (ts_words other))"
  by (simp add: ts_merge_def Let_def resize_def)

lemma contains_merge: "ts_contains (ts_merge ts other) f \<longleftrightarrow> ts_contains ts f \<or> ts_contains other f"
  by (simp add: contains_bits tombstones_merge)

definition small_set :: "tombstone_set \<Rightarrow> bool" where
  "small_set ts \<longleftrightarrow> ts_reachable ts \<and> length (ts_words ts) \<le> 67108863"

lemma small_new: "small_set ts_new"
  by (simp add: small_set_def reach_new) (simp add: ts_new_def)

lemma small_insert: "small_set ts \<Longrightarrow> unat f < 4294967232 \<Longrightarrow> small_set (ts_insert f ts)"
  by (simp add: small_set_def reach_insert length_ts_insert)

lemma small_merge: "small_set ts \<Longrightarrow> small_set other \<Longrightarrow> small_set (ts_merge ts other)"
  by (simp add: small_set_def reach_merge length_ts_merge)

lemma tombs_ok_small: "tombs_ok s \<longleftrightarrow> (\<exists>ts s'. load_tombstones s = Inr (ts, s') \<and> small_set ts)"
  by (simp add: tombs_ok_def small_set_def)

text \<open>One set per segment with a location, holding exactly its file IDs.\<close>

lemma tombstone_updates_spec:
  assumes "\<forall>(i, f) \<in> set locs. unat f < 4294967232"
  shows "distinct (map fst (tombstone_updates locs))"
    "fst ` set (tombstone_updates locs) = fst ` set locs"
    "map_of (tombstone_updates locs) i = Some ts \<Longrightarrow> small_set ts \<and> (ts_contains ts f \<longleftrightarrow> (i, f) \<in> set locs)"
proof -
  have "distinct (map fst (tombstone_updates locs)) \<and> fst ` set (tombstone_updates locs) = fst ` set locs \<and>
    (\<forall>i ts. map_of (tombstone_updates locs) i = Some ts \<longrightarrow>
      small_set ts \<and> (\<forall>f. ts_contains ts f \<longleftrightarrow> (i, f) \<in> set locs))"
    using assms
  proof (induction locs rule: rev_induct)
    case Nil
    then show ?case by (simp add: tombstone_updates_def)
  next
    case (snoc loc locs)
    obtain k g where loc: "loc = (k, g)" by fastforce
    let ?u = "tombstone_updates locs"
    let ?old = "case map_of ?u k of Some ts \<Rightarrow> ts | None \<Rightarrow> ts_new"
    have "\<forall>(i, f) \<in> set locs. unat f < 4294967232" using snoc.prems by simp
    note IH0 = snoc.IH [OF this]
    have IH: "distinct (map fst ?u)" "fst ` set ?u = fst ` set locs"
      "\<And>i ts. map_of ?u i = Some ts \<Longrightarrow> small_set ts \<and> (\<forall>f. ts_contains ts f \<longleftrightarrow> (i, f) \<in> set locs)"
      using IH0 by blast+
    have step: "tombstone_updates (locs @ [loc]) = AList.update k (ts_insert g ?old) ?u"
      by (simp add: tombstone_updates_def loc)
    have "k \<notin> fst ` set locs" if "map_of ?u k = None"
      using that IH(2) by (simp add: map_of_eq_None_iff)
    then have old: "small_set ?old \<and> (\<forall>f. ts_contains ?old f \<longleftrightarrow> (k, f) \<in> set locs)"
      using IH(3) [of k] by (cases "map_of ?u k") (auto simp: small_new tomb.contains_empty image_iff)
    have "unat g < 4294967232" using snoc.prems by (simp add: loc)
    with old have "small_set (ts_insert g ?old)" by (simp add: small_insert)
    moreover have "ts_contains (ts_insert g ?old) f \<longleftrightarrow> f = g \<or> (k, f) \<in> set locs" for f
      using old by (simp add: tomb.contains_insert)
    ultimately show ?case
      using IH unfolding step by (auto simp: distinct_update dom_update loc)
  qed
  then show "distinct (map fst (tombstone_updates locs))"
    "fst ` set (tombstone_updates locs) = fst ` set locs"
    "map_of (tombstone_updates locs) i = Some ts \<Longrightarrow> small_set ts \<and> (ts_contains ts f \<longleftrightarrow> (i, f) \<in> set locs)"
    by blast+
qed

section \<open>Writing the tombstones\<close>

text \<open>The directory of a segment after its tombstone file is replaced.\<close>

lemma open_dir_tombstones:
  assumes "open_segment_dir rd name d i = Inr s"
  shows "open_segment_dir rd name (AList.update ''tombstones.bin'' data d) i = Inr (s\<lparr>sg_disk_tombstones := Some data\<rparr>)"
    "sg_cached_tombstones s = None"
  using assms by (auto simp: open_segment_dir_def dir_file_def segment_open_def obind_eq_Inr)

lemma read_written_small:
  assumes "small_set ts" and "sg_cached_tombstones s = None"
  defines "s' \<equiv> s\<lparr>sg_disk_tombstones := Some (ts_write_to ts)\<rparr>"
  shows "tombs_ok s'" "tombstones_or_default s' = ts"
proof -
  have "length (ts_write_to ts) \<noteq> 0" by (simp add: ts_write_to_def)
  then have "ts_write_to ts \<noteq> []" by simp
  moreover have "ts_read_from (ts_write_to ts) = Inr ts"
    using assms(1) ts_reachable_ok [of ts] by (intro ts_read_write) (simp_all add: small_set_def)
  ultimately have "load_tombstones s' = Inr (ts, s'\<lparr>sg_cached_tombstones := Some ts\<rparr>)"
    using assms(2) by (simp add: s'_def load_tombstones_def load_tombstones_from_disk_def)
  then show "tombs_ok s'" "tombstones_or_default s' = ts"
    using assms(1) by (auto simp: tombs_ok_small tombstones_or_default_def)
qed

lemma same_core_disk: "same_core s (s\<lparr>sg_disk_tombstones := data\<rparr>)"
  by (cases s) (simp add: same_core_def)

lemma placed_written:
  assumes placed: "placed env dirs s" and small: "small_set ts"
    and res: "write_tombstone_file env s ts dirs = Inr dirs'"
  shows "placed env dirs' (set_cached_tombstones ts s)"
proof -
  obtain d s0 where d: "map_of dirs (sg_dir_name s) = Some (Dir d)"
    and s0: "open_segment_dir (me_read_varint env) (sg_dir_name s) d (sg_id s) = Inr s0" and core: "same_core s s0"
    using placed by (auto simp: placed_def)
  have dirs': "dirs' = AList.update (sg_dir_name s) (Dir (AList.update ''tombstones.bin'' (ts_write_to ts) d)) dirs"
    using res d by (simp add: write_tombstone_file_def split: if_splits)
  note opened = open_dir_tombstones [OF s0]
  let ?s1 = "s0\<lparr>sg_disk_tombstones := Some (ts_write_to ts)\<rparr>"
  have "same_core (set_cached_tombstones ts s) ?s1"
    using same_core_sym [OF same_core_cached] core same_core_disk same_core_trans by blast
  moreover have "tombs_ok ?s1" "tombstones_or_default ?s1 = tombstones_or_default (set_cached_tombstones ts s)"
    using read_written_small [OF small opened(2)] by simp_all
  moreover have "sg_dir_name (set_cached_tombstones ts s) = sg_dir_name s" "sg_id (set_cached_tombstones ts s) = sg_id s"
    by (simp_all add: set_cached_tombstones_def)
  ultimately show ?thesis
    unfolding placed_def using opened(1) by (simp add: dirs')
qed

text \<open>Writing a tombstone file changes what the directories hold, not which ones there are.\<close>

definition same_dirs :: "dir_listing \<Rightarrow> dir_listing \<Rightarrow> bool" where
  "same_dirs dirs dirs' \<longleftrightarrow>
     (distinct (map fst dirs) \<longrightarrow> distinct (map fst dirs')) \<and>
     (\<forall>n. (\<exists>d. map_of dirs' n = Some (Dir d)) \<longleftrightarrow> (\<exists>d. map_of dirs n = Some (Dir d)))"

lemma segment_entry_iff: "(\<exists>e. map_of dirs n = Some e \<and> is_segment_entry (n, e)) \<longleftrightarrow>
    prefix ''seg_'' (from_utf8_lossy n) \<and> (\<exists>d. map_of dirs n = Some (Dir d))"
  by (cases "map_of dirs n"; cases "the (map_of dirs n)") (simp_all add: is_segment_entry_def)

lemma same_dirs_refl [simp]: "same_dirs dirs dirs"
  by (simp add: same_dirs_def)

lemma same_dirs_trans: "same_dirs a b \<Longrightarrow> same_dirs b c \<Longrightarrow> same_dirs a c"
  by (simp add: same_dirs_def)

lemma write_tombstone_file_dirs:
  assumes "write_tombstone_file env s ts dirs = Inr dirs'"
  shows "same_dirs dirs dirs'" "n \<noteq> sg_dir_name s \<Longrightarrow> map_of dirs' n = map_of dirs n"
  using assms
  by (auto simp: write_tombstone_file_def same_dirs_def distinct_update
      split: option.splits dir_entry.splits if_splits)

definition tomb_segment :: "manager_env \<Rightarrow> dir_listing \<Rightarrow> segment \<Rightarrow> bool" where
  "tomb_segment env dirs s \<longleftrightarrow> tombs_ok s \<and> placed env dirs s"

lemma tomb_segment_frame:
  "tomb_segment env dirs s \<Longrightarrow> map_of dirs' (sg_dir_name s) = map_of dirs (sg_dir_name s) \<Longrightarrow> tomb_segment env dirs' s"
  by (simp add: tomb_segment_def placed_def)

text \<open>
  After the writes, also after a failing one, every segment is the same but for its tombstones, which
  have grown by the new sets of the updates that were processed.
\<close>

definition grown :: "(nat \<times> tombstone_set) list \<Rightarrow> nat set \<Rightarrow> nat \<Rightarrow> segment \<Rightarrow> segment \<Rightarrow> bool" where
  "grown updates processed_ix j s t \<longleftrightarrow>
     same_core s t \<and>
     (\<forall>f. ts_contains (tombstones_or_default t) f \<longleftrightarrow>
        ts_contains (tombstones_or_default s) f \<or>
        (j \<in> processed_ix \<and> (\<exists>ts. map_of updates j = Some ts \<and> ts_contains ts f)))"

lemma write_tombstones_spec:
  assumes "\<And>j. j < length segs \<Longrightarrow> tomb_segment env dirs (segs ! j)"
    and "distinct (map sg_dir_name segs)" and "distinct (map fst updates)"
    and "\<And>i ts. (i, ts) \<in> set updates \<Longrightarrow> i < length segs \<and> small_set ts"
    and "write_tombstones env updates segs dirs = (r, segs', dirs')"
  shows "\<exists>processed_ix. processed_ix \<subseteq> fst ` set updates \<and> (r = Inr () \<longrightarrow> processed_ix = fst ` set updates) \<and>
    ((\<forall>i. me_tombstone_io env i) \<longrightarrow> r = Inr ()) \<and> length segs' = length segs \<and> same_dirs dirs dirs' \<and>
    (\<forall>n. n \<notin> sg_dir_name ` set segs \<longrightarrow> map_of dirs' n = map_of dirs n) \<and>
    (\<forall>j < length segs. tomb_segment env dirs' (segs' ! j) \<and> grown updates processed_ix j (segs ! j) (segs' ! j))"
  using assms
proof (induction updates arbitrary: segs dirs)
  case Nil
  then show ?case by (auto simp: grown_def)
next
  case (Cons u updates)
  obtain i new where u: "u = (i, new)" by fastforce
  let ?s = "segs ! i"
  have i: "i < length segs" and new: "small_set new" using Cons.prems(4) [of i new] by (simp_all add: u)
  have "tombs_ok ?s" and placed: "placed env dirs ?s" using Cons.prems(1) [OF i] by (simp_all add: tomb_segment_def)
  then obtain ts s' where load: "load_tombstones ?s = Inr (ts, s')" and small: "small_set ts" by (auto simp: tombs_ok_small)
  let ?ts = "ts_merge ts new"
  have small': "small_set ?ts" using small new by (rule small_merge)
  show ?case
  proof (cases "write_tombstone_file env ?s ?ts dirs")
    case (Inl e)
    with Cons.prems(5) load have "segs' = segs" "dirs' = dirs" "r = Inl e" by (simp_all add: u)
    moreover have "\<not> me_tombstone_io env (sg_id ?s)"
      using Inl placed by (auto simp: write_tombstone_file_def placed_def split: if_splits)
    ultimately show ?thesis using Cons.prems(1) by (intro exI [of _ "{}"]) (auto simp: grown_def)
  next
    case (Inr dirs1)
    let ?t = "set_cached_tombstones ?ts ?s"
    let ?segs1 = "segs[i := ?t]"
    note frame = write_tombstone_file_dirs [OF Inr]
    have run: "write_tombstones env updates ?segs1 dirs1 = (r, segs', dirs')"
      using Cons.prems(5) load Inr by (simp add: u)
    have names: "map sg_dir_name ?segs1 = map sg_dir_name segs"
      using i by (simp add: map_update set_cached_tombstones_def list_update_same_conv)
    have "tomb_segment env dirs1 ?t"
      using small' placed_written [OF placed small' Inr] by (auto simp: tomb_segment_def tombs_ok_small)
    moreover have "tomb_segment env dirs1 (segs ! j)" if "j < length segs" "j \<noteq> i" for j
    proof (rule tomb_segment_frame [OF Cons.prems(1) [OF that(1)]])
      have "sg_dir_name (segs ! j) \<noteq> sg_dir_name ?s"
        using Cons.prems(2) that i by (simp add: distinct_conv_nth)
      then show "map_of dirs1 (sg_dir_name (segs ! j)) = map_of dirs (sg_dir_name (segs ! j))" by (rule frame(2))
    qed
    ultimately have "tomb_segment env dirs1 (?segs1 ! j)" if "j < length ?segs1" for j
      using that by (cases "j = i") simp_all
    moreover have "i \<notin> fst ` set updates" and dist: "distinct (map fst updates)" using Cons.prems(3) by (simp_all add: u)
    moreover have "k < length ?segs1 \<and> small_set us" if "(k, us) \<in> set updates" for k us
      using Cons.prems(4) [of k us] that by simp
    ultimately obtain processed_ix where p: "processed_ix \<subseteq> fst ` set updates" "r = Inr () \<longrightarrow> processed_ix = fst ` set updates"
        "length segs' = length segs" "same_dirs dirs1 dirs'"
        "\<forall>n. n \<notin> sg_dir_name ` set ?segs1 \<longrightarrow> map_of dirs' n = map_of dirs1 n"
        "(\<forall>i. me_tombstone_io env i) \<longrightarrow> r = Inr ()"
      and each: "\<And>j. j < length segs \<Longrightarrow> tomb_segment env dirs' (segs' ! j) \<and> grown updates processed_ix j (?segs1 ! j) (segs' ! j)"
      using Cons.IH [OF _ _ dist _ run] Cons.prems(2) unfolding names length_list_update by blast
    have "grown (u # updates) (insert i processed_ix) j (segs ! j) (segs' ! j)" if j: "j < length segs" for j
    proof (cases "j = i")
      case True
      have "i \<notin> processed_ix" using p(1) \<open>i \<notin> fst ` set updates\<close> by blast
      then show ?thesis
        using each [OF j] True i load_tombstones_cases(2) [OF load] same_core_trans [OF same_core_cached]
        by (auto simp: grown_def u contains_merge)
    next
      case False
      then show ?thesis using each [OF j] by (simp add: grown_def u)
    qed
    moreover have "set (map sg_dir_name ?segs1) = set (map sg_dir_name segs)" unfolding names ..
    then have "sg_dir_name ` set ?segs1 = sg_dir_name ` set segs" by simp
    moreover from this have "map_of dirs' n = map_of dirs n" if n: "n \<notin> sg_dir_name ` set segs" for n
      using p(5) frame(2) [of n] n nth_mem [OF i] by auto
    ultimately show ?thesis
      using p(1-4,6) each same_dirs_trans [OF frame(1)] by (intro exI [of _ "insert i processed_ix"]) (auto simp: u)
  qed
qed

end
