(* ===== verification/Apply_Changes.thy ===== *)
theory Apply_Changes
  imports Apply_Tombstones
begin

text \<open>
  What applying changes does to the index (\<open>apply_changes\<close> of
  \<open>ferret-core/src/segment_manager.rs\<close>): the files at the tombstoned paths disappear, the changed
  files that are read from the working tree appear after the others, and a failure removes at most files
  at tombstoned paths.
\<close>

section \<open>The hashes of the indexed files\<close>

text \<open>The stored hash of the newest file with a path.\<close>

definition view_hashes :: "manager_env \<Rightarrow> input_file list \<Rightarrow> text_utf8 \<rightharpoonup> bytes" where
  "view_hashes env view =
     map_of (rev (map (\<lambda>f. (in_path f, take 16 (be_hash (me_build env) (in_content f)))) view))"

lemma foldl_map_update: "foldl (\<lambda>r e. r(k e \<mapsto> v e)) Map.empty xs = map_of (rev (map (\<lambda>e. (k e, v e)) xs))"
  by (induction xs rule: rev_induct) simp_all

lemma matching_entries_hashes:
  assumes "holds_files env s F"
  shows "\<exists>es. matching_entries s paths = Inr es \<and>
    map (\<lambda>e. (fm_path e, fm_content_hash e)) es =
      map (\<lambda>f. (in_path f, take 16 (be_hash (me_build env) (in_content f))))
        (filter (\<lambda>f. in_path f \<in> set paths) (live_files (be_zstd (me_build env)) s))"
proof -
  obtain ps metas where over: "segment_over (me_build env) (me_read_varint env) s F ps metas" and inputs: "inputs_ok F"
    using assms by (auto simp: holds_files_def fits_def)
  let ?ix = "filter (\<lambda>i. \<not> dead s i \<and> in_path (F ! i) \<in> set paths) [0..<length F]"
  have "filter (\<lambda>f. in_path f \<in> set paths) (live_files (be_zstd (me_build env)) s) = map (nth F) ?ix"
    unfolding live_files_over [OF over inputs] by (simp add: filter_map comp_def conj_commute)
  then show ?thesis
    using matching_entries_over [OF over inputs, of paths] segment_over_file(3) [OF over inputs] matching_hash [OF over]
    by (intro exI [of _ "map (nth metas) ?ix"]) simp
qed

lemma find_hashes_spec:
  assumes "\<And>s. s \<in> set segs \<Longrightarrow> \<exists>files. holds_files env s files"
  shows "\<exists>h. batch_find_file_hashes segs paths = Inr h \<and>
    (\<forall>p \<in> set paths. h p = view_hashes env (concat (map (live_files (be_zstd (me_build env))) segs)) p)"
proof -
  let ?key = "\<lambda>f. (in_path f, take 16 (be_hash (me_build env) (in_content f)))"
  let ?live = "live_files (be_zstd (me_build env))"
  define Q where "Q s es \<longleftrightarrow> matching_entries s paths = Inr es \<and>
    map (\<lambda>e. (fm_path e, fm_content_hash e)) es = map ?key (filter (\<lambda>f. in_path f \<in> set paths) (?live s))" for s es
  have "\<exists>es. Q s es" if s: "s \<in> set segs" for s
    using assms [OF s] matching_entries_hashes [of env s _ paths] unfolding Q_def by blast
  then obtain E where "\<And>s. s \<in> set segs \<Longrightarrow> Q s (E s)" by metis
  then have E: "\<And>s. s \<in> set segs \<Longrightarrow> matching_entries s paths = Inr (E s)"
    "\<And>s. s \<in> set segs \<Longrightarrow> map (\<lambda>e. (fm_path e, fm_content_hash e)) (E s) = map ?key (filter (\<lambda>f. in_path f \<in> set paths) (?live s))"
    unfolding Q_def by simp_all
  have found: "collect_results (\<lambda>s. matching_entries s paths) segs = Inr (map E segs)"
    by (rule collect_results_map) (rule E(1))
  have "map (\<lambda>e. (fm_path e, fm_content_hash e)) (concat (map E segs))
      = map ?key (filter (\<lambda>f. in_path f \<in> set paths) (concat (map ?live segs)))"
    using E(2) by (induction segs) simp_all
  then have keys: "rev (map (\<lambda>e. (fm_path e, fm_content_hash e)) (concat (map E segs)))
      = filter (\<lambda>(p, _). p \<in> set paths) (rev (map ?key (concat (map ?live segs))))"
    by (simp only: filter_map rev_filter [symmetric] comp_def prod.case)
  show ?thesis
    unfolding batch_find_file_hashes_def found obind_Inr foldl_map_update keys map_of_filter_key view_hashes_def
    by simp
qed

lemma map_filter_cong: "(\<And>x. x \<in> set xs \<Longrightarrow> f x = g x) \<Longrightarrow> List.map_filter f xs = List.map_filter g xs"
  by (induction xs) (auto simp: List.map_filter_simps split: option.splits)

text \<open>The files that the changes bring, read from the working tree.\<close>

definition changed_files ::
  "manager_env \<Rightarrow> work_tree \<Rightarrow> bytes \<Rightarrow> change_event list \<Rightarrow> input_file list \<Rightarrow> input_file list" where
  "changed_files env tree repo_dir changes view =
     List.map_filter
       (read_change env tree repo_dir (changed_paths needs_tombstone changes) (view_hashes env view))
       (filter (\<lambda>c. needs_new_entry (ce_kind c)) changes)"

lemma changed_files_hashes:
  assumes "\<forall>p \<in> set (changed_paths needs_new_entry changes). h p = view_hashes env view p"
  shows "List.map_filter (read_change env tree repo_dir (changed_paths needs_tombstone changes) h)
    (filter (\<lambda>c. needs_new_entry (ce_kind c)) changes) = changed_files env tree repo_dir changes view"
proof -
  have "read_change env tree repo_dir T h c = read_change env tree repo_dir T (view_hashes env view) c"
    if "c \<in> set (filter (\<lambda>c. needs_new_entry (ce_kind c)) changes)" for c T
  proof -
    have "from_utf8_lossy (ce_path c) \<in> set (changed_paths needs_new_entry changes)"
      using that by (auto simp: changed_paths_def)
    with assms have "h (from_utf8_lossy (ce_path c)) = view_hashes env view (from_utf8_lossy (ce_path c))" by blast
    then show ?thesis by (simp only: read_change_def Let_def)
  qed
  then show ?thesis
    unfolding changed_files_def by (intro map_filter_cong)
qed

section \<open>The files of a segment after its tombstones have grown\<close>

lemma live_files_grown:
  assumes holds: "holds_files env s F" "tombs_ok t" and grown: "grown updates processed_ix j s t"
    and updates: "\<And>ts f. map_of updates j = Some ts \<Longrightarrow> ts_contains ts f \<longleftrightarrow>
      (\<exists>k < length F. f = of_nat k \<and> \<not> dead s k \<and> in_path (F ! k) \<in> set paths)"
    and sub: "processed_ix \<subseteq> dom (map_of updates)"
  shows "live_files (be_zstd (me_build env)) t
    = filter (\<lambda>f. \<not> (j \<in> processed_ix \<and> in_path f \<in> set paths)) (live_files (be_zstd (me_build env)) s)"
proof -
  have core: "same_core s t" using grown by (simp add: grown_def)
  have holds_t: "holds_files env t F" using holds_files_cong [OF core holds(2,1)] .
  have len: "length F \<le> 4294967232" using holds(1) by (simp add: holds_files_def fits_def)
  have "dead t i \<longleftrightarrow> dead s i \<or> (j \<in> processed_ix \<and> in_path (F ! i) \<in> set paths)" if i: "i < length F" for i
  proof -
    have inj: "(of_nat i :: u32) = of_nat k \<longleftrightarrow> i = k" if "k < length F" for k
    proof -
      have "unat (of_nat n :: u32) = n" if "n < length F" for n
        using that len by (simp add: unat_of_nat)
      with i that show ?thesis by metis
    qed
    have "dead t i \<longleftrightarrow> dead s i \<or> (j \<in> processed_ix \<and> (\<exists>ts. map_of updates j = Some ts \<and> ts_contains ts (of_nat i)))"
      using grown by (simp add: grown_def dead_def)
    also have "\<dots> \<longleftrightarrow> dead s i \<or> (j \<in> processed_ix \<and> (\<exists>k < length F. (of_nat i :: u32) = of_nat k \<and> \<not> dead s k \<and> in_path (F ! k) \<in> set paths))"
      using sub updates by blast
    also have "\<dots> \<longleftrightarrow> dead s i \<or> (j \<in> processed_ix \<and> in_path (F ! i) \<in> set paths)"
      using inj i by blast
    finally show ?thesis .
  qed
  then have "filter (\<lambda>i. \<not> dead t i) [0..<length F]
      = filter (\<lambda>i. \<not> dead s i \<and> \<not> (j \<in> processed_ix \<and> in_path (F ! i) \<in> set paths)) [0..<length F]"
    by (intro filter_cong) auto
  then show ?thesis
    unfolding holds_live_files [OF holds_t] holds_live_files [OF holds(1)]
    by (simp add: filter_map comp_def conj_commute)
qed

text \<open>The segments after the tombstone writes of one set of paths, by the indices that were processed.\<close>

lemma live_files_update:
  assumes holds: "\<And>s. s \<in> set segs \<Longrightarrow> holds_files env s (F s)"
    and locs: "\<forall>i f. (i, f) \<in> set locs \<longleftrightarrow>
      i < length segs \<and> (\<exists>j < length (F (segs ! i)). f = of_nat j \<and> \<not> dead (segs ! i) j \<and> in_path (F (segs ! i) ! j) \<in> set paths)"
    and sub: "processed_ix \<subseteq> fst ` set locs"
    and j: "j < length segs" and t: "tombs_ok t" "grown (tombstone_updates locs) processed_ix j (segs ! j) t"
  shows "live_files (be_zstd (me_build env)) t
    = filter (\<lambda>f. \<not> (j \<in> processed_ix \<and> in_path f \<in> set paths)) (live_files (be_zstd (me_build env)) (segs ! j))"
    "fst ` set locs \<subseteq> processed_ix \<Longrightarrow> live_files (be_zstd (me_build env)) t
    = filter (\<lambda>f. in_path f \<notin> set paths) (live_files (be_zstd (me_build env)) (segs ! j))"
proof -
  let ?s = "segs ! j"
  have s: "holds_files env ?s (F ?s)" using holds j by simp
  have small: "\<forall>(i, f) \<in> set locs. unat f < 4294967232"
  proof (clarify)
    fix i f assume "(i, f) \<in> set locs"
    with locs obtain k where k: "i < length segs" "k < length (F (segs ! i))" "f = of_nat k" by blast
    have "length (F (segs ! i)) \<le> 4294967232" using holds [OF nth_mem [OF k(1)]] by (simp add: holds_files_def fits_def)
    with k show "unat f < 4294967232" by (simp add: unat_of_nat)
  qed
  note upd = tombstone_updates_spec [OF small]
  have dom: "dom (map_of (tombstone_updates locs)) = fst ` set locs" using upd(2) by (simp add: dom_map_of_conv_image_fst)
  show eq: "live_files (be_zstd (me_build env)) t
    = filter (\<lambda>f. \<not> (j \<in> processed_ix \<and> in_path f \<in> set paths)) (live_files (be_zstd (me_build env)) ?s)"
  proof (rule live_files_grown [OF s t])
    show "ts_contains ts f \<longleftrightarrow> (\<exists>k < length (F ?s). f = of_nat k \<and> \<not> dead ?s k \<and> in_path (F ?s ! k) \<in> set paths)"
      if "map_of (tombstone_updates locs) j = Some ts" for ts f
      using upd(3) [OF that] locs j by simp
    show "processed_ix \<subseteq> dom (map_of (tombstone_updates locs))" unfolding dom by (rule sub)
  qed
  assume all: "fst ` set locs \<subseteq> processed_ix"
  have "j \<in> processed_ix \<longleftrightarrow> True" if f: "f \<in> set (live_files (be_zstd (me_build env)) ?s)" "in_path f \<in> set paths" for f
  proof -
    obtain i where "i < length (F ?s)" "\<not> dead ?s i" "f = F ?s ! i"
      using f(1) unfolding holds_live_files [OF s] by auto
    then have "(j, of_nat i) \<in> set locs" using locs j f(2) by blast
    then show ?thesis using all by force
  qed
  then show "live_files (be_zstd (me_build env)) t = filter (\<lambda>f. in_path f \<notin> set paths) (live_files (be_zstd (me_build env)) ?s)"
    unfolding eq by (intro filter_cong) auto
qed

section \<open>The manager after the tombstone writes\<close>

definition retombed :: "manager_env \<Rightarrow> dir_listing \<Rightarrow> segment list \<Rightarrow> segment list \<Rightarrow> bool" where
  "retombed env dirs cur cur' \<longleftrightarrow> list_all2 (\<lambda>s t. same_core s t \<and> tomb_segment env dirs t) cur cur'"

lemma retombed_names:
  assumes "retombed env dirs cur cur'"
  shows "map sg_id cur' = map sg_id cur" "map sg_dir_name cur' = map sg_dir_name cur"
  using assms by (auto simp: retombed_def list_all2_conv_all_nth same_core_eq intro!: nth_equalityI)

lemma retombed_ok:
  assumes ok: "manager_ok env m" and snap: "mg_snapshot m = cur @ new" and re: "retombed env dirs' cur cur'"
    and same: "same_dirs (mg_dirs m) dirs'"
    and frame: "\<forall>n. n \<notin> sg_dir_name ` set cur \<longrightarrow> map_of dirs' n = map_of (mg_dirs m) n"
  shows "manager_ok env (m\<lparr>mg_dirs := dirs', mg_state := is_publish (cur' @ new) st\<rparr>)"
    "exact_dirs m \<Longrightarrow> exact_dirs (m\<lparr>mg_dirs := dirs', mg_state := is_publish (cur' @ new) st\<rparr>)"
proof -
  let ?m = "m\<lparr>mg_dirs := dirs', mg_state := is_publish (cur' @ new) st\<rparr>"
  note names = retombed_names [OF re]
  have snap': "mg_snapshot ?m = cur' @ new" by simp
  have dist: "distinct (map fst dirs')" using same manager_okD(3) [OF ok] by (simp add: same_dirs_def)
  have "segment_ok env ?m t" if t: "t \<in> set cur'" for t
  proof -
    obtain i where i: "i < length cur'" "t = cur' ! i" using t by (metis in_set_conv_nth)
    define s where "s = cur ! i"
    have s: "s \<in> set cur" "same_core s t" "tombs_ok t" "placed env dirs' t"
      using re i by (simp_all add: s_def retombed_def tomb_segment_def list_all2_conv_all_nth)
    then have "segment_ok env m s" using manager_okD(1) [OF ok] snap by simp
    then show ?thesis
      using s same_core_eq [OF s(2)] holds_files_cong [OF s(2,3)] by (auto simp: segment_ok_def)
  qed
  moreover have "segment_ok env ?m t" if t: "t \<in> set new" for t
  proof (rule segment_ok_frame)
    show t_ok: "segment_ok env m t" using manager_okD(1) [OF ok] snap t by simp
    have "sg_dir_name s \<noteq> sg_dir_name t" if s: "s \<in> set cur" for s
    proof -
      have "sg_id s < sg_id t" using manager_okD(2) [OF ok] s t by (simp add: snap sorted_wrt_append)
      moreover have "segment_ok env m s" using manager_okD(1) [OF ok] snap s by simp
      ultimately show ?thesis using t_ok by (auto simp: segment_ok_def)
    qed
    then have "sg_dir_name t \<notin> sg_dir_name ` set cur" by (metis imageE)
    then show "map_of (mg_dirs ?m) (sg_dir_name t) = map_of (mg_dirs m) (sg_dir_name t)"
      using frame by simp
  qed simp
  moreover have "map sg_id (cur' @ new) = map sg_id (mg_snapshot m)" using names snap by simp
  ultimately show "manager_ok env ?m"
    using manager_okD(2) [OF ok] dist by (auto simp only: manager_ok_def snap' set_append Un_iff) simp
  have dist': "distinct (map fst (mg_dirs m))" using manager_okD(3) [OF ok] .
  have "n \<in> fst ` set (filter is_segment_entry dirs') \<longleftrightarrow> n \<in> fst ` set (filter is_segment_entry (mg_dirs m))" for n
    unfolding segment_entry_keys [OF dist] segment_entry_keys [OF dist'] segment_entry_iff
    using same by (simp add: same_dirs_def)
  then have keys: "fst ` set (filter is_segment_entry dirs') = fst ` set (filter is_segment_entry (mg_dirs m))"
    by blast
  have "sg_dir_name ` set (cur' @ new) = sg_dir_name ` set (mg_snapshot m)"
    using arg_cong [OF names(2), of set] by (simp add: snap image_Un)
  then show "exact_dirs m \<Longrightarrow> exact_dirs ?m"
    using keys unfolding exact_dirs_def snap' by simp
qed

lemma manager_dir_names: "manager_ok env m \<Longrightarrow> distinct (map sg_dir_name (mg_snapshot m))"
proof -
  assume ok: "manager_ok env m"
  have "map sg_dir_name (mg_snapshot m) = map seg_name (map sg_id (mg_snapshot m))"
    using manager_okD(1) [OF ok] by (simp add: segment_ok_def)
  moreover have "distinct (map sg_id (mg_snapshot m))"
    using manager_okD(2) [OF ok] by (simp add: strict_sorted_iff)
  ultimately show ?thesis by (simp add: distinct_map inj_on_def)
qed

lemma manager_tomb_segment:
  "manager_ok env m \<Longrightarrow> s \<in> set (mg_snapshot m) \<Longrightarrow> tomb_segment env (mg_dirs m) s"
  using manager_okD(1) [of env m s] by (auto simp: segment_ok_def tomb_segment_def holds_files_def)

lemma grown_load_cached: "grown updates p j (load_cached s) t \<Longrightarrow> grown updates p j s t"
  using load_cached_facts(1,2) [of s] same_core_trans [of s "load_cached s" t] by (simp add: grown_def)

lemma tombstone_phase:
  assumes holds: "\<And>s. s \<in> set (mg_snapshot m) \<Longrightarrow> holds_files env s (F s)"
    and locs: "\<forall>i f. (i, f) \<in> set locs \<longleftrightarrow> i < length (mg_snapshot m) \<and>
      (\<exists>j < length (F (mg_snapshot m ! i)). f = of_nat j \<and> \<not> dead (mg_snapshot m ! i) j \<and>
         in_path (F (mg_snapshot m ! i) ! j) \<in> set paths)"
    and ok1: "manager_ok env m1" and snap1: "mg_snapshot m1 = map load_cached (mg_snapshot m)"
    and res: "write_tombstones env (tombstone_updates locs) (mg_snapshot m1) (mg_dirs m1) = (r, cur', dirs')"
  defines "live \<equiv> live_files (be_zstd (me_build env))" and "keep \<equiv> filter (\<lambda>f. in_path f \<notin> set paths)"
  shows "retombed env dirs' (mg_snapshot m1) cur'" "same_dirs (mg_dirs m1) dirs'"
    "\<forall>n. n \<notin> sg_dir_name ` set (mg_snapshot m1) \<longrightarrow> map_of dirs' n = map_of (mg_dirs m1) n"
    "map (\<lambda>s. keep (live s)) cur' = map (\<lambda>s. keep (live s)) (mg_snapshot m)"
    "set (concat (map live cur')) \<subseteq> set (concat (map live (mg_snapshot m)))"
    "r = Inr () \<Longrightarrow> map live cur' = map (\<lambda>s. keep (live s)) (mg_snapshot m)"
    "(\<And>i. me_tombstone_io env i) \<Longrightarrow> r = Inr ()"
proof -
  let ?segs = "mg_snapshot m" and ?u = "tombstone_updates locs"
  have small: "\<forall>(i, f) \<in> set locs. unat f < 4294967232"
  proof (clarify)
    fix i f assume "(i, f) \<in> set locs"
    with locs obtain k where k: "i < length ?segs" "k < length (F (?segs ! i))" "f = of_nat k" by blast
    have "length (F (?segs ! i)) \<le> 4294967232" using holds [OF nth_mem [OF k(1)]] by (simp add: holds_files_def fits_def)
    with k show "unat f < 4294967232" by (simp add: unat_of_nat)
  qed
  note upd = tombstone_updates_spec [OF small]
  have ix: "i < length ?segs" if "i \<in> fst ` set locs" for i using that locs by auto
  have "i < length (mg_snapshot m1) \<and> small_set ts" if m: "(i, ts) \<in> set ?u" for i ts
  proof -
    have "map_of ?u i = Some ts" using upd(1) m by simp
    moreover have "i \<in> fst ` set ?u" using m by force
    ultimately show ?thesis using upd(2) upd(3) [of i ts] ix [of i] snap1 by simp
  qed
  note * = write_tombstones_spec [OF _ manager_dir_names [OF ok1] upd(1) this res]
  have "tomb_segment env (mg_dirs m1) (mg_snapshot m1 ! j)" if "j < length (mg_snapshot m1)" for j
    using manager_tomb_segment [OF ok1 nth_mem [OF that]] .
  from * [OF this] obtain p where p: "p \<subseteq> fst ` set locs" "r = Inr () \<longrightarrow> fst ` set locs \<subseteq> p"
      "length cur' = length ?segs" "same_dirs (mg_dirs m1) dirs'" "(\<forall>i. me_tombstone_io env i) \<longrightarrow> r = Inr ()"
      "\<forall>n. n \<notin> sg_dir_name ` set (mg_snapshot m1) \<longrightarrow> map_of dirs' n = map_of (mg_dirs m1) n"
    and each: "\<forall>j < length ?segs. tomb_segment env dirs' (cur' ! j) \<and> grown ?u p j (mg_snapshot m1 ! j) (cur' ! j)"
    unfolding upd(2) snap1 length_map by auto
  show "same_dirs (mg_dirs m1) dirs'"
    "\<forall>n. n \<notin> sg_dir_name ` set (mg_snapshot m1) \<longrightarrow> map_of dirs' n = map_of (mg_dirs m1) n"
    by (fact p)+
  show "(\<And>i. me_tombstone_io env i) \<Longrightarrow> r = Inr ()" using p(5) by blast
  show "retombed env dirs' (mg_snapshot m1) cur'"
    using each p(3) by (simp add: retombed_def list_all2_conv_all_nth snap1 grown_def)
  have facts: "tombs_ok (cur' ! j)" "grown ?u p j (?segs ! j) (cur' ! j)" if "j < length ?segs" for j
    using each that by (auto simp: tomb_segment_def snap1 intro: grown_load_cached)
  have live: "live (cur' ! j) = filter (\<lambda>f. \<not> (j \<in> p \<and> in_path f \<in> set paths)) (live (?segs ! j))"
      "r = Inr () \<Longrightarrow> live (cur' ! j) = keep (live (?segs ! j))" if j: "j < length ?segs" for j
    using live_files_update [OF holds locs p(1) j facts [OF j]] p(2) by (simp_all add: live_def keep_def)
  show "map (\<lambda>s. keep (live s)) cur' = map (\<lambda>s. keep (live s)) ?segs"
  proof -
    have "keep (live (cur' ! j)) = keep (live (?segs ! j))" if "j < length ?segs" for j
      unfolding live(1) [OF that] keep_def filter_filter by (rule filter_cong) auto
    then show ?thesis using p(3) by (intro nth_equalityI) simp_all
  qed
  show "r = Inr () \<Longrightarrow> map live cur' = map (\<lambda>s. keep (live s)) ?segs"
    using live(2) p(3) by (intro nth_equalityI) simp_all
  have "set (live t) \<subseteq> set (concat (map live ?segs))" if t: "t \<in> set cur'" for t
  proof -
    obtain j where j: "j < length cur'" "t = cur' ! j" using t by (metis in_set_conv_nth)
    then have "set (live t) \<subseteq> set (live (?segs ! j))" and "?segs ! j \<in> set ?segs"
      using live(1) p(3) by auto
    then show ?thesis by auto
  qed
  then show "set (concat (map live cur')) \<subseteq> set (concat (map live ?segs))" by auto
qed

lemma build_all_none: "build_all env build [] m = (Inr [], m)"
  by (simp add: build_all_def)

section \<open>Applying changes\<close>

lemma filter_concat_map: "filter P (concat (map g xs)) = concat (map (\<lambda>x. filter P (g x)) xs)"
  by (simp add: filter_concat comp_def)

text \<open>The steps of the operation before its publication, with the lookups done.\<close>

lemma apply_unpublished_run:
  fixes changes :: "change_event list"
  assumes ok: "manager_ok env m"
  defines "paths \<equiv> changed_paths needs_tombstone changes"
    and "m0 \<equiv> m\<lparr>mg_state := is_publish (map load_cached (mg_snapshot m)) (mg_state m)\<rparr>"
  shows "\<exists>F locs. (\<forall>s \<in> set (mg_snapshot m). holds_files env s (F s)) \<and>
    (\<forall>i f. (i, f) \<in> set locs \<longleftrightarrow> i < length (mg_snapshot m) \<and>
      (\<exists>j < length (F (mg_snapshot m ! i)). f = of_nat j \<and> \<not> dead (mg_snapshot m ! i) j \<and>
         in_path (F (mg_snapshot m ! i) ! j) \<in> set paths)) \<and>
    apply_unpublished env tree repo_dir changes n m =
      (case build_all env (segment_build (me_build env))
         (split_batches (\<lambda>f. length (in_content f)) n (changed_files env tree repo_dir changes (index_view env m))) m0 of
         (Inl e, m1) \<Rightarrow> (Inl e, m1)
       | (Inr segs, m1) \<Rightarrow>
           (case write_tombstones env (tombstone_updates locs) (map load_cached (mg_snapshot m)) (mg_dirs m1) of
              (r, cur, dirs) \<Rightarrow>
                (obind r (\<lambda>_. Inr segs), m1\<lparr>mg_dirs := dirs, mg_state := is_publish cur (mg_state m1)\<rparr>)))"
proof -
  let ?live = "live_files (be_zstd (me_build env))"
  let ?new = "changed_files env tree repo_dir changes (index_view env m)"
  have "\<exists>F. \<forall>s \<in> set (mg_snapshot m). holds_files env s (F s)"
    using manager_okD(1) [OF ok] unfolding segment_ok_def by metis
  then obtain F where holds: "\<And>s. s \<in> set (mg_snapshot m) \<Longrightarrow> holds_files env s (F s)" by blast
  from find_files_spec [OF this] obtain locations where found: "batch_find_files_in_segments (mg_snapshot m) paths = Inr locations"
    and locs: "\<forall>i f. (i, f) \<in> set (concat (map snd locations)) \<longleftrightarrow> i < length (mg_snapshot m) \<and>
      (\<exists>j < length (F (mg_snapshot m ! i)). f = of_nat j \<and> \<not> dead (mg_snapshot m ! i) j \<and>
         in_path (F (mg_snapshot m ! i) ! j) \<in> set paths)" by blast
  have "\<exists>files. holds_files env s files" if "s \<in> set (map load_cached (mg_snapshot m))" for s
  proof -
    obtain x where "x \<in> set (mg_snapshot m)" "s = load_cached x" using \<open>s \<in> _\<close> by auto
    then show ?thesis using holds_load_cached [OF holds] by blast
  qed
  note hashes = find_hashes_spec [of "map load_cached (mg_snapshot m)" env, OF this]
  have "concat (map ?live (map load_cached (mg_snapshot m))) = index_view env m"
    by (simp add: index_view_def comp_def)
  with hashes [of "changed_paths needs_new_entry changes"] obtain h where
    h: "batch_find_file_hashes (map load_cached (mg_snapshot m)) (changed_paths needs_new_entry changes) = Inr h"
      "\<forall>p \<in> set (changed_paths needs_new_entry changes). h p = view_hashes env (index_view env m) p"
    by auto
  have new: "List.map_filter (read_change env tree repo_dir paths h) (filter (\<lambda>c. needs_new_entry (ce_kind c)) changes) = ?new"
    unfolding paths_def by (rule changed_files_hashes [OF h(2)])
  have step: "(if ?new = [] then (Inr [], m0) else build_all env b (split_batches l n ?new) m0)
      = build_all env b (split_batches l n ?new) m0" for b l
    by (simp add: split_batches_def build_all_none)
  show ?thesis
    using holds locs
    unfolding apply_unpublished_def Let_def paths_def [symmetric] m0_def [symmetric] found sum.case h(1) new step
    by (intro exI [of _ F] exI [of _ "concat (map snd locations)"] conjI) simp_all
qed

lemma apply_unpublished_view:
  assumes env: "good_env env" and ok: "manager_ok env m"
    and fits: "fits (changed_files env tree repo_dir changes (index_view env m))"
    and res: "apply_unpublished env tree repo_dir changes n m = (r, m')"
  defines "paths \<equiv> changed_paths needs_tombstone changes"
    and "publish \<equiv> \<lambda>segs. m'\<lparr>mg_state := is_publish (mg_snapshot m' @ segs) (mg_state m')\<rparr>"
  shows "manager_ok env m'"
    "filter (\<lambda>f. in_path f \<notin> set paths) (index_view env m') = filter (\<lambda>f. in_path f \<notin> set paths) (index_view env m)"
    "set (index_view env m') \<subseteq> set (index_view env m)"
    "r = Inr built_segs \<Longrightarrow> index_view env m' = filter (\<lambda>f. in_path f \<notin> set paths) (index_view env m)"
    "r = Inr built_segs \<Longrightarrow> manager_ok env (publish built_segs) \<and> (exact_dirs m \<longrightarrow> exact_dirs (publish built_segs)) \<and>
      concat (map (live_files (be_zstd (me_build env))) built_segs) = changed_files env tree repo_dir changes (index_view env m)"
proof -
  let ?live = "live_files (be_zstd (me_build env))" and ?keep = "filter (\<lambda>f. in_path f \<notin> set paths)"
  let ?new = "changed_files env tree repo_dir changes (index_view env m)"
  let ?bs = "split_batches (\<lambda>f. length (in_content f)) n ?new"
  let ?m0 = "m\<lparr>mg_state := is_publish (map load_cached (mg_snapshot m)) (mg_state m)\<rparr>"
  note cached = manager_cached [OF ok]
  obtain F locs where holds: "\<And>s. s \<in> set (mg_snapshot m) \<Longrightarrow> holds_files env s (F s)"
    and locs: "\<forall>i f. (i, f) \<in> set locs \<longleftrightarrow> i < length (mg_snapshot m) \<and>
      (\<exists>j < length (F (mg_snapshot m ! i)). f = of_nat j \<and> \<not> dead (mg_snapshot m ! i) j \<and>
         in_path (F (mg_snapshot m ! i) ! j) \<in> set paths)"
    and run0: "apply_unpublished env tree repo_dir changes n m =
      (case build_all env (segment_build (me_build env)) ?bs ?m0 of
         (Inl e, m1) \<Rightarrow> (Inl e, m1)
       | (Inr segs, m1) \<Rightarrow>
           (case write_tombstones env (tombstone_updates locs) (map load_cached (mg_snapshot m)) (mg_dirs m1) of
              (r, cur, dirs) \<Rightarrow>
                (obind r (\<lambda>_. Inr segs), m1\<lparr>mg_dirs := dirs, mg_state := is_publish cur (mg_state m1)\<rparr>)))"
    using apply_unpublished_run [OF ok, of changes tree repo_dir n] unfolding paths_def by blast
  let ?u = "tombstone_updates locs"
  obtain r1 m1 where res1: "build_all env (segment_build (me_build env)) ?bs ?m0 = (r1, m1)" by fastforce
  note built = build_all_ok [OF env cached(1) res1]
  have snap1: "mg_snapshot m1 = map load_cached (mg_snapshot m)" using built(2) by simp
  have view1: "index_view env m1 = index_view env m"
    using built(2) cached(2) by (simp add: index_view_def)
  have run: "(r, m') = (case r1 of Inl e \<Rightarrow> (Inl e, m1) | Inr segs \<Rightarrow>
      (case write_tombstones env ?u (mg_snapshot m1) (mg_dirs m1) of
        (r, cur, dirs) \<Rightarrow> (obind r (\<lambda>_. Inr segs), m1\<lparr>mg_dirs := dirs, mg_state := is_publish cur (mg_state m1)\<rparr>)))"
    using res unfolding run0 res1 prod.case snap1 by (rule sym)
  have "manager_ok env m' \<and> ?keep (index_view env m') = ?keep (index_view env m) \<and>
    set (index_view env m') \<subseteq> set (index_view env m) \<and>
    (r = Inr built_segs \<longrightarrow> index_view env m' = ?keep (index_view env m) \<and> manager_ok env (publish built_segs) \<and>
      (exact_dirs m \<longrightarrow> exact_dirs (publish built_segs)) \<and> concat (map ?live built_segs) = ?new)"
  proof (cases r1)
    case (Inl e)
    with run built(1) view1 show ?thesis by simp
  next
    case (Inr segs)
    obtain r2 cur dirs where res2: "write_tombstones env ?u (mg_snapshot m1) (mg_dirs m1) = (r2, cur, dirs)" by (rule prod_cases3)
    have r: "r = obind r2 (\<lambda>_. Inr segs)" and m': "m' = m1\<lparr>mg_dirs := dirs, mg_state := is_publish cur (mg_state m1)\<rparr>"
      using run by (simp_all add: Inr res2)
    note phase = tombstone_phase [OF holds locs built(1) snap1 res2]
    have view': "index_view env m' = concat (map ?live cur)"
      by (simp add: index_view_def m' mg_snapshot_def is_snapshot_def is_publish_def)
    have snap': "mg_snapshot m' = cur" by (simp add: m' mg_snapshot_def is_snapshot_def is_publish_def)
    have "manager_ok env m'"
      using retombed_ok(1) [OF built(1) _ phase(1-3), of "[]"] by (simp add: m')
    moreover have "?keep (index_view env m') = ?keep (index_view env m)"
      using phase(4) unfolding view' unfolding index_view_def filter_concat_map by simp
    moreover have "set (index_view env m') \<subseteq> set (index_view env m)"
      using phase(5) unfolding view' unfolding index_view_def .
    moreover have "index_view env m' = ?keep (index_view env m) \<and> manager_ok env (publish built_segs) \<and>
      (exact_dirs m \<longrightarrow> exact_dirs (publish built_segs)) \<and> concat (map ?live built_segs) = ?new" if "r = Inr built_segs"
    proof -
      have r2: "r2 = Inr ()" and segs: "built_segs = segs" using that by (auto simp: r obind_eq_Inr)
      note pub = build_all_published [where conv = "\<lambda>b. b", OF env cached(1) res1 [unfolded Inr]]
      let ?M = "m1\<lparr>mg_state := is_publish (mg_snapshot m1 @ segs) (mg_state m1)\<rparr>"
      have M: "manager_ok env ?M" and live: "map ?live segs = ?bs"
        using pub(2) [where st = "mg_state m1"] pub(3) fits by (simp_all add: snap1)
      have exact: "exact_dirs m \<Longrightarrow> exact_dirs ?M"
        using build_all_exact [where st = "mg_state m1", OF env cached(1) _ res1 [unfolded Inr]] cached(3) by (simp add: snap1)
      have "mg_snapshot ?M = mg_snapshot m1 @ segs" by simp
      note re = retombed_ok [OF M this phase(1), where st = "mg_state m'"]
      have "publish segs = ?M\<lparr>mg_dirs := dirs, mg_state := is_publish (cur @ segs) (mg_state m')\<rparr>"
        by (simp add: publish_def snap') (simp add: m')
      then have "manager_ok env (publish segs)" "exact_dirs m \<longrightarrow> exact_dirs (publish segs)"
        using re phase(2,3) exact by simp_all
      moreover have "concat (map ?live segs) = ?new" by (simp add: live)
      moreover have "index_view env m' = ?keep (index_view env m)"
        using phase(6) [OF _ r2] unfolding view' unfolding index_view_def filter_concat_map by simp
      ultimately show ?thesis by (simp add: segs)
    qed
    ultimately show ?thesis by blast
  qed
  then show "manager_ok env m'" "?keep (index_view env m') = ?keep (index_view env m)"
    "set (index_view env m') \<subseteq> set (index_view env m)"
    "r = Inr built_segs \<Longrightarrow> index_view env m' = ?keep (index_view env m)"
    "r = Inr built_segs \<Longrightarrow> manager_ok env (publish built_segs) \<and> (exact_dirs m \<longrightarrow> exact_dirs (publish built_segs)) \<and>
      concat (map ?live built_segs) = ?new"
    by blast+
qed

lemma apply_changes_spec:
  assumes "good_env env" and "manager_ok env m"
    and "fits (changed_files env tree repo_dir changes (index_view env m))"
    and "apply_changes_with_budget env tree repo_dir changes max_segment_bytes m = (r, m')"
  defines "keep \<equiv> filter (\<lambda>f. in_path f \<notin> set (changed_paths needs_tombstone changes))"
  shows "manager_ok env m' \<and>
    (r = Inr () \<longrightarrow>
       index_view env m' = keep (index_view env m) @ changed_files env tree repo_dir changes (index_view env m) \<and>
       (exact_dirs m \<longrightarrow> exact_dirs m')) \<and>
    (r \<noteq> Inr () \<longrightarrow> keep (index_view env m') = keep (index_view env m) \<and> set (index_view env m') \<subseteq> set (index_view env m))"
proof (cases "changes = []")
  case True
  then have "keep = (\<lambda>xs. xs)" "changed_files env tree repo_dir changes (index_view env m) = []"
    by (simp_all add: keep_def changed_paths_def changed_files_def List.map_filter_simps fun_eq_iff)
  with True assms(2,4) show ?thesis by (simp add: apply_changes_with_budget_def)
next
  case False
  obtain r1 m1 where res: "apply_unpublished env tree repo_dir changes max_segment_bytes m = (r1, m1)" by fastforce
  note view = apply_unpublished_view [OF assms(1-3) res]
  show ?thesis
  proof (cases r1)
    case (Inl e)
    with False res assms(4) have "r = Inl e" "m' = m1" by (simp_all add: apply_changes_with_budget_def)
    with view(1-3) show ?thesis by (simp add: keep_def)
  next
    case (Inr segs)
    let ?m = "m1\<lparr>mg_state := is_publish (mg_snapshot m1 @ segs) (mg_state m1)\<rparr>"
    from False res assms(4) Inr have "r = Inr ()" "m' = ?m"
      by (simp_all add: apply_changes_with_budget_def)
    moreover have "index_view env ?m = index_view env m1 @ concat (map (live_files (be_zstd (me_build env))) segs)"
      by (simp add: index_view_def)
    ultimately show ?thesis using view(4,5) [OF Inr] by (simp add: keep_def)
  qed
qed

end
