(* ===== verification/Index_Progress.thy ===== *)
theory Index_Progress
  imports Apply_Changes
begin

text \<open>
  When the operations of the segment manager succeed: if the file system does, the counter has IDs left
  and no later segment directory is in the way, then every batch that can be written becomes a published
  segment. The samples at the end run the operations from the empty index.
\<close>

section \<open>Building succeeds\<close>

text \<open>No segment directory is in the way of an ID that is still to be given out.\<close>

definition room_for :: "manager_env \<Rightarrow> nat \<Rightarrow> manager \<Rightarrow> bool" where
  "room_for env n m \<longleftrightarrow>
     unat (mg_next_id m) + n \<le> u32_max \<and>
     (0 < n \<longrightarrow> (\<forall>i. mg_next_id m \<le> i \<longrightarrow> me_build_io env i \<and> map_of (mg_dirs m) (seg_name i) = None))"

lemma open_dir_of_built:
  assumes "segment_open rd sf i = Inr s0"
  shows "open_segment_dir rd name (dir_of_files sf) i = Inr (s0\<lparr>sg_dir_name := name\<rparr>)"
proof -
  obtain tr where "open_index rd (sf_trigrams sf) = Inr tr"
    using assms by (auto simp: segment_open_def obind_eq_Inr)
  moreover have "map_of (dir_of_files sf) ''highlights.zst'' = sf_highlights sf"
    "map_of (dir_of_files sf) ''tombstones.bin'' = sf_tombstones sf"
    "dir_file (dir_of_files sf) ''trigrams.bin'' = Inr (sf_trigrams sf)"
    "dir_file (dir_of_files sf) ''meta.bin'' = Inr (sf_meta sf)"
    "dir_file (dir_of_files sf) ''paths.bin'' = Inr (sf_paths sf)"
    "dir_file (dir_of_files sf) ''content.zst'' = Inr (sf_content sf)"
    by (auto simp: dir_of_files_def dir_file_def split: option.splits)
  ultimately show ?thesis
    using assms by (cases sf) (simp add: open_segment_dir_def)
qed

lemma allocate_ids_succeeds:
  "unat n + length bs \<le> u32_max \<Longrightarrow>
     \<exists>ibs. fst (allocate_ids bs n) = Inr ibs"
proof (induction bs arbitrary: n)
  case Nil
  then show ?case by simp
next
  case (Cons b bs)
  then have n: "unat n \<noteq> u32_max" "unat (n + 1) = unat n + 1"
    by (simp_all add: unat_word_ariths)
  with Cons.IH [of "n + 1"] Cons.prems obtain ibs where "fst (allocate_ids bs (n + 1)) = Inr ibs" by auto
  with n(1) show ?case
    by (cases "allocate_ids bs (n + 1)") (simp add: next_segment_id_def)
qed

lemma build_batches_succeeds:
  assumes "\<And>i b. (i, b) \<in> set ibs \<Longrightarrow> me_build_io env i \<and> map_of dirs (seg_name i) = None \<and>
      (\<exists>sf s. build b = Inr sf \<and> segment_open (me_read_varint env) sf i = Inr s)"
    and "distinct (map fst ibs)"
  shows "\<exists>segs dirs'. build_batches env build ibs dirs = (Inr (map Inr segs), dirs')"
  using assms
proof (induction ibs arbitrary: dirs)
  case Nil
  then show ?case by auto
next
  case (Cons ib ibs)
  obtain i b where ib: "ib = (i, b)" by fastforce
  from Cons.prems(1) [of i b] obtain sf s where ok: "me_build_io env i" "map_of dirs (seg_name i) = None"
    "build b = Inr sf" "segment_open (me_read_varint env) sf i = Inr s" by (auto simp: ib)
  let ?dirs = "AList.update (seg_name i) (Dir (dir_of_files sf)) dirs"
  have first: "build_segment env i (build b) dirs = (Inr (s\<lparr>sg_dir_name := seg_name i\<rparr>), ?dirs)"
    using ok open_dir_of_built [OF ok(4)] by (simp add: build_segment_def Let_def)
  have "me_build_io env j \<and> map_of ?dirs (seg_name j) = None \<and>
      (\<exists>sf s. build c = Inr sf \<and> segment_open (me_read_varint env) sf j = Inr s)" if "(j, c) \<in> set ibs" for j c
  proof -
    have "j \<in> fst ` set ibs" using that by force
    then have "j \<noteq> i" using Cons.prems(2) by (auto simp: ib)
    then show ?thesis using Cons.prems(1) [of j c] that by simp
  qed
  from Cons.IH [of ?dirs, OF this] Cons.prems(2) obtain segs dirs' where
    "build_batches env build ibs ?dirs = (Inr (map Inr segs), dirs')" by auto
  then show ?case
    by (intro exI [of _ "s\<lparr>sg_dir_name := seg_name i\<rparr> # segs"]) (simp add: ib first)
qed

lemma build_all_succeeds:
  assumes room: "room_for env (length batches) m"
    and build: "\<And>b i. b \<in> set batches \<Longrightarrow> \<exists>sf s. build b = Inr sf \<and> segment_open (me_read_varint env) sf i = Inr s"
  shows "\<exists>segs m'. build_all env build batches m = (Inr segs, m')"
proof -
  obtain r n' where alloc: "allocate_ids batches (mg_next_id m) = (r, n')" by fastforce
  from allocate_ids_succeeds [of "mg_next_id m" batches] room alloc obtain ibs where r: "r = Inr ibs"
    by (auto simp: room_for_def)
  from allocate_ids_spec [OF alloc] r have ibs: "map snd ibs = batches" "sorted_wrt (<) (map fst ibs)"
    "\<And>i. i \<in> fst ` set ibs \<Longrightarrow> mg_next_id m \<le> i" by blast+
  have "me_build_io env i \<and> map_of (mg_dirs m) (seg_name i) = None \<and>
      (\<exists>sf s. build b = Inr sf \<and> segment_open (me_read_varint env) sf i = Inr s)" if "(i, b) \<in> set ibs" for i b
  proof -
    have "i \<in> fst ` set ibs" using that by force
    moreover have "b \<in> set batches" using that unfolding ibs(1) [symmetric] by force
    ultimately show ?thesis using room build ibs(3) by (cases batches) (auto simp: room_for_def)
  qed
  from build_batches_succeeds [of ibs env "mg_dirs m" build, OF this] ibs(2) obtain segs dirs' where
    "build_batches env build ibs (mg_dirs m) = (Inr (map Inr segs), dirs')" by (auto simp: strict_sorted_iff)
  then show ?thesis by (simp add: build_all_def alloc r)
qed

lemma fresh_build_opens:
  assumes "good_env env" and "fits b" and "segment_build (me_build env) b = Inr sf"
  shows "\<exists>s. segment_open (me_read_varint env) sf i = Inr s"
  using segment_build_over [OF assms(1) _ assms(3) segment_build_small [OF assms(3)], of i] assms(2)
  by (auto simp: fits_def)

text \<open>
  Indexing gets done when the file system lets the segments be written, IDs are left and every batch can
  be written.
\<close>

lemma index_files_succeeds:
  assumes "good_env env" and "fits files"
    and "room_for env (length (split_batches (\<lambda>f. length (in_content f)) max_segment_bytes files)) m"
    and "\<And>b. b \<in> set (split_batches (\<lambda>f. length (in_content f)) max_segment_bytes files) \<Longrightarrow>
      \<exists>sf. segment_build (me_build env) b = Inr sf"
  shows "\<exists>m'. index_files_with_budget env files max_segment_bytes m = (Inr (), m')"
proof -
  let ?bs = "split_batches (\<lambda>f. length (in_content f)) max_segment_bytes files"
  have "\<exists>sf s. segment_build (me_build env) b = Inr sf \<and> segment_open (me_read_varint env) sf i = Inr s"
    if b: "b \<in> set ?bs" for b i
  proof -
    have "fits b" using fits_member [of ?bs b] assms(2) b by simp
    with fresh_build_opens [OF assms(1)] assms(4) [OF b] show ?thesis by blast
  qed
  from build_all_succeeds [of env ?bs m "segment_build (me_build env)", OF assms(3) this] show ?thesis
    by (auto simp: index_files_with_budget_def Let_def)
qed

text \<open>So does applying changes, when the tombstones can be written too.\<close>

lemma apply_changes_done:
  fixes n :: nat
  assumes env: "good_env env" and ok: "manager_ok env m"
    and fits: "fits (changed_files env tree repo_dir changes (index_view env m))"
  defines "bs \<equiv> split_batches (\<lambda>f. length (in_content f)) n (changed_files env tree repo_dir changes (index_view env m))"
  assumes room: "room_for env (length bs) m" and io: "\<And>i. me_tombstone_io env i"
    and build: "\<And>b. b \<in> set bs \<Longrightarrow> \<exists>sf. segment_build (me_build env) b = Inr sf"
  shows "\<exists>m'. apply_changes_with_budget env tree repo_dir changes n m = (Inr (), m')"
proof (cases "changes = []")
  case True
  then show ?thesis by (simp add: apply_changes_with_budget_def)
next
  case False
  let ?m0 = "m\<lparr>mg_state := is_publish (map load_cached (mg_snapshot m)) (mg_state m)\<rparr>"
  note cached = manager_cached [OF ok]
  obtain F locs where holds: "\<And>s. s \<in> set (mg_snapshot m) \<Longrightarrow> holds_files env s (F s)"
    and locs: "\<forall>i f. (i, f) \<in> set locs \<longleftrightarrow> i < length (mg_snapshot m) \<and>
      (\<exists>j < length (F (mg_snapshot m ! i)). f = of_nat j \<and> \<not> dead (mg_snapshot m ! i) j \<and>
         in_path (F (mg_snapshot m ! i) ! j) \<in> set (changed_paths needs_tombstone changes))"
    and run: "apply_unpublished env tree repo_dir changes n m =
      (case build_all env (segment_build (me_build env)) bs ?m0 of
         (Inl e, m1) \<Rightarrow> (Inl e, m1)
       | (Inr segs, m1) \<Rightarrow>
           (case write_tombstones env (tombstone_updates locs) (map load_cached (mg_snapshot m)) (mg_dirs m1) of
              (r, cur, dirs) \<Rightarrow>
                (obind r (\<lambda>_. Inr segs), m1\<lparr>mg_dirs := dirs, mg_state := is_publish cur (mg_state m1)\<rparr>)))"
    using apply_unpublished_run [OF ok, of changes tree repo_dir n] unfolding bs_def by blast
  have "\<exists>sf s. segment_build (me_build env) b = Inr sf \<and> segment_open (me_read_varint env) sf i = Inr s"
    if b: "b \<in> set bs" for b i
  proof -
    have "fits b" using fits_member [of bs b] fits b by (simp add: bs_def)
    with fresh_build_opens [OF env] build [OF b] show ?thesis by blast
  qed
  moreover have "room_for env (length bs) ?m0" using room by (simp add: room_for_def)
  ultimately obtain segs m1 where res: "build_all env (segment_build (me_build env)) bs ?m0 = (Inr segs, m1)"
    using build_all_succeeds [of env bs ?m0 "segment_build (me_build env)"] by blast
  note built = build_all_ok [OF env cached(1) res]
  have snap: "mg_snapshot m1 = map load_cached (mg_snapshot m)" using built(2) by simp
  obtain r cur dirs where res2: "write_tombstones env (tombstone_updates locs) (mg_snapshot m1) (mg_dirs m1) = (r, cur, dirs)"
    by (rule prod_cases3)
  have "r = Inr ()" using tombstone_phase(7) [OF holds locs built(1) snap res2] io by blast
  with False show ?thesis
    using run res res2 by (simp add: apply_changes_with_budget_def snap)
qed

section \<open>A sample index\<close>

definition sample_manager_env :: manager_env where
  "sample_manager_env =
     \<lparr>me_build = sample_env, me_read_varint = leb_read, me_build_io = (\<lambda>_. True),
      me_tombstone_io = (\<lambda>_. True), me_remove_io = (\<lambda>_. True)\<rparr>"

definition empty_manager :: manager where
  "empty_manager = \<lparr>mg_dirs = [], mg_next_id = 0, mg_state = index_state_new, mg_is_compacting = False\<rparr>"

lemma manager_new_empty: "manager_new rd [] = Inr empty_manager"
  by (simp add: manager_new_def empty_manager_def)

lemma sample_manager_facts:
  "good_env sample_manager_env" "manager_ok sample_manager_env empty_manager" "exact_dirs empty_manager"
  "index_view sample_manager_env empty_manager = []" "fits sample_inputs"
  using sample_env_ok sample_inputs_ok
  by (simp_all add: sample_manager_env_def empty_manager_def manager_ok_def exact_dirs_def index_view_def
      mg_snapshot_def is_snapshot_def index_state_new_def fits_def) (simp add: sample_inputs_def)

lemma sample_batches: "split_batches (\<lambda>f. length (in_content f)) 0 sample_inputs = [sample_inputs]"
  by (simp add: split_unlimited) (simp add: sample_inputs_def)

text \<open>The empty index after the two sample files are indexed.\<close>

lemma sample_index:
  "\<exists>m. index_files_with_budget sample_manager_env sample_inputs 0 empty_manager = (Inr (), m) \<and>
     manager_ok sample_manager_env m \<and> exact_dirs m \<and> index_view sample_manager_env m = sample_inputs"
proof -
  have "\<exists>m'. index_files_with_budget sample_manager_env sample_inputs 0 empty_manager = (Inr (), m')"
  by (rule index_files_succeeds)
    (simp_all add: sample_manager_facts sample_batches room_for_def,
     simp_all add: sample_manager_env_def empty_manager_def sample_segment_build)
  then obtain m where m: "index_files_with_budget sample_manager_env sample_inputs 0 empty_manager = (Inr (), m)" ..
  with index_files_spec [OF sample_manager_facts(1,2,5) m] sample_manager_facts(3,4) show ?thesis by auto
qed

end
