(* ===== verification/Recovery.thy ===== *)
theory Recovery
  imports Index_Lifecycle "HOL-Library.Multiset"
begin

text \<open>
  Loading the index again: the loader of the segment manager (\<open>SegmentManager::new\<close> of
  \<open>ferret-core/src/segment_manager.rs\<close>) and crash recovery (\<open>ferret-core/src/recovery.rs\<close>), which
  removes temporary directories and skips segments with missing files or bad headers. Both give back the
  segments that were published, with their tombstones; recovery also any other complete segment
  directory. The directory can be read; whether an entry can be removed is a parameter.
\<close>

section \<open>Crash recovery\<close>

definition is_temp_name :: "text_utf8 \<Rightarrow> bool" where
  "is_temp_name name \<longleftrightarrow> prefix ''.seg_'' name \<and> find_sub name ''_tmp_'' \<noteq> None"

definition parse_segment_id :: "text_utf8 \<Rightarrow> segment_id option" where
  "parse_segment_id name = (if prefix ''seg_'' name then parse_u32 (drop 4 name) else None)"

definition REQUIRED_FILES :: "text_utf8 list" where
  "REQUIRED_FILES = [''trigrams.bin'', ''meta.bin'', ''paths.bin'', ''content.zst'']"

text \<open>The reason is the fixed part of the message.\<close>

definition validate_segment_files :: "dir_files \<Rightarrow> string + unit" where
  "validate_segment_files d =
     (case find (\<lambda>f. map_of d f = None) REQUIRED_FILES of
        Some f \<Rightarrow> Inl (''missing required file: '' @ f)
      | None \<Rightarrow> Inr ())"

definition validate_trigram_header :: "bytes option \<Rightarrow> string + unit" where
  "validate_trigram_header f =
     (case f of
        None \<Rightarrow> Inl ''cannot read trigrams.bin: ''
      | Some data \<Rightarrow>
          if length data < 10 then Inl ''trigrams.bin too small: ''
          else if le_u32 (slice 0 4 data) \<noteq> TRIG_MAGIC then Inl ''trigrams.bin bad magic: expected 0x''
          else if le_u16 (slice 4 6 data) \<noteq> TRIG_VERSION then Inl ''trigrams.bin unsupported version: expected ''
          else Inr ())"

definition validate_meta_header :: "bytes option \<Rightarrow> string + unit" where
  "validate_meta_header f =
     (case f of
        None \<Rightarrow> Inl ''cannot read meta.bin: ''
      | Some data \<Rightarrow>
          if length data < 10 then Inl ''meta.bin too small: ''
          else if le_u32 (slice 0 4 data) \<noteq> META_MAGIC then Inl ''meta.bin bad magic: expected 0x''
          else if le_u16 (slice 4 6 data) \<noteq> 1 \<and> le_u16 (slice 4 6 data) \<noteq> META_VERSION
          then Inl ''meta.bin unsupported version: expected 1 or ''
          else Inr ())"

definition validate_segment_headers :: "dir_files \<Rightarrow> string + unit" where
  "validate_segment_headers d =
     obind (validate_trigram_header (map_of d ''trigrams.bin'')) (\<lambda>_.
       validate_meta_header (map_of d ''meta.bin''))"

text \<open>The files of a segment are looked up below its path, so a plain file has none of them.\<close>

definition recover_entry ::
  "varint_reader \<Rightarrow> text_utf8 \<Rightarrow> dir_entry \<Rightarrow> segment_id \<Rightarrow> segment option result" where
  "recover_entry rd name entry i =
     (case entry of
        Plain_file \<Rightarrow> Inr None
      | Dir d \<Rightarrow>
          (case obind (validate_segment_files d) (\<lambda>_. validate_segment_headers d) of
             Inl _ \<Rightarrow> Inr None
           | Inr _ \<Rightarrow>
               (case open_segment_dir rd name d i of
                  Inr s \<Rightarrow> Inr (Some s)
                | Inl (Err _) \<Rightarrow> Inr None
                | Inl Panic \<Rightarrow> panic)))"

fun recover_loop ::
  "varint_reader \<Rightarrow> (text_utf8 \<Rightarrow> bool) \<Rightarrow> dir_listing \<Rightarrow> segment list \<Rightarrow> segment list result \<times> dir_listing" where
  "recover_loop rd removable [] segments = (Inr segments, [])"
| "recover_loop rd removable ((name, entry) # entries) segments =
     (let lossy = from_utf8_lossy name
      in if is_temp_name lossy
         then (case recover_loop rd removable entries segments of (r, rest) \<Rightarrow>
                 (r, if entry \<noteq> Plain_file \<and> removable name then rest else (name, entry) # rest))
         else
           (case parse_segment_id lossy of
              None \<Rightarrow> (case recover_loop rd removable entries segments of (r, rest) \<Rightarrow> (r, (name, entry) # rest))
            | Some i \<Rightarrow>
                (case recover_entry rd name entry i of
                   Inl e \<Rightarrow> (Inl e, (name, entry) # entries)
                 | Inr found \<Rightarrow>
                     (case recover_loop rd removable entries
                        (segments @ (case found of Some s \<Rightarrow> [s] | None \<Rightarrow> [])) of
                        (r, rest) \<Rightarrow> (r, (name, entry) # rest)))))"

text \<open>No directory is no segment.\<close>

definition recover_segments ::
  "varint_reader \<Rightarrow> (text_utf8 \<Rightarrow> bool) \<Rightarrow> dir_listing option \<Rightarrow> segment list result \<times> dir_listing option" where
  "recover_segments rd removable segments_dir =
     (case segments_dir of
        None \<Rightarrow> (Inr [], None)
      | Some dirs \<Rightarrow>
          (case recover_loop rd removable dirs [] of
             (r, dirs) \<Rightarrow> (obind r (\<lambda>segments. Inr (sort_key sg_id segments)), Some dirs)))"

text \<open>\<open>cleanup_lock_file\<close>: the files of the index directory, and whether the lock can be removed.\<close>

definition cleanup_lock_file :: "bool \<Rightarrow> dir_files \<Rightarrow> unit result \<times> dir_files" where
  "cleanup_lock_file removable ferret_dir =
     (if map_of ferret_dir ''lock'' \<noteq> None
      then if removable then (Inr (), filter (\<lambda>(n, _). n \<noteq> ''lock'') ferret_dir) else (Inl (Err Io), ferret_dir)
      else (Inr (), ferret_dir))"

section \<open>A published segment opens again\<close>

text \<open>What opening the directory of a published segment gives.\<close>

definition reopened :: "manager_env \<Rightarrow> dir_listing \<Rightarrow> segment \<Rightarrow> dir_files \<Rightarrow> segment \<Rightarrow> bool" where
  "reopened env dirs s d t \<longleftrightarrow>
     map_of dirs (sg_dir_name s) = Some (Dir d) \<and> map_of d ''tombstones.bin'' \<noteq> None \<and>
     open_segment_dir (me_read_varint env) (sg_dir_name s) d (sg_id s) = Inr t \<and>
     same_core s t \<and> tombs_ok t \<and> tombstones_or_default t = tombstones_or_default s"

lemma placed_reopened: "placed env dirs s \<longleftrightarrow> (\<exists>d t. reopened env dirs s d t)"
  by (auto simp: placed_def reopened_def)

lemma manager_reopened:
  assumes "manager_ok env m"
  shows "\<exists>D R. \<forall>s \<in> set (mg_snapshot m). reopened env (mg_dirs m) s (D s) (R s) \<and> sg_dir_name s = seg_name (sg_id s)"
proof -
  have "\<exists>d t. reopened env (mg_dirs m) s d t \<and> sg_dir_name s = seg_name (sg_id s)" if "s \<in> set (mg_snapshot m)" for s
    using manager_okD(1) [OF assms that] by (auto simp: segment_ok_def placed_reopened)
  then show ?thesis by metis
qed

lemma reopened_facts:
  assumes "reopened env dirs s d t"
  shows "sg_id t = sg_id s" "sg_dir_name t = sg_dir_name s" "live_files z t = live_files z s"
    "tombstones_or_default t = tombstones_or_default s" "placed env dirs t"
proof -
  have core: "same_core s t" and tombs: "tombstones_or_default t = tombstones_or_default s" "tombs_ok t"
    using assms by (simp_all add: reopened_def)
  show names: "sg_id t = sg_id s" "sg_dir_name t = sg_dir_name s" using same_core_eq [OF core] by simp_all
  show "live_files z t = live_files z s" using live_files_cong [OF core tombs(1)] .
  show "tombstones_or_default t = tombstones_or_default s" by (fact tombs(1))
  show "placed env dirs t"
    using assms tombs(2) unfolding placed_def names reopened_def by (metis same_core_refl)
qed

section \<open>The loader of the manager\<close>

definition next_after :: "u32 \<Rightarrow> segment list \<Rightarrow> u32" where
  "next_after = foldl (\<lambda>max_id s. if sg_id s \<ge> max_id then sg_id s + 1 else max_id)"

lemma word_plus_one: "(i :: u32) < n \<Longrightarrow> i < i + 1 \<and> i + 1 \<le> n"
proof -
  assume "i < n"
  then have less: "unat i < unat n" by (simp add: word_less_nat_alt)
  then have "unat i + 1 < 4294967296" using unat_u32_less [of n] by linarith
  then have "unat (i + 1) = unat i + 1" by (simp add: unat_word_ariths)
  with less show "i < i + 1 \<and> i + 1 \<le> n" by (simp add: word_less_nat_alt word_le_nat_alt)
qed

lemma next_after_facts:
  "(\<And>s. s \<in> set segs \<Longrightarrow> sg_id s < n) \<Longrightarrow> k \<le> n \<Longrightarrow>
     k \<le> next_after k segs \<and> next_after k segs \<le> n \<and> (\<forall>s \<in> set segs. sg_id s < next_after k segs)"
proof (induction segs arbitrary: k)
  case Nil
  then show ?case by (simp add: next_after_def)
next
  case (Cons s segs)
  let ?k = "if sg_id s \<ge> k then sg_id s + 1 else k"
  have one: "sg_id s < sg_id s + 1" "sg_id s + 1 \<le> n" using word_plus_one [of "sg_id s" n] Cons.prems(1) by simp_all
  have "?k \<le> n" using one(2) Cons.prems(2) by simp
  with Cons.IH [of ?k] Cons.prems(1) have IH: "?k \<le> next_after ?k segs" "next_after ?k segs \<le> n"
    "\<forall>s \<in> set segs. sg_id s < next_after ?k segs" by auto
  have "k \<le> ?k" "sg_id s < ?k" using one(1) by auto
  with IH(1) have "k \<le> next_after ?k segs" "sg_id s < next_after ?k segs" by (auto simp del: if_split_asm)
  with IH show ?case by (simp add: next_after_def)
qed

lemma load_dirs_segments:
  assumes "\<And>s. s \<in> set segs \<Longrightarrow> sg_dir_name s = seg_name (sg_id s) \<and>
      open_segment_dir rd (sg_dir_name s) (D s) (sg_id s) = Inr (R s)"
  shows "load_dirs rd (map (\<lambda>s. (sg_dir_name s, Dir (D s))) segs) k acc = Inr (next_after k segs, acc @ map R segs)"
  using assms
proof (induction segs arbitrary: k acc)
  case Nil
  then show ?case by (simp add: next_after_def)
next
  case (Cons s segs)
  have s: "sg_dir_name s = seg_name (sg_id s)" "open_segment_dir rd (sg_dir_name s) (D s) (sg_id s) = Inr (R s)"
    using Cons.prems [of s] by (simp only: list.set_intros)+
  have "parse_u32 (drop 4 (from_utf8_lossy (sg_dir_name s))) = Some (sg_id s)"
    unfolding s(1) lossy_seg_name by (simp add: seg_name_def parse_display_padded)
  moreover have "load_dirs rd (map (\<lambda>s. (sg_dir_name s, Dir (D s))) segs) k acc = Inr (next_after k segs, acc @ map R segs)" for k acc
    by (rule Cons.IH) (rule Cons.prems, simp)
  ultimately show ?case
    unfolding list.map load_dirs.simps s(2) obind_Inr by (simp add: next_after_def s(2))
qed

text \<open>Below 10000 the names of the directories are in the order of the IDs.\<close>

lemma seg_name_less: "unat i < 10000 \<Longrightarrow> unat j < 10000 \<Longrightarrow> seg_name i < seg_name j \<longleftrightarrow> i < j"
  using display_padded_less [of "unat i" 4 "unat j"] by (simp add: seg_name_def word_less_nat_alt)

lemma sorted_entries:
  assumes ok: "manager_ok env m" and exact: "exact_dirs m" and small: "\<forall>s \<in> set (mg_snapshot m). unat (sg_id s) < 10000"
    and re: "\<And>s. s \<in> set (mg_snapshot m) \<Longrightarrow> map_of (mg_dirs m) (sg_dir_name s) = Some (Dir (D s)) \<and> sg_dir_name s = seg_name (sg_id s)"
  shows "sort_key fst (filter is_segment_entry (mg_dirs m)) = map (\<lambda>s. (sg_dir_name s, Dir (D s))) (mg_snapshot m)"
proof (rule sort_key_inj_key_eq)
  let ?fs = "filter is_segment_entry (mg_dirs m)" and ?es = "map (\<lambda>s. (sg_dir_name s, Dir (D s))) (mg_snapshot m)"
  have dist: "distinct (map fst (mg_dirs m))" using manager_okD(3) [OF ok] .
  have "distinct (map fst ?fs)" using dist by (rule distinct_filter_keys)
  then have dfs: "distinct ?fs" and inj: "inj_on fst (set ?fs)" by (simp_all add: distinct_map)
  show "inj_on fst (set ?fs)" by (rule inj)
  have sorted_ids: "sorted_wrt (<) (map sg_id (mg_snapshot m))" using manager_okD(2) [OF ok] .
  have "sorted_wrt (\<lambda>s t. seg_name (sg_id s) < seg_name (sg_id t)) (mg_snapshot m)"
    using sorted_ids small unfolding sorted_wrt_map by (auto simp: seg_name_less intro: sorted_wrt_mono_rel [rotated])
  then have "sorted_wrt (<) (map (\<lambda>s. seg_name (sg_id s)) (mg_snapshot m))" by (simp add: sorted_wrt_map)
  moreover have "map fst ?es = map (\<lambda>s. seg_name (sg_id s)) (mg_snapshot m)" using re by simp
  ultimately have strict: "sorted_wrt (<) (map fst ?es)" by (simp only:)
  then show "sorted (map fst ?es)" by (simp add: strict_sorted_iff)
  have des: "distinct ?es" using strict by (simp add: strict_sorted_iff distinct_map inj_on_def)
  have "set ?fs = set ?es"
  proof (rule set_eqI)
    fix e :: "text_utf8 \<times> dir_entry"
    obtain n c where e: "e = (n, c)" by fastforce
    show "e \<in> set ?fs \<longleftrightarrow> e \<in> set ?es"
    proof
      assume "e \<in> set ?fs"
      then have mem: "(n, c) \<in> set (mg_dirs m)" "is_segment_entry (n, c)" by (simp_all add: e)
      then have "n \<in> fst ` set ?fs" by force
      then obtain s where s: "s \<in> set (mg_snapshot m)" "n = sg_dir_name s" using exact by (auto simp: exact_dirs_def)
      have "map_of (mg_dirs m) n = Some c" using dist mem(1) by simp
      then have "c = Dir (D s)" using conjunct1 [OF re [OF s(1)]] unfolding s(2) by (metis option.inject)
      with s show "e \<in> set ?es" by (simp add: e)
    next
      assume "e \<in> set ?es"
      then obtain s where s: "s \<in> set (mg_snapshot m)" "n = sg_dir_name s" "c = Dir (D s)" by (auto simp: e)
      have "map_of (mg_dirs m) n = Some c" using re [OF s(1)] unfolding s(2,3) by blast
      then have "(n, c) \<in> set (mg_dirs m)" by (rule map_of_SomeD)
      moreover have "is_segment_entry (n, c)" using re [OF s(1)] s by simp
      ultimately show "e \<in> set ?fs" by (simp add: e)
    qed
  qed
  then show "mset ?fs = mset ?es" unfolding set_eq_iff_mset_eq_distinct [OF dfs des] .
qed

text \<open>
  The segments given back have the IDs, names, files and tombstones of the published ones, whatever the
  caches held.
\<close>

definition same_segments :: "manager_env \<Rightarrow> segment list \<Rightarrow> segment list \<Rightarrow> bool" where
  "same_segments env segs segs' \<longleftrightarrow>
     list_all2 (\<lambda>s t. sg_id t = sg_id s \<and> sg_dir_name t = sg_dir_name s \<and>
       tombstones_or_default t = tombstones_or_default s \<and>
       live_files (be_zstd (me_build env)) t = live_files (be_zstd (me_build env)) s) segs segs'"

lemma same_segments_reopened:
  "(\<And>s. s \<in> set segs \<Longrightarrow> reopened env dirs s (D s) (R s)) \<Longrightarrow> same_segments env segs (map R segs)"
proof -
  assume re: "\<And>s. s \<in> set segs \<Longrightarrow> reopened env dirs s (D s) (R s)"
  show ?thesis
    unfolding same_segments_def list_all2_conv_all_nth
  proof (intro conjI allI impI)
    fix i assume i: "i < length segs"
    note facts = reopened_facts [OF re [OF nth_mem [OF i]]]
    show "sg_id (map R segs ! i) = sg_id (segs ! i)" "sg_dir_name (map R segs ! i) = sg_dir_name (segs ! i)"
      "tombstones_or_default (map R segs ! i) = tombstones_or_default (segs ! i)"
      "live_files (be_zstd (me_build env)) (map R segs ! i) = live_files (be_zstd (me_build env)) (segs ! i)"
      using i facts by simp_all
  qed simp
qed

lemma same_segments_view:
  "same_segments env segs segs' \<Longrightarrow>
     map (live_files (be_zstd (me_build env))) segs' = map (live_files (be_zstd (me_build env))) segs"
  by (auto simp: same_segments_def list_all2_conv_all_nth intro!: nth_equalityI)

lemma manager_new_spec:
  assumes ok: "manager_ok env m" and exact: "exact_dirs m" and small: "\<forall>s \<in> set (mg_snapshot m). unat (sg_id s) < 10000"
  shows "\<exists>m'. manager_new (me_read_varint env) (mg_dirs m) = Inr m' \<and> manager_ok env m' \<and> exact_dirs m' \<and>
    same_segments env (mg_snapshot m) (mg_snapshot m') \<and> index_view env m' = index_view env m \<and>
    mg_next_id m' \<le> mg_next_id m"
proof -
  let ?segs = "mg_snapshot m"
  obtain D R where re: "\<And>s. s \<in> set ?segs \<Longrightarrow> reopened env (mg_dirs m) s (D s) (R s) \<and> sg_dir_name s = seg_name (sg_id s)"
    using manager_reopened [OF ok] by blast
  have sorted: "sort_key fst (filter is_segment_entry (mg_dirs m)) = map (\<lambda>s. (sg_dir_name s, Dir (D s))) ?segs"
    using re unfolding reopened_def by (intro sorted_entries [OF ok exact small]) blast
  have load: "load_dirs (me_read_varint env) (map (\<lambda>s. (sg_dir_name s, Dir (D s))) ?segs) 0 []
      = Inr (next_after 0 ?segs, [] @ map R ?segs)"
    using re unfolding reopened_def by (intro load_dirs_segments) blast
  let ?st = "if map R ?segs \<noteq> [] then is_publish (map R ?segs) index_state_new else index_state_new"
  define m' where "m' = \<lparr>mg_dirs = mg_dirs m, mg_next_id = next_after 0 ?segs, mg_state = ?st, mg_is_compacting = False\<rparr>"
  have new: "manager_new (me_read_varint env) (mg_dirs m) = Inr m'"
    unfolding manager_new_def sorted load obind_Inr by (simp add: m'_def)
  have snap: "mg_snapshot m' = map R ?segs"
    by (simp add: m'_def mg_snapshot_def is_snapshot_def is_publish_def index_state_new_def)
  have same: "same_segments env ?segs (map R ?segs)" using re by (intro same_segments_reopened) blast
  have "sg_id s < mg_next_id m" if "s \<in> set ?segs" for s
    using manager_okD(1) [OF ok that] by (simp add: segment_ok_def)
  with next_after_facts [of ?segs "mg_next_id m" 0] have next_id: "next_after 0 ?segs \<le> mg_next_id m"
    "\<forall>s \<in> set ?segs. sg_id s < next_after 0 ?segs" by simp_all
  have "segment_ok env m' (R s)" if s: "s \<in> set ?segs" for s
  proof -
    note r = conjunct1 [OF re [OF s]]
    obtain files where "holds_files env s files" using manager_okD(1) [OF ok s] by (auto simp: segment_ok_def)
    then have "holds_files env (R s) files" using holds_files_cong r by (auto simp: reopened_def)
    then show ?thesis
      using reopened_facts [OF r] re [OF s] next_id(2) s by (auto simp: segment_ok_def m'_def)
  qed
  moreover have ids: "map sg_id (map R ?segs) = map sg_id ?segs" "map sg_dir_name (map R ?segs) = map sg_dir_name ?segs"
  proof -
    have "sg_id (R s) = sg_id s" "sg_dir_name (R s) = sg_dir_name s" if "s \<in> set ?segs" for s
      using reopened_facts(1,2) [OF conjunct1 [OF re [OF that]]] by blast+
    then show "map sg_id (map R ?segs) = map sg_id ?segs" "map sg_dir_name (map R ?segs) = map sg_dir_name ?segs"
      by (simp_all cong: map_cong)
  qed
  ultimately have "manager_ok env m'"
    using manager_okD(2,3) [OF ok] unfolding manager_ok_def snap ids by (simp add: m'_def)
  moreover have "sg_dir_name ` set (map R ?segs) = sg_dir_name ` set ?segs"
    using arg_cong [OF ids(2), of set] by (simp add: image_image)
  then have "exact_dirs m'" using exact unfolding exact_dirs_def snap by (simp add: m'_def)
  moreover have "index_view env m' = index_view env m"
    unfolding index_view_def snap same_segments_view [OF same] by (rule refl)
  moreover have "mg_next_id m' \<le> mg_next_id m" using next_id(1) by (simp add: m'_def)
  moreover have "same_segments env ?segs (mg_snapshot m')" unfolding snap by (rule same)
  ultimately show ?thesis using new by blast
qed

section \<open>What recovery gives back\<close>

lemma seg_name_not_temp: "\<not> is_temp_name (seg_name i)"
  by (simp add: is_temp_name_def seg_name_def)

lemma parse_segment_id_name: "parse_segment_id (seg_name i) = Some i"
  by (simp add: parse_segment_id_def seg_name_def parse_display_padded)

text \<open>Whatever opens has its files and valid headers.\<close>

lemma opened_valid:
  assumes "open_segment_dir rd name d i = Inr s"
  shows "validate_segment_files d = Inr ()" "validate_segment_headers d = Inr ()"
proof -
  obtain tri meta paths content where f: "map_of d ''trigrams.bin'' = Some tri" "map_of d ''meta.bin'' = Some meta"
      "map_of d ''paths.bin'' = Some paths" "map_of d ''content.zst'' = Some content"
    and tri: "\<exists>r. open_index rd tri = Inr r" and meta: "\<exists>r. mr_new meta paths = Inr r"
    using assms by (auto simp: open_segment_dir_def dir_file_def segment_open_def obind_eq_Inr of_option_eq_Inr)
  show "validate_segment_files d = Inr ()"
    using f by (simp add: validate_segment_files_def REQUIRED_FILES_def)
  have "validate_trigram_header (Some tri) = Inr ()"
    using tri by (auto simp: open_index_def validate_trigram_header_def TRIG_HEADER_SIZE_def split: if_splits)
  moreover have "validate_meta_header (Some meta) = Inr ()"
    using meta by (auto simp: mr_new_def validate_meta_header_def META_HEADER_SIZE_def META_VERSION_def Let_def obind_eq_Inr
        split: if_splits)
  ultimately show "validate_segment_headers d = Inr ()"
    by (simp add: validate_segment_headers_def f)
qed

lemma recover_entry_opened:
  "open_segment_dir rd name d i = Inr s \<Longrightarrow> recover_entry rd name (Dir d) i = Inr (Some s)"
  using opened_valid [of rd name d i s] by (simp add: recover_entry_def)

text \<open>Opening a directory can fail, but whatever its files hold it does not panic.\<close>

lemma open_index_no_panic: "open_index rd data \<noteq> Inl Panic"
  by (auto simp: open_index_def Let_def of_option_def obind_def split: option.splits sum.splits prod.splits if_splits)

lemma mr_new_no_panic: "mr_new meta paths \<noteq> Inl Panic"
  by (auto simp: mr_new_def Let_def obind_def split: sum.splits if_splits)

lemma open_segment_no_panic: "open_segment_dir rd name d i \<noteq> Inl Panic"
  using open_index_no_panic [of rd] mr_new_no_panic
  by (auto simp: open_segment_dir_def segment_open_def dir_file_def of_option_def obind_def
      split: option.splits sum.splits)

lemma open_segment_name: "open_segment_dir rd name d i = Inr t \<Longrightarrow> sg_dir_name t = name"
  by (auto simp: open_segment_dir_def obind_eq_Inr)

text \<open>The segment of an entry, when it is a complete segment directory.\<close>

definition entry_segment :: "varint_reader \<Rightarrow> text_utf8 \<times> dir_entry \<Rightarrow> segment option" where
  "entry_segment rd = (\<lambda>(name, entry).
     case (parse_segment_id (from_utf8_lossy name), entry) of
       (Some i, Dir d) \<Rightarrow> (case open_segment_dir rd name d i of Inr s \<Rightarrow> Some s | Inl e \<Rightarrow> None)
     | _ \<Rightarrow> None)"

lemma recover_entry_segment:
  assumes "parse_segment_id (from_utf8_lossy name) = Some i"
  shows "recover_entry rd name entry i = Inr (entry_segment rd (name, entry))"
proof (cases entry)
  case Plain_file
  then show ?thesis using assms by (simp add: recover_entry_def entry_segment_def)
next
  case (Dir d)
  show ?thesis
  proof (cases "open_segment_dir rd name d i")
    case (Inl e)
    then obtain e' where "e = Err e'" using open_segment_no_panic [of rd name d i] by (cases e) auto
    with Inl assms Dir show ?thesis
      by (auto simp: recover_entry_def entry_segment_def split: sum.split)
  next
    case (Inr s)
    with recover_entry_opened [OF Inr] assms Dir show ?thesis by (simp add: entry_segment_def)
  qed
qed

lemma segment_name_not_temp: "parse_segment_id name = Some i \<Longrightarrow> \<not> is_temp_name name"
  by (cases name) (auto simp: parse_segment_id_def is_temp_name_def split: if_splits)

definition kept_entry :: "(text_utf8 \<Rightarrow> bool) \<Rightarrow> text_utf8 \<times> dir_entry \<Rightarrow> bool" where
  "kept_entry removable = (\<lambda>(name, entry).
     \<not> (is_temp_name (from_utf8_lossy name) \<and> entry \<noteq> Plain_file \<and> removable name))"

lemma recover_loop_spec:
  "recover_loop rd removable dirs acc
    = (Inr (acc @ List.map_filter (entry_segment rd) dirs), filter (kept_entry removable) dirs)"
proof (induction dirs arbitrary: acc)
  case Nil
  then show ?case by (simp add: List.map_filter_simps)
next
  case (Cons e dirs)
  obtain name entry where e: "e = (name, entry)" by fastforce
  note Cons.IH [simp]
  show ?case
  proof (cases "parse_segment_id (from_utf8_lossy name)")
    case None
    then have "entry_segment rd e = None" by (simp add: entry_segment_def e)
    with None show ?thesis
      by (auto simp: e Let_def kept_entry_def List.map_filter_simps)
  next
    case (Some i)
    then show ?thesis
      using segment_name_not_temp [OF Some] recover_entry_segment [OF Some, of rd entry]
      by (simp add: e Let_def kept_entry_def List.map_filter_simps split: option.split)
  qed
qed

lemma map_filter_names:
  "(\<And>e s. e \<in> set xs \<Longrightarrow> S e = Some s \<Longrightarrow> g s = f e) \<Longrightarrow>
     map g (List.map_filter S xs) = map f (filter (\<lambda>e. S e \<noteq> None) xs)"
  by (induction xs) (auto simp: List.map_filter_simps split: option.splits)

lemma set_map_filter_Some: "set (List.map_filter S xs) = {s. \<exists>e \<in> set xs. S e = Some s}"
  by (induction xs) (auto simp: List.map_filter_simps split: option.splits)

text \<open>The recovered segments in the order of the published ones.\<close>

lemma sort_recovered:
  assumes sorted: "sorted_wrt (<) (map sg_id segs)" and re: "\<And>s. s \<in> set segs \<Longrightarrow> sg_id (R s) = sg_id s \<and> sg_dir_name (R s) = sg_dir_name s"
    and dist: "distinct (map fst dirs)" and names: "distinct (map sg_dir_name segs)"
    and all: "\<And>s. s \<in> set segs \<Longrightarrow> sg_dir_name s \<in> fst ` set dirs"
  defines "S \<equiv> \<lambda>e. map_of (map (\<lambda>s. (sg_dir_name s, R s)) segs) (fst e)"
  shows "sort_key sg_id (List.map_filter S dirs) = map R segs"
proof (rule sort_key_inj_key_eq)
  have S_iff: "S e = Some t \<longleftrightarrow> (\<exists>s \<in> set segs. fst e = sg_dir_name s \<and> t = R s)" for e t
    unfolding S_def using names by (subst map_of_eq_Some_iff) (auto simp: comp_def)
  have ids: "map sg_id (map R segs) = map sg_id segs" using re by simp
  have strict: "sorted_wrt (<) (map sg_id (map R segs))" unfolding ids by (rule sorted)
  then show "sorted (map sg_id (map R segs))" by (simp add: strict_sorted_iff)
  have dr: "distinct (map R segs)" using strict unfolding strict_sorted_iff by (simp only: distinct_map)
  have "map sg_dir_name (List.map_filter S dirs) = map fst (filter (\<lambda>e. S e \<noteq> None) dirs)"
    using re by (intro map_filter_names) (auto simp: S_iff)
  moreover have "distinct (map fst (filter (\<lambda>e. S e \<noteq> None) dirs))" using dist by (rule distinct_filter_keys)
  ultimately have "distinct (map sg_dir_name (List.map_filter S dirs))" by (simp only:)
  then have dl: "distinct (List.map_filter S dirs)" by (simp only: distinct_map)
  have set_eq: "set (List.map_filter S dirs) = set (map R segs)"
  proof (rule set_eqI)
    fix t
    show "t \<in> set (List.map_filter S dirs) \<longleftrightarrow> t \<in> set (map R segs)"
    proof
      show "t \<in> set (List.map_filter S dirs) \<Longrightarrow> t \<in> set (map R segs)"
        by (auto simp: set_map_filter_Some S_iff)
      assume "t \<in> set (map R segs)"
      then obtain s where s: "s \<in> set segs" "t = R s" by auto
      obtain e where e: "e \<in> set dirs" "sg_dir_name s = fst e" using all [OF s(1)] by (rule imageE) blast
      then have "S e = Some t" unfolding S_iff using s by (intro bexI [of _ s]) simp_all
      with e(1) show "t \<in> set (List.map_filter S dirs)" unfolding set_map_filter_Some by blast
    qed
  qed
  then show "mset (List.map_filter S dirs) = mset (map R segs)"
    unfolding set_eq_iff_mset_eq_distinct [OF dl dr] .
  show "inj_on sg_id (set (List.map_filter S dirs))"
    unfolding set_eq using strict unfolding strict_sorted_iff by (simp only: distinct_map)
qed

lemma filter_map_filter:
  "filter P (List.map_filter S xs)
    = List.map_filter (\<lambda>e. case S e of None \<Rightarrow> None | Some t \<Rightarrow> if P t then Some t else None) xs"
  by (induction xs) (auto simp: List.map_filter_simps split: option.splits)

lemma map_filter_eq: "(\<And>x. x \<in> set xs \<Longrightarrow> f x = g x) \<Longrightarrow> List.map_filter f xs = List.map_filter g xs"
  by (induction xs) (auto simp: List.map_filter_simps split: option.split)

text \<open>The complete segment directories: named like one, and opening without an error.\<close>

definition complete_dir :: "varint_reader \<Rightarrow> dir_listing \<Rightarrow> segment \<Rightarrow> bool" where
  "complete_dir rd dirs t \<longleftrightarrow> (\<exists>name d i. map_of dirs name = Some (Dir d) \<and>
     parse_segment_id (from_utf8_lossy name) = Some i \<and> open_segment_dir rd name d i = Inr t)"

lemma complete_dir_entry:
  assumes "distinct (map fst dirs)"
  shows "complete_dir rd dirs t \<longleftrightarrow> (\<exists>e \<in> set dirs. entry_segment rd e = Some t)"
proof
  assume "complete_dir rd dirs t"
  then obtain name d i where "(name, Dir d) \<in> set dirs" "parse_segment_id (from_utf8_lossy name) = Some i"
      "open_segment_dir rd name d i = Inr t"
    unfolding complete_dir_def using map_of_SomeD by fastforce
  then show "\<exists>e \<in> set dirs. entry_segment rd e = Some t"
    by (intro bexI [of _ "(name, Dir d)"]) (simp_all add: entry_segment_def)
next
  assume "\<exists>e \<in> set dirs. entry_segment rd e = Some t"
  then obtain name entry where e: "(name, entry) \<in> set dirs" "entry_segment rd (name, entry) = Some t" by auto
  then have "map_of dirs name = Some entry" using assms by simp
  with e(2) show "complete_dir rd dirs t"
    unfolding complete_dir_def entry_segment_def
    by (auto split: option.splits dir_entry.splits sum.splits)
qed

definition published_names :: "manager \<Rightarrow> text_utf8 set" where
  "published_names m = sg_dir_name ` set (mg_snapshot m)"

lemma recover_spec:
  assumes ok: "manager_ok env m" and dist: "distinct (map fst dirs)"
    and same: "\<forall>s \<in> set (mg_snapshot m). map_of dirs (sg_dir_name s) = map_of (mg_dirs m) (sg_dir_name s)"
  shows "\<exists>segs. recover_segments (me_read_varint env) removable (Some dirs) = (Inr segs, Some (filter (kept_entry removable) dirs)) \<and>
    sorted (map sg_id segs) \<and> (\<forall>t. t \<in> set segs \<longleftrightarrow> complete_dir (me_read_varint env) dirs t) \<and>
    same_segments env (mg_snapshot m) (filter (\<lambda>t. sg_dir_name t \<in> published_names m) segs)"
proof -
  let ?segs = "mg_snapshot m" and ?rd = "me_read_varint env"
  let ?P = "\<lambda>t. sg_dir_name t \<in> published_names m" and ?found = "List.map_filter (entry_segment ?rd) dirs"
  obtain D R where re: "\<And>s. s \<in> set ?segs \<Longrightarrow> reopened env (mg_dirs m) s (D s) (R s) \<and> sg_dir_name s = seg_name (sg_id s)"
    using manager_reopened [OF ok] by blast
  let ?S = "\<lambda>e. map_of (map (\<lambda>s. (sg_dir_name s, R s)) ?segs) (fst e)"
  have names: "distinct (map sg_dir_name ?segs)"
  proof -
    have "map sg_dir_name ?segs = map seg_name (map sg_id ?segs)" using re by simp
    moreover have "distinct (map sg_id ?segs)" using manager_okD(2) [OF ok] by (simp add: strict_sorted_iff)
    ultimately show ?thesis by (simp add: distinct_map inj_on_def)
  qed
  have dirs: "map_of dirs (sg_dir_name s) = Some (Dir (D s))" if "s \<in> set ?segs" for s
    using re [OF that] same that by (auto simp: reopened_def)
  have entry: "entry_segment ?rd (sg_dir_name s, Dir (D s)) = Some (R s)" if s: "s \<in> set ?segs" for s
  proof -
    have name: "sg_dir_name s = seg_name (sg_id s)" using re [OF s] by simp
    have "open_segment_dir ?rd (sg_dir_name s) (D s) (sg_id s) = Inr (R s)"
      using conjunct1 [OF re [OF s]] unfolding reopened_def by blast
    then show ?thesis unfolding name by (simp add: entry_segment_def lossy_seg_name parse_segment_id_name)
  qed
  have "filter ?P ?found = List.map_filter ?S dirs"
    unfolding filter_map_filter
  proof (rule map_filter_eq)
    fix e assume e: "e \<in> set dirs"
    show "(case entry_segment ?rd e of None \<Rightarrow> None | Some t \<Rightarrow> if ?P t then Some t else None) = ?S e"
    proof (cases "?S e")
      case None
      then have "fst e \<notin> published_names m" by (simp add: map_of_eq_None_iff image_image published_names_def)
      moreover have "sg_dir_name t = fst e" if "entry_segment ?rd e = Some t" for t
        using that open_segment_name
        by (auto simp: entry_segment_def split: prod.splits option.splits dir_entry.splits sum.splits)
      ultimately show ?thesis using None by (auto split: option.split)
    next
      case (Some t)
      then have "(fst e, t) \<in> set (map (\<lambda>s. (sg_dir_name s, R s)) ?segs)" by (rule map_of_SomeD)
      then obtain s where s: "s \<in> set ?segs" "fst e = sg_dir_name s" "t = R s" by auto
      have "map_of dirs (fst e) = Some (snd e)" using dist e by simp
      then have "e = (sg_dir_name s, Dir (D s))" using dirs [OF s(1)] s(2) by (metis option.inject prod.collapse)
      moreover have "sg_dir_name (R s) = sg_dir_name s" using reopened_facts(2) re [OF s(1)] by blast
      ultimately show ?thesis using entry [OF s(1)] Some s by (simp add: published_names_def)
    qed
  qed
  moreover have "sort_key sg_id (List.map_filter ?S dirs) = map R ?segs"
  proof (rule sort_recovered [OF manager_okD(2) [OF ok] _ dist names])
    show "sg_id (R s) = sg_id s \<and> sg_dir_name (R s) = sg_dir_name s" if "s \<in> set ?segs" for s
      using reopened_facts(1,2) [OF conjunct1 [OF re [OF that]]] by blast
    show "sg_dir_name s \<in> fst ` set dirs" if "s \<in> set ?segs" for s
      using map_of_SomeD [OF dirs [OF that]] by force
  qed
  ultimately have "filter ?P (sort_key sg_id ?found) = map R ?segs"
    by (simp add: filter_sort)
  moreover have "same_segments env ?segs (map R ?segs)" using re by (intro same_segments_reopened) blast
  moreover have "t \<in> set (sort_key sg_id ?found) \<longleftrightarrow> complete_dir ?rd dirs t" for t
    using complete_dir_entry [OF dist] by (simp add: set_map_filter_Some)
  ultimately show ?thesis
    by (intro exI [of _ "sort_key sg_id ?found"]) (simp add: recover_segments_def recover_loop_spec)
qed

end
