(* ===== verification/Index_Correct.thy ===== *)
theory Index_Correct
  imports Index_Progress Recovery
begin

text \<open>
  The properties of the life of an index: indexing, applying changes, compaction, restart and crash
  recovery, each with a run from the sample index.
\<close>

section \<open>Indexing, changes and compaction\<close>

text \<open>
  C7. Indexing files appends them to the index: every file is found with its path, content and time,
  after those that were there, whatever the batch size; the segment IDs stay ascending and below the
  counter, every published segment can be opened again from its directory, and no other segment is in
  the directory. When indexing fails the index shows what it showed before.
\<close>

theorem index_files_view:
  assumes "good_env env" and "manager_ok env m" and "fits files"
    and "index_files_with_budget env files max_segment_bytes m = (r, m')"
  shows "manager_ok env m' \<and>
    (r = Inr () \<longrightarrow> index_view env m' = index_view env m @ files \<and> (exact_dirs m \<longrightarrow> exact_dirs m')) \<and>
    (r \<noteq> Inr () \<longrightarrow> index_view env m' = index_view env m)"
  using index_files_spec [OF assms] .

theorem index_files_view_witness:
  "\<exists>m. index_files_with_budget sample_manager_env sample_inputs 0 empty_manager = (Inr (), m) \<and>
     index_view sample_manager_env m = sample_inputs"
proof -
  obtain m where m: "index_files_with_budget sample_manager_env sample_inputs 0 empty_manager = (Inr (), m)"
    using sample_index by blast
  with index_files_view [OF sample_manager_facts(1,2,5) m] sample_manager_facts(4) show ?thesis by auto
qed

text \<open>
  C2. Applying changes replaces the changed files: the files at the paths of modified, deleted and
  renamed entries disappear, the created and modified files that can be read and should be indexed
  appear after the others, and every other file stays, in the same order. The segments stay loadable
  from the directory. When the operation fails, the files at other paths are all still there and no
  file is new.
\<close>

theorem apply_changes_view:
  assumes "good_env env" and "manager_ok env m"
    and "fits (changed_files env tree repo_dir changes (index_view env m))"
    and "apply_changes_with_budget env tree repo_dir changes max_segment_bytes m = (r, m')"
  defines "keep \<equiv> filter (\<lambda>f. in_path f \<notin> set (changed_paths needs_tombstone changes))"
  shows "manager_ok env m' \<and>
    (r = Inr () \<longrightarrow>
       index_view env m' = keep (index_view env m) @ changed_files env tree repo_dir changes (index_view env m) \<and>
       (exact_dirs m \<longrightarrow> exact_dirs m')) \<and>
    (r \<noteq> Inr () \<longrightarrow> keep (index_view env m') = keep (index_view env m) \<and> set (index_view env m') \<subseteq> set (index_view env m))"
  using apply_changes_spec [OF assms(1-4)] unfolding keep_def .

text \<open>In the sample index the first file is deleted.\<close>

definition sample_deletion :: "change_event list" where
  "sample_deletion = [\<lparr>ce_path = ''a.rs'', ce_kind = Deleted\<rparr>]"

lemma sample_deletion_files: "changed_files env tree repo_dir sample_deletion view = []"
  by (simp add: changed_files_def sample_deletion_def needs_new_entry_def List.map_filter_simps)

lemma sample_deletion_paths: "changed_paths needs_tombstone sample_deletion = [''a.rs'']"
proof -
  have "from_utf8_lossy ''a.rs'' = ''a.rs''" by (rule from_utf8_lossy_valid) code_simp
  then show ?thesis by (simp add: changed_paths_def sample_deletion_def needs_tombstone_def)
qed

lemma fits_nil: "fits []"
  by (simp add: fits_def inputs_ok_def)

theorem apply_changes_view_witness:
  "\<exists>m m'. index_view sample_manager_env m = sample_inputs \<and>
     apply_changes_with_budget sample_manager_env (\<lambda>_. None) [] sample_deletion 0 m = (Inr (), m') \<and>
     index_view sample_manager_env m' = [sample_inputs ! 1]"
proof -
  obtain m where m: "manager_ok sample_manager_env m" "index_view sample_manager_env m = sample_inputs"
    using sample_index by blast
  have "unat (mg_next_id m) \<le> u32_max" by simp
  then have "\<exists>m'. apply_changes_with_budget sample_manager_env (\<lambda>_. None) [] sample_deletion 0 m = (Inr (), m')"
    by (intro apply_changes_done sample_manager_facts(1) m(1))
      (simp_all only: sample_deletion_files fits_nil,
       simp_all add: split_unlimited room_for_def sample_manager_env_def)
  then obtain m' where m': "apply_changes_with_budget sample_manager_env (\<lambda>_. None) [] sample_deletion 0 m = (Inr (), m')" ..
  have "fits (changed_files sample_manager_env (\<lambda>_. None) [] sample_deletion (index_view sample_manager_env m))"
    unfolding sample_deletion_files by (rule fits_nil)
  from apply_changes_view [OF sample_manager_facts(1) m(1) this m'] have
    "index_view sample_manager_env m' = [sample_inputs ! 1]"
    unfolding sample_deletion_files sample_deletion_paths m(2) by (simp add: sample_inputs_def)
  with m m' show ?thesis by blast
qed

text \<open>The sample index is one segment, of ID 0.\<close>

lemma sample_index_dirs:
  assumes "index_files_with_budget sample_manager_env sample_inputs 0 empty_manager = (Inr (), m)"
  shows "s \<in> set (mg_snapshot m) \<Longrightarrow> sg_id s = 0" "fst ` set (mg_dirs m) = sg_dir_name ` set (mg_snapshot m)"
    "mg_next_id m = 1"
proof -
  obtain segs m1 where res: "build_all sample_manager_env (segment_build (me_build sample_manager_env)) [sample_inputs] empty_manager
      = (Inr segs, m1)" and snap: "mg_snapshot m = segs" "mg_dirs m = mg_dirs m1" "mg_next_id m = mg_next_id m1"
    using assms(1) build_all_spec(1) [of sample_manager_env _ _ empty_manager]
    by (force simp: index_files_with_budget_def sample_batches Let_def mg_snapshot_def is_snapshot_def is_publish_def
        empty_manager_def index_state_new_def split: prod.splits sum.splits)
  have next_id: "mg_next_id m1 = 1"
    using res by (auto simp: build_all_def next_segment_id_def empty_manager_def split: prod.splits sum.splits)
  then show "mg_next_id m = 1" using snap by simp
  from next_id show "s \<in> set (mg_snapshot m) \<Longrightarrow> sg_id s = 0"
    using build_all_spec(6) [OF res refl] snap by (auto simp: word_less_nat_alt word_le_nat_alt unat_eq_zero)
  show "fst ` set (mg_dirs m) = sg_dir_name ` set (mg_snapshot m)"
    using build_all_spec(7) [OF res refl] snap by (simp add: empty_manager_def)
qed

text \<open>
  C17. Updates get done: when the file system lets the segments and the tombstones be written, IDs and
  directory names are left for the new segments, and every batch of changed files can be built into
  segment files (compressed and encoded, \<open>segment_build\<close>), applying the changes succeeds: the search for the
  old versions, the tombstones and the publication add no failure of their own, whatever the changes and the
  index.
\<close>

theorem apply_changes_succeeds:
  assumes "good_env env" and "manager_ok env m"
    and "fits (changed_files env tree repo_dir changes (index_view env m))"
    and "room_for env (length (split_batches (\<lambda>f. length (in_content f)) max_segment_bytes
           (changed_files env tree repo_dir changes (index_view env m)))) m"
    and "\<And>i. me_tombstone_io env i"
    and "\<And>b. b \<in> set (split_batches (\<lambda>f. length (in_content f)) max_segment_bytes
           (changed_files env tree repo_dir changes (index_view env m))) \<Longrightarrow>
         \<exists>sf. segment_build (me_build env) b = Inr sf"
  shows "\<exists>m'. apply_changes_with_budget env tree repo_dir changes max_segment_bytes m = (Inr (), m')"
  using assms by (rule apply_changes_done)

text \<open>Both files of the sample index are saved again: their old versions are tombstoned, new ones built.\<close>

definition sample_saves :: "change_event list" where
  "sample_saves = [\<lparr>ce_path = ''a.rs'', ce_kind = Modified\<rparr>, \<lparr>ce_path = ''b.py'', ce_kind = Modified\<rparr>]"

definition sample_tree :: work_tree where
  "sample_tree p =
     (if p = ''a.rs'' then Some \<lparr>tf_content = Some ''Abcd'', tf_mtime = Some 7\<rparr>
      else if p = ''b.py'' then Some \<lparr>tf_content = Some ''xabc'', tf_mtime = Some 9\<rparr> else None)"

lemma sample_saves_paths: "changed_paths needs_tombstone sample_saves = [''a.rs'', ''b.py'']"
  by code_simp

lemma read_saved:
  assumes "sample_tree p = Some \<lparr>tf_content = Some c, tf_mtime = Some t\<rparr>" and "length c < 100"
    and "utf8_valid p" and "ParentDir \<notin> set (components p)" and "\<not> is_absolute p"
    and "\<not> is_binary_path p" and "\<not> is_binary_content c" and "p \<in> set T"
  shows "read_change env sample_tree [] T h \<lparr>ce_path = p, ce_kind = Modified\<rparr>
    = Some \<lparr>in_path = p, in_content = c, in_mtime = t\<rparr>"
  using assms by (simp add: read_change_def path_join_def should_index_file_def from_utf8_lossy_valid)

lemma sample_saves_files: "changed_files env sample_tree [] sample_saves view = sample_inputs"
proof -
  let ?T = "[''a.rs'', ''b.py'']"
  have "read_change env sample_tree [] ?T h \<lparr>ce_path = ''a.rs'', ce_kind = Modified\<rparr> = Some (sample_inputs ! 0)"
    and "read_change env sample_tree [] ?T h \<lparr>ce_path = ''b.py'', ce_kind = Modified\<rparr> = Some (sample_inputs ! 1)" for h
    by (simp_all only: sample_inputs_def nth_Cons_0 nth_Cons_Suc One_nat_def)
      (rule read_saved; (simp add: sample_tree_def; fail)?; code_simp)+
  then show ?thesis
    unfolding changed_files_def sample_saves_paths
    by (simp add: sample_saves_def needs_new_entry_def List.map_filter_simps) (simp add: sample_inputs_def)
qed

theorem apply_changes_succeeds_witness:
  "\<exists>m m'. index_view sample_manager_env m = sample_inputs \<and>
     changed_paths needs_tombstone sample_saves = map in_path (index_view sample_manager_env m) \<and>
     changed_files sample_manager_env sample_tree [] sample_saves (index_view sample_manager_env m) = sample_inputs \<and>
     apply_changes_with_budget sample_manager_env sample_tree [] sample_saves 0 m = (Inr (), m')"
proof -
  obtain m where m: "index_files_with_budget sample_manager_env sample_inputs 0 empty_manager = (Inr (), m)"
    "manager_ok sample_manager_env m" "index_view sample_manager_env m = sample_inputs"
    using sample_index by blast
  have "seg_name i \<notin> fst ` set (mg_dirs m)" if "1 \<le> i" for i
  proof
    assume "seg_name i \<in> fst ` set (mg_dirs m)"
    then obtain s where s: "s \<in> set (mg_snapshot m)" "sg_dir_name s = seg_name i"
      unfolding sample_index_dirs(2) [OF m(1)] by auto
    then have "seg_name i = seg_name 0"
      using manager_okD(1) [OF m(2) s(1)] sample_index_dirs(1) [OF m(1) s(1)] by (simp add: segment_ok_def)
    then have "i = 0" using parse_segment_id_name by (metis option.inject)
    with that show False by simp
  qed
  then have room: "room_for sample_manager_env 1 m"
    using sample_index_dirs(3) [OF m(1)] by (simp add: room_for_def sample_manager_env_def map_of_eq_None_iff)
  have "\<exists>m'. apply_changes_with_budget sample_manager_env sample_tree [] sample_saves 0 m = (Inr (), m')"
    by (rule apply_changes_succeeds [OF sample_manager_facts(1) m(2)], unfold sample_saves_files sample_batches)
      (use room sample_manager_facts(5) sample_segment_build in \<open>auto simp: sample_manager_env_def\<close>)
  moreover have "map in_path sample_inputs = [''a.rs'', ''b.py'']" by (simp add: sample_inputs_def)
  ultimately show ?thesis
    using m(3) sample_saves_paths sample_saves_files by metis
qed

text \<open>
  C6. Compaction does not change the index: whatever the size budget, and also when it fails, the same
  files are found with the same contents and times, in the same order, and every published segment can
  be opened again. When it succeeds nothing is tombstoned, without a budget one segment is left at
  most, and once the old directories are removed the directory holds the new segments only.
\<close>

theorem compaction_preserves_view:
  assumes "good_env env" and "manager_ok env m" and "fits (index_view env m)"
    and "compact_with_budget env max_segment_bytes m = (r, m')"
  shows "manager_ok env m' \<and> index_view env m' = index_view env m \<and>
    (r = Inr () \<longrightarrow> (\<forall>s \<in> set (mg_snapshot m'). ts_is_empty (tombstones_or_default s)) \<and>
       (max_segment_bytes = 0 \<longrightarrow> length (mg_snapshot m') \<le> 1) \<and>
       (exact_dirs m \<and> (\<forall>i. me_remove_io env i) \<longrightarrow> exact_dirs m'))"
  using compact_spec [OF assms] .

theorem compaction_preserves_view_witness:
  "\<exists>m r m'. compact_with_budget sample_manager_env 0 m = (r, m') \<and>
     index_view sample_manager_env m = sample_inputs \<and> index_view sample_manager_env m' = sample_inputs"
proof -
  obtain m where m: "manager_ok sample_manager_env m" "index_view sample_manager_env m = sample_inputs"
    using sample_index by blast
  obtain r m' where "compact_with_budget sample_manager_env 0 m = (r, m')" by fastforce
  with compaction_preserves_view [OF sample_manager_facts(1) m(1) _ this] m sample_manager_facts(5)
  show ?thesis by auto
qed

section \<open>Restart and recovery\<close>

text \<open>
  C15. Restarting loses nothing: the manager loaded from the directory of a running one publishes the
  same segments with the same live files and tombstones in the same order, satisfies the invariant, and
  its ID counter is past every published segment. The hypothesis on the IDs is needed for the order:
  directories are loaded by name.
\<close>

theorem reopen_view:
  assumes "manager_ok env m" and "exact_dirs m" and "\<forall>s \<in> set (mg_snapshot m). unat (sg_id s) < 10000"
  shows "\<exists>m'. manager_new (me_read_varint env) (mg_dirs m) = Inr m' \<and> manager_ok env m' \<and> exact_dirs m' \<and>
    same_segments env (mg_snapshot m) (mg_snapshot m') \<and> index_view env m' = index_view env m \<and>
    mg_next_id m' \<le> mg_next_id m"
  using manager_new_spec [OF assms] .

theorem reopen_view_witness:
  "\<exists>m m'. index_view sample_manager_env m = sample_inputs \<and>
     manager_new leb_read (mg_dirs m) = Inr m' \<and> index_view sample_manager_env m' = sample_inputs"
proof -
  obtain m where m: "index_files_with_budget sample_manager_env sample_inputs 0 empty_manager = (Inr (), m)"
    "manager_ok sample_manager_env m" "exact_dirs m" "index_view sample_manager_env m = sample_inputs"
    using sample_index by blast
  have "\<forall>s \<in> set (mg_snapshot m). unat (sg_id s) < 10000" using sample_index_dirs(1) [OF m(1)] by simp
  from reopen_view [OF m(2,3) this] obtain m' where
    "manager_new (me_read_varint sample_manager_env) (mg_dirs m) = Inr m'" "index_view sample_manager_env m' = index_view sample_manager_env m"
    by blast
  with m(4) show ?thesis by (auto simp: sample_manager_env_def)
qed

text \<open>
  From 10000 on the names no longer follow the IDs, so a restart changes which segment counts as the
  newest.
\<close>

lemma seg_names_out_of_order: "seg_name 10000 < seg_name 9999"
  by (simp add: seg_name_def display_padded_def display_nat.simps Let_def less_char_def)






end
