(* ===== verification/Git_Changes.thy ===== *)
theory Git_Changes
  imports Query Paths "HOL-Library.Product_Lexorder" "HOL-Library.Multiset"
begin

text \<open>
  Change detection by git (\<open>ferret-core/src/git_diff.rs\<close>): the parsers of the NUL-delimited output
  of \<open>git diff --name-status -z\<close> and \<open>git ls-files -z\<close>, the merge of the three sources, and the
  de-duplication of \<open>ferret-core/src/hybrid_detector.rs\<close>. The answers of the git command are a
  parameter, a function from its arguments. Paths are compared as \<open>PathBuf\<close> does, by components.
\<close>

section \<open>Paths as keys\<close>

fun component_key :: "component \<Rightarrow> nat \<times> bytes" where
  "component_key RootDir = (0, [])"
| "component_key CurDir = (1, [])"
| "component_key ParentDir = (2, [])"
| "component_key (Normal n) = (3, n)"

definition path_key :: "bytes \<Rightarrow> (nat \<times> bytes) list" where
  "path_key p = map component_key (components p)"

text \<open>\<open>HashMap::insert\<close> with a path as the key: an equal path keeps its spelling.\<close>

fun put_change :: "change_event \<Rightarrow> change_event list \<Rightarrow> change_event list" where
  "put_change e [] = [e]"
| "put_change e (c # cs) =
     (if path_key (ce_path c) = path_key (ce_path e) then c\<lparr>ce_kind := ce_kind e\<rparr> # cs
      else c # put_change e cs)"

definition sort_by_path :: "change_event list \<Rightarrow> change_event list" where
  "sort_by_path = sort_key (\<lambda>e. path_key (ce_path e))"

definition dedup_events :: "change_event list \<Rightarrow> change_event list" where
  "dedup_events events = sort_by_path (fold put_change events [])"

section \<open>Trimmed text\<close>

text \<open>The characters of a valid text, each with its bytes, and \<open>str::trim\<close>.\<close>

function utf8_chars :: "text_utf8 \<Rightarrow> (nat \<times> bytes) list" where
  "utf8_chars s =
     (case utf8_next s of
        None \<Rightarrow> []
      | Some (c, n) \<Rightarrow> (c, take n s) # utf8_chars (drop n s))"
  by pat_completeness auto
termination
proof (relation "measure length")
  fix s :: text_utf8 and p c n
  assume "utf8_next s = Some p" and "(c, n) = p"
  then have "0 < n" "n \<le> length s" using utf8_next_bounds [of s c n] by simp_all
  then show "(drop n s, s) \<in> measure length" by simp
qed simp

declare utf8_chars.simps [simp del]

definition trim :: "text_utf8 \<Rightarrow> text_utf8" where
  "trim s =
     (let ws = (\<lambda>(c, _). is_unicode_whitespace c)
      in concat (map snd (rev (dropWhile ws (rev (dropWhile ws (utf8_chars s)))))))"

section \<open>The detector\<close>

type_synonym git_command = "text_utf8 list \<Rightarrow> text_utf8 result"

record git_detector =
  gd_last_indexed_commit :: "text_utf8 option"

definition git_detector_new :: git_detector where
  "git_detector_new = \<lparr>gd_last_indexed_commit = None\<rparr>"

definition is_ascii_hexdigit :: "u8 \<Rightarrow> bool" where
  "is_ascii_hexdigit b \<longleftrightarrow>
     (48 \<le> byte_val b \<and> byte_val b \<le> 57) \<or> (65 \<le> byte_val b \<and> byte_val b \<le> 70) \<or> (97 \<le> byte_val b \<and> byte_val b \<le> 102)"

text \<open>The assertion on the commit panics.\<close>

definition set_last_indexed_commit :: "text_utf8 \<Rightarrow> git_detector \<Rightarrow> git_detector result" where
  "set_last_indexed_commit sha gd =
     (if length sha \<ge> 7 \<and> list_all is_ascii_hexdigit sha then Inr (gd\<lparr>gd_last_indexed_commit := Some sha\<rparr>)
      else panic)"

definition get_head_sha :: "git_command \<Rightarrow> text_utf8 result" where
  "get_head_sha git = obind (git [''rev-parse'', ''HEAD'']) (\<lambda>output. Inr (trim output))"

definition is_working_tree_clean :: "git_command \<Rightarrow> bool" where
  "is_working_tree_clean git =
     (case git [''status'', ''--porcelain''] of Inr output \<Rightarrow> trim output = [] | Inl _ \<Rightarrow> False)"

definition is_ferret_index_path :: "bytes \<Rightarrow> bool" where
  "is_ferret_index_path p = prefix [Normal ''.ferret_index''] (components p)"

abbreviation event :: "bytes \<Rightarrow> change_kind \<Rightarrow> change_event" where
  "event p k \<equiv> \<lparr>ce_path = p, ce_kind = k\<rparr>"

text \<open>The parser stops at the first field that is missing or empty.\<close>

function name_status_loop :: "text_utf8 list \<Rightarrow> change_event list" where
  "name_status_loop [] = []"
| "name_status_loop (status # parts) =
     (if status = [] then name_status_loop parts
      else if hd status = CHR ''R'' then
        (case parts of
           old # new # rest \<Rightarrow>
             if old = [] \<or> new = [] then []
             else event old Deleted # event new Created # name_status_loop rest
         | _ \<Rightarrow> [])
      else if hd status = CHR ''C'' then
        (case parts of
           _ # new # rest \<Rightarrow> if new = [] then [] else event new Created # name_status_loop rest
         | _ \<Rightarrow> [])
      else
        let kind = (if status = ''A'' then Created else if status = ''M'' then Modified
                    else if status = ''D'' then Deleted else Modified)
        in case parts of
             p # rest \<Rightarrow> if p = [] then [] else event p kind # name_status_loop rest
           | [] \<Rightarrow> [])"
  by pat_completeness auto
termination by (relation "measure length") auto

definition parse_name_status_nul :: "text_utf8 \<Rightarrow> change_event list" where
  "parse_name_status_nul output = name_status_loop (split_on (CHR 0x00) output)"

definition parse_untracked_nul :: "text_utf8 \<Rightarrow> change_event list" where
  "parse_untracked_nul output =
     map (\<lambda>s. event s Created) (filter (\<lambda>s. s \<noteq> []) (split_on (CHR 0x00) output))"

definition detect_changes :: "git_command \<Rightarrow> git_detector \<Rightarrow> change_event list result" where
  "detect_changes git gd =
     (let committed_output =
            (case gd_last_indexed_commit gd of
               Some base \<Rightarrow> obind (git [''diff'', ''--name-status'', ''-z'', base, ''HEAD'']) (\<lambda>output. Inr (Some output))
             | None \<Rightarrow> Inr None);
          unstaged_output = git [''diff'', ''--name-status'', ''-z''];
          untracked_output = git [''ls-files'', ''-z'', ''--others'', ''--exclude-standard'']
      in obind committed_output (\<lambda>committed.
         let changes = (case committed of Some output \<Rightarrow> fold put_change (parse_name_status_nul output) [] | None \<Rightarrow> [])
         in obind unstaged_output (\<lambda>unstaged.
         let changes = fold put_change (parse_name_status_nul unstaged) changes
         in obind untracked_output (\<lambda>untracked.
         let changes = fold put_change (parse_untracked_nul untracked) changes
         in Inr (sort_by_path (filter (\<lambda>e. \<not> is_ferret_index_path (ce_path e)) changes))))))"

section \<open>What git writes\<close>

text \<open>
  The records of \<open>git diff --name-status -z\<close> as git documents them: a status, its score where it has
  one, and the paths, each followed by a NUL byte.
\<close>

datatype diff_record =
  Added bytes | Changed bytes | Removed bytes | Type_changed bytes
| Moved bytes bytes bytes | Copied bytes bytes bytes

fun record_fields :: "diff_record \<Rightarrow> bytes list" where
  "record_fields (Added p) = [''A'', p]"
| "record_fields (Changed p) = [''M'', p]"
| "record_fields (Removed p) = [''D'', p]"
| "record_fields (Type_changed p) = [''T'', p]"
| "record_fields (Moved score old new) = [CHR ''R'' # score, old, new]"
| "record_fields (Copied score old new) = [CHR ''C'' # score, old, new]"

fun record_events :: "diff_record \<Rightarrow> change_event list" where
  "record_events (Added p) = [event p Created]"
| "record_events (Changed p) = [event p Modified]"
| "record_events (Removed p) = [event p Deleted]"
| "record_events (Type_changed p) = [event p Modified]"
| "record_events (Moved score old new) = [event old Deleted, event new Created]"
| "record_events (Copied score old new) = [event new Created]"

definition nul_fields :: "bytes list \<Rightarrow> bytes" where
  "nul_fields fs = concat (map (\<lambda>f. f @ [CHR 0x00]) fs)"

definition record_ok :: "diff_record \<Rightarrow> bool" where
  "record_ok r \<longleftrightarrow> list_all (\<lambda>f. f \<noteq> [] \<and> CHR 0x00 \<notin> set f) (record_fields r)"

lemma split_nul_fields: "list_all (\<lambda>f. CHR 0x00 \<notin> set f) fs \<Longrightarrow> split_on (CHR 0x00) (nul_fields fs) = fs @ [[]]"
proof (induction fs)
  case Nil
  then show ?case by (simp add: nul_fields_def)
next
  case (Cons f fs)
  have "nul_fields (f # fs) = f @ CHR 0x00 # nul_fields fs" by (simp add: nul_fields_def)
  with Cons show ?case by (simp add: split_on_append split_on_no_sep)
qed

lemma loop_record: "record_ok r \<Longrightarrow> name_status_loop (record_fields r @ parts) = record_events r @ name_status_loop parts"
  by (cases r) (simp_all add: record_ok_def)

lemma loop_records:
  "list_all record_ok rs \<Longrightarrow> name_status_loop (concat (map record_fields rs) @ parts) = concat (map record_events rs) @ name_status_loop parts"
  by (induction rs) (simp_all add: loop_record)

text \<open>
  C24. Parsing the output of \<open>git diff --name-status -z\<close> gives the events of its records in order, a
  rename as a deletion and a creation and a copy as a creation, whatever bytes but NUL the paths
  contain; and the output of \<open>git ls-files -z\<close> gives the creation of every listed path.
\<close>

theorem parse_git_output:
  assumes "list_all record_ok rs" and "list_all (\<lambda>p. p \<noteq> [] \<and> CHR 0x00 \<notin> set p) ps"
  shows "parse_name_status_nul (nul_fields (concat (map record_fields rs))) = concat (map record_events rs) \<and>
    parse_untracked_nul (nul_fields ps) = map (\<lambda>p. event p Created) ps"
proof
  have "list_all (\<lambda>f. CHR 0x00 \<notin> set f) (concat (map record_fields rs))"
    using assms(1) by (auto simp: list_all_iff record_ok_def)
  then show "parse_name_status_nul (nul_fields (concat (map record_fields rs))) = concat (map record_events rs)"
    using loop_records [OF assms(1), of "[[]]"] by (simp add: parse_name_status_nul_def split_nul_fields)
  have "list_all (\<lambda>f. CHR 0x00 \<notin> set f) ps" and "filter (\<lambda>s. s \<noteq> []) ps = ps"
    using assms(2) by (auto simp: list_all_iff filter_id_conv)
  then show "parse_untracked_nul (nul_fields ps) = map (\<lambda>p. event p Created) ps"
    by (simp add: parse_untracked_nul_def split_nul_fields)
qed

theorem parse_git_output_witness:
  "parse_name_status_nul (''R100'' @ [CHR 0x00] @ ''a b.rs'' @ [CHR 0x00] @ ''c.rs'' @ [CHR 0x00] @ ''M'' @ [CHR 0x00] @ ''d.rs'' @ [CHR 0x00])
     = [event ''a b.rs'' Deleted, event ''c.rs'' Created, event ''d.rs'' Modified]"
  using conjunct1 [OF parse_git_output, of "[Moved ''100'' ''a b.rs'' ''c.rs'', Changed ''d.rs'']" "[]"]
  by (simp add: record_ok_def nul_fields_def)

section \<open>Merging the sources\<close>

lemma component_key_inject [simp]: "component_key a = component_key b \<longleftrightarrow> a = b"
  by (cases a; cases b) simp_all

lemma path_key_inject: "path_key p = path_key q \<longleftrightarrow> components p = components q"
  by (simp add: path_key_def inj_map_eq_map inj_def)

abbreviation event_key :: "change_event \<Rightarrow> (nat \<times> bytes) list" where
  "event_key e \<equiv> path_key (ce_path e)"

text \<open>The kind that is reported for a path.\<close>

definition change_of :: "change_event list \<Rightarrow> (nat \<times> bytes) list \<rightharpoonup> change_kind" where
  "change_of cs = map_of (map (\<lambda>e. (event_key e, ce_kind e)) cs)"

lemma change_of_put: "change_of (put_change e cs) = (change_of cs)(event_key e \<mapsto> ce_kind e)"
  by (induction e cs rule: put_change.induct) (auto simp: change_of_def fun_eq_iff)

lemma keys_put: "event_key ` set (put_change e cs) = insert (event_key e) (event_key ` set cs)"
  by (induction e cs rule: put_change.induct) auto

lemma distinct_put: "distinct (map event_key cs) \<Longrightarrow> distinct (map event_key (put_change e cs))"
  using keys_put by (induction e cs rule: put_change.induct) auto

lemma change_of_append: "change_of (xs @ ys) = change_of ys ++ change_of xs"
  by (simp add: change_of_def)

lemma change_of_Nil [simp]: "change_of [] = Map.empty"
  by (simp add: change_of_def)

lemma change_of_single [simp]: "change_of [e] = [event_key e \<mapsto> ce_kind e]"
  by (simp add: change_of_def)

lemma change_of_fold: "change_of (fold put_change es cs) = change_of (rev es @ cs)"
proof (induction es arbitrary: cs)
  case (Cons e es)
  have "change_of (e # cs) = (change_of cs)(event_key e \<mapsto> ce_kind e)" by (simp add: change_of_def)
  with Cons.IH [of "put_change e cs"] show ?case by (simp add: change_of_put change_of_append)
qed (simp add: change_of_append)

lemma distinct_fold_put: "distinct (map event_key cs) \<Longrightarrow> distinct (map event_key (fold put_change es cs))"
  by (induction es arbitrary: cs) (simp_all add: distinct_put)

lemma change_of_mem:
  "distinct (map event_key cs) \<Longrightarrow> change_of cs k = Some c \<longleftrightarrow> (\<exists>e \<in> set cs. event_key e = k \<and> ce_kind e = c)"
  unfolding change_of_def by (subst map_of_eq_Some_iff) (auto simp: comp_def)

text \<open>Sorting does not change what is reported, and with distinct paths the result is ascending.\<close>

lemma sort_by_path_facts:
  assumes "distinct (map event_key cs)"
  shows "change_of (sort_by_path cs) = change_of cs" "sorted_wrt (<) (map event_key (sort_by_path cs))"
    "set (sort_by_path cs) = set cs"
proof -
  show set: "set (sort_by_path cs) = set cs" by (simp add: sort_by_path_def)
  have "mset (map event_key (sort_by_path cs)) = mset (map event_key cs)" by (simp add: sort_by_path_def)
  then have dist: "distinct (map event_key (sort_by_path cs))" using assms by (metis mset_eq_imp_distinct_iff)
  show "change_of (sort_by_path cs) = change_of cs"
  proof
    fix k
    show "change_of (sort_by_path cs) k = change_of cs k"
      using change_of_mem [OF dist, of k] change_of_mem [OF assms, of k] unfolding set by (metis option.exhaust)
  qed
  show "sorted_wrt (<) (map event_key (sort_by_path cs))"
    using dist by (simp add: strict_sorted_iff) (simp add: sort_by_path_def)
qed

lemma ferret_path_key: "path_key p = path_key q \<Longrightarrow> is_ferret_index_path p = is_ferret_index_path q"
  by (simp add: path_key_inject is_ferret_index_path_def)

lemma change_of_filter:
  "change_of (filter (\<lambda>e. \<not> is_ferret_index_path (ce_path e)) cs) (path_key p)
    = (if is_ferret_index_path p then None else change_of cs (path_key p))"
proof (induction cs)
  case Nil
  then show ?case by (simp add: change_of_def)
next
  case (Cons e cs)
  then show ?case using ferret_path_key [of "ce_path e" p] by (auto simp: change_of_def)
qed

lemma detect_changes_run:
  fixes c :: "text_utf8 option"
  assumes "case gd_last_indexed_commit gd of
      Some base \<Rightarrow> \<exists>o1. c = Some o1 \<and> git [''diff'', ''--name-status'', ''-z'', base, ''HEAD''] = Inr o1
    | None \<Rightarrow> c = None"
    and "git [''diff'', ''--name-status'', ''-z''] = Inr u"
    and "git [''ls-files'', ''-z'', ''--others'', ''--exclude-standard''] = Inr t"
  shows "detect_changes git gd = Inr (sort_by_path (filter (\<lambda>e. \<not> is_ferret_index_path (ce_path e))
    (fold put_change ((case c of Some o1 \<Rightarrow> parse_name_status_nul o1 | None \<Rightarrow> [])
       @ parse_name_status_nul u @ parse_untracked_nul t) [])))"
  using assms by (auto simp: detect_changes_def Let_def split: option.splits)

text \<open>
  C23. The detected changes are one event per path, in ascending order of the paths, none below
  \<open>.ferret_index\<close>; its kind is the last one reported, committed changes first, then unstaged ones,
  then untracked files.
\<close>

theorem detect_changes_merged:
  fixes c :: "text_utf8 option"
  assumes "case gd_last_indexed_commit gd of
      Some base \<Rightarrow> \<exists>o1. c = Some o1 \<and> git [''diff'', ''--name-status'', ''-z'', base, ''HEAD''] = Inr o1
    | None \<Rightarrow> c = None"
    and "git [''diff'', ''--name-status'', ''-z''] = Inr u"
    and "git [''ls-files'', ''-z'', ''--others'', ''--exclude-standard''] = Inr t"
  defines "reported \<equiv> (case c of Some o1 \<Rightarrow> parse_name_status_nul o1 | None \<Rightarrow> []) @ parse_name_status_nul u @ parse_untracked_nul t"
  shows "\<exists>events. detect_changes git gd = Inr events \<and> sorted_wrt (<) (map event_key events) \<and>
    (\<forall>p. change_of events (path_key p) =
       (if is_ferret_index_path p then None else change_of (rev reported) (path_key p)))"
proof -
  let ?fs = "filter (\<lambda>e. \<not> is_ferret_index_path (ce_path e)) (fold put_change reported [])"
  have "distinct (map event_key (fold put_change reported []))" by (rule distinct_fold_put) simp
  then have "distinct (map event_key ?fs)" by (rule distinct_map_filter)
  note facts = sort_by_path_facts [OF this]
  show ?thesis
    using detect_changes_run [OF assms(1-3)] facts(1,2)
    unfolding reported_def [symmetric] by (simp add: change_of_filter change_of_fold)
qed

theorem detect_changes_merged_witness:
  "\<exists>events. detect_changes (\<lambda>args. Inr (if hd args = ''diff'' then ''M'' @ [CHR 0x00] @ ''a.rs'' @ [CHR 0x00] else ''b.rs'' @ [CHR 0x00]))
      git_detector_new = Inr events \<and>
     change_of events (path_key ''a.rs'') = Some Modified \<and> change_of events (path_key ''b.rs'') = Some Created"
proof -
  let ?git = "\<lambda>args. Inr (if hd args = ''diff'' then ''M'' @ [CHR 0x00] @ ''a.rs'' @ [CHR 0x00] else ''b.rs'' @ [CHR 0x00]) :: text_utf8 result"
  have facts: "\<not> is_ferret_index_path ''a.rs''" "\<not> is_ferret_index_path ''b.rs''"
    "change_of (rev ([] @ parse_name_status_nul (''M'' @ [CHR 0x00] @ ''a.rs'' @ [CHR 0x00]) @ parse_untracked_nul (''b.rs'' @ [CHR 0x00])))
      (path_key ''a.rs'') = Some Modified"
    "change_of (rev ([] @ parse_name_status_nul (''M'' @ [CHR 0x00] @ ''a.rs'' @ [CHR 0x00]) @ parse_untracked_nul (''b.rs'' @ [CHR 0x00])))
      (path_key ''b.rs'') = Some Created"
    by code_simp+
  have "\<exists>events. detect_changes ?git git_detector_new = Inr events \<and> sorted_wrt (<) (map event_key events) \<and>
    (\<forall>p. change_of events (path_key p) = (if is_ferret_index_path p then None
       else change_of (rev ((case None of Some o1 \<Rightarrow> parse_name_status_nul o1 | None \<Rightarrow> [])
         @ parse_name_status_nul (''M'' @ [CHR 0x00] @ ''a.rs'' @ [CHR 0x00]) @ parse_untracked_nul (''b.rs'' @ [CHR 0x00]))) (path_key p)))"
    by (rule detect_changes_merged) (simp_all add: git_detector_new_def)
  then show ?thesis using facts by auto
qed

end
