(* ===== verification/Catch_Up.thy ===== *)
theory Catch_Up
  imports Index_Progress Git_Changes
begin

text \<open>
  Catching up with the working tree: the hash comparison (\<open>ferret-core/src/hash_diff.rs\<close>), the
  checkpoint file (\<open>ferret-core/src/checkpoint.rs\<close>) and the run that detects changes by git or by
  hashes, applies them, compacts and writes a checkpoint (\<open>ferret-core/src/catchup.rs\<close>). The
  walker gives the paths below the root; it, git, JSON, the clock and the file system are parameters.
  Progress events have no effect on the state.
\<close>

section \<open>Comparing the hashes\<close>

definition MAX_FILE_SIZE :: nat where "MAX_FILE_SIZE = 1048576"

text \<open>The tombstones are read from the directory of the segment, not from its cache.\<close>

definition disk_tombstones :: "dir_listing \<Rightarrow> segment \<Rightarrow> tombstone_set result" where
  "disk_tombstones dirs s =
     (case map_of dirs (sg_dir_name s) of
        Some (Dir d) \<Rightarrow>
          obind (dir_file d ''tombstones.bin'') (\<lambda>data. if data = [] then Inr ts_new else ts_read_from data)
      | _ \<Rightarrow> Inl (Err Io))"

definition disk_live_entries :: "dir_listing \<Rightarrow> segment \<Rightarrow> file_metadata list result" where
  "disk_live_entries dirs s =
     obind (disk_tombstones dirs s) (\<lambda>tombstones.
     obind (collect_results (\<lambda>r. r) (iter_all (sg_metadata_reader s))) (\<lambda>entries.
       Inr (filter (\<lambda>e. \<not> ts_contains tombstones (fm_file_id e)) entries)))"

definition indexed_hashes :: "dir_listing \<Rightarrow> segment list \<Rightarrow> (text_utf8 \<times> bytes) list result" where
  "indexed_hashes dirs segments =
     obind (collect_results (disk_live_entries dirs) segments) (\<lambda>live.
       Inr (foldl (\<lambda>indexed e. AList.update (fm_path e) (fm_content_hash e) indexed) [] (concat live)))"

definition hash_event ::
  "(bytes \<Rightarrow> bytes) \<Rightarrow> work_tree \<Rightarrow> bytes \<Rightarrow> (text_utf8 \<times> bytes) list \<Rightarrow> bytes \<Rightarrow> change_event option" where
  "hash_event hash tree repo_root indexed rel_path =
     (case tree (path_join repo_root rel_path) of
        None \<Rightarrow> None
      | Some tf \<Rightarrow>
          (case tf_content tf of
             None \<Rightarrow> None
           | Some content \<Rightarrow>
               if \<not> should_index_file (path_join repo_root rel_path) content MAX_FILE_SIZE then None
               else
                 (case map_of indexed (from_utf8_lossy rel_path) of
                    None \<Rightarrow> Some (event rel_path Created)
                  | Some existing_hash \<Rightarrow>
                      if existing_hash \<noteq> take 16 (hash content) then Some (event rel_path Modified) else None)))"

definition hash_diff ::
  "(bytes \<Rightarrow> bytes) \<Rightarrow> work_tree \<Rightarrow> bytes \<Rightarrow> bytes list result \<Rightarrow> dir_listing \<Rightarrow> segment list \<Rightarrow> change_event list result"
where
  "hash_diff hash tree repo_root walk dirs segments =
     obind (indexed_hashes dirs segments) (\<lambda>indexed.
     obind walk (\<lambda>walked.
       let seen_paths = map from_utf8_lossy walked;
           events = List.map_filter (hash_event hash tree repo_root indexed) walked;
           deleted = map (\<lambda>(p, _). event p Deleted) (filter (\<lambda>(p, _). p \<notin> set seen_paths) indexed)
       in Inr (sort_by_path (events @ deleted))))"

section \<open>The checkpoint\<close>

record checkpoint =
  cp_version :: u32
  cp_git_commit :: "text_utf8 option"
  cp_indexed_at_epoch :: u64
  cp_file_count :: u64

text \<open>The clock gives no time when it is before the epoch.\<close>

definition checkpoint_new :: "u64 option \<Rightarrow> text_utf8 option \<Rightarrow> u64 \<Rightarrow> checkpoint result" where
  "checkpoint_new now git_commit file_count =
     (case now of
        None \<Rightarrow> panic
      | Some indexed_at_epoch \<Rightarrow>
          Inr \<lparr>cp_version = 1, cp_git_commit = git_commit, cp_indexed_at_epoch = indexed_at_epoch,
               cp_file_count = file_count\<rparr>)"

text \<open>The environment of a catch-up run, and the state it works on: the manager and the checkpoint file.\<close>

record catchup_env =
  cu_manager :: manager_env
  cu_tree :: work_tree
  cu_root :: bytes
  cu_walk :: "bytes list result"
  cu_git :: git_command
  cu_ratio_above :: "u64 \<Rightarrow> u64 \<Rightarrow> bool"
  cu_from_json :: "text_utf8 \<Rightarrow> string + checkpoint"
  cu_to_json :: "checkpoint \<Rightarrow> string + text_utf8"
  cu_now :: "u64 option"
  cu_read_io :: bool
  cu_create_dir_io :: bool
  cu_write_io :: bool

record catchup_state =
  cs_manager :: manager
  cs_checkpoint :: "bytes option"

definition read_checkpoint :: "catchup_env \<Rightarrow> bytes option \<Rightarrow> checkpoint option result" where
  "read_checkpoint env ck =
     (case ck of
        None \<Rightarrow> Inr None
      | Some contents \<Rightarrow>
          if \<not> cu_read_io env \<or> \<not> utf8_valid contents then Inl (Err Io)
          else (case cu_from_json env contents of
                  Inl e \<Rightarrow> corrupt (''corrupt checkpoint.json: '' @ e)
                | Inr checkpoint \<Rightarrow> Inr (Some checkpoint)))"

definition write_checkpoint :: "catchup_env \<Rightarrow> checkpoint \<Rightarrow> bytes option \<Rightarrow> unit result \<times> bytes option" where
  "write_checkpoint env checkpoint ck =
     (if \<not> cu_create_dir_io env then (Inl (Err Io), ck)
      else case cu_to_json env checkpoint of
          Inl e \<Rightarrow> (corrupt (''failed to serialize checkpoint: '' @ e), ck)
        | Inr json \<Rightarrow> if cu_write_io env then (Inr (), Some json) else (Inl (Err Io), ck))"

section \<open>The run\<close>

text \<open>None without a commit to start from.\<close>

definition try_git_catchup :: "git_command \<Rightarrow> checkpoint option \<Rightarrow> change_event list result option" where
  "try_git_catchup git checkpoint =
     (case checkpoint of
        None \<Rightarrow> None
      | Some cp \<Rightarrow>
          (case cp_git_commit cp of
             None \<Rightarrow> None
           | Some git_commit \<Rightarrow>
               if get_head_sha git = Inr git_commit \<and> is_working_tree_clean git then Some (Inr [])
               else Some (obind (set_last_indexed_commit git_commit git_detector_new) (detect_changes git))))"

definition run_hash_fallback :: "catchup_env \<Rightarrow> manager \<Rightarrow> change_event list result" where
  "run_hash_fallback env m =
     hash_diff (be_hash (me_build (cu_manager env))) (cu_tree env) (cu_root env) (cu_walk env) (mg_dirs m) (mg_snapshot m)"

definition detect_catchup :: "catchup_env \<Rightarrow> checkpoint option \<Rightarrow> manager \<Rightarrow> change_event list result" where
  "detect_catchup env checkpoint m =
     (case try_git_catchup (cu_git env) checkpoint of
        Some (Inr events) \<Rightarrow> Inr events
      | Some (Inl Panic) \<Rightarrow> panic
      | Some (Inl (Err _)) \<Rightarrow> run_hash_fallback env m
      | None \<Rightarrow> run_hash_fallback env m)"

definition apply_catchup :: "catchup_env \<Rightarrow> bool \<Rightarrow> change_event list \<Rightarrow> manager \<Rightarrow> unit result \<times> manager" where
  "apply_catchup env force_compact changes m =
     (if changes = [] then
        (if force_compact \<and> mg_snapshot m \<noteq> []
         then compact_with_progress (cu_manager env) DEFAULT_COMPACTION_BUDGET m else (Inr (), m))
      else
        case apply_changes_with_progress (cu_manager env) (cu_tree env) (cu_root env) changes m of
          (Inl e, m) \<Rightarrow> (Inl e, m)
        | (Inr _, m) \<Rightarrow>
            if force_compact \<or> should_compact (cu_ratio_above env) m
            then compact_with_progress (cu_manager env) DEFAULT_COMPACTION_BUDGET m else (Inr (), m))"

definition file_count :: "segment list \<Rightarrow> u64" where
  "file_count segments = sum_list (map (\<lambda>s. ucast (sg_entry_count s)) segments)"

definition save_checkpoint :: "catchup_env \<Rightarrow> manager \<Rightarrow> bytes option \<Rightarrow> unit result \<times> bytes option" where
  "save_checkpoint env m ck =
     (let git_commit = (case get_head_sha (cu_git env) of Inr sha \<Rightarrow> Some sha | Inl _ \<Rightarrow> None)
      in case checkpoint_new (cu_now env) git_commit (file_count (mg_snapshot m)) of
           Inl e \<Rightarrow> (Inl e, ck)
         | Inr new_checkpoint \<Rightarrow> write_checkpoint env new_checkpoint ck)"

definition run_catchup_with_progress ::
  "catchup_env \<Rightarrow> bool \<Rightarrow> catchup_state \<Rightarrow> change_event list result \<times> catchup_state" where
  "run_catchup_with_progress env force_compact st =
     (case obind (read_checkpoint env (cs_checkpoint st)) (\<lambda>cp. detect_catchup env cp (cs_manager st)) of
        Inl e \<Rightarrow> (Inl e, st)
      | Inr changes \<Rightarrow>
          (case apply_catchup env force_compact changes (cs_manager st) of
             (Inl e, m) \<Rightarrow> (Inl e, st\<lparr>cs_manager := m\<rparr>)
           | (Inr _, m) \<Rightarrow>
               (case save_checkpoint env m (cs_checkpoint st) of
                  (Inl e, ck) \<Rightarrow> (Inl e, \<lparr>cs_manager = m, cs_checkpoint = ck\<rparr>)
                | (Inr _, ck) \<Rightarrow> (Inr changes, \<lparr>cs_manager = m, cs_checkpoint = ck\<rparr>))))"

definition run_catchup :: "catchup_env \<Rightarrow> catchup_state \<Rightarrow> change_event list result \<times> catchup_state" where
  "run_catchup env st = run_catchup_with_progress env False st"

section \<open>The indexed hashes\<close>

lemma disk_tombstones_placed:
  assumes "placed env dirs s"
  shows "disk_tombstones dirs s = Inr (tombstones_or_default s)"
proof -
  obtain d s0 data where d: "map_of dirs (sg_dir_name s) = Some (Dir d)" and data: "map_of d ''tombstones.bin'' = Some data"
    and s0: "open_segment_dir (me_read_varint env) (sg_dir_name s) d (sg_id s) = Inr s0"
    and ts: "tombs_ok s0" "tombstones_or_default s0 = tombstones_or_default s"
    using assms by (auto simp: placed_def)
  have disk: "sg_disk_tombstones s0 = Some data"
    using s0 data by (auto simp: open_segment_dir_def dir_file_def segment_open_def obind_eq_Inr)
  obtain t s1 where load: "load_tombstones s0 = Inr (t, s1)" using ts(1) by (auto simp: tombs_ok_def)
  then have "(if data = [] then Inr ts_new else ts_read_from data) = Inr t"
    using open_dir_tombstones(2) [OF s0] disk by (simp add: load_tombstones_def load_tombstones_from_disk_def obind_eq_Inr split: if_splits)
  moreover have "t = tombstones_or_default s" using load ts(2) by (simp add: tombstones_or_default_def)
  ultimately show ?thesis by (simp add: disk_tombstones_def d data dir_file_def)
qed

lemma disk_live_entries_spec:
  assumes "segment_ok env m s"
  shows "\<exists>es. disk_live_entries (mg_dirs m) s = Inr es \<and>
    map (\<lambda>e. (fm_path e, fm_content_hash e)) es =
      map (\<lambda>f. (in_path f, take 16 (be_hash (me_build env) (in_content f)))) (live_files (be_zstd (me_build env)) s)"
proof -
  obtain F ps metas where over: "segment_over (me_build env) (me_read_varint env) s F ps metas" and inputs: "inputs_ok F"
    using assms by (auto simp: segment_ok_def holds_files_def fits_def)
  let ?ts = "tombstones_or_default s" and ?ix = "filter (\<lambda>i. \<not> dead s i) [0..<length F]"
  have len: "length metas = length F" and iter: "iter_all (sg_metadata_reader s) = map Inr metas"
    using over by (simp_all add: segment_over_def)
  have "filter (\<lambda>e. \<not> ts_contains ?ts (fm_file_id e)) metas
      = map (nth metas) (filter ((\<lambda>e. \<not> ts_contains ?ts (fm_file_id e)) \<circ> nth metas) [0..<length metas])"
    by (metis filter_map map_nth)
  also have "filter ((\<lambda>e. \<not> ts_contains ?ts (fm_file_id e)) \<circ> nth metas) [0..<length metas] = ?ix"
    using segment_over_file(2) [OF over inputs] by (intro filter_cong) (simp_all add: len dead_def)
  finally have "disk_live_entries (mg_dirs m) s = Inr (map (nth metas) ?ix)"
    using disk_tombstones_placed [of env "mg_dirs m" s] assms by (simp add: disk_live_entries_def iter segment_ok_def)
  moreover have "map (\<lambda>e. (fm_path e, fm_content_hash e)) (map (nth metas) ?ix)
      = map (\<lambda>f. (in_path f, take 16 (be_hash (me_build env) (in_content f)))) (map (nth F) ?ix)"
    using segment_over_file(3) [OF over inputs] matching_hash [OF over] by simp
  ultimately show ?thesis
    unfolding live_files_over [OF over inputs] by blast
qed

lemma map_of_foldl_update:
  "map_of (foldl (\<lambda>r e. AList.update (k e) (v e) r) r0 xs) = foldl (\<lambda>r e. r(k e \<mapsto> v e)) (map_of r0) xs"
  by (induction xs arbitrary: r0) (simp_all add: update_conv')

lemma distinct_foldl_update:
  "distinct (map fst r0) \<Longrightarrow> distinct (map fst (foldl (\<lambda>r e. AList.update (k e) (v e) r) r0 xs))"
  by (induction xs arbitrary: r0) (simp_all add: distinct_update)

lemma indexed_hashes_spec:
  assumes "manager_ok env m"
  shows "\<exists>indexed. indexed_hashes (mg_dirs m) (mg_snapshot m) = Inr indexed \<and>
    map_of indexed = view_hashes env (index_view env m) \<and> distinct (map fst indexed)"
proof -
  let ?kv = "\<lambda>e. (fm_path e, fm_content_hash e)"
  let ?key = "\<lambda>f. (in_path f, take 16 (be_hash (me_build env) (in_content f)))"
  let ?live = "live_files (be_zstd (me_build env))"
  define Q where "Q s es \<longleftrightarrow> disk_live_entries (mg_dirs m) s = Inr es \<and> map ?kv es = map ?key (?live s)" for s es
  have "\<exists>es. Q s es" if s: "s \<in> set (mg_snapshot m)" for s
    using disk_live_entries_spec [OF manager_okD(1) [OF assms s]] unfolding Q_def .
  then obtain E where "\<And>s. s \<in> set (mg_snapshot m) \<Longrightarrow> Q s (E s)" by metis
  then have E: "\<And>s. s \<in> set (mg_snapshot m) \<Longrightarrow> disk_live_entries (mg_dirs m) s = Inr (E s)"
    "\<And>s. s \<in> set (mg_snapshot m) \<Longrightarrow> map ?kv (E s) = map ?key (?live s)"
    unfolding Q_def by simp_all
  have found: "collect_results (disk_live_entries (mg_dirs m)) (mg_snapshot m) = Inr (map E (mg_snapshot m))"
    by (rule collect_results_map) (rule E(1))
  have "map ?kv (concat (map E segs)) = map ?key (concat (map ?live segs))" if "set segs \<subseteq> set (mg_snapshot m)" for segs
    using that E(2) by (induction segs) simp_all
  then have "map ?kv (concat (map E (mg_snapshot m))) = map ?key (index_view env m)"
    unfolding index_view_def by blast
  then show ?thesis
    unfolding indexed_hashes_def found obind_Inr
    by (simp add: map_of_foldl_update distinct_foldl_update foldl_map_update view_hashes_def)
qed

section \<open>The newest content of a path\<close>

definition newest :: "input_file list \<Rightarrow> text_utf8 \<rightharpoonup> bytes" where
  "newest view = map_of (rev (map (\<lambda>f. (in_path f, in_content f)) view))"

lemma view_hashes_newest: "view_hashes env view p = map_option (\<lambda>c. take 16 (be_hash (me_build env) c)) (newest view p)"
proof -
  have "rev (map (\<lambda>f. (in_path f, take 16 (be_hash (me_build env) (in_content f)))) view)
      = map (\<lambda>(k, c). (k, take 16 (be_hash (me_build env) c))) (rev (map (\<lambda>f. (in_path f, in_content f)) view))"
    by (simp add: rev_map)
  then show ?thesis unfolding view_hashes_def newest_def by (simp only: map_of_map option.map_comp comp_def)
qed

lemma newest_append: "newest (xs @ ys) = newest xs ++ newest ys"
  by (simp add: newest_def)

lemma newest_Some: "newest view p = Some c \<Longrightarrow> \<exists>f \<in> set view. in_path f = p \<and> in_content f = c"
  unfolding newest_def by (drule map_of_SomeD) auto

lemma newest_None: "newest view p = None \<longleftrightarrow> p \<notin> in_path ` set view"
  by (simp add: newest_def map_of_eq_None_iff image_image)

lemma newest_keep: "newest (filter (\<lambda>f. in_path f \<notin> T) view) p = (if p \<in> T then None else newest view p)"
proof -
  have "rev (map (\<lambda>f. (in_path f, in_content f)) (filter (\<lambda>f. in_path f \<notin> T) view))
      = filter (\<lambda>(k, _). k \<notin> T) (rev (map (\<lambda>f. (in_path f, in_content f)) view))"
    by (simp add: filter_map rev_filter [symmetric] comp_def)
  then show ?thesis unfolding newest_def by (simp only: map_of_filter_key) simp
qed

lemma newest_determined:
  assumes "\<And>f. f \<in> set view \<Longrightarrow> in_path f = p \<Longrightarrow> in_content f = c"
  shows "newest view p = (if p \<in> in_path ` set view then Some c else None)"
  using newest_Some [of view p] newest_None [of view p] assms by (cases "newest view p") auto

section \<open>What the comparison reports\<close>

text \<open>The content that belongs into the index for a walked path.\<close>

definition indexable :: "work_tree \<Rightarrow> bytes \<Rightarrow> bytes \<rightharpoonup> bytes" where
  "indexable tree repo_root p =
     (case tree (path_join repo_root p) of
        None \<Rightarrow> None
      | Some tf \<Rightarrow>
          (case tf_content tf of
             None \<Rightarrow> None
           | Some c \<Rightarrow> if should_index_file (path_join repo_root p) c MAX_FILE_SIZE then Some c else None))"

text \<open>Paths that the index can hold: UTF-8, relative, without a parent component.\<close>

definition plain_path :: "bytes \<Rightarrow> bool" where
  "plain_path p \<longleftrightarrow> utf8_valid p \<and> \<not> is_absolute p \<and> ParentDir \<notin> set (components p)"

lemma hash_event_indexable:
  "hash_event hash tree root indexed p =
     (case indexable tree root p of
        None \<Rightarrow> None
      | Some c \<Rightarrow>
          (case map_of indexed (from_utf8_lossy p) of
             None \<Rightarrow> Some (event p Created)
           | Some h \<Rightarrow> if h \<noteq> take 16 (hash c) then Some (event p Modified) else None))"
  by (auto simp: hash_event_def indexable_def split: option.splits)

lemma hash_event_iff:
  "hash_event hash tree root indexed p = Some e \<longleftrightarrow>
     (indexable tree root p \<noteq> None \<and> map_of indexed (from_utf8_lossy p) = None \<and> e = event p Created) \<or>
     (\<exists>c h. indexable tree root p = Some c \<and> map_of indexed (from_utf8_lossy p) = Some h \<and>
        h \<noteq> take 16 (hash c) \<and> e = event p Modified)"
  by (cases "indexable tree root p"; cases "map_of indexed (from_utf8_lossy p)") (auto simp: hash_event_indexable)

lemma read_change_indexable:
  assumes "plain_path (ce_path c)"
  shows "read_change env tree root T h c =
    (case indexable tree root (ce_path c) of
       None \<Rightarrow> None
     | Some d \<Rightarrow>
         if ce_path c \<notin> set T \<and> h (ce_path c) = Some (take 16 (be_hash (me_build env) d)) then None
         else Some \<lparr>in_path = ce_path c, in_content = d,
           in_mtime = (case tree (path_join root (ce_path c)) of None \<Rightarrow> 0
             | Some tf \<Rightarrow> (case tf_mtime tf of Some t \<Rightarrow> t | None \<Rightarrow> 0))\<rparr>)"
  using assms by (auto simp: read_change_def indexable_def plain_path_def MAX_FILE_SIZE_def from_utf8_lossy_valid Let_def
      split: option.splits)

lemma set_map_filter: "set (List.map_filter f xs) = {y. \<exists>x \<in> set xs. f x = Some y}"
  by (force simp: List.map_filter_def)

lemma set_sort_by_path [simp]: "set (sort_by_path cs) = set cs"
  by (simp add: sort_by_path_def)

lemma view_path_valid:
  assumes "manager_ok env m" and "f \<in> set (index_view env m)"
  shows "utf8_valid (in_path f)"
proof -
  obtain s where s: "s \<in> set (mg_snapshot m)" "f \<in> set (live_files (be_zstd (me_build env)) s)"
    using assms(2) by (auto simp: index_view_def)
  obtain F where F: "holds_files env s F" using manager_okD(1) [OF assms(1) s(1)] by (auto simp: segment_ok_def)
  have "f \<in> set F" using s(2) unfolding holds_live_files [OF F] by auto
  then show ?thesis using F by (auto simp: holds_files_def fits_def inputs_ok_def list_all_iff)
qed

text \<open>The events, by what the tree and the index hold at a path.\<close>

lemma hash_diff_spec:
  assumes ok: "manager_ok env m" and plain: "\<forall>p \<in> set paths. plain_path p"
    and res: "hash_diff (be_hash (me_build env)) tree root (Inr paths) (mg_dirs m) (mg_snapshot m) = Inr changes"
  defines "hash \<equiv> \<lambda>c. take 16 (be_hash (me_build env) c)"
  shows "set changes =
    {event p Created | p. p \<in> set paths \<and> indexable tree root p \<noteq> None \<and> newest (index_view env m) p = None} \<union>
    {event p Modified | p. p \<in> set paths \<and> (\<exists>c d. indexable tree root p = Some c \<and>
       newest (index_view env m) p = Some d \<and> hash d \<noteq> hash c)} \<union>
    {event p Deleted | p. p \<notin> set paths \<and> newest (index_view env m) p \<noteq> None}"
proof -
  obtain indexed where indexed: "indexed_hashes (mg_dirs m) (mg_snapshot m) = Inr indexed"
    and keys: "map_of indexed = view_hashes env (index_view env m)"
    using indexed_hashes_spec [OF ok] by blast
  have h: "map_of indexed p = map_option hash (newest (index_view env m) p)" for p
    by (simp add: keys view_hashes_newest hash_def)
  have lossy: "from_utf8_lossy p = p" if "p \<in> set paths" for p
    using plain that by (simp add: plain_path_def from_utf8_lossy_valid)
  then have seen: "from_utf8_lossy ` set paths = set paths" by simp
  let ?E = "List.map_filter (hash_event (be_hash (me_build env)) tree root indexed) paths"
  let ?D = "map (\<lambda>(p, _). event p Deleted) (filter (\<lambda>(p, _). p \<notin> set paths) indexed)"
  have changes: "changes = sort_by_path (?E @ ?D)"
    using res by (simp add: hash_diff_def indexed seen Let_def)
  have "set ?E = {event p Created | p. p \<in> set paths \<and> indexable tree root p \<noteq> None \<and> newest (index_view env m) p = None} \<union>
    {event p Modified | p. p \<in> set paths \<and> (\<exists>c d. indexable tree root p = Some c \<and>
       newest (index_view env m) p = Some d \<and> hash d \<noteq> hash c)}"
  proof (rule set_eqI)
    fix e
    have "e \<in> set ?E \<longleftrightarrow> (\<exists>p \<in> set paths. hash_event (be_hash (me_build env)) tree root indexed p = Some e)"
      by (simp add: set_map_filter)
    also have "\<dots> \<longleftrightarrow> (\<exists>p \<in> set paths. (indexable tree root p \<noteq> None \<and> newest (index_view env m) p = None \<and> e = event p Created) \<or>
       (\<exists>c d. indexable tree root p = Some c \<and> newest (index_view env m) p = Some d \<and> hash d \<noteq> hash c \<and> e = event p Modified))"
      by (intro bex_cong refl) (auto simp: hash_event_iff lossy h hash_def)
    finally show "e \<in> set ?E \<longleftrightarrow> e \<in> {event p Created | p. p \<in> set paths \<and> indexable tree root p \<noteq> None \<and>
       newest (index_view env m) p = None} \<union> {event p Modified | p. p \<in> set paths \<and> (\<exists>c d. indexable tree root p = Some c \<and>
       newest (index_view env m) p = Some d \<and> hash d \<noteq> hash c)}"
      by blast
  qed
  moreover have "set ?D = {event p Deleted | p. p \<notin> set paths \<and> newest (index_view env m) p \<noteq> None}"
  proof -
    have keys: "p \<in> fst ` set indexed \<longleftrightarrow> newest (index_view env m) p \<noteq> None" for p
      using h [of p] by (simp add: dom_map_of_conv_image_fst [symmetric] dom_def)
    have "set ?D = {event p Deleted | p. p \<notin> set paths \<and> p \<in> fst ` set indexed}" by force
    then show ?thesis unfolding keys .
  qed
  ultimately show ?thesis unfolding changes by simp
qed

section \<open>What applying the report leaves\<close>

lemma fits_parts:
  assumes "fits (xs @ ys)"
  shows "fits (filter P xs @ ys)" "fits ys"
proof -
  have "length (concat (map in_path (filter P xs @ ys))) \<le> length (concat (map in_path (xs @ ys)))"
    by (induction xs) simp_all
  moreover have "length (filter P xs @ ys) \<le> length (xs @ ys)" by simp
  moreover have "set (filter P xs @ ys) \<subseteq> set (xs @ ys)" by auto
  ultimately show "fits (filter P xs @ ys)"
    using assms unfolding fits_def inputs_ok_def list_all_iff by (meson order_trans subsetD)
  show "fits ys" using assms by (simp add: fits_def inputs_ok_def)
qed

lemma changed_paths_valid:
  assumes "\<forall>c \<in> set changes. utf8_valid (ce_path c)"
  shows "set (changed_paths wanted changes) = ce_path ` {c \<in> set changes. wanted (ce_kind c)}"
  using assms by (auto simp: changed_paths_def from_utf8_lossy_valid image_iff)

text \<open>Contents of the tree and of the index at a walked path have different hashes unless they are equal.\<close>

definition no_collision :: "manager_env \<Rightarrow> work_tree \<Rightarrow> bytes \<Rightarrow> bytes list \<Rightarrow> input_file list \<Rightarrow> bool" where
  "no_collision env tree root paths view \<longleftrightarrow>
     (\<forall>p \<in> set paths. \<forall>c d. indexable tree root p = Some c \<longrightarrow> newest view p = Some d \<longrightarrow>
        take 16 (be_hash (me_build env) d) = take 16 (be_hash (me_build env) c) \<longrightarrow> d = c)"

text \<open>The index that belongs to a tree: what the walk leaves out of it stays only for files that may not be indexed.\<close>

definition caught_up :: "work_tree \<Rightarrow> bytes \<Rightarrow> bytes list \<Rightarrow> input_file list \<Rightarrow> text_utf8 \<rightharpoonup> bytes" where
  "caught_up tree root paths view p =
     (if p \<notin> set paths then None
      else case indexable tree root p of Some c \<Rightarrow> Some c | None \<Rightarrow> newest view p)"

lemma hash_diff_applied:
  assumes ok: "manager_ok env m" and plain: "\<forall>p \<in> set paths. plain_path p"
    and collision: "no_collision env tree root paths (index_view env m)"
    and res: "hash_diff (be_hash (me_build env)) tree root (Inr paths) (mg_dirs m) (mg_snapshot m) = Inr changes"
  defines "view \<equiv> index_view env m"
  shows "newest (filter (\<lambda>f. in_path f \<notin> set (changed_paths needs_tombstone changes)) view
      @ changed_files env tree root changes view) = caught_up tree root paths view"
proof
  fix p
  let ?hash = "\<lambda>c. take 16 (be_hash (me_build env) c)"
  note spec = hash_diff_spec [OF ok plain res, folded view_def]
  have valid: "utf8_valid p" if "newest view p \<noteq> None" for p
    using that newest_None [of view p] view_path_valid [OF ok] by (auto simp: view_def)
  have "\<forall>c \<in> set changes. utf8_valid (ce_path c)"
    unfolding spec using plain valid by (auto simp: plain_path_def)
  note paths = changed_paths_valid [OF this]
  have T: "q \<in> set (changed_paths needs_tombstone changes) \<longleftrightarrow> newest view q \<noteq> None \<and>
      (q \<notin> set paths \<or> (\<exists>c d. indexable tree root q = Some c \<and> newest view q = Some d \<and> ?hash d \<noteq> ?hash c))" for q
  proof -
    have "{c \<in> set changes. needs_tombstone (ce_kind c)} =
        {event q Modified | q. q \<in> set paths \<and> (\<exists>c d. indexable tree root q = Some c \<and>
           newest view q = Some d \<and> ?hash d \<noteq> ?hash c)} \<union>
        {event q Deleted | q. q \<notin> set paths \<and> newest view q \<noteq> None}"
      unfolding spec by (auto simp: needs_tombstone_def)
    then have "set (changed_paths needs_tombstone changes) =
        {q \<in> set paths. \<exists>c d. indexable tree root q = Some c \<and> newest view q = Some d \<and> ?hash d \<noteq> ?hash c} \<union>
        {q. q \<notin> set paths \<and> newest view q \<noteq> None}"
      unfolding paths by (simp only: image_Un) (simp add: setcompr_eq_image image_image)
    then show ?thesis by auto
  qed
  have new: "{c \<in> set changes. needs_new_entry (ce_kind c)} =
      {event q Created | q. q \<in> set paths \<and> indexable tree root q \<noteq> None \<and> newest view q = None} \<union>
      {event q Modified | q. q \<in> set paths \<and> (\<exists>c d. indexable tree root q = Some c \<and>
         newest view q = Some d \<and> ?hash d \<noteq> ?hash c)}"
    unfolding spec by (auto simp: needs_new_entry_def)
  let ?files = "changed_files env tree root changes view"
  let ?read = "read_change env tree root (changed_paths needs_tombstone changes) (view_hashes env view)"
  have files: "f \<in> set ?files \<longleftrightarrow> (\<exists>c \<in> {c \<in> set changes. needs_new_entry (ce_kind c)}. ?read c = Some f)" for f
    by (simp add: changed_files_def set_map_filter)
  have content: "indexable tree root (in_path f) = Some (in_content f)" if f: "f \<in> set ?files" for f
  proof -
    obtain c where c: "c \<in> {c \<in> set changes. needs_new_entry (ce_kind c)}" "?read c = Some f"
      using f files by blast
    have pl: "plain_path (ce_path c)" using c(1) plain unfolding new by auto
    from c(2) show ?thesis unfolding read_change_indexable [OF pl] by (auto split: option.splits if_splits)
  qed
  have member: "q \<in> in_path ` set ?files \<longleftrightarrow> q \<in> set paths \<and> (\<exists>c. indexable tree root q = Some c \<and>
      (case newest view q of None \<Rightarrow> True | Some d \<Rightarrow> ?hash d \<noteq> ?hash c))" for q
  proof
    assume "q \<in> in_path ` set ?files"
    then obtain f c where f: "f \<in> set ?files" "q = in_path f"
      and c: "c \<in> {c \<in> set changes. needs_new_entry (ce_kind c)}" "?read c = Some f"
      using files by blast
    have pl: "plain_path (ce_path c)" using c(1) plain unfolding new by auto
    from c(2) have "ce_path c = q" unfolding read_change_indexable [OF pl] f(2) by (auto split: option.splits if_splits)
    with c(1) show "q \<in> set paths \<and> (\<exists>c. indexable tree root q = Some c \<and>
        (case newest view q of None \<Rightarrow> True | Some d \<Rightarrow> ?hash d \<noteq> ?hash c))"
      unfolding new by auto
  next
    assume q: "q \<in> set paths \<and> (\<exists>c. indexable tree root q = Some c \<and>
        (case newest view q of None \<Rightarrow> True | Some d \<Rightarrow> ?hash d \<noteq> ?hash c))"
    then obtain k where k: "event q k \<in> {c \<in> set changes. needs_new_entry (ce_kind c)}"
      unfolding new by (cases "newest view q") auto
    have pl: "plain_path (ce_path (event q k))" using q plain by simp
    from read_change_indexable [OF pl] q have "\<exists>f. ?read (event q k) = Some f \<and> in_path f = q"
      by (auto simp: view_hashes_newest split: option.splits)
    then show "q \<in> in_path ` set ?files" using k files by blast
  qed
  have files_p: "newest ?files p = (if p \<in> in_path ` set ?files then indexable tree root p else None)"
  proof -
    have "in_content f = the (indexable tree root p)" if "f \<in> set ?files" "in_path f = p" for f
      using content [OF that(1)] that(2) by simp
    note newest_determined [OF this]
    moreover have "indexable tree root p \<noteq> None" if "p \<in> in_path ` set ?files" using that content by auto
    ultimately show ?thesis by auto
  qed
  have "newest (filter (\<lambda>f. in_path f \<notin> set (changed_paths needs_tombstone changes)) view @ ?files) p =
      (case newest ?files p of Some c \<Rightarrow> Some c
       | None \<Rightarrow> if p \<in> set (changed_paths needs_tombstone changes) then None else newest view p)"
    unfolding newest_append map_add_def newest_keep ..
  also have "\<dots> = caught_up tree root paths view p"
  proof (cases "p \<in> set paths \<and> indexable tree root p \<noteq> None \<and> newest view p \<noteq> None")
    case True
    then obtain c d where cd: "p \<in> set paths" "indexable tree root p = Some c" "newest view p = Some d" by blast
    moreover have "?hash d = ?hash c \<Longrightarrow> d = c"
      using collision cd unfolding no_collision_def view_def by blast
    ultimately show ?thesis
      unfolding files_p member T caught_up_def by (cases "?hash d = ?hash c") simp_all
  next
    case False
    then show ?thesis
      unfolding files_p member T caught_up_def by (cases "indexable tree root p"; cases "newest view p") simp_all
  qed
  finally show "newest (filter (\<lambda>f. in_path f \<notin> set (changed_paths needs_tombstone changes)) view @ ?files) p
      = caught_up tree root paths view p" .
qed

text \<open>Comparing again after the index has caught up reports nothing.\<close>

lemma hash_diff_quiet:
  assumes ok: "manager_ok env m" and plain: "\<forall>p \<in> set paths. plain_path p"
    and newest: "newest (index_view env m) = caught_up tree root paths view"
  shows "hash_diff (be_hash (me_build env)) tree root (Inr paths) (mg_dirs m) (mg_snapshot m) = Inr []"
proof -
  obtain changes where changes: "hash_diff (be_hash (me_build env)) tree root (Inr paths) (mg_dirs m) (mg_snapshot m) = Inr changes"
    using indexed_hashes_spec [OF ok] by (auto simp: hash_diff_def Let_def)
  have "set changes = {}"
    unfolding hash_diff_spec [OF ok plain changes] newest by (auto simp: caught_up_def split: option.splits)
  with changes show ?thesis by simp
qed

section \<open>The run as a whole\<close>

lemma apply_catchup_view:
  assumes env: "good_env (cu_manager env)" and ok: "manager_ok (cu_manager env) m"
    and fits: "fits (index_view (cu_manager env) m @
      changed_files (cu_manager env) (cu_tree env) (cu_root env) changes (index_view (cu_manager env) m))"
    and res: "apply_catchup env force changes m = (Inr (), m')"
  shows "manager_ok (cu_manager env) m' \<and> index_view (cu_manager env) m' =
    filter (\<lambda>f. in_path f \<notin> set (changed_paths needs_tombstone changes)) (index_view (cu_manager env) m)
      @ changed_files (cu_manager env) (cu_tree env) (cu_root env) changes (index_view (cu_manager env) m)"
proof (cases "changes = []")
  case True
  have none: "changed_files (cu_manager env) (cu_tree env) (cu_root env) changes (index_view (cu_manager env) m) = []"
    and keep: "filter (\<lambda>f. in_path f \<notin> set (changed_paths needs_tombstone changes)) (index_view (cu_manager env) m)
      = index_view (cu_manager env) m"
    using True by (simp_all add: changed_files_def changed_paths_def List.map_filter_simps)
  have fits1: "fits (index_view (cu_manager env) m)" using fits unfolding none append_Nil2 .
  have "m' = m \<or> compact_with_budget (cu_manager env) DEFAULT_COMPACTION_BUDGET m = (Inr (), m')"
    using res True by (auto simp: apply_catchup_def compact_with_budget_def split: if_splits)
  then show ?thesis
    unfolding none keep append_Nil2 using compact_spec [OF env ok fits1] ok by blast
next
  case False
  obtain r m1 where run: "apply_changes_with_budget (cu_manager env) (cu_tree env) (cu_root env) changes
      DEFAULT_COMPACTION_BUDGET m = (r, m1)" by fastforce
  have same: "apply_changes_with_progress (cu_manager env) (cu_tree env) (cu_root env) changes m = (r, m1)"
    using run by (simp add: apply_changes_with_progress_def apply_changes_with_budget_def)
  have r: "r = Inr ()"
    using res False by (cases r) (simp_all add: apply_catchup_def same)
  note view = apply_changes_spec [OF env ok fits_parts(2) [OF fits] run]
  have view1: "manager_ok (cu_manager env) m1" "index_view (cu_manager env) m1 =
    filter (\<lambda>f. in_path f \<notin> set (changed_paths needs_tombstone changes)) (index_view (cu_manager env) m)
      @ changed_files (cu_manager env) (cu_tree env) (cu_root env) changes (index_view (cu_manager env) m)"
    using view r by blast+
  have "m' = m1 \<or> compact_with_budget (cu_manager env) DEFAULT_COMPACTION_BUDGET m1 = (Inr (), m')"
    using res [unfolded apply_catchup_def if_not_P [OF False] same [unfolded r] prod.case sum.case]
    unfolding compact_with_budget_def by (metis prod.inject)
  moreover have "fits (index_view (cu_manager env) m1)"
    unfolding view1(2) by (rule fits_parts(1) [OF fits])
  ultimately show ?thesis
    using compact_spec [OF env view1(1)] view1 unfolding view1(2) [symmetric] by blast
qed

lemma run_catchup_Inr:
  assumes "read_checkpoint env (cs_checkpoint st) = Inr cp"
    and "run_catchup_with_progress env force_compact st = (Inr changes, st')"
  shows "detect_catchup env cp (cs_manager st) = Inr changes \<and>
    apply_catchup env force_compact changes (cs_manager st) = (Inr (), cs_manager st')"
proof -
  obtain c where c: "detect_catchup env cp (cs_manager st) = Inr c"
    using assms by (cases "detect_catchup env cp (cs_manager st)") (simp_all add: run_catchup_with_progress_def)
  obtain r m where a: "apply_catchup env force_compact c (cs_manager st) = (r, m)" by fastforce
  obtain w ck where w: "save_checkpoint env m (cs_checkpoint st) = (w, ck)" by fastforce
  show ?thesis
    using assms c a w by (cases r; cases w) (auto simp: run_catchup_with_progress_def)
qed

text \<open>A run on the sample index after one of its two files was removed from the tree.\<close>

definition sample_catchup_env :: catchup_env where
  "sample_catchup_env =
     \<lparr>cu_manager = sample_manager_env,
      cu_tree = (\<lambda>p. if p = ''b.py'' then Some \<lparr>tf_content = Some ''xabc'', tf_mtime = Some 9\<rparr> else None),
      cu_root = [], cu_walk = Inr [''b.py''], cu_git = (\<lambda>_. Inl (Err Io)), cu_ratio_above = (\<lambda>_ _. False),
      cu_from_json = (\<lambda>_. Inl []), cu_to_json = (\<lambda>_. Inr []), cu_now = Some 0,
      cu_read_io = True, cu_create_dir_io = True, cu_write_io = True\<rparr>"

lemma sample_catchup_fields:
  "cu_manager sample_catchup_env = sample_manager_env" "cu_walk sample_catchup_env = Inr [''b.py'']"
  "cu_root sample_catchup_env = []" "cu_git sample_catchup_env = (\<lambda>_. Inl (Err Io))"
  "cu_ratio_above sample_catchup_env = (\<lambda>_ _. False)"
  by (simp_all add: sample_catchup_env_def)

lemma never_compact: "should_compact (\<lambda>_ _. False) m = False"
proof -
  have "fst (compact_scan (\<lambda>_ _. False) snap a b) = False" for snap a b
    by (induction snap arbitrary: a b) (auto simp: Let_def split: sum.splits)
  then show ?thesis by (simp add: should_compact_def Let_def case_prod_unfold)
qed

lemma sample_catchup_facts:
  "indexable (cu_tree sample_catchup_env) [] ''b.py'' = Some ''xabc''" "plain_path ''b.py''"
  "newest sample_inputs = [''a.rs'' \<mapsto> ''Abcd'', ''b.py'' \<mapsto> ''xabc'']"
proof -
  have "\<not> is_binary_path ''b.py''" "\<not> is_binary_content ''xabc''" by code_simp+
  then show "indexable (cu_tree sample_catchup_env) [] ''b.py'' = Some ''xabc''"
    by (simp add: indexable_def sample_catchup_env_def should_index_file_def MAX_FILE_SIZE_def path_join_def)
  show "plain_path ''b.py''" by code_simp
  show "newest sample_inputs = [''a.rs'' \<mapsto> ''Abcd'', ''b.py'' \<mapsto> ''xabc'']"
    by (simp add: newest_def sample_inputs_def fun_upd_twist)
qed

lemma sample_catchup_run:
  assumes ok: "manager_ok sample_manager_env m" and view: "index_view sample_manager_env m = sample_inputs"
  shows "\<exists>changes st'. run_catchup sample_catchup_env \<lparr>cs_manager = m, cs_checkpoint = None\<rparr> = (Inr changes, st') \<and>
    changed_files sample_manager_env (cu_tree sample_catchup_env) [] changes sample_inputs = []"
proof -
  let ?env = sample_catchup_env
  note fields = sample_catchup_fields
  let ?diff = "hash_diff (be_hash (me_build sample_manager_env)) (cu_tree ?env) [] (Inr [''b.py'']) (mg_dirs m) (mg_snapshot m)"
  obtain changes where diff: "?diff = Inr changes"
    using indexed_hashes_spec [OF ok] by (auto simp: hash_diff_def Let_def)
  have plain: "\<forall>p \<in> set [''b.py'']. plain_path p" using sample_catchup_facts(2) by simp
  have deleted: "set changes = {event ''a.rs'' Deleted}"
    unfolding hash_diff_spec [OF ok plain diff] view sample_catchup_facts(3)
    using sample_catchup_facts(1) by (auto split: if_splits)
  then have "filter (\<lambda>c. needs_new_entry (ce_kind c)) changes = []"
    by (auto simp: filter_empty_conv needs_new_entry_def)
  then have none: "changed_files sample_manager_env (cu_tree ?env) [] changes sample_inputs = []"
    by (simp add: changed_files_def List.map_filter_simps)
  have done1: "\<exists>m'. apply_changes_with_budget sample_manager_env (cu_tree ?env) [] changes DEFAULT_COMPACTION_BUDGET m = (Inr (), m')"
  proof (rule apply_changes_done [OF sample_manager_facts(1) ok])
    have "unat (mg_next_id m) \<le> u32_max" by simp
    then show "room_for sample_manager_env (length (split_batches (\<lambda>f. length (in_content f)) DEFAULT_COMPACTION_BUDGET
        (changed_files sample_manager_env (cu_tree ?env) [] changes (index_view sample_manager_env m)))) m"
      unfolding view none by (simp add: split_batches_def room_for_def sample_manager_env_def)
  qed (simp_all add: view none split_batches_def, simp_all add: fits_def inputs_ok_def sample_manager_env_def)
  have same: "apply_changes_with_progress sample_manager_env (cu_tree ?env) [] changes m =
      apply_changes_with_budget sample_manager_env (cu_tree ?env) [] changes DEFAULT_COMPACTION_BUDGET m"
    by (simp only: apply_changes_with_budget_def apply_changes_with_progress_def)
  from done1 obtain m' where m': "apply_changes_with_budget sample_manager_env (cu_tree ?env) [] changes DEFAULT_COMPACTION_BUDGET m = (Inr (), m')"
    by (rule exE)
  note applied = trans [OF same m']
  have "changes \<noteq> []"
    using deleted by (metis empty_set insert_not_empty)
  then have "apply_catchup ?env False changes m = (Inr (), m')"
    by (simp add: apply_catchup_def fields applied never_compact)
  moreover have "detect_catchup ?env None m = Inr changes"
    by (simp add: detect_catchup_def try_git_catchup_def run_hash_fallback_def fields diff)
  moreover have "save_checkpoint ?env m' None = (Inr (), Some [])"
    by (simp add: save_checkpoint_def fields get_head_sha_def checkpoint_new_def write_checkpoint_def Let_def)
      (simp add: sample_catchup_env_def write_checkpoint_def)
  ultimately show ?thesis
    using none by (simp add: run_catchup_def run_catchup_with_progress_def read_checkpoint_def)
qed

text \<open>
  C3. The index converges to the working tree: after a catch-up run by hashes (there is no usable
  checkpoint, or git fails), with or without compaction, a path that was not walked is not in the
  index, a walked file that should be indexed is there with the content it has in the tree, and a
  walked file that should not be indexed is left as it was; comparing again reports nothing. The
  hypotheses are that the walked paths are relative UTF-8 paths, that no two of the contents compared
  share their 16-byte hash, and that the files fit.
\<close>

theorem catchup_converges:
  assumes "good_env (cu_manager env)" and "manager_ok (cu_manager env) (cs_manager st)"
    and "cu_walk env = Inr paths" and "\<forall>p \<in> set paths. plain_path p"
    and "no_collision (cu_manager env) (cu_tree env) (cu_root env) paths (index_view (cu_manager env) (cs_manager st))"
    and "read_checkpoint env (cs_checkpoint st) = Inr cp" and "\<forall>events. try_git_catchup (cu_git env) cp \<noteq> Some (Inr events)"
    and "run_catchup_with_progress env force_compact st = (Inr changes, st')"
    and "fits (index_view (cu_manager env) (cs_manager st) @
      changed_files (cu_manager env) (cu_tree env) (cu_root env) changes (index_view (cu_manager env) (cs_manager st)))"
  shows "manager_ok (cu_manager env) (cs_manager st') \<and>
    newest (index_view (cu_manager env) (cs_manager st')) =
      caught_up (cu_tree env) (cu_root env) paths (index_view (cu_manager env) (cs_manager st)) \<and>
    run_hash_fallback env (cs_manager st') = Inr []"
proof -
  have detect: "detect_catchup env cp (cs_manager st) = Inr changes"
    and "apply_catchup env force_compact changes (cs_manager st) = (Inr (), cs_manager st')"
    using run_catchup_Inr [OF assms(6,8)] by blast+
  note applied = apply_catchup_view [OF assms(1,2,9) this(2)]
  have "run_hash_fallback env (cs_manager st) = Inr changes"
    using detect assms(7) by (simp add: detect_catchup_def split: option.splits sum.splits failure.splits)
  then have diff: "hash_diff (be_hash (me_build (cu_manager env))) (cu_tree env) (cu_root env) (Inr paths)
      (mg_dirs (cs_manager st)) (mg_snapshot (cs_manager st)) = Inr changes"
    by (simp add: run_hash_fallback_def assms(3))
  have newest: "newest (index_view (cu_manager env) (cs_manager st')) =
      caught_up (cu_tree env) (cu_root env) paths (index_view (cu_manager env) (cs_manager st))"
    using hash_diff_applied [OF assms(2,4,5) diff] applied by simp
  with applied hash_diff_quiet [OF _ assms(4) newest] show ?thesis
    by (simp add: run_hash_fallback_def assms(3))
qed

theorem catchup_converges_witness:
  "\<exists>m changes st'. index_view sample_manager_env m = sample_inputs \<and>
     run_catchup sample_catchup_env \<lparr>cs_manager = m, cs_checkpoint = None\<rparr> = (Inr changes, st') \<and>
     newest (index_view sample_manager_env (cs_manager st')) = [''b.py'' \<mapsto> ''xabc'']"
proof -
  obtain m where m: "manager_ok sample_manager_env m" "index_view sample_manager_env m = sample_inputs"
    using sample_index by blast
  obtain changes st' where run: "run_catchup sample_catchup_env \<lparr>cs_manager = m, cs_checkpoint = None\<rparr> = (Inr changes, st')"
    and none: "changed_files sample_manager_env (cu_tree sample_catchup_env) [] changes sample_inputs = []"
    using sample_catchup_run [OF m] by blast
  let ?st = "\<lparr>cs_manager = m, cs_checkpoint = None\<rparr>"
  have env: "good_env (cu_manager sample_catchup_env)" "manager_ok (cu_manager sample_catchup_env) (cs_manager ?st)"
    "index_view (cu_manager sample_catchup_env) (cs_manager ?st) = sample_inputs"
    using sample_manager_facts(1) m by (simp_all add: sample_catchup_fields)
  have plain: "\<forall>p \<in> set [''b.py'']. plain_path p" using sample_catchup_facts(2) by simp
  have collision: "no_collision (cu_manager sample_catchup_env) (cu_tree sample_catchup_env) (cu_root sample_catchup_env)
      [''b.py''] (index_view (cu_manager sample_catchup_env) (cs_manager ?st))"
    unfolding no_collision_def env(3) sample_catchup_facts(3) using sample_catchup_facts(1) by (simp add: sample_catchup_fields)
  have git: "read_checkpoint sample_catchup_env (cs_checkpoint ?st) = Inr None"
    "\<forall>events. try_git_catchup (cu_git sample_catchup_env) None \<noteq> Some (Inr events)"
    by (simp_all add: read_checkpoint_def try_git_catchup_def)
  have fits: "fits (index_view (cu_manager sample_catchup_env) (cs_manager ?st) @ changed_files (cu_manager sample_catchup_env)
      (cu_tree sample_catchup_env) (cu_root sample_catchup_env) changes (index_view (cu_manager sample_catchup_env) (cs_manager ?st)))"
    unfolding env(3) using none sample_manager_facts(5) by (simp add: sample_catchup_fields)
  have "newest (index_view sample_manager_env (cs_manager st')) =
      caught_up (cu_tree sample_catchup_env) [] [''b.py''] sample_inputs"
    using conjunct1 [OF conjunct2 [OF catchup_converges
        [OF env(1,2) sample_catchup_fields(2) plain collision git run [unfolded run_catchup_def] fits]]]
    by (simp add: sample_catchup_fields m(2))
  moreover have "caught_up (cu_tree sample_catchup_env) [] [''b.py''] sample_inputs = [''b.py'' \<mapsto> ''xabc'']"
    using sample_catchup_facts(1) by (auto simp: caught_up_def)
  ultimately show ?thesis using m(2) run by auto
qed

end
