(* ===== verification/Symbol_Index.thy ===== *)
theory Symbol_Index
  imports Intersection Metadata
begin

text \<open>
  The symbol index of a segment (\<open>ferret-core/src/symbol_index.rs\<close>): the file of symbol entries with
  its name pool, the trigram index over the names, and the search by name. An error of the writer may
  leave the first of the two files behind; the model gives the files of a successful write.
\<close>

section \<open>The writer\<close>

definition SYMS_MAGIC :: u32 where "SYMS_MAGIC = 0x53594D53"
definition SYMS_VERSION :: u16 where "SYMS_VERSION = 1"
definition SYMS_HEADER_SIZE :: nat where "SYMS_HEADER_SIZE = 10"
definition SYMS_ENTRY_SIZE :: nat where "SYMS_ENTRY_SIZE = 23"

record symbol_record =
  sy_file_id :: file_id
  sy_name :: text_utf8
  sy_kind :: symbol_kind
  sy_line :: u32
  sy_column :: u16

record symbol_hit =
  sh_symbol_id :: u32
  sh_file_id :: file_id
  sh_name :: text_utf8
  sh_kind :: symbol_kind
  sh_line :: u32
  sh_column :: u16

definition symbol_entry :: "u32 \<Rightarrow> u32 \<Rightarrow> symbol_record \<Rightarrow> bytes" where
  "symbol_entry name_offset name_len r =
     u32_le (sy_file_id r) @ u32_le name_offset @ u32_le name_len @ u32_le (sy_line r)
       @ u16_le (sy_column r) @ [kind_to_u8 (sy_kind r)] @ u32_le (- 1)"

fun symbol_entries :: "symbol_record list \<Rightarrow> bytes \<Rightarrow> (bytes list \<times> bytes) result" where
  "symbol_entries [] name_pool = Inr ([], name_pool)"
| "symbol_entries (r # rs) name_pool =
     (if length name_pool > u32_max then corrupt ''name pool offset exceeds u32::MAX''
      else if length (sy_name r) > u32_max then corrupt ''symbol name length exceeds u32::MAX''
      else obind (symbol_entries rs (name_pool @ sy_name r)) (\<lambda>(entries, pool).
        Inr (symbol_entry (of_nat (length name_pool)) (of_nat (length (sy_name r))) r # entries, pool)))"

definition symbol_names :: "symbol_record list \<Rightarrow> (file_id \<times> bytes) list" where
  "symbol_names records = map (\<lambda>(i, r). (of_nat i, sy_name r)) (enumerate 0 records)"

definition symbols_write :: "varint_writer \<Rightarrow> symbol_record list \<Rightarrow> (bytes \<times> bytes) result" where
  "symbols_write wr records =
     (if length records > u32_max then corrupt ''symbol count exceeds u32::MAX''
      else obind (symbol_entries records []) (\<lambda>(entries, name_pool).
        let symbols = u32_le SYMS_MAGIC @ u16_le SYMS_VERSION @ u32_le (of_nat (length records))
              @ concat entries @ name_pool
        in obind (write_index wr (finalize (add_files file_only (symbol_names records)))) (\<lambda>sym_trigrams.
             Inr (symbols, sym_trigrams))))"

section \<open>Extraction\<close>

text \<open>
  The symbols of a file (\<open>ferret-core/src/symbol_extractor.rs\<close>), from the matches of the tree-sitter
  query, which are a parameter: each match is the list of its captures, with the byte range and the
  start position of their nodes. Columns are cut to 16 bits.
\<close>

record capture =
  ca_name :: text_utf8
  ca_start :: nat
  ca_end :: nat
  ca_row :: nat
  ca_column :: nat

definition kind_from_capture :: "text_utf8 \<Rightarrow> symbol_kind option" where
  "kind_from_capture = map_of
     [(''definition.function'', Kind_Function), (''definition.struct'', Kind_Struct), (''definition.trait'', Kind_Trait),
      (''definition.enum'', Kind_Enum), (''definition.interface'', Kind_Interface), (''definition.class'', Kind_Class),
      (''definition.method'', Kind_Method), (''definition.constant'', Kind_Constant),
      (''definition.variable'', Kind_Variable), (''definition.type'', Kind_Type), (''definition.module'', Kind_Module)]"

definition capture_step ::
  "bytes \<Rightarrow> capture \<Rightarrow> (text_utf8 \<times> u32 \<times> u16) option \<times> symbol_kind option
     \<Rightarrow> (text_utf8 \<times> u32 \<times> u16) option \<times> symbol_kind option" where
  "capture_step content c = (\<lambda>(name, kind).
     if ca_name c = ''name'' then
       (let t = slice (ca_start c) (ca_end c) content
        in if utf8_valid t then (Some (t, of_nat (ca_row c), of_nat (ca_column c)), kind) else (name, kind))
     else
       (case kind_from_capture (ca_name c) of Some k \<Rightarrow> (name, Some k) | None \<Rightarrow> (name, kind)))"

definition match_symbol :: "file_id \<Rightarrow> bytes \<Rightarrow> capture list \<Rightarrow> symbol_record option" where
  "match_symbol file_id content captures =
     (case fold (capture_step content) captures (None, None) of
        (Some (name, line, column), Some kind) \<Rightarrow>
          Some \<lparr>sy_file_id = file_id, sy_name = name, sy_kind = kind, sy_line = line, sy_column = column\<rparr>
      | _ \<Rightarrow> None)"

definition extract_symbols_from_tree :: "file_id \<Rightarrow> bytes \<Rightarrow> capture list list \<Rightarrow> symbol_record list" where
  "extract_symbols_from_tree file_id content matches = List.map_filter (match_symbol file_id content) matches"

definition extract_symbols :: "(bytes \<Rightarrow> language \<Rightarrow> capture list list option) \<Rightarrow> file_id \<Rightarrow> bytes \<Rightarrow> language \<Rightarrow> symbol_record list" where
  "extract_symbols run_query file_id content language =
     (if content = [] then []
      else case run_query content language of
          None \<Rightarrow> []
        | Some matches \<Rightarrow> extract_symbols_from_tree file_id content matches)"

section \<open>The reader\<close>

record symbol_reader =
  sr_data :: bytes
  sr_symbol_count :: u32
  sr_trigram_reader :: index_reader
  sr_name_pool_offset :: nat

definition symbols_open :: "varint_reader \<Rightarrow> bytes \<Rightarrow> bytes \<Rightarrow> symbol_reader result" where
  "symbols_open rd symbols sym_trigrams =
     (if length symbols < SYMS_HEADER_SIZE then corrupt ''symbols.bin too small for header''
      else if le_u32 (slice 0 4 symbols) \<noteq> SYMS_MAGIC then corrupt ''invalid symbols.bin magic: expected 0x''
      else if le_u16 (slice 4 6 symbols) \<noteq> SYMS_VERSION
      then Inl (Err (UnsupportedVersion (ucast (le_u16 (slice 4 6 symbols)))))
      else
        let symbol_count = le_u32 (slice 6 10 symbols);
            name_pool_offset = SYMS_HEADER_SIZE + unat symbol_count * SYMS_ENTRY_SIZE
        in if length symbols < name_pool_offset then corrupt ''symbols.bin too small: expected at least ''
           else obind (open_index rd sym_trigrams) (\<lambda>trigram_reader.
             Inr \<lparr>sr_data = symbols, sr_symbol_count = symbol_count, sr_trigram_reader = trigram_reader,
                  sr_name_pool_offset = name_pool_offset\<rparr>))"

definition symbol_get :: "symbol_reader \<Rightarrow> u32 \<Rightarrow> symbol_hit result" where
  "symbol_get r symbol_id =
     (if symbol_id \<ge> sr_symbol_count r then corrupt ''symbol_id ''
      else
        let entry_offset = SYMS_HEADER_SIZE + unat symbol_id * SYMS_ENTRY_SIZE
        in obind (slice_at entry_offset (entry_offset + SYMS_ENTRY_SIZE) (sr_data r)) (\<lambda>entry.
             let name_offset = unat (le_u32 (slice 4 8 entry));
                 name_len = unat (le_u32 (slice 8 12 entry))
             in case kind_from_u8 (entry ! 18) of
                  None \<Rightarrow> corrupt ''invalid SymbolKind byte: ''
                | Some kind \<Rightarrow>
                    let pool_start = sr_name_pool_offset r + name_offset;
                        pool_end = pool_start + name_len
                    in if pool_end > length (sr_data r) then corrupt ''symbol name extends beyond mmap''
                       else if \<not> utf8_valid (slice pool_start pool_end (sr_data r))
                       then corrupt ''invalid UTF-8 in symbol name: ''
                       else Inr \<lparr>sh_symbol_id = symbol_id, sh_file_id = le_u32 (slice 0 4 entry),
                                 sh_name = slice pool_start pool_end (sr_data r), sh_kind = kind,
                                 sh_line = le_u32 (slice 12 16 entry), sh_column = le_u16 (slice 16 18 entry)\<rparr>))"

text \<open>The posting lists of the trigrams, none when one of them is empty.\<close>

fun symbol_lists :: "(trigram \<Rightarrow> file_id list result) \<Rightarrow> trigram list \<Rightarrow> file_id list list option result" where
  "symbol_lists lookup [] = Inr (Some [])"
| "symbol_lists lookup (t # ts) =
     obind (lookup t) (\<lambda>fids.
       if fids = [] then Inr None
       else obind (symbol_lists lookup ts) (\<lambda>ls. Inr (map_option (Cons fids) ls)))"

fun intersect_two_sorted :: "file_id list \<Rightarrow> file_id list \<Rightarrow> file_id list" where
  "intersect_two_sorted [] b = []"
| "intersect_two_sorted (x # a) [] = []"
| "intersect_two_sorted (x # a) (y # b) =
     (if x < y then intersect_two_sorted a (y # b)
      else if x > y then intersect_two_sorted (x # a) b
      else x # intersect_two_sorted a b)"

fun intersect_symbols :: "file_id list \<Rightarrow> file_id list list \<Rightarrow> file_id list" where
  "intersect_symbols result [] = result"
| "intersect_symbols result (l # ls) =
     (if intersect_two_sorted result l = [] then [] else intersect_symbols (intersect_two_sorted result l) ls)"

definition symbol_candidates :: "varint_reader \<Rightarrow> symbol_reader \<Rightarrow> text_utf8 \<Rightarrow> u32 list result" where
  "symbol_candidates rd r query =
     (if length query < 3 then Inr (map of_nat [0..<unat (sr_symbol_count r)])
      else
        let trigrams = extract_unique_trigrams_folded query
        in if trigrams = [] then Inr []
           else obind (symbol_lists (lookup_file_ids rd (sr_trigram_reader r)) trigrams) (\<lambda>ls.
             case ls of
               None \<Rightarrow> Inr []
             | Some posting_lists \<Rightarrow>
                 let posting_lists = sort_key length posting_lists
                 in Inr (intersect_symbols (hd posting_lists) (tl posting_lists))))"

definition symbol_wanted :: "text_utf8 \<Rightarrow> symbol_kind option \<Rightarrow> file_id option \<Rightarrow> symbol_hit \<Rightarrow> bool" where
  "symbol_wanted query kind file_id hit \<longleftrightarrow>
     (query = [] \<or> find_sub (map ascii_fold_byte (sh_name hit)) (map ascii_fold_byte query) \<noteq> None) \<and>
     (case kind of Some k \<Rightarrow> sh_kind hit = k | None \<Rightarrow> True) \<and>
     (case file_id of Some f \<Rightarrow> sh_file_id hit = f | None \<Rightarrow> True)"

definition search_filtered ::
  "varint_reader \<Rightarrow> symbol_reader \<Rightarrow> text_utf8 \<Rightarrow> symbol_kind option \<Rightarrow> file_id option \<Rightarrow> symbol_hit list result"
where
  "search_filtered rd r query kind file_id =
     obind (symbol_candidates rd r query) (\<lambda>candidate_ids.
     obind (collect_results (symbol_get r) candidate_ids) (\<lambda>hits.
       Inr (filter (symbol_wanted query kind file_id) hits)))"

definition symbol_search :: "varint_reader \<Rightarrow> symbol_reader \<Rightarrow> text_utf8 \<Rightarrow> symbol_hit list result" where
  "symbol_search rd r query = search_filtered rd r query None None"

section \<open>The written file\<close>

definition hit_of :: "u32 \<Rightarrow> symbol_record \<Rightarrow> symbol_hit" where
  "hit_of i r =
     \<lparr>sh_symbol_id = i, sh_file_id = sy_file_id r, sh_name = sy_name r, sh_kind = sy_kind r,
      sh_line = sy_line r, sh_column = sy_column r\<rparr>"

abbreviation name_offset_of :: "symbol_record list \<Rightarrow> nat \<Rightarrow> nat" where
  "name_offset_of rs i \<equiv> offset_of (map sy_name rs) i"

lemma length_symbol_entry [simp]: "length (symbol_entry po pl r) = 23"
  by (simp add: symbol_entry_def)

lemma symbol_entry_fields:
  "slice 0 4 (symbol_entry po pl r) = u32_le (sy_file_id r)" "slice 4 8 (symbol_entry po pl r) = u32_le po"
  "slice 8 12 (symbol_entry po pl r) = u32_le pl" "slice 12 16 (symbol_entry po pl r) = u32_le (sy_line r)"
  "slice 16 18 (symbol_entry po pl r) = u16_le (sy_column r)" "symbol_entry po pl r ! 18 = kind_to_u8 (sy_kind r)"
  by (simp_all add: symbol_entry_def slice_def nth_append)

lemma symbol_entries_spec:
  assumes "symbol_entries rs pool = Inr (entries, pool')"
  shows "pool' = pool @ concat (map sy_name rs) \<and> length entries = length rs \<and>
    (\<forall>i < length rs. entries ! i = symbol_entry (of_nat (length pool + name_offset_of rs i)) (of_nat (length (sy_name (rs ! i)))) (rs ! i) \<and>
       length pool + name_offset_of rs i \<le> u32_max \<and> length (sy_name (rs ! i)) \<le> u32_max)"
  using assms
proof (induction rs arbitrary: pool entries)
  case Nil
  then show ?case by simp
next
  case (Cons r rs)
  then obtain es where res: "symbol_entries rs (pool @ sy_name r) = Inr (es, pool')"
    and small: "length pool \<le> u32_max" "length (sy_name r) \<le> u32_max"
    and entries: "entries = symbol_entry (of_nat (length pool)) (of_nat (length (sy_name r))) r # es"
    by (auto simp: obind_eq_Inr split: if_splits)
  note IH = Cons.IH [OF res]
  have "\<forall>i < length (r # rs). entries ! i = symbol_entry (of_nat (length pool + name_offset_of (r # rs) i))
        (of_nat (length (sy_name ((r # rs) ! i)))) ((r # rs) ! i) \<and>
      length pool + name_offset_of (r # rs) i \<le> u32_max \<and> length (sy_name ((r # rs) ! i)) \<le> u32_max"
  proof (intro allI impI)
    fix i
    assume "i < length (r # rs)"
    with IH small show "entries ! i = symbol_entry (of_nat (length pool + name_offset_of (r # rs) i))
        (of_nat (length (sy_name ((r # rs) ! i)))) ((r # rs) ! i) \<and>
      length pool + name_offset_of (r # rs) i \<le> u32_max \<and> length (sy_name ((r # rs) ! i)) \<le> u32_max"
      by (cases i) (simp_all add: entries add.assoc)
  qed
  with IH show ?case by (simp add: entries)
qed

text \<open>What a successful write gives: the parts of the symbol file and an index over the names.\<close>

definition written_symbols ::
  "varint_writer \<Rightarrow> symbol_record list \<Rightarrow> bytes list \<Rightarrow> bytes \<Rightarrow> symbol_reader" where
  "written_symbols wr rs entries trig =
     \<lparr>sr_data = u32_le SYMS_MAGIC @ u16_le SYMS_VERSION @ u32_le (of_nat (length rs)) @ concat entries @ concat (map sy_name rs),
      sr_symbol_count = of_nat (length rs),
      sr_trigram_reader = written_reader wr (finalize (add_files file_only (symbol_names rs))) trig,
      sr_name_pool_offset = 10 + length rs * 23\<rparr>"

lemma symbol_names_nth [simp]:
  "length (symbol_names rs) = length rs" "i < length rs \<Longrightarrow> symbol_names rs ! i = (of_nat i, sy_name (rs ! i))"
  by (simp_all add: symbol_names_def nth_enumerate_eq)

lemma symbol_names_sorted: "length rs \<le> u32_max \<Longrightarrow> sorted_wrt (<) (map fst (symbol_names rs))"
  by (auto simp: sorted_wrt_iff_nth_less word_less_nat_alt unat_of_nat)

lemma symbols_write_parts:
  assumes "symbols_write wr rs = Inr (symbols, trig)"
  obtains entries where "symbol_entries rs [] = Inr (entries, concat (map sy_name rs))"
    and "symbols = sr_data (written_symbols wr rs entries trig)"
    and "length rs \<le> u32_max" and "indexed_files wr file_only (symbol_names rs) trig"
proof -
  obtain entries pool where es: "symbol_entries rs [] = Inr (entries, pool)" and n: "length rs \<le> u32_max"
    and sym: "symbols = u32_le SYMS_MAGIC @ u16_le SYMS_VERSION @ u32_le (of_nat (length rs)) @ concat entries @ pool"
    and trig: "write_index wr (finalize (add_files file_only (symbol_names rs))) = Inr trig"
    using assms by (auto simp: symbols_write_def obind_eq_Inr Let_def split: if_splits)
  note spec = symbol_entries_spec [OF es]
  have "list_all (\<lambda>(f, c). length c \<le> u32_max) (symbol_names rs)"
    using spec by (simp add: list_all_length)
  moreover have "empty_builder file_only" by (simp add: empty_builder_def file_only_def)
  ultimately have "indexed_files wr file_only (symbol_names rs) trig"
    using n trig symbol_names_sorted [OF n] by (simp add: indexed_files_def)
  with es n sym spec show thesis by (intro that [of entries]) (simp_all add: written_symbols_def)
qed

lemma entry_chunks:
  assumes "symbol_entries rs [] = Inr (entries, pool)"
  shows "length entries = length rs" "\<forall>e \<in> set entries. length e = 23" "length (concat entries) = length rs * 23"
    "i \<le> length rs \<Longrightarrow> offset_of entries i = i * 23"
proof -
  note spec = symbol_entries_spec [OF assms]
  show len: "length entries = length rs" using spec by simp
  show uniform: "\<forall>e \<in> set entries. length e = 23" using spec by (auto simp: in_set_conv_nth)
  show "length (concat entries) = length rs * 23"
    using offset_of_uniform [OF uniform, of "length entries"] len by (simp add: offset_of_def)
  show "i \<le> length rs \<Longrightarrow> offset_of entries i = i * 23" using offset_of_uniform [OF uniform] len by simp
qed

lemma symbols_open_written:
  assumes codec: "varint_codec wr rd" and es: "symbol_entries rs [] = Inr (entries, concat (map sy_name rs))"
    and n: "length rs \<le> u32_max" and idx: "indexed_files wr file_only (symbol_names rs) trig"
  shows "symbols_open rd (sr_data (written_symbols wr rs entries trig)) trig = Inr (written_symbols wr rs entries trig)"
proof -
  let ?d = "sr_data (written_symbols wr rs entries trig)"
  have "slice 0 4 ?d = u32_le SYMS_MAGIC" "slice 4 6 ?d = u16_le SYMS_VERSION" "slice 6 10 ?d = u32_le (of_nat (length rs))"
    by (simp_all add: written_symbols_def slice_def)
  moreover have "length ?d = 10 + length rs * 23 + length (concat (map sy_name rs))"
    using entry_chunks(3) [OF es] by (simp add: written_symbols_def)
  ultimately show ?thesis
    using n indexed_files_open [OF codec idx]
    by (simp add: symbols_open_def SYMS_HEADER_SIZE_def SYMS_ENTRY_SIZE_def Let_def) (simp add: written_symbols_def)
qed

lemma symbol_get_written:
  assumes es: "symbol_entries rs [] = Inr (entries, concat (map sy_name rs))" and n: "length rs \<le> u32_max"
    and valid: "list_all (\<lambda>r. utf8_valid (sy_name r)) rs" and i: "i < length rs"
  shows "symbol_get (written_symbols wr rs entries trig) (of_nat i) = Inr (hit_of (of_nat i) (rs ! i))"
proof -
  let ?r = "written_symbols wr rs entries trig" and ?names = "map sy_name rs"
  let ?header = "u32_le SYMS_MAGIC @ u16_le SYMS_VERSION @ u32_le (of_nat (length rs))"
  have data: "sr_data ?r = ?header @ concat entries @ concat ?names" by (simp add: written_symbols_def)
  note chunks = entry_chunks [OF es]
  have entry: "entries ! i = symbol_entry (of_nat (name_offset_of rs i)) (of_nat (length (sy_name (rs ! i)))) (rs ! i)"
    and small: "name_offset_of rs i \<le> u32_max" "length (sy_name (rs ! i)) \<le> u32_max"
    using symbol_entries_spec [OF es] i by simp_all
  have len: "length (sr_data ?r) = 10 + length rs * 23 + length (concat ?names)"
    using chunks(3) by (simp add: data)
  have "slice (10 + i * 23) (33 + i * 23) (?header @ concat entries @ concat ?names) = entries ! i"
    using i chunks(1,4) by (intro slice_concat) simp_all
  moreover have "slice_ok (10 + i * 23) (33 + i * 23) (sr_data ?r)" using i len by (simp add: slice_ok_def)
  ultimately have sl: "slice_at (10 + i * 23) (33 + i * 23) (sr_data ?r) = Inr (entries ! i)"
    by (simp add: slice_at_ok data)
  have bound: "name_offset_of rs i + length (sy_name (rs ! i)) \<le> length (concat ?names)"
    using offset_of_le_concat [of ?names "Suc i"] i by (simp add: offset_of_Suc)
  have "slice (length (?header @ concat entries) + name_offset_of rs i)
      (length (?header @ concat entries) + name_offset_of rs i + length (sy_name (rs ! i)))
      ((?header @ concat entries) @ concat ?names @ []) = ?names ! i"
    using i by (intro slice_concat) (simp_all add: offset_of_Suc)
  then have pool: "slice (10 + length rs * 23 + name_offset_of rs i)
      (10 + length rs * 23 + name_offset_of rs i + length (sy_name (rs ! i))) (sr_data ?r) = sy_name (rs ! i)"
    using i chunks(3) by (simp add: data)
  have "utf8_valid (sy_name (rs ! i))" using valid i by (simp add: list_all_length)
  moreover have "\<not> sr_symbol_count ?r \<le> of_nat i"
    using i n by (simp add: written_symbols_def word_le_nat_alt unat_of_nat)
  moreover have "unat (of_nat i :: u32) = i" using i n by (simp add: unat_of_nat)
  ultimately show ?thesis
    using sl bound len pool small
    by (simp add: symbol_get_def SYMS_HEADER_SIZE_def SYMS_ENTRY_SIZE_def Let_def entry symbol_entry_fields kind_from_to_u8 hit_of_def)
      (simp add: written_symbols_def)
qed

text \<open>Extracted names are text, so the written entries can be read.\<close>

definition name_valid :: "(text_utf8 \<times> u32 \<times> u16) option \<Rightarrow> bool" where
  "name_valid n \<longleftrightarrow> (case n of Some (t, _) \<Rightarrow> utf8_valid t | None \<Rightarrow> True)"

lemma capture_step_valid: "name_valid (fst st) \<Longrightarrow> name_valid (fst (capture_step content cap st))"
  by (cases st) (auto simp: capture_step_def Let_def name_valid_def split: option.splits)

lemma captures_valid: "name_valid (fst st) \<Longrightarrow> name_valid (fst (fold (capture_step content) cs st))"
  by (induction cs arbitrary: st) (simp_all add: capture_step_valid)

lemma match_symbol_valid:
  assumes "match_symbol fid content cs = Some r"
  shows "utf8_valid (sy_name r)"
proof -
  have valid: "name_valid (fst (fold (capture_step content) cs (None, None)))"
    by (rule captures_valid) (simp add: name_valid_def)
  obtain n k where "fold (capture_step content) cs (None, None) = (n, k)" by (cases "fold (capture_step content) cs (None, None)")
  with assms valid show ?thesis
    by (cases n; cases k) (auto simp: match_symbol_def name_valid_def)
qed

lemma extracted_names_valid: "list_all (\<lambda>r. utf8_valid (sy_name r)) (extract_symbols run_query fid content lang)"
  by (auto simp: extract_symbols_def extract_symbols_from_tree_def list_all_iff List.map_filter_def
      dest: match_symbol_valid split: option.splits)

section \<open>The search\<close>

lemma intersect_two_sorted_eq: "intersect_two_sorted = intersect_two"
proof (intro ext)
  fix a b
  show "intersect_two_sorted a b = intersect_two a b" by (induction a b rule: intersect_two.induct) simp_all
qed

lemma intersect_symbols_eq: "intersect_symbols result ls = intersect_loop result ls"
  by (induction ls arbitrary: result) (simp_all add: intersect_two_sorted_eq)

lemma symbol_lists_spec:
  assumes "posting_index lookup estimate postings"
  shows "symbol_lists lookup ts = Inr (if \<exists>t \<in> set ts. postings t = [] then None else Some (map postings ts))"
  using posting_index.lookup_postings [OF assms] by (induction ts) auto

lemma symbol_candidates_lists:
  assumes idx: "posting_index lookup estimate postings" and "ts \<noteq> []"
  shows "\<exists>ids. obind (symbol_lists lookup ts) (\<lambda>ls. case ls of None \<Rightarrow> Inr []
       | Some posting_lists \<Rightarrow> let posting_lists = sort_key length posting_lists
           in Inr (intersect_symbols (hd posting_lists) (tl posting_lists))) = Inr ids \<and>
     sorted_wrt (<) ids \<and> set ids = (\<Inter>t \<in> set ts. set (postings t))"
proof (cases "\<exists>t \<in> set ts. postings t = []")
  case True
  then show ?thesis using symbol_lists_spec [OF idx, of ts] by force
next
  case False
  let ?ls = "sort_key length (map postings ts)"
  have "length ?ls \<noteq> 0" using assms(2) by simp
  then obtain l ls where ls: "?ls = l # ls" by (cases ?ls) simp_all
  have sets: "set (l # ls) = postings ` set ts" unfolding ls [symmetric] by simp
  then have "\<forall>k \<in> set (l # ls). sorted_wrt (<) k"
    using posting_index.postings_sorted [OF idx] by auto
  then have "sorted_wrt (<) (intersect_loop l ls) \<and> set (intersect_loop l ls) = set l \<inter> (\<Inter>k \<in> set ls. set k)"
    by (intro intersect_loop_spec) simp_all
  moreover have "set l \<inter> (\<Inter>k \<in> set ls. set k) = (\<Inter>k \<in> set (l # ls). set k)" by simp
  ultimately show ?thesis
    unfolding sets using False symbol_lists_spec [OF idx, of ts] ls by (simp add: intersect_symbols_eq)
qed

text \<open>The symbols in the order of their IDs.\<close>

definition symbol_hits :: "symbol_record list \<Rightarrow> symbol_hit list" where
  "symbol_hits rs = map (\<lambda>i. hit_of (of_nat i) (rs ! i)) [0..<length rs]"

lemma symbol_names_upt: "symbol_names rs = map (\<lambda>i. (of_nat i, sy_name (rs ! i))) [0..<length rs]"
  by (rule nth_equalityI) simp_all

lemma symbol_candidates_written:
  assumes codec: "varint_codec wr rd" and n: "length rs \<le> u32_max"
    and idx: "indexed_files wr file_only (symbol_names rs) trig"
  shows "\<exists>ix. symbol_candidates rd (written_symbols wr rs entries trig) query = Inr (map of_nat (filter ix [0..<length rs])) \<and>
    (\<forall>i < length rs. sublist (fold_text query) (fold_text (sy_name (rs ! i))) \<longrightarrow> ix i)"
proof (cases "length query < 3")
  case True
  with n show ?thesis
    by (intro exI [of _ "\<lambda>_. True"]) (simp add: symbol_candidates_def written_symbols_def unat_of_nat)
next
  case False
  let ?ts = "extract_unique_trigrams_folded query"
  let ?ix = "\<lambda>i. list_all (\<lambda>t. t \<in> set (extract_trigrams_folded (sy_name (rs ! i)))) ?ts"
  have ts: "?ts \<noteq> []" using False by (simp add: extract_unique_folded_eq_Nil)
  from symbol_candidates_lists [OF indexed_files_index [OF codec idx] ts]
  obtain ids where ids: "symbol_candidates rd (written_symbols wr rs entries trig) query = Inr ids" "sorted_wrt (<) ids"
    "set ids = (\<Inter>t \<in> set ?ts. set (posting_spec (symbol_names rs) t))"
    using False ts by (auto simp: symbol_candidates_def written_symbols_def)
  have "ids = candidate_spec (symbol_names rs) ?ts"
    by (rule candidate_spec_unique [OF symbol_names_sorted [OF n] ts ids(2,3)])
  also have "\<dots> = map of_nat (filter ?ix [0..<length rs])"
    by (simp add: candidate_spec_def symbol_names_upt filter_map comp_def)
  finally have "ids = map of_nat (filter ?ix [0..<length rs])" .
  moreover have "?ix i" if "sublist (fold_text query) (fold_text (sy_name (rs ! i)))" for i
    using trigrams_necessary [OF that] by (simp add: list_all_iff)
  ultimately show ?thesis using ids(1) by blast
qed

lemma symbol_wanted_iff:
  "symbol_wanted query kind fid hit \<longleftrightarrow>
     sublist (fold_text query) (fold_text (sh_name hit)) \<and>
     (\<forall>k. kind = Some k \<longrightarrow> sh_kind hit = k) \<and> (\<forall>f. fid = Some f \<longrightarrow> sh_file_id hit = f)"
  by (auto simp: symbol_wanted_def find_sub_None_sublist split: option.splits)

lemma search_filtered_written:
  assumes codec: "varint_codec wr rd" and es: "symbol_entries rs [] = Inr (entries, concat (map sy_name rs))"
    and n: "length rs \<le> u32_max" and idx: "indexed_files wr file_only (symbol_names rs) trig"
    and valid: "list_all (\<lambda>r. utf8_valid (sy_name r)) rs"
  shows "search_filtered rd (written_symbols wr rs entries trig) query kind fid
    = Inr (filter (symbol_wanted query kind fid) (symbol_hits rs))"
proof -
  let ?r = "written_symbols wr rs entries trig" and ?h = "\<lambda>i. hit_of (of_nat i) (rs ! i)"
  obtain ix where cand: "symbol_candidates rd ?r query = Inr (map of_nat (filter ix [0..<length rs]))"
    and ix: "\<And>i. i < length rs \<Longrightarrow> sublist (fold_text query) (fold_text (sy_name (rs ! i))) \<Longrightarrow> ix i"
    using symbol_candidates_written [OF codec n idx] by blast
  have "collect_results (\<lambda>i. symbol_get ?r (of_nat i)) (filter ix [0..<length rs]) = Inr (map ?h (filter ix [0..<length rs]))"
    using symbol_get_written [OF es n valid] by (intro collect_results_map) simp
  then have hits: "collect_results (symbol_get ?r) (map of_nat (filter ix [0..<length rs])) = Inr (map ?h (filter ix [0..<length rs]))"
    by (simp add: collect_results_comp)
  have "filter (symbol_wanted query kind fid) (map ?h (filter ix [0..<length rs]))
      = map ?h (filter (\<lambda>i. symbol_wanted query kind fid (?h i) \<and> ix i) [0..<length rs])"
    by (simp add: filter_map comp_def conj_commute)
  also have "filter (\<lambda>i. symbol_wanted query kind fid (?h i) \<and> ix i) [0..<length rs]
      = filter (\<lambda>i. symbol_wanted query kind fid (?h i)) [0..<length rs]"
    using ix by (intro filter_cong) (auto simp: symbol_wanted_iff hit_of_def)
  finally show ?thesis
    unfolding search_filtered_def cand obind_Inr hits symbol_hits_def by (simp add: filter_map comp_def)
qed

lemma symbols_read:
  assumes "varint_codec wr rd" and "list_all (\<lambda>r. utf8_valid (sy_name r)) rs"
    and "symbols_write wr rs = Inr (symbols, trig)"
  shows "\<exists>r. symbols_open rd symbols trig = Inr r \<and> unat (sr_symbol_count r) = length rs \<and>
    (\<forall>i < length rs. symbol_get r (of_nat i) = Inr (symbol_hits rs ! i)) \<and>
    (\<forall>query kind fid. search_filtered rd r query kind fid = Inr (filter (symbol_wanted query kind fid) (symbol_hits rs)))"
proof -
  obtain entries where es: "symbol_entries rs [] = Inr (entries, concat (map sy_name rs))"
    and symbols: "symbols = sr_data (written_symbols wr rs entries trig)"
    and n: "length rs \<le> u32_max" and idx: "indexed_files wr file_only (symbol_names rs) trig"
    using symbols_write_parts [OF assms(3)] .
  let ?r = "written_symbols wr rs entries trig"
  have "symbols_open rd symbols trig = Inr ?r"
    unfolding symbols by (rule symbols_open_written [OF assms(1) es n idx])
  moreover have "unat (sr_symbol_count ?r) = length rs" using n by (simp add: written_symbols_def unat_of_nat)
  moreover have "\<forall>i < length rs. symbol_get ?r (of_nat i) = Inr (symbol_hits rs ! i)"
    using symbol_get_written [OF es n assms(2)] by (simp add: symbol_hits_def)
  ultimately show ?thesis
    using search_filtered_written [OF assms(1) es n idx assms(2)]
    by (intro exI [of _ ?r]) simp
qed

text \<open>
  C11. The symbol index answers exactly: a written index opens, gives every symbol back under its
  number, and a search by name returns exactly the symbols whose name contains the query up to the
  case of ASCII letters and that pass the filters, in the order of their numbers, for queries of
  every length, the empty one included.
\<close>

theorem symbol_search_exact:
  assumes "varint_codec wr rd" and "list_all (\<lambda>r. utf8_valid (sy_name r)) rs"
    and "symbols_write wr rs = Inr (symbols, trig)"
  shows "\<exists>r. symbols_open rd symbols trig = Inr r \<and> unat (sr_symbol_count r) = length rs \<and>
    (\<forall>i < length rs. symbol_get r (of_nat i) = Inr (symbol_hits rs ! i)) \<and>
    (\<forall>query kind fid. search_filtered rd r query kind fid =
       Inr (filter (\<lambda>h. sublist (fold_text query) (fold_text (sh_name h)) \<and>
         (\<forall>k. kind = Some k \<longrightarrow> sh_kind h = k) \<and> (\<forall>f. fid = Some f \<longrightarrow> sh_file_id h = f)) (symbol_hits rs)))"
  using symbols_read [OF assms] by (simp add: symbol_wanted_iff [abs_def])

text \<open>Two symbols, written with the LEB128 codec.\<close>

definition sample_symbols :: "symbol_record list" where
  "sample_symbols =
     [\<lparr>sy_file_id = 0, sy_name = ''Abcd'', sy_kind = Kind_Function, sy_line = 3, sy_column = 0\<rparr>,
      \<lparr>sy_file_id = 1, sy_name = ''xabc'', sy_kind = Kind_Struct, sy_line = 5, sy_column = 2\<rparr>]"

lemma sample_symbols_valid: "list_all (\<lambda>r. utf8_valid (sy_name r)) sample_symbols"
  by code_simp

lemma sample_symbols_write: "\<exists>symbols trig. symbols_write leb_write sample_symbols = Inr (symbols, trig)"
proof -
  let ?b = "finalize (add_files file_only (symbol_names sample_symbols))"
  have names: "symbol_names sample_symbols = [(0, ''Abcd''), (1, ''xabc'')]"
    by (simp add: symbol_names_def sample_symbols_def)
  have wf: "wf_postings ?b"
    unfolding names by (rule wf_finished) (simp_all add: empty_builder_def file_only_def)
  have "length (concat (map (file_chunk leb_write ?b) (sorted_trigrams ?b))) = 4"
      "length (concat (map (pos_chunk leb_write ?b) (sorted_trigrams ?b))) = 0"
    by code_simp+
  then have "section_sizes_ok leb_write ?b" unfolding section_sizes_ok_def by linarith
  from write_index_ok [OF leb.varint_codec_axioms wf this]
  obtain trig where "write_index leb_write ?b = Inr trig" by blast
  then show ?thesis
    by (simp add: symbols_write_def Let_def) (simp add: sample_symbols_def)
qed

theorem symbol_search_exact_witness:
  "\<exists>symbols trig r. symbols_write leb_write sample_symbols = Inr (symbols, trig) \<and>
     symbols_open leb_read symbols trig = Inr r \<and>
     search_filtered leb_read r ''ABC'' (Some Kind_Struct) None = Inr [hit_of 1 (sample_symbols ! 1)]"
proof -
  obtain symbols trig where written: "symbols_write leb_write sample_symbols = Inr (symbols, trig)"
    using sample_symbols_write by blast
  have hits: "symbol_hits sample_symbols = [hit_of 0 (sample_symbols ! 0), hit_of 1 (sample_symbols ! 1)]"
    by (simp add: symbol_hits_def sample_symbols_def)
  have sub: "sublist (fold_text ''ABC'') (fold_text ''xabc'')"
    by (simp add: ascii_fold_byte_eq sublist_Cons_right)
  show ?thesis
    using symbol_search_exact [OF leb.varint_codec_axioms sample_symbols_valid written] written
    by (auto simp: hits) (auto simp: hit_of_def sample_symbols_def sub [simplified])
qed

end
