(* ===== verification/Symbol_Search.thy ===== *)
theory Symbol_Search
  imports Symbol_Index Multi_Search Segment_Manager
begin

text \<open>
  The symbol search over a snapshot (\<open>search_symbols\<close> of \<open>ferret-core/src/symbol_index.rs\<close>): the
  symbol indexes of the segments are searched, newest first, the hits joined with the metadata of their
  files, de-duplicated by path, name and line, sorted by score and name, and paged. A snapshot pairs
  each segment with its symbol reader, if it has one; a score is given in tenths.
\<close>

section \<open>The search\<close>

record symbol_options =
  so_kind :: "symbol_kind option"
  so_language :: "language option"
  so_path_filter :: "text_utf8 option"
  so_max_symbols :: nat
  so_offset :: nat

definition default_symbol_options :: symbol_options where
  "default_symbol_options =
     \<lparr>so_kind = None, so_language = None, so_path_filter = None, so_max_symbols = 100, so_offset = 0\<rparr>"

record symbol_match =
  sm_name :: text_utf8
  sm_kind :: symbol_kind
  sm_path :: text_utf8
  sm_line :: u32
  sm_column :: u16
  sm_file_id :: file_id
  sm_segment_id :: segment_id
  sm_score :: nat

definition symbol_score :: "bytes \<Rightarrow> bytes \<Rightarrow> nat" where
  "symbol_score folded_query folded_name =
     (if folded_name = folded_query then 10 else if prefix folded_query folded_name then 8 else 5)"

text \<open>The match of a hit, unless the file is tombstoned, unknown or filtered out.\<close>

definition symbol_match_of ::
  "segment \<Rightarrow> tombstone_set \<Rightarrow> text_utf8 \<Rightarrow> symbol_options \<Rightarrow> symbol_hit \<Rightarrow> symbol_match list result" where
  "symbol_match_of s tombs query options hit =
     (if ts_contains tombs (sh_file_id hit) then Inr []
      else obind (get_metadata s (sh_file_id hit)) (\<lambda>found.
        case found of
          None \<Rightarrow> Inr []
        | Some meta \<Rightarrow>
            if (case so_language options of Some lang \<Rightarrow> fm_language meta \<noteq> lang | None \<Rightarrow> False) then Inr []
            else if (case so_path_filter options of Some pattern \<Rightarrow> find_sub (fm_path meta) pattern = None | None \<Rightarrow> False)
            then Inr []
            else Inr [\<lparr>sm_name = sh_name hit, sm_kind = sh_kind hit, sm_path = fm_path meta, sm_line = sh_line hit,
                       sm_column = sh_column hit, sm_file_id = sh_file_id hit, sm_segment_id = sg_id s,
                       sm_score = symbol_score (map ascii_fold_byte query) (map ascii_fold_byte (sh_name hit))\<rparr>]))"

definition segment_symbols ::
  "varint_reader \<Rightarrow> text_utf8 \<Rightarrow> symbol_options \<Rightarrow> segment \<times> symbol_reader option \<Rightarrow> symbol_match list result" where
  "segment_symbols rd query options = (\<lambda>(s, reader).
     case reader of
       None \<Rightarrow> Inr []
     | Some r \<Rightarrow>
         obind (load_tombstones s) (\<lambda>(tombs, _).
         obind (search_filtered rd r query (so_kind options) None) (\<lambda>hits.
         obind (collect_results (symbol_match_of s tombs query options) hits) (\<lambda>found.
           Inr (concat found)))))"

definition symbol_key :: "symbol_match \<Rightarrow> text_utf8 \<times> text_utf8 \<times> u32" where
  "symbol_key m = (sm_path m, sm_name m, sm_line m)"

fun dedup_symbols :: "(text_utf8 \<times> text_utf8 \<times> u32) list \<Rightarrow> symbol_match list \<Rightarrow> symbol_match list" where
  "dedup_symbols seen [] = []"
| "dedup_symbols seen (m # ms) =
     (if symbol_key m \<in> set seen then dedup_symbols seen ms else m # dedup_symbols (symbol_key m # seen) ms)"

definition symbol_before :: "symbol_match \<Rightarrow> symbol_match \<Rightarrow> bool" where
  "symbol_before a b \<longleftrightarrow> sm_score b < sm_score a \<or> sm_score a = sm_score b \<and> sm_name a \<le> sm_name b"

text \<open>The end of a page is computed in 64 bits; past them the slice panics.\<close>

definition symbol_page :: "symbol_options \<Rightarrow> symbol_match list \<Rightarrow> symbol_match list result" where
  "symbol_page options all_matches =
     (let start = min (so_offset options) (length all_matches)
      in if start + so_max_symbols options \<ge> 2 ^ 64 then panic
         else slice_at start (min (start + so_max_symbols options) (length all_matches)) all_matches)"

definition search_symbols ::
  "varint_reader \<Rightarrow> (segment \<times> symbol_reader option) list \<Rightarrow> text_utf8 \<Rightarrow> symbol_options \<Rightarrow> symbol_match list result"
where
  "search_symbols rd snapshot query options =
     (let segments_by_id = sort_key (\<lambda>x. u32_max - unat (sg_id (fst x))) snapshot
      in obind (collect_results (\<lambda>x. attempt (segment_symbols rd query options x)) segments_by_id) (\<lambda>per_segment.
         obind (collect_results (\<lambda>r. r) per_segment) (\<lambda>matches.
           symbol_page options (sort_by symbol_before (dedup_symbols [] (concat matches))))))"

section \<open>What a segment contributes\<close>

text \<open>A segment whose tombstones, metadata and symbols can be read.\<close>

definition symbol_segment ::
  "varint_reader \<Rightarrow> segment \<times> symbol_reader option \<Rightarrow> (file_id \<rightharpoonup> file_metadata) \<Rightarrow> symbol_hit list \<Rightarrow> bool" where
  "symbol_segment rd x metas hits \<longleftrightarrow>
     (\<exists>ts s'. load_tombstones (fst x) = Inr (ts, s')) \<and> (\<forall>h \<in> set hits. get_metadata (fst x) (sh_file_id h) = Inr (metas (sh_file_id h))) \<and>
     (case snd x of
        None \<Rightarrow> hits = []
      | Some r \<Rightarrow> \<forall>query kind. search_filtered rd r query kind None = Inr (filter (symbol_wanted query kind None) hits))"

text \<open>The live symbols with a matching name, kind, language and path.\<close>

definition live_symbols ::
  "segment \<Rightarrow> (file_id \<rightharpoonup> file_metadata) \<Rightarrow> symbol_hit list \<Rightarrow> text_utf8 \<Rightarrow> symbol_options \<Rightarrow> symbol_match list" where
  "live_symbols s metas hits query options =
     concat (map (\<lambda>h. case metas (sh_file_id h) of
         None \<Rightarrow> []
       | Some meta \<Rightarrow>
           if ts_contains (tombstones_or_default s) (sh_file_id h)
             \<or> \<not> (\<forall>l. so_language options = Some l \<longrightarrow> fm_language meta = l)
             \<or> \<not> (\<forall>p. so_path_filter options = Some p \<longrightarrow> sublist p (fm_path meta)) then []
           else [\<lparr>sm_name = sh_name h, sm_kind = sh_kind h, sm_path = fm_path meta, sm_line = sh_line h,
                  sm_column = sh_column h, sm_file_id = sh_file_id h, sm_segment_id = sg_id s,
                  sm_score = symbol_score (fold_text query) (fold_text (sh_name h))\<rparr>])
       (filter (symbol_wanted query (so_kind options) None) hits))"

lemma segment_symbols_spec:
  assumes "symbol_segment rd x metas hits"
  shows "segment_symbols rd query options x = Inr (live_symbols (fst x) metas hits query options)"
proof -
  obtain s reader where x: "x = (s, reader)" by (cases x)
  obtain ts s' where load: "load_tombstones s = Inr (ts, s')" and meta: "\<And>h. h \<in> set hits \<Longrightarrow> get_metadata s (sh_file_id h) = Inr (metas (sh_file_id h))"
    using assms unfolding symbol_segment_def x fst_conv by blast
  have ts: "tombstones_or_default s = ts" using load by (simp add: tombstones_or_default_def)
  show ?thesis
  proof (cases reader)
    case None
    with assms show ?thesis by (simp add: x segment_symbols_def symbol_segment_def live_symbols_def)
  next
    case (Some r)
    define g :: "symbol_hit \<Rightarrow> symbol_match list" where "g h = (case metas (sh_file_id h) of
         None \<Rightarrow> []
       | Some meta \<Rightarrow>
           if ts_contains (tombstones_or_default s) (sh_file_id h)
             \<or> \<not> (\<forall>l. so_language options = Some l \<longrightarrow> fm_language meta = l)
             \<or> \<not> (\<forall>p. so_path_filter options = Some p \<longrightarrow> sublist p (fm_path meta)) then []
           else [\<lparr>sm_name = sh_name h, sm_kind = sh_kind h, sm_path = fm_path meta, sm_line = sh_line h,
                  sm_column = sh_column h, sm_file_id = sh_file_id h, sm_segment_id = sg_id s,
                  sm_score = symbol_score (fold_text query) (fold_text (sh_name h))\<rparr>])" for h
    have "symbol_match_of s ts query options h = Inr (g h)" if "h \<in> set hits" for h
      using meta [OF that] by (auto simp: symbol_match_of_def g_def ts find_sub_None_sublist split: option.splits)
    then have "collect_results (symbol_match_of s ts query options) (filter (symbol_wanted query (so_kind options) None) hits)
        = Inr (map g (filter (symbol_wanted query (so_kind options) None) hits))"
      by (intro collect_results_map) simp
    moreover have "search_filtered rd r query (so_kind options) None = Inr (filter (symbol_wanted query (so_kind options) None) hits)"
      using assms Some by (simp add: symbol_segment_def x)
    ultimately show ?thesis
      using Some load by (simp add: x segment_symbols_def live_symbols_def g_def [symmetric])
  qed
qed

section \<open>De-duplication\<close>

lemma dedup_symbols_find:
  "m \<in> set (dedup_symbols seen ms) \<longleftrightarrow>
     symbol_key m \<notin> set seen \<and> find (\<lambda>m'. symbol_key m' = symbol_key m) ms = Some m"
proof (induction ms arbitrary: seen)
  case (Cons a ms)
  consider "symbol_key a \<in> set seen" | "symbol_key a \<notin> set seen" "symbol_key a = symbol_key m"
    | "symbol_key a \<notin> set seen" "symbol_key a \<noteq> symbol_key m" by blast
  then show ?case
  proof cases
    case 1
    then have "symbol_key a = symbol_key m \<Longrightarrow> symbol_key m \<in> set seen" by simp
    with 1 show ?thesis using Cons [of seen] by (cases "symbol_key a = symbol_key m") simp_all
  next
    case 2
    then show ?thesis using Cons [of "symbol_key a # seen"] by (simp add: eq_commute [of m a])
  next
    case 3
    then have "m \<noteq> a" by blast
    with 3 show ?thesis using Cons [of "symbol_key a # seen"] by (simp add: eq_commute [of "symbol_key m"])
  qed
qed simp

lemma dedup_symbols_distinct: "distinct (map symbol_key (dedup_symbols seen ms))"
proof (induction ms arbitrary: seen)
  case (Cons m ms)
  have "symbol_key m' \<noteq> symbol_key m" if "m' \<in> set (dedup_symbols (symbol_key m # seen) ms)" for m'
  proof -
    have "symbol_key m' \<notin> set (symbol_key m # seen)"
      using that unfolding dedup_symbols_find by (rule conjunct1)
    then show ?thesis by simp
  qed
  then have "symbol_key m \<notin> symbol_key ` set (dedup_symbols (symbol_key m # seen) ms)" by fastforce
  with Cons show ?case by simp
qed simp

lemma find_append: "find P (xs @ ys) = (case find P xs of Some x \<Rightarrow> Some x | None \<Rightarrow> find P ys)"
  by (induction xs) auto

text \<open>In a concatenation by descending ID the first occurrence is that of the largest ID.\<close>

lemma find_concat_newest:
  fixes k :: "'a \<Rightarrow> 'k::linorder"
  assumes "sorted_wrt (\<lambda>x y. k y < k x) xs"
  shows "find P (concat (map H xs)) = Some m \<longleftrightarrow>
    (\<exists>x \<in> set xs. find P (H x) = Some m \<and> (\<forall>y \<in> set xs. k x < k y \<longrightarrow> find P (H y) = None))"
  using assms
proof (induction xs)
  case (Cons a xs)
  then have IH: "find P (concat (map H xs)) = Some m \<longleftrightarrow>
      (\<exists>x \<in> set xs. find P (H x) = Some m \<and> (\<forall>y \<in> set xs. k x < k y \<longrightarrow> find P (H y) = None))"
    and less: "\<And>y. y \<in> set xs \<Longrightarrow> k y < k a" by simp_all
  show ?case
  proof (cases "find P (H a)")
    case None
    then show ?thesis using IH less by (auto simp: find_append)
  next
    case (Some b)
    then show ?thesis using less by (auto simp: find_append dest: less_asym)
  qed
qed simp

lemma symbol_before_total: "symbol_before a b \<or> symbol_before b a"
  by (auto simp: symbol_before_def)

lemma symbol_before_trans: "symbol_before a b \<Longrightarrow> symbol_before b c \<Longrightarrow> symbol_before a c"
  by (auto simp: symbol_before_def)

text \<open>The live symbols of the segments, a symbol of an older segment hidden by one of the same path, name and line.\<close>

definition newest_symbol ::
  "(segment \<times> symbol_reader option) list \<Rightarrow> (segment \<times> symbol_reader option \<Rightarrow> symbol_match list) \<Rightarrow> symbol_match \<Rightarrow> bool" where
  "newest_symbol snapshot H m \<longleftrightarrow>
     (\<exists>x \<in> set snapshot. find (\<lambda>m'. symbol_key m' = symbol_key m) (H x) = Some m \<and>
        (\<forall>y \<in> set snapshot. sg_id (fst x) < sg_id (fst y) \<longrightarrow> symbol_key m \<notin> symbol_key ` set (H y)))"

lemma segments_newest_first:
  fixes snapshot :: "(segment \<times> symbol_reader option) list"
  assumes "distinct (map (\<lambda>x. sg_id (fst x)) snapshot)"
  shows "sorted_wrt (\<lambda>x y. sg_id (fst y) < sg_id (fst x)) (sort_key (\<lambda>x. u32_max - unat (sg_id (fst x))) snapshot)"
proof -
  let ?k = "\<lambda>x :: segment \<times> symbol_reader option. u32_max - unat (sg_id (fst x))"
  let ?xs = "sort_key ?k snapshot"
  have le: "unat (sg_id (fst x)) \<le> u32_max" for x :: "segment \<times> symbol_reader option"
    by simp
  have "mset (map (\<lambda>x. sg_id (fst x)) ?xs) = mset (map (\<lambda>x. sg_id (fst x)) snapshot)" by simp
  then have dist: "distinct (map (\<lambda>x. sg_id (fst x)) ?xs)" using assms by (metis mset_eq_imp_distinct_iff)
  have sorted: "sorted (map ?k ?xs)" by simp
  show ?thesis
    unfolding sorted_wrt_iff_nth_less
  proof (intro allI impI)
    fix i j
    assume ij: "i < j" "j < length ?xs"
    have "?k (?xs ! i) \<le> ?k (?xs ! j)"
      using sorted_nth_mono [OF sorted, of i j] ij by simp
    moreover have "sg_id (fst (?xs ! i)) \<noteq> sg_id (fst (?xs ! j))"
      using nth_eq_iff_index_eq [OF dist, of i j] ij by simp
    then have "unat (sg_id (fst (?xs ! i))) \<noteq> unat (sg_id (fst (?xs ! j)))" by (simp add: word_unat_eq_iff)
    ultimately have "unat (sg_id (fst (?xs ! j))) < unat (sg_id (fst (?xs ! i)))"
      using le [of "?xs ! i"] le [of "?xs ! j"] by linarith
    then show "sg_id (fst (?xs ! j)) < sg_id (fst (?xs ! i))" by (simp add: word_less_nat_alt)
  qed
qed

text \<open>
  C18. The symbol search over a snapshot is exact: for segments with distinct IDs whose symbols can be
  read it returns a page of one list, sorted by score and then name, with one entry for each path, name
  and line: the live symbols that match the query and the filters, taken from the newest segment that
  has one at that place.
\<close>

theorem search_symbols_newest:
  assumes "distinct (map (\<lambda>x. sg_id (fst x)) snapshot)"
    and "\<forall>x \<in> set snapshot. symbol_segment rd x (metas x) (hits x)"
    and "so_offset options + so_max_symbols options < 2 ^ 64"
  shows "\<exists>ms. search_symbols rd snapshot query options = Inr (take (so_max_symbols options) (drop (so_offset options) ms)) \<and>
    sorted_wrt symbol_before ms \<and> distinct (map symbol_key ms) \<and>
    (\<forall>m. m \<in> set ms \<longleftrightarrow> newest_symbol snapshot (\<lambda>x. live_symbols (fst x) (metas x) (hits x) query options) m)"
proof -
  define H where "H x = live_symbols (fst x) (metas x) (hits x) query options" for x
  let ?segs = "sort_key (\<lambda>x. u32_max - unat (sg_id (fst x))) snapshot"
  let ?all = "dedup_symbols [] (concat (map H ?segs))"
  let ?ms = "sort_by symbol_before ?all"
  have "collect_results (\<lambda>x. attempt (segment_symbols rd query options x)) ?segs = Inr (map (\<lambda>x. Inr (H x)) ?segs)"
  proof (rule collect_results_map)
    fix x
    assume "x \<in> set ?segs"
    then have "symbol_segment rd x (metas x) (hits x)" using assms(2) by simp
    from segment_symbols_spec [OF this] show "attempt (segment_symbols rd query options x) = Inr (Inr (H x))"
      by (simp add: attempt_def H_def)
  qed
  then have run: "search_symbols rd snapshot query options = symbol_page options ?ms"
    by (simp add: search_symbols_def collect_Inr)
  have page: "symbol_page options ?ms = Inr (take (so_max_symbols options) (drop (so_offset options) ?ms))"
  proof -
    let ?start = "min (so_offset options) (length ?ms)"
    have "?start + so_max_symbols options < 2 ^ 64" using assms(3) by linarith
    moreover have "slice_ok ?start (min (?start + so_max_symbols options) (length ?ms)) ?ms" by (simp add: slice_ok_def)
    moreover have "slice ?start (min (?start + so_max_symbols options) (length ?ms)) ?ms
        = take (so_max_symbols options) (drop (so_offset options) ?ms)"
      by (cases "so_offset options \<le> length ?ms") (simp_all add: slice_def min_def)
    ultimately show ?thesis by (simp add: symbol_page_def Let_def)
  qed
  have "mset (map symbol_key ?ms) = mset (map symbol_key ?all)" by simp
  then have distinct: "distinct (map symbol_key ?ms)"
    using dedup_symbols_distinct mset_eq_imp_distinct_iff by blast
  have none: "find (\<lambda>m'. symbol_key m' = symbol_key m) (H y) = None \<longleftrightarrow> symbol_key m \<notin> symbol_key ` set (H y)" for m y
    unfolding find_None_iff by (auto simp: image_iff)
  have newest: "m \<in> set ?ms \<longleftrightarrow> newest_symbol snapshot H m" for m
    using find_concat_newest [OF segments_newest_first [OF assms(1)], of "\<lambda>m'. symbol_key m' = symbol_key m" H m]
    by (simp add: dedup_symbols_find newest_symbol_def none)
  have "sorted_wrt symbol_before ?ms"
    by (rule sorted_sort_by [OF symbol_before_total symbol_before_trans])
  then show ?thesis
    unfolding H_def [symmetric] run
    by (intro exI [of _ ?ms] conjI page distinct allI newest)
qed

theorem search_symbols_newest_witness:
  "\<exists>r m. search_symbols leb_read [(cached_sample 3, Some r), (cached_sample 5, Some r)] ''XABC'' default_symbol_options = Inr [m] \<and>
     sm_name m = ''xabc'' \<and> sm_segment_id m = 5 \<and> sm_score m = 10"
proof -
  obtain symbols trig where written: "symbols_write leb_write sample_symbols = Inr (symbols, trig)"
    using sample_symbols_write by blast
  obtain r where r: "\<And>q k f. search_filtered leb_read r q k f = Inr (filter (symbol_wanted q k f) (symbol_hits sample_symbols))"
    using symbols_read [OF leb.varint_codec_axioms sample_symbols_valid written] by blast
  let ?snap = "[(cached_sample 3, Some r), (cached_sample 5, Some r)]"
  define metas where "metas f = Some (fst (sample_files ! unat (f :: file_id)))" for f
  have hits: "symbol_hits sample_symbols = [hit_of 0 (sample_symbols ! 0), hit_of 1 (sample_symbols ! 1)]"
    by (simp add: symbol_hits_def sample_symbols_def)
  have len: "length sample_files = 2" by (simp add: sample_files_def sample_inputs_def)
  have meta: "get_metadata (cached_sample i) (of_nat j) = Inr (metas (of_nat j))" if "j < 2" for i j
    using opened.metadata [of j] that len by (simp add: metas_def cached_sample_def get_metadata_def sg_metadata_reader_def unat_of_nat)
  have ids: "sh_file_id h = 0 \<or> sh_file_id h = 1" if "h \<in> set (symbol_hits sample_symbols)" for h
  proof -
    have "sh_file_id (hit_of 0 (sample_symbols ! 0)) = 0" "sh_file_id (hit_of 1 (sample_symbols ! 1)) = 1"
      by (simp_all add: hit_of_def sample_symbols_def)
    then show ?thesis using that unfolding hits by auto
  qed
  have load: "load_tombstones (cached_sample i) = Inr (ts_new, cached_sample i)" for i
    by (simp add: cached_sample_def load_tombstones_def)
  have "symbol_segment leb_read (cached_sample i, Some r) metas (symbol_hits sample_symbols)" for i
    using meta [of 0 i] meta [of 1 i] r load ids unfolding symbol_segment_def by fastforce
  then have seg: "\<forall>x \<in> set ?snap. symbol_segment leb_read x metas (symbol_hits sample_symbols)" by simp
  define M where "M i = \<lparr>sm_name = ''xabc'', sm_kind = Kind_Struct, sm_path = fm_path (fst (sample_files ! 1)), sm_line = 5,
    sm_column = 2, sm_file_id = 1, sm_segment_id = i, sm_score = 10\<rparr>" for i
  have want: "symbol_wanted ''XABC'' None None (hit_of 0 (sample_symbols ! 0)) = False"
    "symbol_wanted ''XABC'' None None (hit_of 1 (sample_symbols ! 1)) = True"
    "symbol_score (fold_text ''XABC'') (fold_text ''xabc'') = 10"
    by code_simp+
  have ts: "tombstones_or_default (cached_sample i) = ts_new" "\<not> ts_contains ts_new f" "sg_id (cached_sample i) = i" for i f
  proof -
    show "tombstones_or_default (cached_sample i) = ts_new" by (simp add: tombstones_or_default_def load)
    show "\<not> ts_contains ts_new f" by (simp add: ts_contains_def ts_new_def)
    show "sg_id (cached_sample i) = i" by (simp add: cached_sample_def)
  qed
  have live: "live_symbols (cached_sample i) metas (symbol_hits sample_symbols) ''XABC'' default_symbol_options = [M i]" for i
    using want
    by (simp add: live_symbols_def hits default_symbol_options_def ts)
      (simp add: hit_of_def sample_symbols_def metas_def M_def ts)
  obtain ms where run: "search_symbols leb_read ?snap ''XABC'' default_symbol_options = Inr (take 100 ms)"
    and ms: "distinct (map symbol_key ms)"
      "\<And>m. m \<in> set ms \<longleftrightarrow> newest_symbol ?snap (\<lambda>x. live_symbols (fst x) metas (symbol_hits sample_symbols) ''XABC'' default_symbol_options) m"
    using search_symbols_newest [of ?snap leb_read "\<lambda>_. metas" "\<lambda>_. symbol_hits sample_symbols" default_symbol_options "''XABC''"] seg
    by (auto simp: default_symbol_options_def cached_sample_def)
  have "m \<in> set ms \<longleftrightarrow> m = M 5" for m
  proof -
    have key: "symbol_key (M i) = symbol_key (M j)" for i j by (simp add: M_def symbol_key_def)
    show ?thesis
      unfolding ms(2) by (auto simp: newest_symbol_def live ts key split: if_splits)
  qed
  then have "set ms = {M 5}" by auto
  moreover have "distinct ms" using ms(1) by (simp add: distinct_map)
  ultimately have "ms = [M 5]" by (rule singleton_list)
  with run have "search_symbols leb_read ?snap ''XABC'' default_symbol_options = Inr [M 5]" by simp
  moreover have "sm_name (M 5) = ''xabc''" "sm_segment_id (M 5) = 5" "sm_score (M 5) = 10" by (simp_all add: M_def)
  ultimately show ?thesis by blast
qed

end
