(* ===== verification/Query_Plan.thy ===== *)
theory Query_Plan
  imports Segment "HOL-Library.Multiset"
begin

text \<open>
  The query planner (\<open>ferret-core/src/query_plan.rs\<close>): the trigrams of a literal or of the literal
  runs of a regular expression, with their estimated posting list sizes, smallest first.
\<close>

section \<open>Plans\<close>

datatype pre_filter = Plan_Language language | Plan_Path_Glob text_utf8

datatype verify_step = Plan_Literal text_utf8 | Plan_Regex text_utf8

record scored_trigram =
  sc_trigram :: trigram
  sc_estimated_count :: u32

record query_plan =
  qp_pre_filters :: "pre_filter list"
  qp_trigram_plan :: "scored_trigram list"
  qp_verify :: verify_step
  qp_is_empty :: bool

definition can_short_circuit :: "query_plan \<Rightarrow> bool" where
  "can_short_circuit p \<longleftrightarrow> qp_is_empty p \<or> list_ex (\<lambda>t. sc_estimated_count t = 0) (qp_trigram_plan p)"

definition score_trigram :: "index_reader \<Rightarrow> trigram \<Rightarrow> scored_trigram" where
  "score_trigram reader t = \<lparr>sc_trigram = t, sc_estimated_count = estimate_posting_list_size reader t\<rparr>"

definition plan_literal_query :: "text_utf8 \<Rightarrow> pre_filter list \<Rightarrow> index_reader \<Rightarrow> query_plan" where
  "plan_literal_query query pre_filters reader =
     (if length query < 3
      then \<lparr>qp_pre_filters = pre_filters, qp_trigram_plan = [], qp_verify = Plan_Literal query, qp_is_empty = True\<rparr>
      else
        let scored = map (score_trigram reader) (extract_unique_trigrams_folded query);
            scored = sort_key sc_estimated_count scored
        in \<lparr>qp_pre_filters = pre_filters, qp_trigram_plan = scored, qp_verify = Plan_Literal query, qp_is_empty = False\<rparr>)"

section \<open>Literal runs of a regular expression\<close>

definition is_regex_meta :: "u8 \<Rightarrow> bool" where
  "is_regex_meta b \<longleftrightarrow> b \<in> set ''.*+?[](){}|^$'' \<or> b = CHR 0x5C"

text \<open>The rest after a character class, whose escaped bytes are skipped.\<close>

fun skip_class :: "bytes \<Rightarrow> bytes" where
  "skip_class [] = []"
| "skip_class (b # bs) =
     (if b = CHR 0x5C \<and> bs \<noteq> [] then skip_class (tl bs)
      else if b = CHR '']'' then bs
      else skip_class bs)"

lemma length_skip_class: "length (skip_class bs) \<le> length bs"
  by (induction bs rule: skip_class.induct) auto

text \<open>A byte is pushed as the character of its number, which is two bytes long from 128 on.\<close>

definition push_byte :: "u8 \<Rightarrow> text_utf8" where
  "push_byte b =
     (if byte_val b < 128 then [b]
      else [byte_of (192 + byte_val b div 64), byte_of (128 + byte_val b mod 64)])"

definition flush_run :: "text_utf8 list \<Rightarrow> text_utf8 \<Rightarrow> text_utf8 list" where
  "flush_run runs current_run = (if current_run \<noteq> [] then runs @ [current_run] else runs)"

function literal_run_loop :: "bytes \<Rightarrow> text_utf8 list \<Rightarrow> text_utf8 \<Rightarrow> text_utf8 list" where
  "literal_run_loop [] runs current_run = flush_run runs current_run"
| "literal_run_loop (b # bs) runs current_run =
     (if b = CHR ''['' then literal_run_loop (skip_class bs) (flush_run runs current_run) []
      else if b = CHR 0x5C \<and> bs \<noteq> [] then
        (if is_regex_meta (hd bs) then literal_run_loop (tl bs) runs (current_run @ push_byte (hd bs))
         else literal_run_loop (tl bs) (flush_run runs current_run) [])
      else if is_regex_meta b then literal_run_loop bs (flush_run runs current_run) []
      else literal_run_loop bs runs (current_run @ push_byte b))"
  by pat_completeness auto
termination
  by (relation "measure (\<lambda>(bs, runs, run). length bs)") (use length_skip_class in \<open>auto simp: le_imp_less_Suc\<close>)

definition extract_literal_runs :: "text_utf8 \<Rightarrow> text_utf8 list" where
  "extract_literal_runs pattern = literal_run_loop pattern [] []"

text \<open>Neighbours with the same trigram are merged.\<close>

fun dedup_scored :: "scored_trigram list \<Rightarrow> scored_trigram list" where
  "dedup_scored [] = []"
| "dedup_scored [t] = [t]"
| "dedup_scored (t # u # ts) =
     (if sc_trigram t = sc_trigram u then dedup_scored (t # ts) else t # dedup_scored (u # ts))"

definition plan_regex_query :: "text_utf8 \<Rightarrow> pre_filter list \<Rightarrow> index_reader \<Rightarrow> query_plan" where
  "plan_regex_query pattern pre_filters reader =
     (let scored = concat (map (\<lambda>run. if length run \<ge> 3
            then map (score_trigram reader) (extract_unique_trigrams_folded run) else []) (extract_literal_runs pattern));
          scored = dedup_scored (sort_key (\<lambda>t. to_u32 (sc_trigram t)) scored);
          scored = sort_key sc_estimated_count scored
      in \<lparr>qp_pre_filters = pre_filters, qp_trigram_plan = scored, qp_verify = Plan_Regex pattern,
          qp_is_empty = (scored = [])\<rparr>)"

datatype query_input =
  Input_Literal text_utf8 "pre_filter list"
| Input_Regex text_utf8 "pre_filter list"

definition plan_query :: "query_input \<Rightarrow> segment \<Rightarrow> query_plan" where
  "plan_query inp s =
     (case inp of
        Input_Literal pattern filters \<Rightarrow> plan_literal_query pattern filters (sg_trigram_reader s)
      | Input_Regex pattern filters \<Rightarrow> plan_regex_query pattern filters (sg_trigram_reader s))"

definition plan_query_multi :: "query_input \<Rightarrow> segment list \<Rightarrow> (segment_id \<times> query_plan) list" where
  "plan_query_multi inp segments = map (\<lambda>s. (sg_id s, plan_query inp s)) segments"

section \<open>Properties\<close>

lemma set_literal_plan:
  "3 \<le> length query \<Longrightarrow> sc_trigram ` set (qp_trigram_plan (plan_literal_query query pf reader)) = set (extract_trigrams_folded query)"
  by (simp add: plan_literal_query_def Let_def image_image score_trigram_def)

lemma plan_estimates:
  "t \<in> set (qp_trigram_plan (plan_literal_query query pf reader)) \<Longrightarrow>
     sc_estimated_count t = estimate_posting_list_size reader (sc_trigram t)"
  by (cases "length query < 3") (auto simp: plan_literal_query_def Let_def score_trigram_def)

text \<open>
  C26. A literal plan is sound: its trigrams are those of the query, each once, smallest list first, and
  when a plan for a query of at least three bytes is cut short no file of the segment contains the
  query, up to the case of ASCII letters.
\<close>

theorem literal_plan_sound:
  fixes pre_filters :: "pre_filter list"
  assumes "posting_index lookup (estimate_posting_list_size reader) (posting_spec files)" and "3 \<le> length query"
  defines "plan \<equiv> plan_literal_query query pre_filters reader"
  shows "sc_trigram ` set (qp_trigram_plan plan) = set (extract_trigrams_folded query) \<and>
    distinct (map sc_trigram (qp_trigram_plan plan)) \<and> sorted (map sc_estimated_count (qp_trigram_plan plan)) \<and>
    (can_short_circuit plan \<longrightarrow> (\<forall>(f, c) \<in> set files. \<not> sublist (fold_text query) (fold_text c)))"
proof (intro conjI impI)
  show trigrams: "sc_trigram ` set (qp_trigram_plan plan) = set (extract_trigrams_folded query)"
    unfolding plan_def by (rule set_literal_plan [OF assms(2)])
  have "map sc_trigram (map (score_trigram reader) (extract_unique_trigrams_folded query)) = extract_unique_trigrams_folded query"
    by (simp add: comp_def score_trigram_def)
  moreover have "qp_trigram_plan plan = sort_key sc_estimated_count (map (score_trigram reader) (extract_unique_trigrams_folded query))"
    using assms(2) by (simp add: plan_def plan_literal_query_def Let_def)
  ultimately have "mset (map sc_trigram (qp_trigram_plan plan)) = mset (extract_unique_trigrams_folded query)"
    by (simp only: mset_map mset_sort) (simp only: mset_map [symmetric])
  then show "distinct (map sc_trigram (qp_trigram_plan plan))"
    by (metis mset_eq_imp_distinct_iff distinct_extract_unique(2))
  show "sorted (map sc_estimated_count (qp_trigram_plan plan))"
    using assms(2) by (simp add: plan_def plan_literal_query_def Let_def)
  assume "can_short_circuit plan"
  then obtain t where t: "t \<in> set (qp_trigram_plan plan)" "sc_estimated_count t = 0"
    using assms(2) by (auto simp: can_short_circuit_def list_ex_iff plan_def plan_literal_query_def Let_def)
  have "posting_spec files (sc_trigram t) = []"
    using posting_index.estimate_zero [OF assms(1)] plan_estimates t unfolding plan_def by metis
  moreover have "sc_trigram t \<in> set (extract_unique_trigrams_folded query)" using t(1) trigrams by auto
  ultimately show "\<forall>(f, c) \<in> set files. \<not> sublist (fold_text query) (fold_text c)"
    using trigrams_necessary by (fastforce simp: posting_spec_def filter_empty_conv)
qed

theorem literal_plan_sound_witness:
  "can_short_circuit (plan_literal_query ''xyz'' [] (written_reader leb_write sample_builder sample_data)) \<and>
     \<not> sublist (fold_text ''xyz'') (fold_text ''Abcd'')"
proof -
  let ?reader = "written_reader leb_write sample_builder sample_data"
  let ?xyz = "Trigram (CHR ''x'') (CHR ''y'') (CHR ''z'')"
  have idx: "posting_index (lookup_file_ids leb_read ?reader) (estimate_posting_list_size ?reader)
      (posting_spec [(0, ''Abcd''), (1, ''xabc'')])"
    using indexed_files_index [OF leb.varint_codec_axioms sample_indexed] by (simp add: sample_builder_def)
  have ts: "extract_unique_trigrams_folded ''xyz'' = [?xyz]" "?xyz \<notin> set (extract_trigrams_folded ''Abcd'')"
      "?xyz \<notin> set (extract_trigrams_folded ''xabc'')"
    by code_simp+
  have "estimate_posting_list_size ?reader ?xyz = 0"
    using posting_index.estimate_zero [OF idx, of ?xyz] ts(2,3) by (simp add: posting_spec_def)
  then have "can_short_circuit (plan_literal_query ''xyz'' [] ?reader)"
    using ts(1) by (simp add: can_short_circuit_def plan_literal_query_def score_trigram_def Let_def)
  with literal_plan_sound [OF idx, of "''xyz''" "[]"] show ?thesis by simp
qed

text \<open>
  The trigrams of a regular expression are not necessary: both sides of an alternation are required,
  and so is a character that a following question mark makes optional.
\<close>

lemma regex_plan_alternation:
  assumes "posting_index lookup (estimate_posting_list_size reader) (posting_spec [(0, ''foo'')])"
  shows "can_short_circuit (plan_regex_query ''foo|bar'' [] reader)"
proof -
  have runs: "extract_literal_runs ''foo|bar'' = [''foo'', ''bar'']" by code_simp
  let ?bar = "Trigram (CHR ''b'') (CHR ''a'') (CHR ''r'')" and ?foo = "Trigram (CHR ''f'') (CHR ''o'') (CHR ''o'')"
  have ts: "extract_unique_trigrams_folded ''foo'' = [?foo]" "extract_unique_trigrams_folded ''bar'' = [?bar]"
    "extract_trigrams_folded ''foo'' = [?foo]"
    by code_simp+
  have "posting_spec [(0, ''foo'')] ?bar = []" by (simp add: posting_spec_def ts)
  then have zero: "estimate_posting_list_size reader ?bar = 0"
    using posting_index.estimate_zero [OF assms] by blast
  have "score_trigram reader ?bar \<in> set (qp_trigram_plan (plan_regex_query ''foo|bar'' [] reader))"
    by (simp add: plan_regex_query_def runs ts Let_def score_trigram_def)
  then show ?thesis
    using zero unfolding can_short_circuit_def list_ex_iff by (force simp: score_trigram_def)
qed

lemma regex_run_before_question_mark: "extract_literal_runs ''colou?r'' = [''colou'', ''r'']"
  by code_simp

end
