(* ===== verification/Walker.thy ===== *)
theory Walker
  imports Git_Changes Line_Index
begin

text \<open>
  The directory walker (\<open>ferret-core/src/walker.rs\<close>): which entries are skipped, the glob matcher of
  the extra excludes, and the collection of the files. The entries that the \<open>ignore\<close> crate yields are
  a parameter.
\<close>

section \<open>Glob matching\<close>

text \<open>
  The two-pointer loop over the characters. The suffixes that remain stand for the two positions, and
  the last star for the pattern after it with the text at which it was met or retried.
\<close>

function glob_loop :: "nat list \<Rightarrow> nat list \<Rightarrow> (nat list \<times> nat list) option \<Rightarrow> bool" where
  "glob_loop pat [] star = (dropWhile (\<lambda>q. q = 42) pat = [])"
| "glob_loop pat (c # txt) star =
     (if pat \<noteq> [] \<and> (hd pat = 63 \<or> hd pat = c) then glob_loop (tl pat) txt star
      else if pat \<noteq> [] \<and> hd pat = 42 then glob_loop (tl pat) (c # txt) (Some (tl pat, c # txt))
      else
        case star of
          Some (star_pat, star_txt) \<Rightarrow> glob_loop star_pat (tl star_txt) (Some (star_pat, tl star_txt))
        | None \<Rightarrow> False)"
  by pat_completeness auto
termination
proof (relation "measures [\<lambda>(pat, t, star). case star of Some (p, s) \<Rightarrow> max (length s) (length t) | None \<Rightarrow> length t + 1,
    \<lambda>(pat, t, star). length pat + length t]", goal_cases)
  case (2 pat c t star)
  then show ?case by (cases pat) (auto split: option.splits)
next
  case (3 pat c t star)
  then show ?case by (cases pat) (auto split: option.splits)
next
  case (4 pat c t star x star_pat star_txt)
  then show ?case by (cases star_txt) auto
qed simp

definition code_points :: "text_utf8 \<Rightarrow> nat list" where
  "code_points s = map fst (utf8_chars s)"

definition simple_glob :: "text_utf8 \<Rightarrow> text_utf8 \<Rightarrow> bool" where
  "simple_glob pattern t = glob_loop (code_points pattern) (code_points t) None"

definition glob_matches :: "text_utf8 \<Rightarrow> text_utf8 \<Rightarrow> text_utf8 \<Rightarrow> bool" where
  "glob_matches pattern path filename \<longleftrightarrow> simple_glob pattern filename \<or> simple_glob pattern path"

section \<open>Walking\<close>

record walk_entry =
  we_path :: bytes
  we_name :: bytes
  we_is_dir :: bool
  we_is_file :: bool
  we_metadata :: bool

text \<open>The filter of the builder: an entry that is not kept is not yielded and not descended into.\<close>

definition keep_entry :: "text_utf8 list \<Rightarrow> walk_entry \<Rightarrow> bool" where
  "keep_entry extra e \<longleftrightarrow>
     (let name = from_utf8_lossy (we_name e)
      in \<not> (we_is_dir e \<and> (name = ''.git'' \<or> name = ''.ferret_index'')) \<and>
         \<not> list_ex (\<lambda>pattern. glob_matches pattern (from_utf8_lossy (we_path e)) name) extra)"

text \<open>
  An item of the walk is an error or an entry. The sequential walk stops at the first error; the
  parallel one collects all errors and fails at the end.
\<close>

fun run_walk :: "(unit + walk_entry) list \<Rightarrow> bytes list result" where
  "run_walk [] = Inr []"
| "run_walk (Inl e # items) = Inl (Err (Walk []))"
| "run_walk (Inr entry # items) =
     (if \<not> we_is_file entry then run_walk items
      else if \<not> we_metadata entry then Inl (Err (Walk []))
      else obind (run_walk items) (\<lambda>files. Inr (we_path entry # files)))"

fun collect_walk :: "(unit + walk_entry) list \<Rightarrow> unit list \<Rightarrow> bytes list \<Rightarrow> unit list \<times> bytes list" where
  "collect_walk [] errors files = (errors, files)"
| "collect_walk (Inl e # items) errors files = collect_walk items (errors @ [e]) files"
| "collect_walk (Inr entry # items) errors files =
     (if \<not> we_is_file entry then collect_walk items errors files
      else if \<not> we_metadata entry then collect_walk items (errors @ [()]) files
      else collect_walk items errors (files @ [we_path entry]))"

definition run_parallel_walk :: "(unit + walk_entry) list \<Rightarrow> bytes list result" where
  "run_parallel_walk items =
     (case collect_walk items [] [] of
        (errors, files) \<Rightarrow> if errors \<noteq> [] then Inl (Err (Walk [])) else Inr files)"

section \<open>The matcher is exact\<close>

text \<open>The meaning of a glob: a star stands for any characters, a question mark for one.\<close>

fun glob_meaning :: "nat list \<Rightarrow> nat list \<Rightarrow> bool" where
  "glob_meaning [] t = (t = [])"
| "glob_meaning (q # pat) t =
     (if q = 42 then \<exists>i \<le> length t. glob_meaning pat (drop i t)
      else t \<noteq> [] \<and> (q = 63 \<or> q = hd t) \<and> glob_meaning pat (tl t))"

lemma glob_star_Cons: "glob_meaning (42 # pat) (c # t) \<longleftrightarrow> glob_meaning pat (c # t) \<or> glob_meaning (42 # pat) t"
proof
  assume "glob_meaning (42 # pat) (c # t)"
  then obtain i where "i \<le> length (c # t)" "glob_meaning pat (drop i (c # t))" by auto
  then show "glob_meaning pat (c # t) \<or> glob_meaning (42 # pat) t" by (cases i) auto
next
  assume "glob_meaning pat (c # t) \<or> glob_meaning (42 # pat) t"
  then show "glob_meaning (42 # pat) (c # t)"
    by (auto intro: exI [of _ 0] exI [of _ "Suc i" for i])
qed

lemma glob_star_cases:
  "glob_meaning (42 # pat) t \<longleftrightarrow> glob_meaning pat t \<or> (t \<noteq> [] \<and> glob_meaning (42 # pat) (tl t))"
proof (cases t)
  case Nil
  then show ?thesis by simp
next
  case (Cons c t')
  with glob_star_Cons [of pat c t'] show ?thesis by (simp only: list.sel list.distinct simp_thms)
qed

lemma glob_nil: "glob_meaning pat [] \<longleftrightarrow> dropWhile (\<lambda>q. q = 42) pat = []"
  by (induction pat) auto

lemma glob_prefix:
  "42 \<notin> set u \<Longrightarrow> glob_meaning (u @ pat) t \<Longrightarrow> length u \<le> length t \<and> glob_meaning pat (drop (length u) t)"
proof (induction u arbitrary: t)
  case (Cons q u)
  then have "t \<noteq> []" "glob_meaning (u @ pat) (tl t)" by auto
  with Cons.IH [of "tl t"] Cons.prems(1) show ?case by (cases t) auto
qed simp

text \<open>The last star is the only one that needs to be retried: what an earlier one could match, it can.\<close>

lemma glob_later_star:
  assumes star: "glob_meaning (42 # u @ 42 # pat) (tl (m @ t))" and u: "42 \<notin> set u" and len: "length u = length m" and "t \<noteq> []"
  shows "glob_meaning (42 # pat) t"
proof -
  obtain i where i: "i \<le> length (tl (m @ t))" "glob_meaning (u @ 42 # pat) (drop i (tl (m @ t)))"
    using star by auto
  then have "glob_meaning (42 # pat) (drop (length m) (drop i (tl (m @ t))))"
    using glob_prefix [OF u i(2)] len by (simp only:)
  moreover have "drop (length m) (drop i (tl (m @ t))) = drop (Suc i) t"
    by (simp only: drop_drop drop_Suc [symmetric]) simp
  ultimately have "glob_meaning (42 # pat) (drop (Suc i) t)" by (simp only:)
  then obtain j where "j \<le> length (drop (Suc i) t)" "glob_meaning pat (drop j (drop (Suc i) t))" by auto
  then have "glob_meaning pat (drop (Suc i + j) t)" by (simp add: add.commute)
  moreover have "drop (Suc i + j) t = drop (min (Suc i + j) (length t)) t" by (simp add: min_def)
  ultimately have "glob_meaning pat (drop (min (Suc i + j) (length t)) t)" by (simp only:)
  then show ?thesis by (simp only: glob_meaning.simps if_True simp_thms) (meson min.cobounded2)
qed

definition star_state :: "nat list \<Rightarrow> nat list \<Rightarrow> (nat list \<times> nat list) option \<Rightarrow> bool" where
  "star_state pat t star \<longleftrightarrow>
     (case star of None \<Rightarrow> True
      | Some (sp, st) \<Rightarrow> \<exists>u m. sp = u @ pat \<and> st = m @ t \<and> length u = length m \<and> 42 \<notin> set u \<and> 42 \<notin> set st)"

lemma set_tl_subset: "set (tl xs) \<subseteq> set xs"
  by (cases xs) auto

lemma star_state_step: "star_state (q # p) (c # t) star \<Longrightarrow> q \<noteq> 42 \<Longrightarrow> star_state p t star"
proof (cases star)
  case (Some x)
  assume state: "star_state (q # p) (c # t) star" and q: "q \<noteq> 42"
  obtain sp st where x: "x = (sp, st)" by (cases x)
  obtain u m where um: "sp = u @ q # p" "st = m @ c # t" "length u = length m" "42 \<notin> set u" "42 \<notin> set st"
    using state by (auto simp: star_state_def Some x)
  have "sp = (u @ [q]) @ p" "st = (m @ [c]) @ t" "length (u @ [q]) = length (m @ [c])" "42 \<notin> set (u @ [q])"
    using um q by simp_all
  with um(5) show ?thesis unfolding star_state_def Some x by (simp only: option.case prod.case) blast
qed (simp add: star_state_def)

lemma glob_loop_meaning:
  assumes "star_state pat t star" and "42 \<notin> set t"
  shows "glob_loop pat t star \<longleftrightarrow>
    glob_meaning pat t \<or> (\<exists>sp st. star = Some (sp, st) \<and> st \<noteq> [] \<and> glob_meaning (42 # sp) (tl st))"
  using assms
proof (induction pat t star rule: glob_loop.induct)
  case (1 pat star)
  have "\<not> glob_meaning (42 # sp) (tl st)" if st: "star = Some (sp, st)" "st \<noteq> []" for sp st
  proof
    assume match: "glob_meaning (42 # sp) (tl st)"
    obtain u where u: "sp = u @ pat" "length u = length st" "42 \<notin> set u"
      using 1 st by (auto simp: star_state_def)
    from match obtain i where "i \<le> length (tl st)" "glob_meaning (u @ pat) (drop i (tl st))" unfolding u(1) by auto
    with glob_prefix [OF u(3) this(2)] u(2) st(2) show False by (cases st) auto
  qed
  then show ?case by (auto simp: glob_nil)
next
  case (2 pat c t star)
  have c: "c \<noteq> 42" "42 \<notin> set t" using 2 by auto
  consider "pat \<noteq> []" "hd pat = 63 \<or> hd pat = c" | p where "pat = 42 # p"
    | "\<not> glob_meaning pat (c # t)" "\<not> (pat \<noteq> [] \<and> (hd pat = 63 \<or> hd pat = c))" "\<not> (pat \<noteq> [] \<and> hd pat = 42)"
    by (cases pat) auto
  then show ?case
  proof cases
    case 1
    then obtain q p where pat: "pat = q # p" "q = 63 \<or> q = c" by (cases pat) auto
    then have "q \<noteq> 42" using c by auto
    have "star_state p t star"
      using star_state_step "2.prems"(1) pat(1) \<open>q \<noteq> 42\<close> by blast
    with "2.IH"(1) 1 c pat \<open>q \<noteq> 42\<close> show ?thesis by simp
  next
    case (2 p)
    have "star_state p (c # t) (Some (p, c # t))" using c by (auto simp: star_state_def)
    moreover have "\<not> (pat \<noteq> [] \<and> (hd pat = 63 \<or> hd pat = c))" using 2 c by auto
    ultimately have "glob_loop pat (c # t) star \<longleftrightarrow> glob_meaning p (c # t) \<or> glob_meaning (42 # p) t"
      using "2.IH"(2) 2 c by simp
    moreover have "glob_meaning (42 # p) (c # t)" if st: "star = Some (sp, st)" "glob_meaning (42 # sp) (tl st)" for sp st
    proof -
      obtain u m where "sp = u @ 42 # p" "st = m @ c # t" "length u = length m" "42 \<notin> set u"
        using "2.prems"(1) st(1) 2 by (auto simp: star_state_def)
      with glob_later_star [of u p m "c # t"] st(2) show ?thesis by simp
    qed
    ultimately show ?thesis unfolding 2 glob_star_Cons by blast
  next
    case 3
    have loop: "glob_loop pat (c # t) star =
        (case star of Some (sp, st) \<Rightarrow> glob_loop sp (tl st) (Some (sp, tl st)) | None \<Rightarrow> False)"
      by (subst glob_loop.simps(2)) (simp only: if_not_P [OF 3(2)] if_not_P [OF 3(3)])
    show ?thesis
    proof (cases star)
      case None
      then show ?thesis unfolding loop using 3(1) by simp
    next
      case (Some x)
      then obtain sp st where star: "star = Some (sp, st)" by (cases x) auto
      obtain m where m: "st = m @ c # t" "42 \<notin> set st" using "2.prems"(1) star by (auto simp: star_state_def)
      then have st: "st \<noteq> []" "42 \<notin> set (tl st)" using set_tl_subset [of st] by blast+
      have "star_state sp (tl st) (Some (sp, tl st))" using st(2) by (simp add: star_state_def)
      note retry = "2.IH"(3) [OF 3(2,3) star refl this st(2)]
      have "glob_loop pat (c # t) star = glob_loop sp (tl st) (Some (sp, tl st))"
        using loop by (simp only: star option.case prod.case)
      with retry
      have "glob_loop pat (c # t) star \<longleftrightarrow> glob_meaning sp (tl st) \<or> (tl st \<noteq> [] \<and> glob_meaning (42 # sp) (tl (tl st)))"
        by (simp del: glob_loop.simps glob_meaning.simps)
      also have "\<dots> \<longleftrightarrow> glob_meaning (42 # sp) (tl st)" by (rule glob_star_cases [symmetric])
      finally show ?thesis using 3(1) star st(1) by blast
    qed
  qed
qed

text \<open>
  C25. The glob matcher is exact on texts without a star: whatever the pattern, the two-pointer loop
  ends and accepts a text just when the stars of the pattern can be replaced by characters so that
  the rest matches, a question mark matching any one of them.
\<close>

theorem simple_glob_exact:
  assumes "42 \<notin> set (code_points t)"
  shows "simple_glob pattern t \<longleftrightarrow> glob_meaning (code_points pattern) (code_points t)"
  using glob_loop_meaning [OF _ assms, of _ None] by (simp add: simple_glob_def star_state_def)

theorem simple_glob_exact_witness:
  "glob_meaning (code_points ''*.l?g'') (code_points ''a.b.log'')"
proof -
  have "42 \<notin> set (code_points ''a.b.log'')" "simple_glob ''*.l?g'' ''a.b.log''" by code_simp+
  with simple_glob_exact show ?thesis by blast
qed

text \<open>In a text with a star the loop can miss a match: the star of the pattern is taken literally.\<close>

lemma glob_literal_star: "\<not> simple_glob ''*'' ''*a''" "glob_meaning (code_points ''*'') (code_points ''*a'')"
proof -
  show "\<not> simple_glob ''*'' ''*a''" by code_simp
  have "code_points ''*'' = [42]" "code_points ''*a'' = [42, 97]" by code_simp+
  then show "glob_meaning (code_points ''*'') (code_points ''*a'')"
    by (auto intro!: exI [of _ 2])
qed

text \<open>A walk without errors gives the same files sequentially and in parallel.\<close>

lemma collect_walk_append:
  "collect_walk items errors files = (case collect_walk items [] [] of (es, fs) \<Rightarrow> (errors @ es, files @ fs))"
proof (induction items arbitrary: errors files)
  case (Cons x items)
  then show ?case
  proof (cases x)
    case (Inl e)
    then show ?thesis using Cons [of "errors @ [e]" files] Cons [of "[e]" "[]"] by (simp split: prod.splits)
  next
    case (Inr entry)
    then show ?thesis
      using Cons [of "errors @ [()]" files] Cons [of "[()]" "[]"] Cons [of errors "files @ [we_path entry]"]
        Cons [of "[]" "[we_path entry]"] Cons [of errors files]
      by (simp split: prod.splits)
  qed
qed simp

lemma run_walk_parallel: "run_walk items = run_parallel_walk items"
proof (induction items)
  case Nil
  show ?case by (simp add: run_parallel_walk_def)
next
  case (Cons x items)
  obtain es fs where rest: "collect_walk items [] [] = (es, fs)" by fastforce
  note step = collect_walk_append [of items, unfolded rest]
  show ?case
    using Cons rest step
    by (cases x) (simp_all add: run_parallel_walk_def)
qed

end
