(* ===== verification/Registry.thy ===== *)
theory Registry
  imports Paths Utf8
begin

text \<open>
  The registry of repositories (\<open>ferret-core/src/registry.rs\<close>): a list of entries with an optional
  name, kept free of duplicate paths and of duplicate effective names. The TOML reader and writer, the
  environment and the file system are parameters.
\<close>

record repo_entry =
  re_name :: "text_utf8 option"
  re_path :: bytes

type_synonym repo_config = "repo_entry list"

definition effective_name :: "repo_entry \<Rightarrow> text_utf8" where
  "effective_name e =
     (case re_name e of
        Some name \<Rightarrow> name
      | None \<Rightarrow>
          (case file_name (re_path e) of
             Some n \<Rightarrow> if utf8_valid n then n else ''unknown''
           | None \<Rightarrow> ''unknown''))"

definition find_by_name :: "repo_config \<Rightarrow> text_utf8 \<Rightarrow> repo_entry option" where
  "find_by_name config name = find (\<lambda>e. effective_name e = name) config"

text \<open>Paths are equal when their components are.\<close>

definition find_by_path :: "repo_config \<Rightarrow> bytes \<Rightarrow> repo_entry option" where
  "find_by_path config path = find (\<lambda>e. components (re_path e) = components path) config"

definition add_repo :: "repo_config \<Rightarrow> bytes \<Rightarrow> text_utf8 option \<Rightarrow> bool \<times> repo_config" where
  "add_repo config path name_override =
     (if find_by_path config path \<noteq> None then (False, config)
      else
        let entry = \<lparr>re_name = name_override, re_path = path\<rparr>
        in if list_ex (\<lambda>e. effective_name e = effective_name entry) config then (False, config)
           else (True, config @ [entry]))"

definition remove_repo :: "repo_config \<Rightarrow> text_utf8 \<Rightarrow> bool \<times> repo_config" where
  "remove_repo config name =
     (let config' = filter (\<lambda>e. effective_name e \<noteq> name) config
      in (length config' < length config, config'))"

text \<open>The file: none is the empty configuration.\<close>

definition load_config_from ::
  "(text_utf8 \<Rightarrow> repo_config option) \<Rightarrow> bool \<Rightarrow> bytes option \<Rightarrow> repo_config result" where
  "load_config_from from_toml readable contents =
     (case contents of
        None \<Rightarrow> Inr []
      | Some c \<Rightarrow>
          if \<not> readable \<or> \<not> utf8_valid c then Inl (Err Io)
          else (case from_toml c of None \<Rightarrow> Inl (Err (Config [])) | Some config \<Rightarrow> Inr config))"

definition save_config_to ::
  "(repo_config \<Rightarrow> text_utf8 option) \<Rightarrow> bool \<Rightarrow> bool \<Rightarrow> repo_config \<Rightarrow> bytes option \<Rightarrow> unit result \<times> bytes option" where
  "save_config_to to_toml dir_io write_io config stored =
     (if \<not> dir_io then (Inl (Err Io), stored)
      else
        case to_toml config of
          None \<Rightarrow> (Inl (Err (Config [])), stored)
        | Some contents \<Rightarrow> if write_io then (Inr (), Some contents) else (Inl (Err Io), stored))"

section \<open>The invariant\<close>

definition registry_ok :: "repo_config \<Rightarrow> bool" where
  "registry_ok config \<longleftrightarrow>
     distinct (map effective_name config) \<and> distinct (map (\<lambda>e. components (re_path e)) config)"

lemma find_key_None: "find (\<lambda>e. k e = x) xs = None \<longleftrightarrow> x \<notin> k ` set xs"
  by (induction xs) auto

lemma find_key_append:
  "distinct (map k (xs @ [y])) \<Longrightarrow> find (\<lambda>e. k e = x) (xs @ [y]) = (if k y = x then Some y else find (\<lambda>e. k e = x) xs)"
  by (induction xs) auto

lemma add_repo_ok:
  assumes "registry_ok config" and "add_repo config path name = (added, config')"
  shows "registry_ok config'"
    "added \<longleftrightarrow> find_by_path config path = None \<and> find_by_name config (effective_name \<lparr>re_name = name, re_path = path\<rparr>) = None"
    "\<not> added \<Longrightarrow> config' = config"
    "added \<Longrightarrow> find_by_name config' n = (if n = effective_name \<lparr>re_name = name, re_path = path\<rparr>
       then Some \<lparr>re_name = name, re_path = path\<rparr> else find_by_name config n)"
proof -
  let ?e = "\<lparr>re_name = name, re_path = path\<rparr>"
  have ex: "list_ex (\<lambda>e. effective_name e = effective_name ?e) config \<longleftrightarrow> find_by_name config (effective_name ?e) \<noteq> None"
    unfolding find_by_name_def find_key_None list_ex_iff image_iff by (metis)
  show added: "added \<longleftrightarrow> find_by_path config path = None \<and> find_by_name config (effective_name ?e) = None"
    and unchanged: "\<not> added \<Longrightarrow> config' = config"
    using assms(2) by (auto simp: add_repo_def ex Let_def split: if_splits)
  have new: "config' = config @ [?e] \<and> registry_ok config'" if "added"
  proof -
    have none: "find_by_path config path = None" "find_by_name config (effective_name ?e) = None" using that added by simp_all
    then have "config' = config @ [?e]" using assms(2) that by (auto simp: add_repo_def ex Let_def split: if_splits)
    with assms(1) none show ?thesis
      by (auto simp: registry_ok_def find_by_path_def find_by_name_def find_key_None)
  qed
  then show "registry_ok config'" using unchanged assms(1) by metis
  show "find_by_name config' n = (if n = effective_name ?e then Some ?e else find_by_name config n)" if "added"
    using new [OF that] unfolding find_by_name_def registry_ok_def by (auto simp: find_key_append simp del: map_append)
qed

lemma remove_repo_ok:
  assumes "registry_ok config" and "remove_repo config name = (removed, config')"
  shows "registry_ok config'" "removed \<longleftrightarrow> find_by_name config name \<noteq> None"
    "find_by_name config' n = (if n = name then None else find_by_name config n)"
proof -
  have config': "config' = filter (\<lambda>e. effective_name e \<noteq> name) config" and removed: "removed = (length config' < length config)"
    using assms(2) by (auto simp: remove_repo_def Let_def)
  show "registry_ok config'"
    using assms(1) by (simp add: config' registry_ok_def distinct_map_filter)
  have "length config' < length config \<longleftrightarrow> (\<exists>e \<in> set config. effective_name e = name)"
    unfolding config' using length_filter_less [of _ config "\<lambda>e. effective_name e \<noteq> name"]
    by (metis (mono_tags, lifting) filter_True less_irrefl)
  then show "removed \<longleftrightarrow> find_by_name config name \<noteq> None"
    unfolding removed find_by_name_def find_key_None image_iff by metis
  show "find_by_name config' n = (if n = name then None else find_by_name config n)"
    unfolding config' find_by_name_def by (induction config) auto
qed

end
