(* ===== verification/Live_Updates.thy ===== *)
theory Live_Updates
  imports Catch_Up Index_Correct
begin

text \<open>
  Live updates: the translation of file-system events (\<open>ferret-core/src/watcher.rs\<close>), the thread that
  merges them with scans by git (\<open>ferret-core/src/hybrid_detector.rs\<close>), and the loop of the daemon
  that applies the batches to the index while compactions run in the background
  (\<open>run_live_indexing\<close> of \<open>ferret-cli/src/daemon.rs\<close>). The events of the notify crate, the ignore
  matcher, the file system and the timing of the threads are parameters or steps of the environment.
\<close>

section \<open>Relative paths\<close>

text \<open>
  \<open>Path::strip_prefix\<close>: the components of the base are taken off, and the rest is given without the
  separators and dots around it. An empty base leaves the path as it is.
\<close>

abbreviation blank_part :: "bytes \<Rightarrow> bool" where
  "blank_part part \<equiv> part = [] \<or> part = ''.''"

fun drop_named :: "nat \<Rightarrow> bytes list \<Rightarrow> bytes list" where
  "drop_named n [] = []"
| "drop_named n (part # parts) =
     (if blank_part part then drop_named n parts
      else case n of 0 \<Rightarrow> part # parts | Suc k \<Rightarrow> drop_named k parts)"

fun join_parts :: "bytes list \<Rightarrow> bytes" where
  "join_parts [] = []"
| "join_parts [part] = part"
| "join_parts (part # parts) = part @ CHR ''/'' # join_parts parts"

definition named_parts :: "bytes \<Rightarrow> bytes list" where
  "named_parts p = filter (\<lambda>part. \<not> blank_part part) (split_on (CHR ''/'') p)"

definition strip_prefix :: "bytes \<Rightarrow> bytes \<Rightarrow> bytes option" where
  "strip_prefix base p =
     (if components base = [] then Some p
      else if prefix (components base) (components p) then
        Some (join_parts (rev (dropWhile blank_part (rev
          (drop_named (length (named_parts base)) (split_on (CHR ''/'') p))))))
      else None)"

section \<open>The watcher\<close>

text \<open>The kinds of events, as far as they are told apart.\<close>

datatype rename_mode = Rename_Any | Rename_To | Rename_From | Rename_Both | Rename_Other

datatype event_kind =
  Event_Create | Event_Remove | Event_Modify_Name rename_mode | Event_Modify_Other | Event_Other

definition classify_event_kind :: "event_kind \<Rightarrow> change_kind option" where
  "classify_event_kind kind =
     (case kind of
        Event_Create \<Rightarrow> Some Created
      | Event_Remove \<Rightarrow> Some Deleted
      | Event_Modify_Name mode \<Rightarrow> if mode \<noteq> Rename_Other then Some Renamed else Some Modified
      | Event_Modify_Other \<Rightarrow> Some Modified
      | Event_Other \<Rightarrow> None)"

record notify_event =
  ne_kind :: event_kind
  ne_paths :: "bytes list"

fun component_str :: "component \<Rightarrow> bytes" where
  "component_str RootDir = ''/''"
| "component_str CurDir = ''.''"
| "component_str ParentDir = ''..''"
| "component_str (Normal n) = n"

definition path_has_component :: "bytes \<Rightarrow> bytes \<Rightarrow> bool" where
  "path_has_component p c = list_ex (\<lambda>x. component_str x = c) (components p)"

text \<open>One change at a path, unless it lies below \<open>.git\<close> or is ignored.\<close>

record watch_env =
  wa_root :: bytes
  wa_ignored :: "bytes \<Rightarrow> bool \<Rightarrow> bool"
  wa_is_dir :: "bytes \<Rightarrow> bool"

definition watched_path :: "watch_env \<Rightarrow> bytes \<Rightarrow> change_kind \<Rightarrow> change_event list" where
  "watched_path env p kind =
     (if path_has_component p ''.git'' then []
      else if wa_ignored env p (wa_is_dir env p) then []
      else [event (case strip_prefix (wa_root env) p of Some rel \<Rightarrow> rel | None \<Rightarrow> p) kind])"

definition translate_event :: "watch_env \<Rightarrow> notify_event \<Rightarrow> change_event list" where
  "translate_event env ev =
     (case classify_event_kind (ne_kind ev) of
        None \<Rightarrow> []
      | Some kind \<Rightarrow>
          if kind = Renamed \<and> length (ne_paths ev) \<ge> 2
          then watched_path env (hd (ne_paths ev)) Deleted @ watched_path env (last (ne_paths ev)) Created
          else if ne_paths ev = [] then []
          else watched_path env (last (ne_paths ev)) kind)"

text \<open>The handler of a debounced result: a batch is sent unless it is empty, errors are logged.\<close>

definition watch_batch :: "watch_env \<Rightarrow> notify_event list option \<Rightarrow> change_event list option" where
  "watch_batch env result =
     (case result of
        None \<Rightarrow> None
      | Some events \<Rightarrow>
          let changes = concat (map (translate_event env) events)
          in if changes \<noteq> [] then Some changes else None)"

section \<open>The thread of the hybrid detector\<close>

text \<open>
  The flags shared with the owner, the time since the last scan in milliseconds, the channel from the
  watcher, the channel to the daemon with what was sent on it, and whether the thread has exited.
\<close>

record detector =
  hd_running :: bool
  hd_reindex :: bool
  hd_elapsed :: nat
  hd_watcher_rx :: "change_event list list"
  hd_watcher_open :: bool
  hd_receiver_open :: bool
  hd_sent :: "change_event list list"
  hd_exited :: bool

definition send_batch :: "change_event list \<Rightarrow> detector \<Rightarrow> detector" where
  "send_batch batch d = (if hd_receiver_open d then d\<lparr>hd_sent := hd_sent d @ [batch]\<rparr> else d)"

definition git_scan :: "git_command \<Rightarrow> detector \<Rightarrow> detector" where
  "git_scan git d =
     (case detect_changes git git_detector_new of
        Inr events \<Rightarrow> if events \<noteq> [] then send_batch (dedup_events events) d else d
      | Inl _ \<Rightarrow> d)"

definition detector_start :: "git_command \<Rightarrow> detector" where
  "detector_start git = git_scan git
     \<lparr>hd_running = True, hd_reindex = False, hd_elapsed = 0, hd_watcher_rx = [], hd_watcher_open = True,
      hd_receiver_open = True, hd_sent = [], hd_exited = False\<rparr>"

text \<open>Forwarding the pending batches; the flag tells whether the thread ends.\<close>

fun drain_loop :: "git_command \<Rightarrow> change_event list list \<Rightarrow> detector \<Rightarrow> bool \<times> detector" where
  "drain_loop git [] d =
     (let d = d\<lparr>hd_watcher_rx := []\<rparr>
      in if hd_watcher_open d then (False, d) else (True, git_scan git d))"
| "drain_loop git (events # rx) d =
     (let deduped = dedup_events events
      in if deduped = [] then drain_loop git rx d
         else if \<not> hd_receiver_open d then (True, d\<lparr>hd_watcher_rx := rx\<rparr>)
         else drain_loop git rx (send_batch deduped d))"

definition detector_iteration :: "nat \<Rightarrow> git_command \<Rightarrow> git_command \<Rightarrow> detector \<Rightarrow> detector" where
  "detector_iteration poll_interval git git' d =
     (if \<not> hd_running d then d\<lparr>hd_exited := True\<rparr>
      else case drain_loop git (hd_watcher_rx d) d of
        (True, d) \<Rightarrow> d\<lparr>hd_exited := True\<rparr>
      | (False, d) \<Rightarrow>
          let d = (if hd_reindex d then git_scan git (d\<lparr>hd_reindex := False\<rparr>)\<lparr>hd_elapsed := 0\<rparr> else d);
              d = (if hd_elapsed d \<ge> poll_interval then git_scan git' d\<lparr>hd_elapsed := 0\<rparr> else d)
          in d\<lparr>hd_elapsed := hd_elapsed d + 100\<rparr>)"

text \<open>The thread and what happens around it, in any order.\<close>

inductive detector_step :: "nat \<Rightarrow> detector \<Rightarrow> detector \<Rightarrow> bool" for poll_interval where
  iterate: "\<not> hd_exited d \<Longrightarrow> detector_step poll_interval d (detector_iteration poll_interval git git' d)"
| watch: "hd_watcher_open d \<Longrightarrow> batch \<noteq> [] \<Longrightarrow>
    detector_step poll_interval d (d\<lparr>hd_watcher_rx := hd_watcher_rx d @ [batch]\<rparr>)"
| watcher_closed: "detector_step poll_interval d (d\<lparr>hd_watcher_open := False\<rparr>)"
| reindex: "detector_step poll_interval d (d\<lparr>hd_reindex := True\<rparr>)"
| stop: "detector_step poll_interval d (d\<lparr>hd_running := False, hd_watcher_open := False\<rparr>)"
| receiver_closed: "detector_step poll_interval d (d\<lparr>hd_receiver_open := False\<rparr>)"

section \<open>The loop of the daemon\<close>

text \<open>
  The manager and the checkpoint, the compactions that were spawned and have not run, and whether the
  loop has panicked. \<open>tokio::spawn\<close> panics on a thread without a runtime; whether the loop runs in
  one is a parameter.
\<close>

record live_state =
  lv_index :: catchup_state
  lv_compactions :: nat
  lv_panicked :: bool

definition compact_background :: "bool \<Rightarrow> live_state \<Rightarrow> live_state" where
  "compact_background in_runtime st =
     (if in_runtime then st\<lparr>lv_compactions := lv_compactions st + 1\<rparr> else st\<lparr>lv_panicked := True\<rparr>)"

definition update_checkpoint :: "catchup_env \<Rightarrow> live_state \<Rightarrow> live_state" where
  "update_checkpoint env st =
     (case save_checkpoint env (cs_manager (lv_index st)) (cs_checkpoint (lv_index st)) of
        (Inl Panic, _) \<Rightarrow> st\<lparr>lv_panicked := True\<rparr>
      | (_, ck) \<Rightarrow> st\<lparr>lv_index := (lv_index st)\<lparr>cs_checkpoint := ck\<rparr>\<rparr>)"

definition set_manager :: "manager \<Rightarrow> live_state \<Rightarrow> live_state" where
  "set_manager m st = st\<lparr>lv_index := (lv_index st)\<lparr>cs_manager := m\<rparr>\<rparr>"

definition live_batch :: "catchup_env \<Rightarrow> bool \<Rightarrow> change_event list \<Rightarrow> live_state \<Rightarrow> live_state" where
  "live_batch env in_runtime batch st =
     (if batch = [] then st
      else
        case apply_changes (cu_manager env) (cu_tree env) (cu_root env) batch (cs_manager (lv_index st)) of
          (Inl Panic, m) \<Rightarrow> (set_manager m st)\<lparr>lv_panicked := True\<rparr>
        | (Inl (Err _), m) \<Rightarrow> set_manager m st
        | (Inr _, m) \<Rightarrow>
            let st = update_checkpoint env (set_manager m st)
            in if lv_panicked st then st
               else if should_compact (cu_ratio_above env) m then compact_background in_runtime st
               else st)"

text \<open>
  A run, with the environment of each step: the loop takes a batch, or a spawned compaction runs. Both
  hold the lock of the writers.
\<close>

datatype live_event = Took catchup_env "change_event list" | Compacted catchup_env

fun live_env :: "live_event \<Rightarrow> catchup_env" where
  "live_env (Took env batch) = env"
| "live_env (Compacted env) = env"

fun live_step :: "bool \<Rightarrow> live_event \<Rightarrow> live_state \<Rightarrow> live_state option" where
  "live_step in_runtime (Took env batch) st =
     (if lv_panicked st then None else Some (live_batch env in_runtime batch st))"
| "live_step in_runtime (Compacted env) st =
     (if lv_compactions st = 0 then None
      else
        let (_, m) = compact_with_budget (cu_manager env) DEFAULT_COMPACTION_BUDGET (cs_manager (lv_index st))
        in Some ((set_manager m st)\<lparr>lv_compactions := lv_compactions st - 1\<rparr>))"

fun live_run :: "bool \<Rightarrow> live_event list \<Rightarrow> live_state \<Rightarrow> live_state option" where
  "live_run in_runtime [] st = Some st"
| "live_run in_runtime (e # es) st = Option.bind (live_step in_runtime e st) (live_run in_runtime es)"

section \<open>Relative paths keep their components\<close>

lemma split_join_parts:
  "parts \<noteq> [] \<Longrightarrow> list_all (\<lambda>part. CHR ''/'' \<notin> set part) parts \<Longrightarrow> split_on (CHR ''/'') (join_parts parts) = parts"
proof (induction parts rule: join_parts.induct)
  case (3 part q parts)
  then have "split_on (CHR ''/'') (part @ CHR ''/'' # join_parts (q # parts)) = part # q # parts"
    by (subst split_on_append) (simp add: split_on_no_sep)
  then show ?case by simp
qed (simp_all add: split_on_no_sep)

lemma filter_drop_named:
  "filter (\<lambda>part. \<not> blank_part part) (drop_named n parts) = drop n (filter (\<lambda>part. \<not> blank_part part) parts)"
  by (induction n parts rule: drop_named.induct) (auto split: nat.splits)

lemma drop_named_hd: "drop_named n parts \<noteq> [] \<Longrightarrow> \<not> blank_part (hd (drop_named n parts))"
proof (induction n parts rule: drop_named.induct)
  case (2 n part parts)
  then show ?case by (cases "blank_part part"; cases n) (auto simp del: not_Cons_self2)
qed simp

lemma set_drop_named: "set (drop_named n parts) \<subseteq> set parts"
proof (induction n parts rule: drop_named.induct)
  case (2 n part parts)
  then show ?case by (cases n) auto
qed simp

text \<open>What is stripped off is the base: the components of the rest are those after it.\<close>

lemma components_relative:
  assumes "split_on (CHR ''/'') r = parts" and "parts = [[]] \<or> \<not> blank_part (hd parts)"
  shows "components r = map component_of (filter (\<lambda>part. \<not> blank_part part) parts)"
proof -
  have "\<not> (r \<noteq> [] \<and> hd r = CHR ''/'')"
  proof
    assume "r \<noteq> [] \<and> hd r = CHR ''/''"
    then obtain r' where "r = CHR ''/'' # r'" by (cases r) auto
    with assms show False by auto
  qed
  moreover have "hd parts \<noteq> ''.''" using assms(2) by auto
  ultimately show ?thesis using assms(1) by (auto simp: components_def Let_def)
qed

lemma filter_trim_end: "filter (\<lambda>x. \<not> P x) (rev (dropWhile P (rev xs))) = filter (\<lambda>x. \<not> P x) xs"
proof -
  have "filter (\<lambda>x. \<not> P x) (dropWhile P ys) = filter (\<lambda>x. \<not> P x) ys" for ys by (induction ys) auto
  then show ?thesis by (simp flip: rev_filter)
qed

lemma prefix_hd: "prefix a b \<Longrightarrow> a \<noteq> [] \<Longrightarrow> hd a = hd b \<and> b \<noteq> []"
  by (auto simp: prefix_def)

lemma strip_prefix_components:
  assumes "strip_prefix base p = Some r" and "components base \<noteq> []"
  shows "components p = components base @ components r"
proof -
  let ?parts = "split_on (CHR ''/'') p"
  let ?named = "filter (\<lambda>part. \<not> blank_part part)"
  let ?drop = "drop_named (length (named_parts base)) ?parts"
  let ?rest = "rev (dropWhile blank_part (rev ?drop))"
  have pre: "prefix (components base) (components p)" and r: "r = join_parts ?rest"
    using assms by (auto simp: strip_prefix_def split: if_splits)
  have named: "?named ?rest = drop (length (named_parts base)) (named_parts p)"
    unfolding filter_trim_end filter_drop_named named_parts_def ..
  have "set ?rest \<subseteq> set ?parts"
    using set_drop_named [of "length (named_parts base)" ?parts] set_dropWhileD [of _ blank_part "rev ?drop"] by fastforce
  then have slash: "list_all (\<lambda>part. CHR ''/'' \<notin> set part) ?rest"
    using sep_notin_split_on by (fastforce simp: list_all_iff)
  have rest: "components r = map component_of (?named ?rest)"
  proof (cases "?rest = []")
    case True
    have "r = []" unfolding r True by simp
    then show ?thesis unfolding True by (simp add: components_def)
  next
    case False
    have "prefix ?rest ?drop"
      using suffix_dropWhile [of blank_part "rev ?drop"] by (simp add: suffix_to_prefix)
    then have "hd ?rest = hd ?drop" "?drop \<noteq> []" using prefix_hd [OF _ False] by blast+
    then have "\<not> blank_part (hd ?rest)" using drop_named_hd by metis
    with components_relative [OF split_join_parts [OF False slash]] show ?thesis unfolding r by blast
  qed
  define front where "front q = (if q \<noteq> [] \<and> hd q = CHR ''/'' then [RootDir]
      else if hd (split_on (CHR ''/'') q) = ''.'' then [CurDir] else [])" for q
  have comp: "components q = front q @ map component_of (named_parts q)" for q
    by (simp add: components_def named_parts_def front_def Let_def)
  have front: "front q \<in> {[], [RootDir], [CurDir]}" for q by (simp add: front_def)
  have norm: "RootDir \<noteq> component_of part" "CurDir \<noteq> component_of part" for part
    by (simp_all add: component_of_def)
  have "front base = front p"
    using pre assms(2) front [of base] front [of p] norm norm [symmetric] unfolding comp
    by (cases "named_parts base"; cases "named_parts p") (auto simp: prefix_def)
  then have "prefix (map component_of (named_parts base)) (map component_of (named_parts p))"
    using pre unfolding comp by simp
  then have "map component_of (named_parts p) = map component_of (named_parts base) @
      map component_of (drop (length (named_parts base)) (named_parts p))"
    by (metis append_eq_conv_conj drop_map length_map prefix_def)
  then show ?thesis
    unfolding rest named comp [of base] comp [of p] \<open>front base = front p\<close> by simp
qed

section \<open>What the watcher reports\<close>

text \<open>A change below \<open>.git\<close> is never reported, and a path below the root is reported without it.\<close>

lemma watched_path_spec:
  assumes "e \<in> set (watched_path env p kind)"
  shows "\<not> path_has_component p ''.git''" "\<not> wa_ignored env p (wa_is_dir env p)" "ce_kind e = kind"
    "components (wa_root env) \<noteq> [] \<Longrightarrow> prefix (components (wa_root env)) (components p) \<Longrightarrow>
       components p = components (wa_root env) @ components (ce_path e)"
proof -
  show "\<not> path_has_component p ''.git''" "\<not> wa_ignored env p (wa_is_dir env p)" "ce_kind e = kind"
    using assms by (auto simp: watched_path_def split: if_splits)
  assume base: "components (wa_root env) \<noteq> []" and "prefix (components (wa_root env)) (components p)"
  then obtain rel where rel: "strip_prefix (wa_root env) p = Some rel" by (simp add: strip_prefix_def)
  then have "ce_path e = rel" using assms by (auto simp: watched_path_def split: if_splits)
  with strip_prefix_components [OF rel base]
  show "components p = components (wa_root env) @ components (ce_path e)" by simp
qed

text \<open>
  The index directory is not left out, unless an ignore file names it: the checkpoint that the daemon
  writes after a batch is reported as a change, and it is a file that is indexed.
\<close>

lemma watcher_reports_checkpoint:
  "watch_batch \<lparr>wa_root = ''/r'', wa_ignored = \<lambda>_ _. False, wa_is_dir = \<lambda>_. False\<rparr>
     (Some [\<lparr>ne_kind = Event_Modify_Other, ne_paths = [''/r/.ferret_index/checkpoint.json'']\<rparr>])
   = Some [event ''.ferret_index/checkpoint.json'' Modified]"
  "should_index_file ''/r/.ferret_index/checkpoint.json'' ''{}'' 1048576"
proof -
  show "watch_batch \<lparr>wa_root = ''/r'', wa_ignored = \<lambda>_ _. False, wa_is_dir = \<lambda>_. False\<rparr>
      (Some [\<lparr>ne_kind = Event_Modify_Other, ne_paths = [''/r/.ferret_index/checkpoint.json'']\<rparr>])
    = Some [event ''.ferret_index/checkpoint.json'' Modified]"
    by code_simp
  have "\<not> is_binary_path ''/r/.ferret_index/checkpoint.json''" "\<not> is_binary_content ''{}''" by code_simp+
  then show "should_index_file ''/r/.ferret_index/checkpoint.json'' ''{}'' 1048576"
    by (simp add: should_index_file_def)
qed

section \<open>What the detector sends\<close>

definition batch_ok :: "change_event list \<Rightarrow> bool" where
  "batch_ok batch \<longleftrightarrow> batch \<noteq> [] \<and> sorted_wrt (<) (map event_key batch)"

lemma dedup_events_facts:
  "sorted_wrt (<) (map event_key (dedup_events es))" "change_of (dedup_events es) = change_of (rev es)"
  "dedup_events es = [] \<longleftrightarrow> es = []"
proof -
  note facts = sort_by_path_facts [OF distinct_fold_put [of "[]" es]]
  show "sorted_wrt (<) (map event_key (dedup_events es))" "change_of (dedup_events es) = change_of (rev es)"
    using facts by (simp_all add: dedup_events_def change_of_fold)
  have "event_key ` set (fold put_change es cs) = event_key ` set es \<union> event_key ` set cs" for cs
    by (induction es arbitrary: cs) (auto simp: keys_put)
  then have "event_key ` set (dedup_events es) = event_key ` set es"
    unfolding dedup_events_def facts(3) [simplified] by simp
  then show "dedup_events es = [] \<longleftrightarrow> es = []" by (cases "dedup_events es"; cases es) simp_all
qed

lemma batch_ok_dedup: "es \<noteq> [] \<Longrightarrow> batch_ok (dedup_events es)"
  by (simp add: batch_ok_def dedup_events_facts)

text \<open>What a scan sends, and what the pending batches of the watcher become.\<close>

definition scan_batches :: "git_command \<Rightarrow> change_event list list" where
  "scan_batches git =
     (case detect_changes git git_detector_new of
        Inr events \<Rightarrow> if events \<noteq> [] then [dedup_events events] else []
      | Inl _ \<Rightarrow> [])"

lemma git_scan_eq:
  "git_scan git d = d\<lparr>hd_sent := hd_sent d @ (if hd_receiver_open d then scan_batches git else [])\<rparr>"
  by (auto simp: git_scan_def scan_batches_def send_batch_def split: sum.splits)

lemma scan_batches_ok: "b \<in> set (scan_batches git) \<Longrightarrow> batch_ok b"
  by (auto simp: scan_batches_def batch_ok_dedup split: sum.splits if_splits)

abbreviation forwarded :: "change_event list list \<Rightarrow> change_event list list" where
  "forwarded rx \<equiv> map dedup_events (filter (\<lambda>es. es \<noteq> []) rx)"

lemma drain_loop_step:
  "drain_loop git (events # rx) d =
     (if events = [] then drain_loop git rx d
      else if hd_receiver_open d then drain_loop git rx (d\<lparr>hd_sent := hd_sent d @ [dedup_events events]\<rparr>)
      else (True, d\<lparr>hd_watcher_rx := rx\<rparr>))"
  by (simp add: Let_def dedup_events_facts send_batch_def)

declare drain_loop.simps(2) [simp del]

lemma drain_loop_open:
  "hd_receiver_open d \<Longrightarrow> drain_loop git rx d =
     (\<not> hd_watcher_open d,
      d\<lparr>hd_watcher_rx := [], hd_sent := hd_sent d @ forwarded rx @ (if hd_watcher_open d then [] else scan_batches git)\<rparr>)"
  by (induction rx arbitrary: d) (simp_all add: Let_def git_scan_eq drain_loop_step)

lemma drain_loop_sent:
  "drain_loop git rx d = (stop, d') \<Longrightarrow>
     \<exists>bs. hd_sent d' = hd_sent d @ bs \<and> (\<forall>b \<in> set bs. batch_ok b)"
proof (induction rx arbitrary: d)
  case Nil
  then show ?case using scan_batches_ok [of _ git] by (auto simp: Let_def git_scan_eq split: if_splits)
next
  case (Cons events rx)
  show ?case
  proof (cases "events = [] \<or> \<not> hd_receiver_open d")
    case True
    with Cons show ?thesis by (auto simp: drain_loop_step split: if_splits)
  next
    case False
    then have "drain_loop git rx (d\<lparr>hd_sent := hd_sent d @ [dedup_events events]\<rparr>) = (stop, d')"
      using Cons.prems by (simp add: drain_loop_step)
    from Cons.IH [OF this] obtain bs where "hd_sent d' = hd_sent d @ dedup_events events # bs" "\<forall>b \<in> set bs. batch_ok b"
      by auto
    with False batch_ok_dedup [of events] show ?thesis by (intro exI [of _ "dedup_events events # bs"]) auto
  qed
qed

text \<open>
  Batches are sent by iterations only, and every batch that was ever sent is one event per path in
  ascending order, and not empty.
\<close>

lemma detector_iteration_sent:
  "\<exists>bs. hd_sent (detector_iteration poll_interval git git' d) = hd_sent d @ bs \<and> (\<forall>b \<in> set bs. batch_ok b)"
proof (cases "hd_running d")
  case True
  obtain halt d1 where drain: "drain_loop git (hd_watcher_rx d) d = (halt, d1)" by fastforce
  obtain bs where bs: "hd_sent d1 = hd_sent d @ bs" "\<forall>b \<in> set bs. batch_ok b" using drain_loop_sent [OF drain] by blast
  have more: "\<exists>cs. hd_sent (detector_iteration poll_interval git git' d) = hd_sent d1 @ cs \<and> (\<forall>b \<in> set cs. batch_ok b)"
    using True drain scan_batches_ok [of _ git] scan_batches_ok [of _ git']
    by (cases halt) (auto simp: detector_iteration_def git_scan_eq Let_def)
  from more obtain cs where "hd_sent (detector_iteration poll_interval git git' d) = hd_sent d1 @ cs" "\<forall>b \<in> set cs. batch_ok b"
    by blast
  with bs show ?thesis by (intro exI [of _ "bs @ cs"]) auto
qed (simp add: detector_iteration_def)

lemma detector_sent_ok:
  assumes "(detector_step poll_interval)\<^sup>*\<^sup>* (detector_start git) d"
  shows "\<forall>b \<in> set (hd_sent d). batch_ok b"
  using assms
proof (induction rule: rtranclp_induct)
  case base
  show ?case using scan_batches_ok [of _ git] by (simp add: detector_start_def git_scan_eq)
next
  case (step d d')
  from step(2,3) show ?case
  proof (cases rule: detector_step.cases)
    case (iterate git git')
    with step(3) detector_iteration_sent [of poll_interval git git' d] show ?thesis by auto
  qed auto
qed

text \<open>
  Nothing is lost while somebody listens: an iteration forwards what the watcher sent, in order, and
  scans by git at once when that was asked for, when the interval has passed, and a last time when the
  watcher is gone. A stopped thread ends at its next iteration.
\<close>

lemma detector_forwards:
  fixes git git' :: git_command and poll_interval :: nat
  assumes "hd_running d" and "hd_receiver_open d"
  defines "d' \<equiv> detector_iteration poll_interval git git' d"
  shows "hd_watcher_rx d' = []"
    "hd_watcher_open d \<Longrightarrow> \<not> hd_exited d \<Longrightarrow> \<not> hd_exited d' \<and> \<not> hd_reindex d' \<and>
       hd_sent d' = hd_sent d @ forwarded (hd_watcher_rx d) @ (if hd_reindex d then scan_batches git else [])
         @ (if (if hd_reindex d then 0 else hd_elapsed d) \<ge> poll_interval then scan_batches git' else [])"
    "\<not> hd_watcher_open d \<Longrightarrow> hd_exited d' \<and> hd_sent d' = hd_sent d @ forwarded (hd_watcher_rx d) @ scan_batches git"
  using assms(1,2) unfolding d'_def
  by (auto simp: detector_iteration_def drain_loop_open git_scan_eq Let_def)

lemma detector_stops:
  "\<not> hd_running d \<Longrightarrow> hd_exited (detector_iteration poll_interval git git' d) \<and>
     hd_sent (detector_iteration poll_interval git git' d) = hd_sent d"
  by (simp add: detector_iteration_def)

section \<open>What the index shows while the daemon runs\<close>

text \<open>The invariant of the manager does not depend on the failures of the file system.\<close>

lemma manager_ok_cong:
  assumes "me_build env = me_build env'" and "me_read_varint env = me_read_varint env'"
  shows "manager_ok env m = manager_ok env' m" "index_view env m = index_view env' m"
  using assms by (simp_all add: manager_ok_def segment_ok_def holds_files_def placed_def index_view_def)

abbreviation live_manager :: "live_state \<Rightarrow> manager" where
  "live_manager st \<equiv> cs_manager (lv_index st)"

text \<open>What a batch makes of the live files; a compaction leaves them.\<close>

fun new_files :: "live_event \<Rightarrow> input_file list \<Rightarrow> input_file list" where
  "new_files (Took env batch) view = changed_files (cu_manager env) (cu_tree env) (cu_root env) batch view"
| "new_files (Compacted env) view = []"

fun view_of_event :: "live_event \<Rightarrow> input_file list \<Rightarrow> input_file list" where
  "view_of_event (Took env batch) view =
     filter (\<lambda>f. in_path f \<notin> set (changed_paths needs_tombstone batch)) view @ new_files (Took env batch) view"
| "view_of_event (Compacted env) view = view"

fun batch_applied :: "live_event \<Rightarrow> live_state \<Rightarrow> bool" where
  "batch_applied (Took env batch) st =
     (fst (apply_changes (cu_manager env) (cu_tree env) (cu_root env) batch (live_manager st)) = Inr ())"
| "batch_applied (Compacted env) st = True"

text \<open>A condition on every event of a run and the state it meets.\<close>

fun along :: "(live_event \<Rightarrow> live_state \<Rightarrow> bool) \<Rightarrow> bool \<Rightarrow> live_event list \<Rightarrow> live_state \<Rightarrow> bool" where
  "along P in_runtime [] st = True"
| "along P in_runtime (e # es) st =
     (P e st \<and> (case live_step in_runtime e st of None \<Rightarrow> True | Some st' \<Rightarrow> along P in_runtime es st'))"

definition event_fits :: "live_event \<Rightarrow> live_state \<Rightarrow> bool" where
  "event_fits e st \<longleftrightarrow>
     (let view = index_view (cu_manager (live_env e)) (live_manager st) in fits (view @ new_files e view))"

lemma set_manager_live [simp]: "live_manager (set_manager m st) = m"
  by (simp add: set_manager_def)

lemma update_checkpoint_manager [simp]: "live_manager (update_checkpoint env st) = live_manager st"
  by (simp add: update_checkpoint_def split: prod.splits sum.splits failure.splits)

lemma live_batch_manager:
  "live_manager (live_batch env in_runtime batch st) =
     snd (apply_changes (cu_manager env) (cu_tree env) (cu_root env) batch (live_manager st))"
proof (cases "batch = []")
  case True
  then show ?thesis by (simp add: live_batch_def apply_changes_def apply_changes_with_budget_def)
next
  case False
  then show ?thesis
    by (simp add: live_batch_def compact_background_def Let_def split: prod.splits sum.splits failure.splits)
qed

lemma live_step_view:
  assumes env: "good_env (cu_manager (live_env e))" and ok: "manager_ok (cu_manager (live_env e)) (live_manager st)"
    and fit: "event_fits e st" and run: "live_step in_runtime e st = Some st'"
  defines "V \<equiv> index_view (cu_manager (live_env e))"
  shows "manager_ok (cu_manager (live_env e)) (live_manager st') \<and>
    (batch_applied e st \<longrightarrow> V (live_manager st') = view_of_event e (V (live_manager st)))"
proof (cases e)
  case (Took cenv batch)
  obtain r m where app: "apply_changes (cu_manager cenv) (cu_tree cenv) (cu_root cenv) batch (live_manager st) = (r, m)" by fastforce
  have m: "live_manager st' = m"
    using run live_batch_manager [of cenv in_runtime batch st] app by (auto simp: Took split: if_splits)
  have "fits (changed_files (cu_manager cenv) (cu_tree cenv) (cu_root cenv) batch (V (live_manager st)))"
    using fits_parts(2) [of "V (live_manager st)"] fit by (simp add: event_fits_def Let_def V_def Took)
  from apply_changes_spec [OF env [unfolded Took live_env.simps] ok [unfolded Took live_env.simps] this [unfolded V_def Took live_env.simps]
      app [unfolded apply_changes_def]] show ?thesis
    using app by (simp add: V_def Took m)
next
  case (Compacted cenv)
  obtain r m where comp: "compact_with_budget (cu_manager cenv) DEFAULT_COMPACTION_BUDGET (live_manager st) = (r, m)" by fastforce
  have m: "live_manager st' = m"
    using run comp by (auto simp: Compacted set_manager_def split: if_splits)
  have "fits (index_view (cu_manager cenv) (live_manager st))"
    using fit by (simp add: event_fits_def Compacted)
  from compact_spec [OF _ _ this comp] env ok show ?thesis
    unfolding m V_def by (simp add: Compacted)
qed

text \<open>
  C4. Live updates: while the daemon applies the batches of the watcher and of git, compactions may run
  at any time between them, succeed or fail, and the trees, git and the failures of the file system may
  be different at each step. The index stays well-formed, and when every batch is applied it shows what
  the batches one after the other make of it: the files at tombstoned paths disappear, the changed files
  that can be read appear, and when a compaction runs is not visible. The hypotheses are that the steps
  use the same hash, compression and codec, and that the files fit at every step.
\<close>

theorem live_updates_view:
  assumes "good_env menv" and "manager_ok menv (live_manager st)"
    and "\<forall>e \<in> set es. me_build (cu_manager (live_env e)) = me_build menv \<and>
      me_read_varint (cu_manager (live_env e)) = me_read_varint menv"
    and "live_run in_runtime es st = Some st'" and "along event_fits in_runtime es st"
  shows "manager_ok menv (live_manager st') \<and>
    (along batch_applied in_runtime es st \<longrightarrow>
       index_view menv (live_manager st') = fold view_of_event es (index_view menv (live_manager st)))"
  using assms(2-5)
proof (induction es arbitrary: st)
  case (Cons e es)
  obtain st1 where step: "live_step in_runtime e st = Some st1" and rest: "live_run in_runtime es st1 = Some st'"
    using Cons.prems(3) by (cases "live_step in_runtime e st") simp_all
  have same: "me_build (cu_manager (live_env e)) = me_build menv" "me_read_varint (cu_manager (live_env e)) = me_read_varint menv"
    using Cons.prems(2) by simp_all
  note cong = manager_ok_cong [OF same]
  have "event_fits e st" "along event_fits in_runtime es st1" using Cons.prems(4) step by simp_all
  note one = live_step_view [OF _ _ this(1) step, unfolded cong same, OF assms(1) Cons.prems(1)]
  from Cons.IH [OF conjunct1 [OF one] _ rest \<open>along event_fits in_runtime es st1\<close>] Cons.prems(2) one step
  show ?case by simp
qed simp

text \<open>In the sample index a file is deleted, and a compaction that was spawned before runs after it.\<close>

lemma live_batch_compactions: "lv_compactions st \<le> lv_compactions (live_batch env in_runtime batch st)"
  by (auto simp: live_batch_def compact_background_def set_manager_def update_checkpoint_def Let_def
      split: prod.splits sum.splits failure.splits)

definition sample_live :: "manager \<Rightarrow> live_state" where
  "sample_live m = \<lparr>lv_index = \<lparr>cs_manager = m, cs_checkpoint = None\<rparr>, lv_compactions = 1, lv_panicked = False\<rparr>"

definition sample_live_env :: catchup_env where
  "sample_live_env = sample_catchup_env\<lparr>cu_tree := \<lambda>_. None\<rparr>"

lemma sample_live_fields: "cu_manager sample_live_env = sample_manager_env"
  "cu_tree sample_live_env = (\<lambda>_. None)" "cu_root sample_live_env = []"
  by (simp_all add: sample_live_env_def sample_catchup_fields)

lemma sample_deletion_applied:
  assumes ok: "manager_ok sample_manager_env m"
  shows "fst (apply_changes sample_manager_env (\<lambda>_. None) [] sample_deletion m) = Inr ()"
proof -
  have "unat (mg_next_id m) \<le> u32_max" by simp
  then have "\<exists>m'. apply_changes_with_budget sample_manager_env (\<lambda>_. None) [] sample_deletion DEFAULT_COMPACTION_BUDGET m = (Inr (), m')"
    by (intro apply_changes_done sample_manager_facts(1) ok)
      (simp_all only: sample_deletion_files fits_nil, simp_all add: split_batches_def room_for_def sample_manager_env_def)
  then show ?thesis by (auto simp: apply_changes_def)
qed

theorem live_updates_view_witness:
  "\<exists>m st'. index_view sample_manager_env m = sample_inputs \<and>
     live_run True [Took sample_live_env sample_deletion, Compacted sample_live_env] (sample_live m) = Some st' \<and>
     index_view sample_manager_env (live_manager st') = [sample_inputs ! 1]"
proof -
  obtain m where m: "manager_ok sample_manager_env m" "index_view sample_manager_env m = sample_inputs"
    using sample_index by blast
  let ?took = "Took sample_live_env sample_deletion" and ?st = "sample_live m"
  have st: "live_manager ?st = m" by (simp add: sample_live_def)
  define st1 where "st1 = live_batch sample_live_env True sample_deletion ?st"
  have step: "live_step True ?took ?st = Some st1" by (simp add: st1_def sample_live_def)
  have view: "view_of_event ?took sample_inputs = [sample_inputs ! 1]"
    by (simp add: sample_live_fields sample_deletion_files sample_deletion_paths) (simp add: sample_inputs_def)
  have fits0: "event_fits ?took ?st"
    using sample_manager_facts(5) by (simp add: event_fits_def sample_live_fields st m sample_deletion_files Let_def)
  have applied: "batch_applied ?took ?st" using sample_deletion_applied [OF m(1)] by (simp add: sample_live_fields st)
  from live_step_view [OF _ _ fits0 step] applied view
  have one: "index_view sample_manager_env (live_manager st1) = [sample_inputs ! 1]"
    using sample_manager_facts(1) m by (simp add: sample_live_fields st)
  have fits1: "event_fits (Compacted sample_live_env) st1"
    using fits_parts(1) [of sample_inputs "[]" "\<lambda>f. in_path f \<noteq> ''a.rs''"] sample_manager_facts(5)
    by (simp add: event_fits_def sample_live_fields one) (simp add: sample_inputs_def)
  have "1 \<le> lv_compactions st1"
    using live_batch_compactions [of ?st] by (simp add: st1_def sample_live_def)
  then obtain st' where st': "live_step True (Compacted sample_live_env) st1 = Some st'"
    by (cases "compact_with_budget (cu_manager sample_live_env) DEFAULT_COMPACTION_BUDGET (live_manager st1)") auto
  have run: "live_run True [?took, Compacted sample_live_env] ?st = Some st'"
    using step st' by simp
  have "along event_fits True [?took, Compacted sample_live_env] ?st" "along batch_applied True [?took, Compacted sample_live_env] ?st"
    using step st' fits0 fits1 applied by simp_all
  from live_updates_view [OF sample_manager_facts(1) _ _ run this(1)] this(2) view m
  have "index_view sample_manager_env (live_manager st') = [sample_inputs ! 1]"
    by (simp add: st sample_live_fields)
  with m(2) run show ?thesis by blast
qed

text \<open>
  The loop runs on a thread of its own, which has no runtime: when a compaction is due after a batch,
  spawning it panics and no further batch is taken.
\<close>

lemma live_loop_panics:
  assumes "live_step False (Took env batch) st = Some st'" and "batch \<noteq> []"
    and "apply_changes (cu_manager env) (cu_tree env) (cu_root env) batch (live_manager st) = (Inr (), m)"
    and "should_compact (cu_ratio_above env) m"
  shows "live_step in_runtime (Took env' batch') st' = None"
  using assms by (auto simp: live_batch_def compact_background_def Let_def split: if_splits)

end
