(* ===== verification/Path_Rewrite.thy ===== *)
theory Path_Rewrite
  imports Live_Updates
begin

text \<open>
  The paths that the command line prints (\<open>ferret-cli/src/paths.rs\<close>): repository paths relative to
  the current directory when it is inside the repository, absolute ones outside. Resolving symbolic
  links is a parameter. Shown: the printed path leads from the current directory to the file.
\<close>

section \<open>Rewriting\<close>

datatype path_transform = Identity_Path | Relative_To bytes | Absolute_Path bytes

fun skip_common :: "component list \<Rightarrow> component list \<Rightarrow> component list \<times> component list" where
  "skip_common (t # ts) (b # bs) = (if t \<noteq> b then (t # ts, b # bs) else skip_common ts bs)"
| "skip_common ts bs = (ts, bs)"

definition push_component :: "component \<Rightarrow> bytes \<Rightarrow> bytes" where
  "push_component c r = path_join r (component_str c)"

definition diff_relative_paths :: "bytes \<Rightarrow> bytes \<Rightarrow> bytes" where
  "diff_relative_paths target base =
     (case skip_common (components target) (components base) of
        (target_components, base_components) \<Rightarrow>
          fold push_component target_components (fold (\<lambda>_. push_component ParentDir) base_components []))"

definition rewriter_new :: "(bytes \<Rightarrow> bytes option) \<Rightarrow> bytes \<Rightarrow> bytes \<Rightarrow> path_transform" where
  "rewriter_new canonicalize repo_root cwd =
     (let repo_root = (case canonicalize repo_root of Some p \<Rightarrow> p | None \<Rightarrow> repo_root);
          cwd = (case canonicalize cwd of Some p \<Rightarrow> p | None \<Rightarrow> cwd)
      in if components cwd = components repo_root then Identity_Path
         else case strip_prefix repo_root cwd of
             Some rel \<Rightarrow> Relative_To rel
           | None \<Rightarrow> Absolute_Path repo_root)"

definition rewrite_path :: "path_transform \<Rightarrow> text_utf8 \<Rightarrow> text_utf8" where
  "rewrite_path transform repo_relative_path =
     (case transform of
        Identity_Path \<Rightarrow> repo_relative_path
      | Relative_To cwd_from_root \<Rightarrow> from_utf8_lossy (diff_relative_paths repo_relative_path cwd_from_root)
      | Absolute_Path repo_root \<Rightarrow> from_utf8_lossy (path_join repo_root repo_relative_path))"

section \<open>The printed path leads to the file\<close>

text \<open>Walking along a path from a directory, without symbolic links.\<close>

fun walk_component :: "component \<Rightarrow> component list \<Rightarrow> component list" where
  "walk_component ParentDir here = butlast here"
| "walk_component CurDir here = here"
| "walk_component RootDir here = [RootDir]"
| "walk_component (Normal n) here = here @ [Normal n]"

abbreviation resolve :: "component list \<Rightarrow> component list \<Rightarrow> component list" where
  "resolve here path \<equiv> fold walk_component path here"

definition plain_component :: "component \<Rightarrow> bool" where
  "plain_component c \<longleftrightarrow> (case c of
     Normal n \<Rightarrow> n \<noteq> [] \<and> n \<noteq> ''.'' \<and> n \<noteq> ''..'' \<and> CHR ''/'' \<notin> set n | ParentDir \<Rightarrow> True | _ \<Rightarrow> False)"

lemma plain_component_str:
  assumes "plain_component c"
  shows "\<not> blank_part (component_str c)" "CHR ''/'' \<notin> set (component_str c)" "component_of (component_str c) = c"
    "\<not> is_absolute (component_str c)" "component_str c \<noteq> []"
  using assms
  by (cases c; auto simp: plain_component_def component_of_def is_absolute_def dest: hd_in_set)+

lemma components_push:
  assumes "plain_component c"
  shows "components (push_component c r) = components r @ [c]"
proof -
  note str = plain_component_str [OF assms]
  have one: "components (component_str c) = [c]"
    using components_relative [OF split_on_no_sep [OF str(2)]] str by simp
  show ?thesis
  proof (cases "r = []")
    case True
    then show ?thesis using one str(4) by (simp add: push_component_def path_join_def components_def)
  next
    case False
    have split: "split_on (CHR ''/'') (r @ CHR ''/'' # component_str c) = split_on (CHR ''/'') r @ [component_str c]"
      by (simp add: split_on_append split_on_no_sep [OF str(2)])
    have join: "components (r @ CHR ''/'' # component_str c) = components r @ [c]"
      using False str unfolding components_def split Let_def by (auto simp: hd_append)
    show ?thesis
    proof (cases "last r = CHR ''/''")
      case True
      with False obtain q where q: "r = q @ [CHR ''/'']" by (metis append_butlast_last_id)
      have "split_on (CHR ''/'') (q @ CHR ''/'' # component_str c) = split_on (CHR ''/'') q @ [component_str c]"
        "split_on (CHR ''/'') (q @ [CHR ''/'']) = split_on (CHR ''/'') q @ [[]]"
        using split_on_append [of "CHR ''/''" q "[]"] by (simp_all add: split_on_append split_on_no_sep [OF str(2)])
      then have "components (q @ CHR ''/'' # component_str c) = components (q @ [CHR ''/'']) @ [c]"
        using str by (auto simp: components_def Let_def hd_append)
      with True str show ?thesis by (simp add: push_component_def path_join_def q)
    next
      case False
      with join str \<open>r \<noteq> []\<close> show ?thesis by (simp add: push_component_def path_join_def)
    qed
  qed
qed

lemma components_fold_push:
  "list_all plain_component cs \<Longrightarrow> components (fold push_component cs r) = components r @ cs"
  by (induction cs arbitrary: r) (simp_all add: components_push)

lemma fold_parents: "fold (\<lambda>_. push_component ParentDir) bs = fold push_component (replicate (length bs) ParentDir)"
  by (induction bs) simp_all

lemma skip_common_spec:
  "skip_common ts bs = (t, b) \<Longrightarrow> \<exists>c. ts = c @ t \<and> bs = c @ b"
proof (induction ts bs arbitrary: t b rule: skip_common.induct)
  case (1 x ts y bs)
  then show ?case by (cases "x = y") (auto intro: exI [of _ "x # c" for c])
qed auto

lemma resolve_parents: "length b \<le> length here \<Longrightarrow> resolve here (replicate (length b) ParentDir) = take (length here - length b) here"
proof (induction b arbitrary: here)
  case (Cons x b)
  have "resolve (butlast here) (replicate (length b) ParentDir) = take (length (butlast here) - length b) (butlast here)"
    by (rule Cons.IH) (use Cons.prems in simp)
  also have "\<dots> = take (length here - length (x # b)) here"
    using Cons.prems by (simp add: butlast_conv_take)
  finally show ?case by simp
qed simp

lemma resolve_normals: "list_all (\<lambda>c. \<exists>n. c = Normal n) cs \<Longrightarrow> resolve here cs = here @ cs"
  by (induction cs arbitrary: here) auto

text \<open>
  For a file and a directory of the repository, both without dots in their paths, walking the relative
  path from the directory ends at the file.
\<close>

lemma diff_relative_paths_leads:
  assumes "list_all (\<lambda>c. plain_component c \<and> (\<exists>n. c = Normal n)) (components target)"
    and "list_all (\<lambda>c. plain_component c \<and> (\<exists>n. c = Normal n)) (components base)"
  shows "resolve (root @ components base) (components (diff_relative_paths target base)) = root @ components target"
proof -
  obtain t b where skip: "skip_common (components target) (components base) = (t, b)" by fastforce
  then obtain c where c: "components target = c @ t" "components base = c @ b" using skip_common_spec by blast
  have t: "list_all plain_component t" "list_all (\<lambda>c. \<exists>n. c = Normal n) t"
    using assms(1) unfolding c by (simp_all add: list_all_iff)
  have "list_all plain_component (replicate (length b) ParentDir @ t)"
    using t(1) by (auto simp: list_all_iff plain_component_def)
  then have "components (fold push_component (replicate (length b) ParentDir @ t) []) = replicate (length b) ParentDir @ t"
    using components_fold_push [of "replicate (length b) ParentDir @ t" "[]"] by (simp add: components_def)
  then have "components (diff_relative_paths target base) = replicate (length b) ParentDir @ t"
    by (simp add: diff_relative_paths_def skip fold_parents)
  with resolve_parents [of b "root @ c @ b"] resolve_normals [OF t(2)] show ?thesis
    by (simp add: c)
qed

end
