(* ===== verification/Mcp_Search.thy ===== *)
theory Mcp_Search
  imports Query_Parse Index_Correct
begin

text \<open>
  The part of the MCP server (\<open>ferret-cli/src/mcp/server.rs\<close>) that searches the index itself: the
  query text built from the parameters of a code search, and the file search, which lists the live
  files of the newest version of each path. The glob crate is a parameter. Shown: the file search lists
  exactly the live paths that match, each once, in order, and pages them.
\<close>

section \<open>The query of a code search\<close>

fun join_spaces :: "text_utf8 list \<Rightarrow> text_utf8" where
  "join_spaces [] = []"
| "join_spaces [p] = p"
| "join_spaces (p # ps) = p @ '' '' @ join_spaces ps"

definition build_query_string :: "text_utf8 \<Rightarrow> text_utf8 option \<Rightarrow> text_utf8 option \<Rightarrow> bool \<Rightarrow> text_utf8" where
  "build_query_string query path language case_sensitive =
     join_spaces
       ((case path of Some p \<Rightarrow> [''path:'' @ p] | None \<Rightarrow> [])
        @ (case language of Some lang \<Rightarrow> [''lang:'' @ lang] | None \<Rightarrow> [])
        @ [if case_sensitive then ''case:yes '' @ query else query])"

text \<open>
  The modifier reaches one term only: in a case-sensitive search for two words the second is matched
  without regard to case.
\<close>

lemma case_sensitive_first_word:
  "parse_query v (build_query_string ''Foo Bar'' None None True)
     = Inr (Q_And [Q_Literal \<lparr>lq_text = ''Foo'', lq_case_sensitive = True\<rparr>,
                   Q_Literal \<lparr>lq_text = ''Bar'', lq_case_sensitive = False\<rparr>])"
  by code_simp

section \<open>The file search\<close>

record file_list_entry =
  fl_path :: text_utf8
  fl_language :: language
  fl_size_bytes :: u32

definition list_entry :: "file_metadata \<Rightarrow> file_list_entry" where
  "list_entry meta = \<lparr>fl_path = fm_path meta, fl_language = fm_language meta, fl_size_bytes = fm_size_bytes meta\<rparr>"

text \<open>One entry of a segment: tombstoned files and paths of newer segments are skipped.\<close>

definition path_matches :: "(text_utf8 \<Rightarrow> bool) option \<Rightarrow> text_utf8 \<Rightarrow> text_utf8 \<Rightarrow> bool" where
  "path_matches glob_pattern query p =
     (case glob_pattern of
        Some matches \<Rightarrow> matches p
      | None \<Rightarrow> find_sub (map to_ascii_lowercase p) (map to_ascii_lowercase query) \<noteq> None)"

definition list_file ::
  "language option \<Rightarrow> (text_utf8 \<Rightarrow> bool) \<Rightarrow> tombstone_set \<Rightarrow> file_metadata \<Rightarrow>
     text_utf8 list \<times> file_list_entry list \<Rightarrow> text_utf8 list \<times> file_list_entry list" where
  "list_file language_filter matches tombs meta = (\<lambda>(seen_paths, all_matches).
     if ts_contains tombs (fm_file_id meta) then (seen_paths, all_matches)
     else if fm_path meta \<in> set seen_paths then (seen_paths, all_matches)
     else if (case language_filter of Some lang \<Rightarrow> fm_language meta \<noteq> lang | None \<Rightarrow> False)
     then (fm_path meta # seen_paths, all_matches)
     else (fm_path meta # seen_paths, if matches (fm_path meta) then all_matches @ [list_entry meta] else all_matches))"

text \<open>Entries that cannot be read are skipped; a slice out of range panics.\<close>

fun list_entries ::
  "language option \<Rightarrow> (text_utf8 \<Rightarrow> bool) \<Rightarrow> tombstone_set \<Rightarrow> file_metadata result list \<Rightarrow>
     text_utf8 list \<times> file_list_entry list \<Rightarrow> (text_utf8 list \<times> file_list_entry list) result" where
  "list_entries lang matches tombs [] acc = Inr acc"
| "list_entries lang matches tombs (Inl Panic # rs) acc = panic"
| "list_entries lang matches tombs (Inl (Err e) # rs) acc = list_entries lang matches tombs rs acc"
| "list_entries lang matches tombs (Inr meta # rs) acc =
     list_entries lang matches tombs rs (list_file lang matches tombs meta acc)"

fun list_segments ::
  "language option \<Rightarrow> (text_utf8 \<Rightarrow> bool) \<Rightarrow> segment list \<Rightarrow> text_utf8 list \<times> file_list_entry list \<Rightarrow>
     (text_utf8 list \<times> file_list_entry list) result" where
  "list_segments lang matches [] acc = Inr acc"
| "list_segments lang matches (s # ss) acc =
     obind (list_entries lang matches (tombstones_or_default s) (iter_all (sg_metadata_reader s)) acc)
       (list_segments lang matches ss)"

text \<open>
  The total and the page. A query with a glob character must compile to a pattern; the language was
  checked by the caller.
\<close>

definition search_files_direct ::
  "(text_utf8 \<Rightarrow> (text_utf8 \<Rightarrow> bool) option) \<Rightarrow> segment list \<Rightarrow> text_utf8 \<Rightarrow> language option \<Rightarrow> nat \<Rightarrow> nat \<Rightarrow>
     (nat \<times> file_list_entry list) option result" where
  "search_files_direct new_pattern snapshot query language_filter max_results offset =
     (let is_glob = CHR ''*'' \<in> set query \<or> CHR ''?'' \<in> set query \<or> CHR ''['' \<in> set query
      in if is_glob \<and> new_pattern query = None then Inr None
         else
           let matches = path_matches (if is_glob then new_pattern query else None) query
           in obind (list_segments language_filter matches (rev snapshot) ([], [])) (\<lambda>(_, all_matches).
                let all_matches = sort_key fl_path all_matches
                in Inr (Some (length all_matches, take max_results (drop offset all_matches)))))"

section \<open>What it lists\<close>

text \<open>The live entries in the order of the loop, and of each path the first.\<close>

definition live_entry :: "tombstone_set \<Rightarrow> file_metadata result \<Rightarrow> file_metadata option" where
  "live_entry tombs r =
     (case r of
        Inr meta \<Rightarrow> if ts_contains tombs (fm_file_id meta) then None else Some meta
      | Inl _ \<Rightarrow> None)"

definition live_metas :: "segment \<Rightarrow> file_metadata list" where
  "live_metas s = List.map_filter (live_entry (tombstones_or_default s)) (iter_all (sg_metadata_reader s))"

fun first_of_path :: "text_utf8 set \<Rightarrow> file_metadata list \<Rightarrow> file_metadata list" where
  "first_of_path seen [] = []"
| "first_of_path seen (m # ms) =
     (if fm_path m \<in> seen then first_of_path seen ms else m # first_of_path (insert (fm_path m) seen) ms)"

lemma first_of_path_cong_append:
  "first_of_path seen (xs @ ys) = first_of_path seen xs @ first_of_path (seen \<union> fm_path ` set xs) ys"
  by (induction xs arbitrary: seen) (auto simp: insert_absorb)

lemma first_of_path_facts:
  "distinct (map fm_path (first_of_path seen ms))" "fm_path ` set (first_of_path seen ms) = fm_path ` set ms - seen"
  "set (first_of_path seen ms) \<subseteq> set ms"
proof (induction ms arbitrary: seen)
  case (Cons m ms)
  { case 1 show ?case using Cons(1,2) [of "insert (fm_path m) seen"] Cons(1) [of seen] by auto }
  { case 2 show ?case using Cons(2) [of "insert (fm_path m) seen"] Cons(2) [of seen] by auto }
  { case 3 show ?case using Cons(3) [of "insert (fm_path m) seen"] Cons(3) [of seen] by auto }
qed simp_all

definition wanted_meta :: "language option \<Rightarrow> (text_utf8 \<Rightarrow> bool) \<Rightarrow> file_metadata \<Rightarrow> bool" where
  "wanted_meta lang matches m \<longleftrightarrow> (\<forall>l. lang = Some l \<longrightarrow> fm_language m = l) \<and> matches (fm_path m)"

text \<open>The loops over entries without a slice out of range.\<close>

abbreviation listed :: "language option \<Rightarrow> (text_utf8 \<Rightarrow> bool) \<Rightarrow> file_metadata list \<Rightarrow> file_list_entry list" where
  "listed lang matches ms \<equiv> map list_entry (filter (wanted_meta lang matches) ms)"

lemma list_entries_spec:
  assumes "Inl Panic \<notin> set rs"
  shows "\<exists>seen'. list_entries lang matches tombs rs (seen, found) =
      Inr (seen', found @ listed lang matches (first_of_path (set seen) (List.map_filter (live_entry tombs) rs))) \<and>
    set seen' = set seen \<union> fm_path ` set (List.map_filter (live_entry tombs) rs)"
  using assms
proof (induction lang matches tombs rs "(seen, found)" arbitrary: seen found rule: list_entries.induct)
  case (4 lang matches tombs meta rs)
  obtain seen1 found1 where one: "list_file lang matches tombs meta (seen, found) = (seen1, found1)" by fastforce
  have "Inl Panic \<notin> set rs" using 4(2) by simp
  with 4(1) [OF one] one show ?case
    by (auto simp: List.map_filter_simps live_entry_def list_file_def wanted_meta_def insert_absorb split: if_splits option.splits)
qed (simp_all add: List.map_filter_simps live_entry_def)

lemma list_segments_spec:
  assumes "\<forall>s \<in> set ss. Inl Panic \<notin> set (iter_all (sg_metadata_reader s))"
  shows "\<exists>seen'. list_segments lang matches ss (seen, found) =
    Inr (seen', found @ listed lang matches (first_of_path (set seen) (concat (map live_metas ss))))"
  using assms
proof (induction ss arbitrary: seen found)
  case (Cons s ss)
  obtain seen1 where seg: "list_entries lang matches (tombstones_or_default s) (iter_all (sg_metadata_reader s)) (seen, found) =
      Inr (seen1, found @ listed lang matches (first_of_path (set seen) (live_metas s)))"
    and seen1: "set seen1 = set seen \<union> fm_path ` set (live_metas s)"
    using list_entries_spec [of "iter_all (sg_metadata_reader s)" lang matches "tombstones_or_default s" seen found]
      Cons.prems unfolding live_metas_def by auto
  with Cons.IH [of seen1 "found @ listed lang matches (first_of_path (set seen) (live_metas s))"] Cons.prems
  show ?case by (simp add: first_of_path_cong_append)
qed simp

text \<open>The live entries of a segment of a well-formed index are those of its live files.\<close>

lemma live_metas_ok:
  assumes "segment_ok env m s"
  shows "Inl Panic \<notin> set (iter_all (sg_metadata_reader s))"
    "map (\<lambda>e. (fm_path e, fm_language e)) (live_metas s) =
       map (\<lambda>f. (in_path f, language_from_path (in_path f))) (live_files (be_zstd (me_build env)) s)"
proof -
  obtain F ps metas where over: "segment_over (me_build env) (me_read_varint env) s F ps metas" and inputs: "inputs_ok F"
    using assms by (auto simp: segment_ok_def holds_files_def fits_def)
  have len: "length metas = length F" and iter: "iter_all (sg_metadata_reader s) = map Inr metas"
    using over by (simp_all add: segment_over_def)
  show "Inl Panic \<notin> set (iter_all (sg_metadata_reader s))" unfolding iter by auto
  have "live_entry (tombstones_or_default s) (iter_all (sg_metadata_reader s) ! i) = (if \<not> dead s i then Some (metas ! i) else None)"
    if "i < length (iter_all (sg_metadata_reader s))" for i
    using that segment_over_file(2) [OF over inputs, of i] by (simp add: iter len live_entry_def dead_def)
  then have "live_metas s = map (nth metas) (filter (\<lambda>i. \<not> dead s i) [0..<length (iter_all (sg_metadata_reader s))])"
    unfolding live_metas_def by (intro map_filter_upt) simp
  then show "map (\<lambda>e. (fm_path e, fm_language e)) (live_metas s) =
      map (\<lambda>f. (in_path f, language_from_path (in_path f))) (live_files (be_zstd (me_build env)) s)"
    unfolding live_files_over [OF over inputs] using segment_over_metas(1,2) [OF over inputs]
    by (simp add: iter len)
qed

lemma all_live_metas:
  assumes "manager_ok env m"
  shows "(\<lambda>e. (fm_path e, fm_language e)) ` set (concat (map live_metas (rev (mg_snapshot m)))) =
    (\<lambda>p. (p, language_from_path p)) ` in_path ` set (index_view env m)"
proof -
  have "(\<lambda>e. (fm_path e, fm_language e)) ` set (live_metas s) =
      (\<lambda>p. (p, language_from_path p)) ` in_path ` set (live_files (be_zstd (me_build env)) s)"
    if "s \<in> set (mg_snapshot m)" for s
    using arg_cong [where f = set, OF live_metas_ok(2) [OF manager_okD(1) [OF assms that]]] by (simp add: image_image)
  then show ?thesis by (simp add: index_view_def image_UN)
qed

lemma sorted_keys_of_distinct:
  fixes k :: "'a \<Rightarrow> 'k::linorder"
  shows "distinct (map k xs) \<Longrightarrow> sorted_wrt (<) (map k (sort_key k xs))"
  by (simp add: strict_sorted_iff distinct_map)

text \<open>
  C19. The file search over a well-formed index lists every path of a live file that matches the glob or
  contains the query and whose language passes the filter, each once and in ascending order, with the
  number of them, and cuts out the page that was asked for; a glob that does not compile is the only
  error.
\<close>

theorem file_search_lists:
  assumes "manager_ok env m"
  defines "is_glob \<equiv> \<lambda>q :: text_utf8. CHR ''*'' \<in> set q \<or> CHR ''?'' \<in> set q \<or> CHR ''['' \<in> set q"
  defines "matches \<equiv> \<lambda>new_pattern q. path_matches (if is_glob q then new_pattern q else None) q"
  shows "if is_glob query \<and> new_pattern query = None
    then search_files_direct new_pattern (mg_snapshot m) query lang max_results offset = Inr None
    else \<exists>entries. search_files_direct new_pattern (mg_snapshot m) query lang max_results offset =
        Inr (Some (length entries, take max_results (drop offset entries))) \<and>
      sorted_wrt (<) (map fl_path entries) \<and>
      set (map (\<lambda>e. (fl_path e, fl_language e)) entries) =
        {(p, language_from_path p) | p. p \<in> in_path ` set (index_view env m) \<and> matches new_pattern query p \<and>
           lang \<in> {None, Some (language_from_path p)}}"
proof (cases "is_glob query \<and> new_pattern query = None")
  case True
  then show ?thesis by (simp add: search_files_direct_def is_glob_def Let_def)
next
  case False
  let ?match = "matches new_pattern query" and ?ms = "concat (map live_metas (rev (mg_snapshot m)))"
  let ?found = "listed lang ?match (first_of_path {} ?ms)"
  have "\<forall>s \<in> set (rev (mg_snapshot m)). Inl Panic \<notin> set (iter_all (sg_metadata_reader s))"
    using live_metas_ok(1) [OF manager_okD(1) [OF assms(1)]] by simp
  from list_segments_spec [OF this, of lang ?match "[]" "[]"]
  have run: "search_files_direct new_pattern (mg_snapshot m) query lang max_results offset =
      Inr (Some (length (sort_key fl_path ?found), take max_results (drop offset (sort_key fl_path ?found))))"
    using False by (auto simp: search_files_direct_def is_glob_def matches_def Let_def)
  note first = first_of_path_facts [of "{}" ?ms]
  have "map fl_path ?found = map fm_path (filter (wanted_meta lang ?match) (first_of_path {} ?ms))"
    by (simp add: list_entry_def)
  then have "distinct (map fl_path ?found)"
    using distinct_map_filter [OF first(1), of "wanted_meta lang ?match"] by (simp only:)
  then have "sorted_wrt (<) (map fl_path (sort_key fl_path ?found))"
    by (rule sorted_keys_of_distinct)
  moreover have "set (map (\<lambda>e. (fl_path e, fl_language e)) (sort_key fl_path ?found)) =
      {(p, language_from_path p) | p. p \<in> in_path ` set (index_view env m) \<and> ?match p \<and> lang \<in> {None, Some (language_from_path p)}}"
  proof -
    let ?pl = "\<lambda>e. (fm_path e, fm_language e)"
    have all: "?pl ` set ?ms = (\<lambda>p. (p, language_from_path p)) ` in_path ` set (index_view env m)"
      by (rule all_live_metas [OF assms(1)])
    then have lang: "e \<in> set ?ms \<Longrightarrow> fm_language e = language_from_path (fm_path e)" for e by blast
    have "fm_path ` set ?ms = fst ` ?pl ` set ?ms" by (simp only: image_image fst_conv)
    also have "\<dots> = in_path ` set (index_view env m)" unfolding all by (simp only: image_image fst_conv)
    finally have paths: "fm_path ` set (first_of_path {} ?ms) = in_path ` set (index_view env m)"
      using first(2) by simp
    have sub: "fm_language e = language_from_path (fm_path e)" if "e \<in> set (first_of_path {} ?ms)" for e
      using lang first(3) that by blast
    have "set (map (\<lambda>e. (fl_path e, fl_language e)) (sort_key fl_path ?found)) =
        ?pl ` {e \<in> set (first_of_path {} ?ms). wanted_meta lang ?match e}"
      by (simp add: image_image list_entry_def)
    also have "\<dots> = {(p, language_from_path p) | p. p \<in> fm_path ` set (first_of_path {} ?ms) \<and> ?match p \<and>
        lang \<in> {None, Some (language_from_path p)}}"
      using sub by (cases lang) (auto simp: wanted_meta_def image_iff)
    finally show ?thesis unfolding paths .
  qed
  ultimately show ?thesis unfolding if_not_P [OF False] using run by blast
qed

theorem file_search_lists_witness:
  "\<exists>m entries. index_view sample_manager_env m = sample_inputs \<and>
     search_files_direct (\<lambda>_. None) (mg_snapshot m) ''B'' None 10 0 = Inr (Some (length entries, take 10 entries)) \<and>
     map fl_path entries = [''b.py'']"
proof -
  obtain m where m: "manager_ok sample_manager_env m" "index_view sample_manager_env m = sample_inputs"
    using sample_index by blast
  have glob: "\<not> (CHR ''*'' \<in> set ''B'' \<or> CHR ''?'' \<in> set ''B'' \<or> CHR ''['' \<in> set ''B'')" by simp
  have hits: "path_matches None ''B'' ''b.py''" "\<not> path_matches None ''B'' ''a.rs''" by code_simp+
  have paths: "in_path ` set sample_inputs = {''a.rs'', ''b.py''}" by (simp add: sample_inputs_def)
  obtain entries where run: "search_files_direct (\<lambda>_. None) (mg_snapshot m) ''B'' None 10 0 = Inr (Some (length entries, take 10 (drop 0 entries)))"
    and sorted: "sorted_wrt (<) (map fl_path entries)"
    and found: "set (map (\<lambda>e. (fl_path e, fl_language e)) entries) = {(p, language_from_path p) | p.
      p \<in> {''a.rs'', ''b.py''} \<and> path_matches None ''B'' p \<and> None \<in> {None, Some (language_from_path p)}}"
    using file_search_lists [OF m(1), of "''B''" "\<lambda>_. None" None 10 0] glob unfolding m(2) paths
    by (simp only: simp_thms if_False) blast
  have "set (map fl_path entries) = fst ` set (map (\<lambda>e. (fl_path e, fl_language e)) entries)" by (simp add: image_image)
  also have "\<dots> = {''b.py''}" unfolding found using hits by (force simp: image_iff)
  finally have "set (map fl_path entries) = set [''b.py'']" by simp
  then have "map fl_path entries = [''b.py'']"
    using sorted sorted_distinct_set_unique [of "map fl_path entries" "[''b.py'']"] by (simp add: strict_sorted_iff)
  with m(2) run [unfolded drop_0] show ?thesis by (intro exI conjI)
qed

end
