(* ===== verification/Daemon_Wire.thy ===== *)
theory Daemon_Wire
  imports Paths Utf8
begin

text \<open>
  The frames in which the daemon answers (\<open>ferret-daemon/src/wire.rs\<close>: a tag byte, a length and the
  payload) and the loop of the client that collects an answer (\<open>send_json_request\<close> of
  \<open>ferret-daemon/src/client.rs\<close>). A stream is the bytes that are still to come before it closes. Shown:
  the frames of any answers are read back one after the other, a frame that is cut off is never read as
  an answer, and the client collects the payloads up to the summary.
\<close>

section \<open>Frames\<close>

datatype daemon_response =
  Resp_Line text_utf8
| Resp_Done u64 u64 bool
| Resp_Error text_utf8
| Resp_Pong
| Resp_Progress text_utf8
| Resp_Json text_utf8

datatype io_error = Invalid_Input | Invalid_Data | Unexpected_Eof | Other_Error text_utf8

type_synonym 'a io = "io_error + 'a"

definition TAG_LINE :: u8 where "TAG_LINE = CHR 0x01"
definition TAG_DONE :: u8 where "TAG_DONE = CHR 0x02"
definition TAG_ERROR :: u8 where "TAG_ERROR = CHR 0x03"
definition TAG_PONG :: u8 where "TAG_PONG = CHR 0x04"
definition TAG_PROGRESS :: u8 where "TAG_PROGRESS = CHR 0x05"
definition TAG_JSON :: u8 where "TAG_JSON = CHR 0x06"

lemmas tag_defs = TAG_LINE_def TAG_DONE_def TAG_ERROR_def TAG_PONG_def TAG_PROGRESS_def TAG_JSON_def

definition DONE_PAYLOAD_LEN :: u32 where "DONE_PAYLOAD_LEN = 17"
definition MAX_STRING_PAYLOAD :: u32 where "MAX_STRING_PAYLOAD = 67108864"

definition write_string_frame :: "u8 \<Rightarrow> text_utf8 \<Rightarrow> bytes io" where
  "write_string_frame tag payload =
     (if length payload > unat MAX_STRING_PAYLOAD then Inl Invalid_Input
      else Inr (tag # u32_le (of_nat (length payload)) @ payload))"

text \<open>The synchronous writer of a line repeats the steps.\<close>

definition encode_line_frame :: "text_utf8 \<Rightarrow> bytes io" where
  "encode_line_frame payload =
     (if length payload > unat MAX_STRING_PAYLOAD then Inl Invalid_Input
      else Inr (TAG_LINE # u32_le (of_nat (length payload)) @ payload))"

fun write_response :: "daemon_response \<Rightarrow> bytes io" where
  "write_response (Resp_Line content) = write_string_frame TAG_LINE content"
| "write_response (Resp_Done matched duration_ms stale) =
     Inr (TAG_DONE # u32_le DONE_PAYLOAD_LEN @ u64_le matched @ u64_le duration_ms @ [if stale then CHR 0x01 else CHR 0x00])"
| "write_response (Resp_Error message) = write_string_frame TAG_ERROR message"
| "write_response Resp_Pong = Inr [TAG_PONG, CHR 0x00, CHR 0x00, CHR 0x00, CHR 0x00]"
| "write_response (Resp_Progress message) = write_string_frame TAG_PROGRESS message"
| "write_response (Resp_Json payload) = write_string_frame TAG_JSON payload"

text \<open>Reading takes bytes off the stream and fails at its end.\<close>

definition read_exact :: "nat \<Rightarrow> bytes \<Rightarrow> (bytes \<times> bytes) io" where
  "read_exact n s = (if length s < n then Inl Unexpected_Eof else Inr (take n s, drop n s))"

fun io_bind :: "'a io \<Rightarrow> ('a \<Rightarrow> 'b io) \<Rightarrow> 'b io" where
  "io_bind (Inl e) f = Inl e"
| "io_bind (Inr x) f = f x"

definition read_utf8 :: "u32 \<Rightarrow> bytes \<Rightarrow> (text_utf8 \<times> bytes) io" where
  "read_utf8 len s =
     (if len > MAX_STRING_PAYLOAD then Inl Invalid_Data
      else io_bind (read_exact (unat len) s) (\<lambda>(buf, s).
        if utf8_valid buf then Inr (buf, s) else Inl Invalid_Data))"

definition read_response :: "bytes \<Rightarrow> (daemon_response \<times> bytes) io" where
  "read_response s =
     io_bind (read_exact 1 s) (\<lambda>(tag, s).
     io_bind (read_exact 4 s) (\<lambda>(len, s).
       let tag = hd tag; len = le_u32 len
       in if tag = TAG_LINE then io_bind (read_utf8 len s) (\<lambda>(content, s). Inr (Resp_Line content, s))
          else if tag = TAG_DONE then
            (if len \<noteq> DONE_PAYLOAD_LEN then Inl Invalid_Data
             else io_bind (read_exact 8 s) (\<lambda>(matched, s).
                  io_bind (read_exact 8 s) (\<lambda>(duration_ms, s).
                  io_bind (read_exact 1 s) (\<lambda>(stale, s).
                    Inr (Resp_Done (le_u64 matched) (le_u64 duration_ms) (hd stale \<noteq> CHR 0x00), s)))))
          else if tag = TAG_ERROR then io_bind (read_utf8 len s) (\<lambda>(message, s). Inr (Resp_Error message, s))
          else if tag = TAG_PONG then (if len \<noteq> 0 then Inl Invalid_Data else Inr (Resp_Pong, s))
          else if tag = TAG_PROGRESS then io_bind (read_utf8 len s) (\<lambda>(message, s). Inr (Resp_Progress message, s))
          else if tag = TAG_JSON then io_bind (read_utf8 len s) (\<lambda>(payload, s). Inr (Resp_Json payload, s))
          else Inl Invalid_Data))"

lemma read_exact_rest: "read_exact n s = Inr (x, r) \<Longrightarrow> length s = n + length r"
  by (auto simp: read_exact_def split: if_splits)

lemma io_bind_Inr: "io_bind x f = Inr y \<longleftrightarrow> (\<exists>z. x = Inr z \<and> f z = Inr y)"
  by (cases x) auto

lemma read_utf8_rest: "read_utf8 len s = Inr (x, r) \<Longrightarrow> length r \<le> length s"
  by (auto simp: read_utf8_def io_bind_Inr dest!: read_exact_rest split: if_splits)

lemma read_response_rest: "read_response s = Inr (x, r) \<Longrightarrow> length r < length s"
  by (auto simp: read_response_def io_bind_Inr Let_def dest!: read_utf8_rest read_exact_rest split: if_splits)

section \<open>The client\<close>

record json_result =
  jr_payloads :: "text_utf8 list"
  jr_total :: u64
  jr_duration_ms :: u64
  jr_stale :: bool

function collect_json :: "text_utf8 list \<Rightarrow> bytes \<Rightarrow> json_result io" where
  "collect_json payloads s =
     (case read_response s of
        Inl e \<Rightarrow> Inl e
      | Inr (Resp_Json payload, s) \<Rightarrow> collect_json (payloads @ [payload]) s
      | Inr (Resp_Done matched duration_ms stale, s) \<Rightarrow>
          Inr \<lparr>jr_payloads = payloads, jr_total = matched, jr_duration_ms = duration_ms, jr_stale = stale\<rparr>
      | Inr (Resp_Error message, s) \<Rightarrow> Inl (Other_Error message)
      | Inr (_, s) \<Rightarrow> collect_json payloads s)"
  by pat_completeness auto
termination by (relation "measure (\<lambda>(payloads, s). length s)") (auto dest: read_response_rest)

declare collect_json.simps [simp del]

text \<open>\<open>send_json_request\<close> from the first answer on, when the request has been written.\<close>

definition send_json_request :: "bytes \<Rightarrow> json_result io" where
  "send_json_request answer = collect_json [] answer"

section \<open>Frames are read back\<close>

text \<open>The answers whose text is not too long and is UTF-8, as every \<open>String\<close> is.\<close>

fun response_text :: "daemon_response \<Rightarrow> text_utf8" where
  "response_text (Resp_Line t) = t"
| "response_text (Resp_Error t) = t"
| "response_text (Resp_Progress t) = t"
| "response_text (Resp_Json t) = t"
| "response_text _ = []"

definition response_ok :: "daemon_response \<Rightarrow> bool" where
  "response_ok r \<longleftrightarrow> utf8_valid (response_text r) \<and> length (response_text r) \<le> 67108864"

lemma read_exact_append [simp]: "length x = n \<Longrightarrow> read_exact n (x @ s) = Inr (x, s)"
  by (simp add: read_exact_def)

lemma read_exact_byte [simp]: "read_exact 1 (b # s) = Inr ([b], s)" "read_exact (Suc 0) (b # s) = Inr ([b], s)"
  by (simp_all add: read_exact_def)

lemma read_utf8_append:
  assumes "utf8_valid t" and "length t \<le> 67108864"
  shows "read_utf8 (of_nat (length t)) (t @ s) = Inr (t, s)"
proof -
  have "unat (of_nat (length t) :: u32) = length t" using assms(2) by (simp add: unsigned_of_nat take_bit_nat_eq_self_iff)
  with assms show ?thesis by (simp add: read_utf8_def MAX_STRING_PAYLOAD_def word_less_nat_alt)
qed

lemma write_response_ok:
  assumes "response_ok r"
  shows "\<exists>frame. write_response r = Inr frame \<and> (\<forall>s. read_response (frame @ s) = Inr (r, s))"
proof -
  have zero: "le_u32 [CHR 0x00, CHR 0x00, CHR 0x00, CHR 0x00] = 0" by code_simp
  have four: "read_exact 4 (CHR 0x00 # CHR 0x00 # CHR 0x00 # CHR 0x00 # s) = Inr ([CHR 0x00, CHR 0x00, CHR 0x00, CHR 0x00], s)" for s
    using read_exact_append [of "[CHR 0x00, CHR 0x00, CHR 0x00, CHR 0x00]" 4 s] by simp
  show ?thesis
    using assms
    by (cases r) (simp_all add: response_ok_def write_string_frame_def MAX_STRING_PAYLOAD_def read_response_def
      read_utf8_append tag_defs zero four)
qed

fun write_all_responses :: "daemon_response list \<Rightarrow> bytes io" where
  "write_all_responses [] = Inr []"
| "write_all_responses (r # rs) =
     io_bind (write_response r) (\<lambda>frame. io_bind (write_all_responses rs) (\<lambda>frames. Inr (frame @ frames)))"

text \<open>Reading a stream to its end.\<close>

inductive reads :: "bytes \<Rightarrow> daemon_response list \<Rightarrow> bool" where
  "reads [] []"
| "read_response s = Inr (r, s') \<Longrightarrow> reads s' rs \<Longrightarrow> reads s (r # rs)"

lemma write_all_reads:
  "\<forall>r \<in> set rs. response_ok r \<Longrightarrow> \<exists>s. write_all_responses rs = Inr s \<and> reads s rs"
proof (induction rs)
  case (Cons r rs)
  then obtain s frame where "write_all_responses rs = Inr s" "reads s rs" "write_response r = Inr frame"
    "\<forall>s. read_response (frame @ s) = Inr (r, s)"
    using write_response_ok [of r] by auto
  then show ?case by (auto intro: reads.intros)
qed (auto intro: reads.intros)

text \<open>A frame that is cut off is not read as an answer.\<close>

lemma read_exact_mono: "read_exact n s = Inr (x, r) \<Longrightarrow> read_exact n (s @ t) = Inr (x, r @ t)"
  by (auto simp: read_exact_def split: if_splits)

lemma bind_exact_mono:
  assumes "io_bind (read_exact n s) f = Inr (y, r)"
    and "\<And>x s. f (x, s) = Inr (y, r) \<Longrightarrow> f (x, s @ t) = Inr (y, r @ t)"
  shows "io_bind (read_exact n (s @ t)) f = Inr (y, r @ t)"
  using assms read_exact_mono [of n s _ _ t] by (auto simp: io_bind_Inr)

lemma read_utf8_mono: "read_utf8 n s = Inr (x, r) \<Longrightarrow> read_utf8 n (s @ t) = Inr (x, r @ t)"
  unfolding read_utf8_def
  by (cases "n > MAX_STRING_PAYLOAD") (auto elim!: bind_exact_mono split: if_splits)

lemma bind_utf8_mono:
  "io_bind (read_utf8 n s) (\<lambda>(x, s). Inr (f x, s)) = Inr (y, r) \<Longrightarrow>
     io_bind (read_utf8 n (s @ t)) (\<lambda>(x, s). Inr (f x, s)) = Inr (y, r @ t)"
  using read_utf8_mono [of n s _ _ t] by (auto simp: io_bind_Inr)

lemma read_response_mono:
  assumes "read_response s = Inr (x, r)"
  shows "read_response (s @ t) = Inr (x, r @ t)"
  using assms unfolding read_response_def
proof (elim bind_exact_mono, unfold prod.case, elim bind_exact_mono, unfold prod.case Let_def, goal_cases)
  case (1 tag s len s')
  have done_frame: "io_bind (read_exact 8 (s' @ t)) (\<lambda>(matched, s). io_bind (read_exact 8 s) (\<lambda>(duration_ms, s).
      io_bind (read_exact 1 s) (\<lambda>(stale, s). Inr (Resp_Done (le_u64 matched) (le_u64 duration_ms) (hd stale \<noteq> CHR 0x00), s))))
      = Inr (x, r @ t)"
    if "io_bind (read_exact 8 s') (\<lambda>(matched, s). io_bind (read_exact 8 s) (\<lambda>(duration_ms, s).
      io_bind (read_exact 1 s) (\<lambda>(stale, s). Inr (Resp_Done (le_u64 matched) (le_u64 duration_ms) (hd stale \<noteq> CHR 0x00), s))))
      = Inr (x, r)"
    using that by (elim bind_exact_mono; unfold prod.case)+ simp
  from 1 show ?case
    by (simp only: split: if_splits) (simp_all only: simp_thms if_True if_False tag_defs bind_utf8_mono done_frame sum.inject prod.inject, simp_all)
qed

lemma cut_frame:
  assumes "response_ok r" and "write_response r = Inr (s @ t)" and "t \<noteq> []"
  shows "\<exists>e. read_response s = Inl e"
proof (rule ccontr)
  assume "\<not> ?thesis"
  then obtain x q where "read_response s = Inr (x, q)" by (cases "read_response s") auto
  then have "read_response (s @ t) = Inr (x, q @ t)" by (rule read_response_mono)
  moreover have "read_response (s @ t) = Inr (r, [])"
    using write_response_ok [OF assms(1)] assms(2) by (metis append_Nil2 sum.inject(2))
  ultimately show False using assms(3) by simp
qed

text \<open>The client collects the payloads in order, up to the summary; an error of the daemon is passed on.\<close>

fun json_payload :: "daemon_response \<Rightarrow> text_utf8 option" where
  "json_payload (Resp_Json p) = Some p"
| "json_payload _ = None"

fun ends_answer :: "daemon_response \<Rightarrow> bool" where
  "ends_answer (Resp_Done _ _ _) = True"
| "ends_answer (Resp_Error _) = True"
| "ends_answer _ = False"

lemma collect_reads:
  assumes "reads s (rs @ [final])" and "\<forall>r \<in> set rs. \<not> ends_answer r"
  shows "collect_json ps s =
    (case final of
       Resp_Done matched ms stale \<Rightarrow> Inr \<lparr>jr_payloads = ps @ List.map_filter json_payload rs, jr_total = matched,
         jr_duration_ms = ms, jr_stale = stale\<rparr>
     | Resp_Error message \<Rightarrow> Inl (Other_Error message)
     | _ \<Rightarrow> Inl Unexpected_Eof)"
  using assms
proof (induction rs arbitrary: s ps)
  case Nil
  then have "read_response s = Inr (final, [])" by (auto elim: reads.cases)
  moreover have "collect_json ps [] = Inl Unexpected_Eof" for ps
    by (subst collect_json.simps) (simp add: read_response_def read_exact_def)
  ultimately show ?case
    by (subst collect_json.simps) (simp add: List.map_filter_simps split: daemon_response.splits)
next
  case (Cons r rs)
  then obtain s' where "read_response s = Inr (r, s')" "reads s' (rs @ [final])" by (auto elim: reads.cases)
  with Cons.IH [OF this(2)] Cons.prems(2) show ?case
    by (subst collect_json.simps) (cases r; cases final; simp add: List.map_filter_simps)
qed

text \<open>
  C20. The daemon and its clients agree on the frames: what the daemon writes for any answers is read
  back as the same answers, and a client that sent a request gets the payloads that were written, in
  their order, with the summary, also when lines and progress messages are sent between them; when the
  daemon reports an error instead, the client fails with its message. The hypothesis is that the texts are
  valid UTF-8 of at most 64 MiB.
\<close>

theorem daemon_answer_received:
  assumes "\<forall>r \<in> set (rs @ [final]). response_ok r" and "\<forall>r \<in> set rs. \<not> ends_answer r"
  shows "\<exists>s. write_all_responses (rs @ [final]) = Inr s \<and> reads s (rs @ [final]) \<and>
    send_json_request s =
      (case final of
         Resp_Done matched ms stale \<Rightarrow> Inr \<lparr>jr_payloads = List.map_filter json_payload rs, jr_total = matched,
           jr_duration_ms = ms, jr_stale = stale\<rparr>
       | Resp_Error message \<Rightarrow> Inl (Other_Error message)
       | _ \<Rightarrow> Inl Unexpected_Eof)"
  using write_all_reads [OF assms(1)] collect_reads [OF _ assms(2), of _ final "[]"]
  unfolding send_json_request_def append_Nil by blast

theorem daemon_answer_received_witness:
  "\<exists>s. write_all_responses [Resp_Progress ''p'', Resp_Json ''a'', Resp_Json ''b'', Resp_Done 2 7 True] = Inr s \<and>
     send_json_request s = Inr \<lparr>jr_payloads = [''a'', ''b''], jr_total = 2, jr_duration_ms = 7, jr_stale = True\<rparr>"
proof -
  have valid: "utf8_valid ''p''" "utf8_valid ''a''" "utf8_valid ''b''" "utf8_valid []" by code_simp+
  have "\<forall>r \<in> set ([Resp_Progress ''p'', Resp_Json ''a'', Resp_Json ''b''] @ [Resp_Done 2 7 True]). response_ok r"
    using valid by (simp add: response_ok_def)
  from daemon_answer_received [OF this] show ?thesis by (auto simp: List.map_filter_simps)
qed

end
