(* ===== verification/Spec2Isabelle.thy ===== *)
theory Spec2Isabelle
  imports Query_Parse Search_Exact Multi_Search Index_Correct Catch_Up Symbol_Search Query_Plan Walker Registry
    Path_Rewrite Mcp_Search Daemon_Wire
begin

text \<open>
  A verification development for ferret, a trigram code-search index written in Rust. Paths below are
  relative to \<open>src/ferret-core/src/\<close>.

  How the program works. Files are collected into immutable \<^emph>\<open>segments\<close>. Building a segment
  (\<open>segment.rs\<close>) hashes each file, detects its language, extracts its byte trigrams
  (\<open>trigram.rs\<close>) into posting lists (\<open>posting.rs\<close>), and writes a sorted trigram index
  (\<open>index_writer.rs\<close>, lists coded by \<open>codec.rs\<close>), a metadata table (\<open>metadata.rs\<close>), the
  compressed contents (\<open>content.rs\<close>), optionally highlight tokens (\<open>highlight.rs\<close>), and an empty
  bitmap of deleted files (\<open>tombstone.rs\<close>). A query is parsed (\<open>query.rs\<close>), necessary trigrams
  are extracted from it (\<open>query_trigrams.rs\<close>), the posting lists give candidate files
  (\<open>index_reader.rs\<close>, \<open>intersection.rs\<close>), and every live candidate is decompressed and verified
  against the query (\<open>verify.rs\<close>, \<open>query_match.rs\<close>), in parallel under a shared budget. The
  results of all segments of a snapshot (\<open>index_state.rs\<close>) are merged by path, the newest segment
  winning (\<open>multi_search.rs\<close>). The segment manager (\<open>segment_manager.rs\<close>) owns the directory of
  segments and the published list: it indexes files into new segments, applies changes of the working
  tree by tombstoning old entries and adding a segment with the new versions, merges segments, and loads
  them again; \<open>recovery.rs\<close> cleans up after a crash. At start, \<open>catchup.rs\<close> brings the index up to
  date with the working tree: it asks git for the changes since the commit of the checkpoint
  (\<open>git_diff.rs\<close>, \<open>checkpoint.rs\<close>) or compares the hashes of the walked files (\<open>walker.rs\<close>,
  \<open>hash_diff.rs\<close>), applies them and compacts. From then on the daemon applies what the file watcher (\<open>watcher.rs\<close>)
  and scans by git report (\<open>hybrid_detector.rs\<close>), and compacts in the background. A segment may have a symbol index
  (\<open>symbol_index.rs\<close>) over the definitions that tree-sitter finds (\<open>symbol_extractor.rs\<close>), which
  the symbol search of a snapshot uses.

  Conventions. Bytes are characters, byte strings are lists of them (\<open>bytes\<close>), and a \<open>str\<close> is
  its UTF-8 bytes; machine integers are words of their width and sizes that the code keeps in
  \<open>usize\<close> are \<open>nat\<close>. A fallible operation returns \<open>Inl (Err e)\<close> with an error of \<open>IndexError\<close>,
  \<open>Inl Panic\<close> where the code panics (a slice out of range, an \<open>unwrap\<close> of nothing), or
  \<open>Inr\<close> the value. A file is its bytes: readers take the bytes of the memory map, writers return
  the bytes written. A \<open>HashMap\<close> is an association list or a map, a \<open>HashSet\<close> a list without
  repetitions, and theorems never depend on their order.

  Code outside the repository is a parameter, and what the code relies on is an assumption of a
  locale or a named hypothesis: the varint crate (\<open>varint_codec\<close>, met by the documented LEB128
  format in \<open>Varint_Leb128\<close>), zstd (\<open>zstd_stream\<close>, \<open>block_codec\<close>), the regex crates
  (the records \<open>regex_crate\<close> of \<open>Verify\<close> and \<open>regex_syntax\<close> of \<open>Query_Trigrams\<close>),
  BLAKE3, the tree-sitter highlighter and the clock (fields of the environments of
  \<open>Segment\<close> and \<open>Segment_Search\<close>), the output of the git command, JSON and TOML, the entries
  that the \<open>ignore\<close> crate yields, the events and the ignore matcher of the watcher, the glob crate,
  and the matches of the tree-sitter queries. The relevance score of \<open>ranking.rs\<close> is floating-point
  arithmetic; it is a parameter of any linearly ordered type.
\<close>

section \<open>Where the parts are\<close>

text \<open>
  \<^item> \<open>Prelude\<close>, \<open>Core_Types\<close>, \<open>Paths\<close>, \<open>Utf8\<close>: outcomes, checked slices, little-endian
    integers, the parts of the standard library in use (paths, UTF-8 validity and lossy decoding), the
    identifiers and errors of \<open>types.rs\<close>, \<open>error.rs\<close>, \<open>changes.rs\<close>. \<open>Languages\<close>:
    the language and symbol-kind tables of \<open>types.rs\<close>. Shown: the stored codes and names round-trip,
    the sort key of a trigram is injective and monotone.
  \<^item> \<open>Trigram_Extract\<close>, \<open>Posting\<close>, \<open>Codec\<close>, \<open>Varint_Leb128\<close>: \<open>trigram.rs\<close>,
    \<open>posting.rs\<close>, \<open>codec.rs\<close>. Shown: a file that contains a text has all its trigrams; the
    finished builder holds for each trigram exactly the files with it, sorted; both codecs are
    inverted by their decoders, and decoding arbitrary bytes is bounded and sorted.
  \<^item> \<open>Index_Format\<close>, \<open>Index_Roundtrip\<close>: \<open>index_writer.rs\<close> and \<open>index_reader.rs\<close>. Shown:
    writing fails only for sections of 4 GiB and more; a written index opens and its binary search
    answers every lookup with the builder's list.
  \<^item> \<open>Intersection\<close>: \<open>intersection.rs\<close>. The locale \<open>posting_index\<close> is what candidate
    selection needs of an index, and \<open>written_index\<close> gives it for a written one. Shown: the
    candidates are exactly the files with all trigrams of the query, in both strategies.
  \<^item> \<open>Metadata\<close>: \<open>metadata.rs\<close>, both versions of the format. \<open>Content_Store\<close>,
    \<open>Highlight\<close>: \<open>content.rs\<close>, \<open>highlight.rs\<close>. Shown: each round-trips, also after later
    additions.
  \<^item> \<open>Tombstone\<close>: \<open>tombstone.rs\<close>. \<open>ts_reachable\<close> are the states the operations reach.
    The locale \<open>file_id_set\<close> is the specification as a set. Shown: the bitmap implements it, the
    count is its cardinality, iteration is ascending, the file round-trips.
  \<^item> \<open>Segment\<close>: \<open>segment.rs\<close>. The locale \<open>file_segment\<close> is a segment over a list of
    files. Shown: a built segment opens and gives back what was put in; copy-through compaction
    writes the same bytes as a fresh build.
  \<^item> \<open>Query\<close>, \<open>Query_Parse\<close>: \<open>query.rs\<close>. The recursion of the parser terminates because each
    method advances the position or descends in the grammar (a lexicographic measure), not by fuel.
    Shown: the parser rejects every input or yields a query of the grammar, and inverts the printer on
    \<open>printable\<close> queries. That its slices are at character boundaries is not part of the model.
  \<^item> \<open>Search_Types\<close>, \<open>Line_Index\<close>, \<open>Verify\<close>, \<open>Query_Match\<close>: \<open>search.rs\<close>,
    \<open>verify.rs\<close>, \<open>query_match.rs\<close>. Shown: the newline table is the list of lines; literal
    verification reports exactly the occurrences; context blocks keep all matches and never repeat
    a line; the matcher decides the boolean meaning of a query (\<open>query_sat\<close>) and returns its lines.
    The references are stated over the lines of the text; the theorems that name lines are for valid
    UTF-8, and \<open>invalid_utf8_wrong_line\<close> shows that other files can be given wrong lines.
  \<^item> \<open>Query_Trigrams\<close>: \<open>query_trigrams.rs\<close>. Shown: the extracted trigrams are necessary.
    The theorem excludes the two shapes for which they are not, shown in
    \<open>nested_alternation_lost\<close> and \<open>merge_and_drops_branches\<close>.
  \<^item> \<open>Parallel_Budget\<close>: the \<open>filter_map\<close> closures of the searches under an atomic budget, as
    the step relation \<open>par_step\<close> whose runs are the schedules of the thread pool. Shown: the
    budget is never exceeded and never wasted; every schedule ends; the sequential search is one of
    the schedules. \<open>par_filter_map\<close> runs a given schedule; its runs are those of the relation
    (\<open>par_filter_map_spec\<close>, \<open>every_run_scheduled\<close>).
  \<^item> \<open>Segment_Search\<close>, \<open>Search_Exact\<close>: the searches of one segment in \<open>multi_search.rs\<close>.
    From 64 candidates on they are verified by \<open>par_filter_map\<close>, with the schedule of each segment
    a parameter (\<open>se_schedule\<close>). Shown, by composing the components above: the search by a query
    returns exactly the live files that pass the filters and satisfy the query, as many as the limit
    allows in every schedule, and sequentially the smallest ones; for UTF-8 files without highlights and
    queries outside the two shapes of \<open>Query_Trigrams\<close>.
  \<^item> \<open>Multi_Search\<close>: the batch and streaming searches of \<open>multi_search.rs\<close> and the published
    snapshot of \<open>index_state.rs\<close>. Shown: the merged result is the newest version of every matched
    path in score order, and streaming sends the same files.
  \<^item> \<open>Decimal\<close>, \<open>File_Filter\<close>, \<open>Index_State\<close>: decimal numerals of the standard library,
    \<open>binary.rs\<close>, \<open>index_state.rs\<close>.
  \<^item> \<open>Segment_Manager\<close>: \<open>segment_manager.rs\<close> over a record of the directory, the ID counter and
    the published list. \<open>Index_Lifecycle\<close> defines what the index shows (\<open>index_view\<close>, the live
    files in order) and the invariant (\<open>manager_ok\<close>: every published segment holds its files and can
    be opened again), and proves indexing and compaction against them; \<open>Apply_Tombstones\<close> and
    \<open>Apply_Changes\<close> prove the application of changes, \<open>Index_Progress\<close> when the operations
    succeed, \<open>Recovery\<close> (also \<open>recovery.rs\<close>) restart and crash recovery: recovery returns the
    published segments and, when a crash left other complete segment directories, those too. The
    properties are in \<open>Index_Correct\<close>.
  \<^item> \<open>Git_Changes\<close>: \<open>git_diff.rs\<close> and the de-duplication of \<open>hybrid_detector.rs\<close>. Shown: the
    parsers invert the NUL-delimited format of git, whatever bytes the paths have; the detected changes
    are one event per path with the last kind reported.
  \<^item> \<open>Catch_Up\<close>: \<open>hash_diff.rs\<close>, \<open>checkpoint.rs\<close>, \<open>catchup.rs\<close>. Shown, over the
    invariant and the application of changes above: after a run by hashes the index holds the content of
    the tree at every walked path that should be indexed and nothing at the paths that were not walked,
    and comparing again reports nothing.
  \<^item> \<open>Symbol_Index\<close>: the symbol index of a segment (\<open>symbol_index.rs\<close>) and the records made of
    tree-sitter matches (\<open>symbol_extractor.rs\<close>). Shown: a written index opens, gives every record
    back, and a search by name returns exactly the records whose name contains the query. It uses the
    locale of candidate selection on the index of the names.
  \<^item> \<open>Symbol_Search\<close>: \<open>search_symbols\<close> over a snapshot. Shown: a page of the live matching
    symbols, one per path, name and line, the newest segment winning, in score order.
  \<^item> \<open>Query_Plan\<close>: \<open>query_plan.rs\<close>. Shown: a literal plan that is cut short rules out no file
    that contains the query; two shapes of regular expressions for which the plan is not sound.
  \<^item> \<open>Walker\<close>: the glob matcher, the entry filter and the collection of results of
    \<open>walker.rs\<close>. Shown: the matcher that retries only the last star is exact on texts without a
    star, and where it is not.
  \<^item> \<open>Registry\<close>: \<open>registry.rs\<close>. Shown: names and paths stay unique, and what is found after an
    addition or a removal.
  \<^item> \<open>Live_Updates\<close>: \<open>watcher.rs\<close>, the thread of \<open>hybrid_detector.rs\<close> as the step relation
    \<open>detector_step\<close>, and the loop \<open>run_live_indexing\<close> of \<open>ferret-cli/src/daemon.rs\<close>. Shown: the
    detector sends one event per path and loses nothing while somebody listens; whatever compactions run
    between the batches, the index shows what the batches one after the other make of it. Also shown: the
    watcher reports the files of the index itself, and the loop panics when a compaction is due
    outside a runtime.
  \<^item> \<open>Path_Rewrite\<close>: \<open>ferret-cli/src/paths.rs\<close>. Shown: the printed relative path leads from the
    current directory to the file.
  \<^item> \<open>Mcp_Search\<close>: the query text and the file search of \<open>ferret-cli/src/mcp/server.rs\<close>. Shown:
    over a well-formed index the file search lists exactly the live paths that match.
  \<^item> \<open>Daemon_Wire\<close>: the frames of \<open>ferret-daemon/src/wire.rs\<close> and the client loop of
    \<open>ferret-daemon/src/client.rs\<close>. Shown: answers are received as they were written, and a frame that
    is cut off is never read as an answer.
\<close>

section \<open>Not modelled\<close>

text \<open>
  \<^item> Within the modelled files: opening, mapping, flushing and renaming files (their contents are
    modelled), \<open>serde\<close> and \<open>Debug\<close> forms, floating-point values (\<open>ranking.rs\<close>,
    \<open>tombstone_ratio\<close>). A segment is modelled as without the \<open>symbols\<close> feature: its record holds
    no symbol reader, and the builds do not write the symbol files; a snapshot of the symbol search pairs each segment with its reader. The
    parallel search of several segments is modelled in snapshot order, one of its schedules (the
    theorems about several segments are for searches without a limit, where the order does not matter);
    within a segment every schedule is modelled.
  \<^item> The traversal of the file system with its ignore files (the \<open>ignore\<close> crate), the debouncer of
    the watcher, parsing by tree-sitter and its query texts (\<open>grammar.rs\<close>,
    \<open>tree_sitter_process.rs\<close>), \<open>disk.rs\<close>, and the rest of the command line, daemon, web and MCP
    front ends, which format results, parse JSON and move bytes through sockets. An iteration of the
    detector is one step, and the environment acts between iterations.
\<close>

end
